(* ===== verification/Dl_Prelude.thy ===== *)
theory Dl_Prelude
  imports Main "HOL-Library.Word" "HOL-Library.Monad_Syntax" "HOL-Library.Char_ord"
begin

text \<open>
  Shared vocabulary of the development: the machine types of \<^verbatim>\<open>dl_config.h\<close>, the return codes
  of \<^verbatim>\<open>dl_base.h\<close>, byte literals, the generic list and word lemmas of the component theories
  and the interfaces several components implement (\<open>codec\<close>, \<open>escaper\<close>, \<open>cursor\<close>).

  Convention for partial code. A C function that can run into undefined behaviour (a read or a
  write outside an object, a dereference of \<^verbatim>\<open>NULL\<close>) or that can loop for ever is a function into
  \<open>'a option\<close>: \<open>None\<close> is "undefined behaviour or no return", \<open>Some\<close> is a normal return. Error
  codes the code returns itself (\<^verbatim>\<open>DL_ERROR\<close>, \<^verbatim>\<open>NULL\<close>) are values inside the \<open>Some\<close>.
\<close>

unbundle bit_operations_syntax

named_theorems dl_bits \<open>bit-by-bit comparison of bytes\<close>

section \<open>Machine types and return codes\<close>

type_synonym byte = "8 word"
type_synonym u32 = "32 word"
type_synonym u64 = "64 word"
type_synonym bytes = "byte list"

text \<open>Addresses of the nodes of a linked structure; \<open>None\<close> is \<^verbatim>\<open>NULL\<close>.\<close>

type_synonym addr = nat
type_synonym ptr = "addr option"

datatype rc = DL_OK | DL_ERROR | DL_AGAIN | DL_BUSY | DL_DONE | DL_DECLINED | DL_ABORT

fun rc_value :: "rc \<Rightarrow> int" where
  "rc_value DL_OK = 0"
| "rc_value DL_ERROR = -1"
| "rc_value DL_AGAIN = -2"
| "rc_value DL_BUSY = -3"
| "rc_value DL_DONE = -4"
| "rc_value DL_DECLINED = -5"
| "rc_value DL_ABORT = -6"

lemma rc_value_inject [simp]: "rc_value a = rc_value b \<longleftrightarrow> a = b"
  by (cases a; cases b) simp_all

text \<open>A C string literal as the bytes it holds (without the final NUL).\<close>

definition lit :: "string \<Rightarrow> bytes" where
  "lit s = map of_char s"

lemma length_lit [simp]: "length (lit s) = length s"
  by (simp add: lit_def)

lemma lit_Nil [simp]: "lit [] = []"
  by (simp add: lit_def)

lemma lit_Cons [simp]: "lit (c # s) = of_char c # lit s"
  by (simp add: lit_def)

section \<open>Bytes\<close>

lemma byte_eq_iff [dl_bits]:
  fixes a b :: byte
  shows "a = b \<longleftrightarrow> (bit a 0 = bit b 0) \<and> (bit a 1 = bit b 1) \<and> (bit a 2 = bit b 2)
    \<and> (bit a 3 = bit b 3) \<and> (bit a 4 = bit b 4) \<and> (bit a 5 = bit b 5)
    \<and> (bit a 6 = bit b 6) \<and> (bit a 7 = bit b 7)"
proof
  assume eqs: "(bit a 0 = bit b 0) \<and> (bit a 1 = bit b 1) \<and> (bit a 2 = bit b 2)
    \<and> (bit a 3 = bit b 3) \<and> (bit a 4 = bit b 4) \<and> (bit a 5 = bit b 5)
    \<and> (bit a 6 = bit b 6) \<and> (bit a 7 = bit b 7)"
  show "a = b"
  proof (rule bit_word_eqI)
    fix n assume "n < LENGTH(8)"
    then have "n < 8" by simp
    then consider "n = 0" | "n = 1" | "n = 2" | "n = 3" | "n = 4" | "n = 5" | "n = 6" | "n = 7"
      by arith
    then show "bit a n = bit b n" using eqs by cases simp_all
  qed
qed simp

lemma unat_byte_less [simp]: "unat (b :: byte) < 256"
  using unsigned_less [of b] by simp

lemma bit_byte_beyond [simp]: "8 \<le> n \<Longrightarrow> \<not> bit (b :: byte) n"
  using bit_imp_le_length [of b n] by auto

lemma unat_of_nat_len: "n < 2 ^ LENGTH('a::len) \<Longrightarrow> unat (of_nat n :: 'a word) = n"
  by (simp add: unat_of_nat)

lemma unat_drop_bit_div: "unat (drop_bit n x) = unat x div 2 ^ n"
  by (rule trans [OF unat_drop_bit_eq drop_bit_eq_div])

lemma unat_byte_less_power: "unat (x :: byte) < 2 ^ n \<longleftrightarrow> drop_bit n x = 0"
proof -
  have "unat x < 2 ^ n \<longleftrightarrow> unat (drop_bit n x) = 0"
    by (simp only: unat_drop_bit_div div_eq_0_iff) simp
  then show ?thesis by (simp only: unat_eq_0)
qed

lemma byte_less_iffs [dl_bits]:
  fixes x :: byte
  shows "x < 16 \<longleftrightarrow> \<not> bit x 4 \<and> \<not> bit x 5 \<and> \<not> bit x 6 \<and> \<not> bit x 7"
    and "x < 32 \<longleftrightarrow> \<not> bit x 5 \<and> \<not> bit x 6 \<and> \<not> bit x 7"
    and "x < 64 \<longleftrightarrow> \<not> bit x 6 \<and> \<not> bit x 7"
    and "x < 128 \<longleftrightarrow> \<not> bit x 7"
  using unat_byte_less_power [of x 4] unat_byte_less_power [of x 5] unat_byte_less_power [of x 6]
    unat_byte_less_power [of x 7]
  by (simp_all add: word_less_nat_alt byte_eq_iff bit_simps)

lemma unat_ucast_byte [simp]: "unat (ucast (b :: byte) :: u64) = unat b"
proof -
  have "unat b < 2 ^ 64" by (rule less_trans [OF unat_byte_less]) simp
  then show ?thesis by (simp add: unsigned_ucast_eq take_bit_nat_eq_self)
qed

lemma ucast_ucast_byte [simp]: "ucast (ucast (b :: byte) :: u64) = b"
  by (rule bit_word_eqI) (auto simp: bit_simps)

lemma unat_and_15: "unat ((b :: byte) AND 15) = unat b mod 16"
proof -
  have "b AND 15 = take_bit 4 b" by (simp add: byte_eq_iff bit_simps)
  also have "unat \<dots> = take_bit 4 (unat b)" by (rule unsigned_take_bit_eq)
  also have "\<dots> = unat b mod 2 ^ 4" by (rule take_bit_eq_mod)
  finally show ?thesis by simp
qed

text \<open>The two hexadecimal digits of a byte.\<close>

lemma nibble_less [simp]: "drop_bit 4 (b :: byte) < 16" "b AND 15 < (16 :: byte)"
  by (simp_all add: dl_bits bit_simps)

lemma join_nibbles [simp]: "push_bit 4 (drop_bit 4 (b :: byte)) + (b AND 15) = b"
proof -
  have "b AND 15 = take_bit 4 b" by (simp add: byte_eq_iff bit_simps)
  then have "push_bit 4 (drop_bit 4 b) + (b AND 15) = push_bit 4 (drop_bit 4 b) OR take_bit 4 b"
    by (simp add: disjunctive_add bit_simps)
  also have "\<dots> = b" by (simp add: byte_eq_iff bit_simps)
  finally show ?thesis .
qed

lemma nibble_cases:
  assumes "(x :: byte) < 16"
  obtains "x = 0" | "x = 1" | "x = 2" | "x = 3" | "x = 4" | "x = 5" | "x = 6" | "x = 7" | "x = 8"
    | "x = 9" | "x = 10" | "x = 11" | "x = 12" | "x = 13" | "x = 14" | "x = 15"
proof -
  have "unat x \<in> set [0..<16]" using assms by (simp add: word_less_nat_alt)
  then have "of_nat (unat x) \<in> (of_nat :: nat \<Rightarrow> byte) ` set [0..<16]" by (rule imageI)
  then show ?thesis using that by (simp add: upt_rec) blast
qed

text \<open>A statement about all bytes is a statement about 256 numerals.\<close>

lemma all_bytes_iff: "(\<forall>b::byte. P b) \<longleftrightarrow> list_all (\<lambda>n. P (of_nat n)) [0..<256]"
proof
  assume *: "list_all (\<lambda>n. P (of_nat n)) [0..<256]"
  show "\<forall>b. P b"
  proof
    fix b :: byte
    have "unat b \<in> set [0..<256]" by simp
    with * have "P (of_nat (unat b))" by (simp only: list_all_iff Ball_def)
    then show "P b" by simp
  qed
qed (simp add: list_all_iff)

section \<open>Interfaces\<close>

text \<open>
  A codec is a pair of an encoder and a partial decoder; the law is that decoding what was
  encoded gives the input back. Several pairs of functions of \<^verbatim>\<open>dl_string.c\<close> are codecs.
\<close>

locale codec =
  fixes enc :: "'a \<Rightarrow> 'b" and dec :: "'b \<Rightarrow> 'a option"
  assumes dec_enc: "dec (enc x) = Some x"
begin

lemma enc_inject: "enc x = enc y \<longleftrightarrow> x = y"
  using dec_enc by (metis option.inject)

lemma enc_inj: "inj enc"
  by (simp add: inj_def enc_inject)

lemma dec_surj: "\<exists>w. dec w = Some x"
  using dec_enc by blast

end

text \<open>
  An escaper writes a piece of output for every input byte. The code calls each of them
  twice: with a \<^verbatim>\<open>NULL\<close> destination to learn how much longer the output is than the input, then
  to write. The law says that both passes agree byte by byte.
\<close>

locale escaper =
  fixes piece :: "byte \<Rightarrow> bytes" and extra :: "byte \<Rightarrow> nat"
  assumes piece_length: "length (piece b) = 1 + extra b"
begin

lemma length_pieces: "length (concat (map piece s)) = length s + sum_list (map extra s)"
  by (induction s) (simp_all add: piece_length)

lemma length_pieces_ge: "length s \<le> length (concat (map piece s))"
  by (simp add: length_pieces)

end

text \<open>
  A cursor goes through a container that holds \<open>xs\<close> in this order: \<open>step\<close> gives the element behind an
  element, \<^verbatim>\<open>NULL\<close> behind the last one. \<open>walk\<close> is the loop of a client over it.
\<close>

fun walk :: "(addr \<Rightarrow> ptr option) \<Rightarrow> nat \<Rightarrow> addr \<Rightarrow> addr list option" where
  "walk step 0 a = None"
| "walk step (Suc n) a =
     (case step a of
        None \<Rightarrow> None
      | Some None \<Rightarrow> Some [a]
      | Some (Some b) \<Rightarrow> map_option ((#) a) (walk step n b))"

locale cursor =
  fixes repr :: "'s \<Rightarrow> addr list \<Rightarrow> bool" and step :: "'s \<Rightarrow> addr \<Rightarrow> ptr option"
  assumes step_law: "repr s xs \<Longrightarrow> i < length xs \<Longrightarrow>
    step s (xs ! i) = Some (if Suc i < length xs then Some (xs ! Suc i) else None)"
begin

lemma walk_drop:
  "repr s xs \<Longrightarrow> i < length xs \<Longrightarrow> walk (step s) (length xs - i) (xs ! i) = Some (drop i xs)"
proof (induction "length xs - i" arbitrary: i)
  case (Suc n)
  have n: "length xs - i = Suc (length xs - Suc i)" using Suc.prems(2) by simp
  show ?case
  proof (cases "Suc i < length xs")
    case True
    have "walk (step s) (length xs - Suc i) (xs ! Suc i) = Some (drop (Suc i) xs)"
      using Suc.hyps(2) Suc.prems True by (intro Suc.hyps(1)) simp_all
    then show ?thesis unfolding n using step_law [OF Suc.prems] True Suc.prems(2)
      by (simp add: Cons_nth_drop_Suc)
  next
    case False
    then show ?thesis unfolding n using step_law [OF Suc.prems] Suc.prems(2)
      by (simp add: Cons_nth_drop_Suc [symmetric])
  qed
qed simp

lemma walk_all: "repr s xs \<Longrightarrow> xs \<noteq> [] \<Longrightarrow> walk (step s) (length xs) (hd xs) = Some xs"
  using walk_drop [of s xs 0] by (simp add: hd_conv_nth)

end

section \<open>Lists\<close>

lemma concat_map_set: "b \<in> set (concat (map f s)) \<longleftrightarrow> (\<exists>x \<in> set s. b \<in> set (f x))"
  by auto

lemma nth_all_iff: "(\<forall>i<length xs. P (xs ! i)) \<longleftrightarrow> list_all P xs"
  by (simp add: list_all_length)

end
