(* ===== verification/Dl_Base64.thy ===== *)
theory Dl_Base64
  imports Dl_Prelude
begin

text \<open>
  Base64 of \<^verbatim>\<open>dl_string.c\<close>: the encoder and the decoder with their standard and URL tables.
  A \<^verbatim>\<open>dl_str\<close> is its list of bytes; the bytes written to \<^verbatim>\<open>dst->data\<close> are the result and
  \<^verbatim>\<open>dst->len\<close> is its length. Arithmetic is on 8-bit words: the C code computes in
  \<^verbatim>\<open>int\<close> and casts to \<^verbatim>\<open>uchar\<close>, which keeps the same low eight bits.
\<close>

section \<open>The encoder\<close>

definition basis64 :: bytes where
  "basis64 = lit ''ABCDEFGHIJKLMNOPQRSTUVWXYZabcdefghijklmnopqrstuvwxyz0123456789+/''"

definition basis64url :: bytes where
  "basis64url = lit ''ABCDEFGHIJKLMNOPQRSTUVWXYZabcdefghijklmnopqrstuvwxyz0123456789-_''"

fun encode_base64_internal :: "bytes \<Rightarrow> bool \<Rightarrow> bytes \<Rightarrow> bytes" where
  "encode_base64_internal basis padding (s0 # s1 # s2 # s) =
     basis ! unat (drop_bit 2 s0)
     # basis ! unat (push_bit 4 (s0 AND 3) OR drop_bit 4 s1)
     # basis ! unat (push_bit 2 (s1 AND 0x0f) OR drop_bit 6 s2)
     # basis ! unat (s2 AND 0x3f)
     # encode_base64_internal basis padding s"
| "encode_base64_internal basis padding [s0] =
     [basis ! unat (drop_bit 2 s0), basis ! unat (push_bit 4 (s0 AND 3))]
     @ (if padding then lit ''='' else []) @ (if padding then lit ''='' else [])"
| "encode_base64_internal basis padding [s0, s1] =
     [basis ! unat (drop_bit 2 s0),
      basis ! unat (push_bit 4 (s0 AND 3) OR drop_bit 4 s1),
      basis ! unat (push_bit 2 (s1 AND 0x0f))]
     @ (if padding then lit ''='' else [])"
| "encode_base64_internal basis padding [] = []"

definition encode_base64 :: "bytes \<Rightarrow> bool \<Rightarrow> bytes" where
  "encode_base64 src pad = encode_base64_internal basis64 pad src"

definition encode_base64url :: "bytes \<Rightarrow> bytes" where
  "encode_base64url src = encode_base64_internal basis64url False src"

definition base64_len :: "nat \<Rightarrow> nat" where
  "base64_len n = (n * 4 div 3 + 3) div 4 * 4"

section \<open>The decoder\<close>

definition unbasis64 :: bytes where
  "unbasis64 =
    [77, 77, 77, 77, 77, 77, 77, 77, 77, 77, 77, 77, 77, 77, 77, 77,
     77, 77, 77, 77, 77, 77, 77, 77, 77, 77, 77, 77, 77, 77, 77, 77,
     77, 77, 77, 77, 77, 77, 77, 77, 77, 77, 77, 62, 77, 77, 77, 63,
     52, 53, 54, 55, 56, 57, 58, 59, 60, 61, 77, 77, 77, 77, 77, 77,
     77,  0,  1,  2,  3,  4,  5,  6,  7,  8,  9, 10, 11, 12, 13, 14,
     15, 16, 17, 18, 19, 20, 21, 22, 23, 24, 25, 77, 77, 77, 77, 77,
     77, 26, 27, 28, 29, 30, 31, 32, 33, 34, 35, 36, 37, 38, 39, 40,
     41, 42, 43, 44, 45, 46, 47, 48, 49, 50, 51, 77, 77, 77, 77, 77]
    @ replicate 128 77"

definition unbasis64url :: bytes where
  "unbasis64url =
    [77, 77, 77, 77, 77, 77, 77, 77, 77, 77, 77, 77, 77, 77, 77, 77,
     77, 77, 77, 77, 77, 77, 77, 77, 77, 77, 77, 77, 77, 77, 77, 77,
     77, 77, 77, 77, 77, 77, 77, 77, 77, 77, 77, 77, 77, 62, 77, 77,
     52, 53, 54, 55, 56, 57, 58, 59, 60, 61, 77, 77, 77, 77, 77, 77,
     77,  0,  1,  2,  3,  4,  5,  6,  7,  8,  9, 10, 11, 12, 13, 14,
     15, 16, 17, 18, 19, 20, 21, 22, 23, 24, 25, 77, 77, 77, 77, 63,
     77, 26, 27, 28, 29, 30, 31, 32, 33, 34, 35, 36, 37, 38, 39, 40,
     41, 42, 43, 44, 45, 46, 47, 48, 49, 50, 51, 77, 77, 77, 77, 77]
    @ replicate 128 77"

text \<open>
  The first loop of \<^verbatim>\<open>dl_decode_base64_internal\<close>: it stops at the first \<^verbatim>\<open>=\<close> and rejects bytes
  the table marks 77. It indexes the table with a plain \<^verbatim>\<open>char\<close>, which is signed on the
  platforms the Makefile builds for: a byte above 127 is a negative index, outside the table,
  and the scan is undefined there (\<open>None\<close>). \<open>Some None\<close> is the \<^verbatim>\<open>DL_ERROR\<close> return, \<open>Some (Some n)\<close>
  the length found.
\<close>

fun decode_base64_scan :: "bytes \<Rightarrow> bytes \<Rightarrow> nat option option" where
  "decode_base64_scan basis [] = Some (Some 0)"
| "decode_base64_scan basis (c # src) =
     (if c = of_char CHR ''='' then Some (Some 0)
      else if \<not> c < 128 then None
      else if basis ! unat c = 77 then Some None
      else map_option (map_option Suc) (decode_base64_scan basis src))"

text \<open>The conversion loop, four characters to three bytes, and the two-or-three-character tail.\<close>

fun decode_base64_bytes :: "bytes \<Rightarrow> bytes \<Rightarrow> bytes" where
  "decode_base64_bytes basis (s0 # s1 # s2 # s3 # s) =
     (push_bit 2 (basis ! unat s0) OR drop_bit 4 (basis ! unat s1))
     # (push_bit 4 (basis ! unat s1) OR drop_bit 2 (basis ! unat s2))
     # (push_bit 6 (basis ! unat s2) OR basis ! unat s3)
     # decode_base64_bytes basis s"
| "decode_base64_bytes basis [s0, s1] =
     [push_bit 2 (basis ! unat s0) OR drop_bit 4 (basis ! unat s1)]"
| "decode_base64_bytes basis [s0, s1, s2] =
     [push_bit 2 (basis ! unat s0) OR drop_bit 4 (basis ! unat s1),
      push_bit 4 (basis ! unat s1) OR drop_bit 2 (basis ! unat s2)]"
| "decode_base64_bytes basis [s0] = []"
| "decode_base64_bytes basis [] = []"

text \<open>\<open>Some None\<close> is \<^verbatim>\<open>DL_ERROR\<close>, \<open>Some (Some d)\<close> is \<^verbatim>\<open>DL_OK\<close> with the bytes \<open>d\<close> in \<^verbatim>\<open>dst\<close>.\<close>

definition decode_base64_internal :: "bytes \<Rightarrow> bytes \<Rightarrow> bytes option option" where
  "decode_base64_internal src basis =
     do { r \<leftarrow> decode_base64_scan basis src;
          Some (case r of
                  None \<Rightarrow> None
                | Some len \<Rightarrow>
                    if len mod 4 = 1 then None
                    else Some (decode_base64_bytes basis (take len src))) }"

definition decode_base64 :: "bytes \<Rightarrow> bytes option option" where
  "decode_base64 src = decode_base64_internal src unbasis64"

definition decode_base64url :: "bytes \<Rightarrow> bytes option option" where
  "decode_base64url src = decode_base64_internal src unbasis64url"

section \<open>The sextets of a byte string\<close>

declare push_bit_and [simp del]

text \<open>The reference for the encoder: the input cut into six-bit groups, as numbers.\<close>

fun sextets :: "bytes \<Rightarrow> byte list" where
  "sextets (a # b # c # s) =
     drop_bit 2 a # (push_bit 4 (a AND 3) OR drop_bit 4 b)
     # (push_bit 2 (b AND 15) OR drop_bit 6 c) # (c AND 63) # sextets s"
| "sextets [a] = [drop_bit 2 a, push_bit 4 (a AND 3)]"
| "sextets [a, b] =
     [drop_bit 2 a, push_bit 4 (a AND 3) OR drop_bit 4 b, push_bit 2 (b AND 15)]"
| "sextets [] = []"

lemma sextet_less_64 [simp]:
  fixes a b :: byte
  shows "drop_bit 2 a < 64" "a AND 63 < 64"
    and "push_bit 4 (a AND 3) < 64" "push_bit 4 (a AND 3) OR drop_bit 4 b < 64"
    and "push_bit 2 (a AND 15) < 64" "push_bit 2 (a AND 15) OR drop_bit 6 b < 64"
  by (simp_all add: dl_bits bit_simps)

lemma sextets_small: "i \<in> set (sextets s) \<Longrightarrow> i < 64"
  by (induction s rule: sextets.induct) auto

lemma length_sextets: "length (sextets s) = (length s * 4 + 2) div 3"
  by (induction s rule: sextets.induct) auto

lemma length_sextets_mod: "length (sextets s) mod 4 \<noteq> 1"
  by (induction s rule: sextets.induct) auto

lemma encode_unpadded:
  "encode_base64_internal basis False s = map (\<lambda>i. basis ! unat i) (sextets s)"
  by (induction s rule: sextets.induct) simp_all

text \<open>Padding only appends equality signs, up to a multiple of four characters.\<close>

lemma encode_padded:
  "encode_base64_internal basis True s =
   encode_base64_internal basis False s @ replicate ((3 - length s mod 3) mod 3) (of_char CHR ''='')"
  by (induction s rule: sextets.induct) (simp_all add: numeral_2_eq_2)

text \<open>Joining the sextets of a string gives the string back.\<close>

lemma sextets_join [simp]:
  fixes a b c :: byte
  shows "push_bit 2 (drop_bit 2 a) OR drop_bit 4 (push_bit 4 (a AND 3) OR drop_bit 4 b) = a"
    and "push_bit 2 (drop_bit 2 a) OR drop_bit 4 (push_bit 4 (a AND 3)) = a"
    and "push_bit 4 (drop_bit 4 b) OR drop_bit 2 (push_bit 2 (b AND 15)) = b"
    and "push_bit 6 (drop_bit 6 c) OR c AND 63 = c"
  by (simp_all add: byte_eq_iff bit_simps)

section \<open>One codec, two tables\<close>

text \<open>
  What the two tables of a Base64 variant owe each other: decoding the \<open>i\<close>-th character of the
  alphabet gives \<open>i\<close>, and no character of the alphabet is the padding sign or above 127.
\<close>

locale base64_tables =
  fixes basis unbasis :: bytes
  assumes tables_inverse: "map (\<lambda>c. unbasis ! unat c) basis = map of_nat [0..<64]"
    and basis_ascii: "list_all (\<lambda>c. c < 128 \<and> c \<noteq> of_char CHR ''='') basis"
begin

lemma length_basis: "length basis = 64"
  using arg_cong [OF tables_inverse, of length] by simp

lemma unbasis_basis:
  assumes "(i :: byte) < 64" shows "unbasis ! unat (basis ! unat i) = i"
proof -
  have i: "unat i < 64" using assms by (simp add: word_less_nat_alt)
  have "map (\<lambda>c. unbasis ! unat c) basis ! unat i = map of_nat [0..<64] ! unat i"
    by (simp only: tables_inverse)
  with i show ?thesis by (simp add: length_basis)
qed

lemma basis_legal:
  assumes "(i :: byte) < 64"
  shows "basis ! unat i < 128" "basis ! unat i \<noteq> of_char CHR ''=''" "unbasis ! unat (basis ! unat i) \<noteq> 77"
proof -
  have "unat i < length basis" using assms by (simp add: word_less_nat_alt length_basis)
  with basis_ascii show "basis ! unat i < 128" "basis ! unat i \<noteq> of_char CHR ''=''"
    by (auto simp: list_all_length)
  show "unbasis ! unat (basis ! unat i) \<noteq> 77" using assms by (auto simp: unbasis_basis)
qed

lemma scan_basis:
  "\<forall>i \<in> set ks. (i :: byte) < 64 \<Longrightarrow> p = [] \<or> hd p = of_char CHR ''='' \<Longrightarrow>
   decode_base64_scan unbasis (map (\<lambda>i. basis ! unat i) ks @ p) = Some (Some (length ks))"
proof (induction ks)
  case Nil
  then show ?case by (cases p) auto
next
  case (Cons i ks)
  then show ?case using basis_legal [of i] by simp
qed

lemma decode_sextets:
  "decode_base64_bytes unbasis (map (\<lambda>i. basis ! unat i) (sextets s)) = s"
  by (induction s rule: sextets.induct) (simp_all add: unbasis_basis)

lemma decode_encode:
  "decode_base64_internal (encode_base64_internal basis padding s) unbasis = Some (Some s)"
proof -
  obtain p where p: "encode_base64_internal basis padding s = map (\<lambda>i. basis ! unat i) (sextets s) @ p"
    and "p = [] \<or> hd p = of_char CHR ''=''"
    by (cases padding; cases "(3 - length s mod 3) mod 3") (auto simp: encode_padded encode_unpadded)
  then have "decode_base64_scan unbasis (encode_base64_internal basis padding s) = Some (Some (length (sextets s)))"
    by (simp add: scan_basis sextets_small)
  then show ?thesis
    using length_sextets_mod [of s] by (simp add: decode_base64_internal_def p decode_sextets)
qed

sublocale codec "encode_base64_internal basis padding"
    "\<lambda>w. Option.bind (decode_base64_internal w unbasis) id"
  by standard (simp add: decode_encode)

end

interpretation std: base64_tables basis64 unbasis64
  by standard (simp_all add: basis64_def unbasis64_def nth_append upt_rec)

interpretation url: base64_tables basis64url unbasis64url
  by standard (simp_all add: basis64url_def unbasis64url_def nth_append upt_rec)

section \<open>Properties\<close>

text \<open>C8: every byte string survives Base64: \<^verbatim>\<open>dl_decode_base64\<close> returns \<^verbatim>\<open>DL_OK\<close> and exactly the
  bytes \<^verbatim>\<open>dl_encode_base64\<close> was given, with and without padding; the same for the URL pair.\<close>

theorem base64_roundtrip:
  "decode_base64 (encode_base64 s pad) = Some (Some s)
   \<and> decode_base64url (encode_base64url s) = Some (Some s)"
  by (simp add: decode_base64_def encode_base64_def decode_base64url_def encode_base64url_def
      std.decode_encode url.decode_encode)


lemma base64_len_step: "base64_len (Suc (Suc (Suc n))) = base64_len n + 4"
proof -
  have "Suc (Suc (Suc n)) * 4 div 3 + 3 = n * 4 div 3 + 3 + 4" by simp
  then show ?thesis by (simp only: base64_len_def div_add_self2) simp
qed

lemma base64_len_small: "base64_len 0 = 0" "base64_len (Suc 0) = 4" "base64_len (Suc (Suc 0)) = 4"
  by (simp_all add: base64_len_def)

lemma length_padded: "length (encode_base64_internal basis True s) = base64_len (length s)"
  by (induction s rule: sextets.induct) (simp_all add: base64_len_step base64_len_small)

lemma length_unpadded: "length (encode_base64_internal basis False s) \<le> base64_len (length s)"
  by (induction s rule: sextets.induct) (simp_all add: base64_len_step base64_len_small)

text \<open>The number of characters the encoder writes; the macro \<^verbatim>\<open>base64_len\<close> with which callers
  size the destination is exact with padding and enough without.\<close>

theorem base64_length:
  "length (encode_base64 s True) = base64_len (length s)
   \<and> length (encode_base64 s False) = (length s * 4 + 2) div 3
   \<and> length (encode_base64url s) \<le> base64_len (length s)"
  by (simp add: encode_base64_def encode_base64url_def length_padded length_unpadded)
    (simp add: encode_unpadded length_sextets)

lemma scan_None_iff:
  "decode_base64_scan basis s = None \<longleftrightarrow>
   (\<exists>c post. dropWhile (\<lambda>c. c < 128 \<and> c \<noteq> of_char CHR ''='' \<and> basis ! unat c \<noteq> 77) s = c # post \<and> \<not> c < 128)"
  by (induction s) auto

lemma scan_length: "decode_base64_scan basis s = Some (Some n) \<Longrightarrow> n \<le> length s"
  by (induction s arbitrary: n) (auto split: if_splits)

lemma length_decode_bytes: "length (decode_base64_bytes basis s) = length s * 3 div 4"
  by (induction basis s rule: decode_base64_bytes.induct) simp_all

text \<open>\<^verbatim>\<open>dl_decode_base64\<close> reads outside its table exactly when the first byte its scan does not
  pass over is above 127.\<close>

theorem decode_base64_undefined_iff:
  "decode_base64 s = None \<longleftrightarrow>
   (\<exists>c post. dropWhile (\<lambda>c. c < 128 \<and> c \<noteq> of_char CHR ''='' \<and> unbasis64 ! unat c \<noteq> 77) s = c # post
     \<and> \<not> c < 128)"
proof -
  have "decode_base64 s = None \<longleftrightarrow> decode_base64_scan unbasis64 s = None"
    by (simp add: decode_base64_def decode_base64_internal_def bind_eq_None_conv)
  then show ?thesis by (simp only: scan_None_iff)
qed

lemma decode_base64_undefined_example: "decode_base64 (lit ''A'' @ [0x80]) = None"
  by (simp add: decode_base64_undefined_iff unbasis64_def nth_append)

text \<open>Whatever its input, the decoder writes at most three bytes for every four characters.\<close>

theorem decode_base64_bound:
  assumes "decode_base64 s = Some (Some d)"
  shows "4 * length d \<le> 3 * length s"
proof -
  from assms obtain n where n: "decode_base64_scan unbasis64 s = Some (Some n)"
    and d: "d = decode_base64_bytes unbasis64 (take n s)"
    by (auto simp: decode_base64_def decode_base64_internal_def bind_eq_Some_conv
        split: option.splits if_splits)
  have "length d = n * 3 div 4" using scan_length [OF n] by (simp add: d length_decode_bytes min_def)
  then show ?thesis using scan_length [OF n] by simp
qed

theorem decode_base64_bound_witness: "4 * length (lit ''hi'') \<le> 3 * length (lit ''aGk='')"
  by (rule decode_base64_bound, simp add: decode_base64_def decode_base64_internal_def unbasis64_def nth_append)

declare push_bit_and [simp]

end
