(* ===== verification/Dl_Escape.thy ===== *)
theory Dl_Escape
  imports Dl_Prelude
begin

text \<open>
  URI, HTML and JSON escaping of \<^verbatim>\<open>dl_string.c\<close> and the URI unescaping state machine.
  Every escape function runs in two modes: with a \<^verbatim>\<open>NULL\<close> destination it counts, otherwise it
  writes; the two modes are two definitions here. The result of a writing function is the list
  of bytes it wrote (the C function returns the end of that range).
\<close>

section \<open>dl_escape_uri\<close>

definition uri_map :: "u32 list" where
  "uri_map = [0xffffffff, 0x80000029, 0x00000000, 0x80000000,
              0xffffffff, 0xffffffff, 0xffffffff, 0xffffffff]"

definition args_map :: "u32 list" where
  "args_map = [0xffffffff, 0x88000869, 0x00000000, 0x80000000,
               0xffffffff, 0xffffffff, 0xffffffff, 0xffffffff]"

definition uri_component_map :: "u32 list" where
  "uri_component_map = [0xffffffff, 0xfc009fff, 0x78000001, 0xb8000001,
                        0xffffffff, 0xffffffff, 0xffffffff, 0xffffffff]"

definition html_map :: "u32 list" where
  "html_map = [0xffffffff, 0x000000ad, 0x00000000, 0x80000000,
               0xffffffff, 0xffffffff, 0xffffffff, 0xffffffff]"

definition refresh_map :: "u32 list" where
  "refresh_map = [0xffffffff, 0x00000085, 0x00000000, 0x80000000,
                  0xffffffff, 0xffffffff, 0xffffffff, 0xffffffff]"

definition escape_maps :: "u32 list list" where
  "escape_maps = [uri_map, args_map, uri_component_map, html_map, refresh_map]"

definition hexdigits :: bytes where
  "hexdigits = lit ''0123456789ABCDEF''"

text \<open>The test \<^verbatim>\<open>escape[*src >> 5] & (1U << (*src & 0x1f))\<close>.\<close>

definition escapes :: "u32 list \<Rightarrow> byte \<Rightarrow> bool" where
  "escapes escape c \<longleftrightarrow> (escape ! unat (drop_bit 5 c)) AND push_bit (unat (c AND 0x1f)) 1 \<noteq> 0"

fun escape_uri_count :: "u32 list \<Rightarrow> bytes \<Rightarrow> u64" where
  "escape_uri_count escape [] = 0"
| "escape_uri_count escape (c # src) =
     (if escapes escape c then 1 else 0) + escape_uri_count escape src"

fun escape_uri_write :: "u32 list \<Rightarrow> bytes \<Rightarrow> bytes" where
  "escape_uri_write escape [] = []"
| "escape_uri_write escape (c # src) =
     (if escapes escape c
      then of_char CHR ''%'' # hexdigits ! unat (drop_bit 4 c) # hexdigits ! unat (c AND 0xf)
           # escape_uri_write escape src
      else c # escape_uri_write escape src)"

text \<open>\<^verbatim>\<open>map[type]\<close> is read before anything else; outside 0 to 4 that read is undefined.\<close>

definition escape_uri_null :: "bytes \<Rightarrow> int \<Rightarrow> u64 option" where
  "escape_uri_null src type =
     (if 0 \<le> type \<and> type < 5 then Some (escape_uri_count (escape_maps ! nat type) src) else None)"

definition escape_uri :: "bytes \<Rightarrow> int \<Rightarrow> bytes option" where
  "escape_uri src type =
     (if 0 \<le> type \<and> type < 5 then Some (escape_uri_write (escape_maps ! nat type) src) else None)"

section \<open>dl_unescape_uri\<close>

datatype unescape_state = sw_usual | sw_quoted | sw_quoted_second

text \<open>
  One call per byte of the \<^verbatim>\<open>while (size--)\<close> loop. \<open>decoded\<close> is the local of that name, \<open>prev\<close> the
  byte before the current one (\<^verbatim>\<open>*(s - 2)\<close> once \<^verbatim>\<open>s\<close> has advanced). The result is the bytes
  written to \<^verbatim>\<open>*dst\<close> and the bytes of the source not consumed: \<^verbatim>\<open>goto done\<close> leaves some.
\<close>

definition emit :: "bytes \<Rightarrow> bytes \<times> bytes \<Rightarrow> bytes \<times> bytes" where
  "emit out r = (out @ fst r, snd r)"

fun unescape_loop :: "int \<Rightarrow> unescape_state \<Rightarrow> byte \<Rightarrow> byte \<Rightarrow> bytes \<Rightarrow> bytes \<times> bytes" where
  "unescape_loop type st decoded prev [] = ([], [])"
| "unescape_loop type sw_usual decoded prev (ch # s) =
     (if ch = of_char CHR ''?'' \<and> type AND (1 OR 2) \<noteq> 0 then ([ch], s)
      else if ch = of_char CHR ''%'' then unescape_loop type sw_quoted decoded ch s
      else emit [ch] (unescape_loop type sw_usual decoded ch s))"
| "unescape_loop type sw_quoted decoded prev (ch # s) =
     (if of_char CHR ''0'' \<le> ch \<and> ch \<le> of_char CHR ''9''
      then unescape_loop type sw_quoted_second (ch - of_char CHR ''0'') ch s
      else let c = ch OR 0x20 in
        if of_char CHR ''a'' \<le> c \<and> c \<le> of_char CHR ''f''
        then unescape_loop type sw_quoted_second (c - of_char CHR ''a'' + 10) ch s
        else emit [ch] (unescape_loop type sw_usual decoded ch s))"
| "unescape_loop type sw_quoted_second decoded prev (ch # s) =
     (if of_char CHR ''0'' \<le> ch \<and> ch \<le> of_char CHR ''9'' then
        let d = push_bit 4 decoded + (ch - of_char CHR ''0'') in
        if type AND 2 \<noteq> 0 then
          (if of_char CHR ''%'' < d \<and> d < 0x7f then emit [d] (unescape_loop type sw_usual decoded ch s)
           else emit [of_char CHR ''%'', prev, ch] (unescape_loop type sw_usual decoded ch s))
        else emit [d] (unescape_loop type sw_usual decoded ch s)
      else let c = ch OR 0x20 in
        if of_char CHR ''a'' \<le> c \<and> c \<le> of_char CHR ''f'' then
          let d = push_bit 4 decoded + (c - of_char CHR ''a'') + 10 in
          if type AND 1 \<noteq> 0 then
            (if d = of_char CHR ''?'' then ([d], s)
             else emit [d] (unescape_loop type sw_usual decoded ch s))
          else if type AND 2 \<noteq> 0 then
            (if d = of_char CHR ''?'' then ([d], s)
             else if of_char CHR ''%'' < d \<and> d < 0x7f
             then emit [d] (unescape_loop type sw_usual decoded ch s)
             else emit [of_char CHR ''%'', prev, ch] (unescape_loop type sw_usual decoded ch s))
          else emit [d] (unescape_loop type sw_usual decoded ch s)
        else unescape_loop type sw_usual decoded ch s)"

definition unescape_uri :: "bytes \<Rightarrow> int \<Rightarrow> bytes \<times> bytes" where
  "unescape_uri src type = unescape_loop type sw_usual 0 0 src"

section \<open>dl_escape_html\<close>

text \<open>The counter is a \<^verbatim>\<open>uint\<close>: it counts modulo \<open>2 ^ 32\<close>. \<^verbatim>\<open>sizeof("&lt;") - 2\<close> is 3, and so on.\<close>

fun escape_html_null :: "bytes \<Rightarrow> u32" where
  "escape_html_null [] = 0"
| "escape_html_null (c # src) =
     (if c = of_char CHR ''<'' then 3
      else if c = of_char CHR ''>'' then 3
      else if c = of_char CHR ''&'' then 4
      else if c = 0x22 then 5
      else 0) + escape_html_null src"

fun escape_html :: "bytes \<Rightarrow> bytes" where
  "escape_html [] = []"
| "escape_html (c # src) =
     (if c = of_char CHR ''<'' then lit ''&lt;''
      else if c = of_char CHR ''>'' then lit ''&gt;''
      else if c = of_char CHR ''&'' then lit ''&amp;''
      else if c = 0x22 then lit ''&quot;''
      else [c]) @ escape_html src"

section \<open>dl_escape_json\<close>

fun escape_json_null :: "bytes \<Rightarrow> u32" where
  "escape_json_null [] = 0"
| "escape_json_null (c # src) =
     (if c = of_char CHR 0x5C \<or> c = 0x22 then 1
      else if c \<le> 0x1f then
        (if c = 10 \<or> c = 13 \<or> c = 9 \<or> c = 8 \<or> c = 12 then 1 else 5)
      else 0) + escape_json_null src"

fun escape_json :: "bytes \<Rightarrow> bytes" where
  "escape_json [] = []"
| "escape_json (c # src) =
     (if 0x1f < c then (if c = of_char CHR 0x5C \<or> c = 0x22 then [of_char CHR 0x5C] else []) @ [c]
      else of_char CHR 0x5C #
        (if c = 10 then lit ''n''
         else if c = 13 then lit ''r''
         else if c = 9 then lit ''t''
         else if c = 8 then lit ''b''
         else if c = 12 then lit ''f''
         else lit ''u00'' @ [of_char CHR ''0'' + drop_bit 4 c]
              @ (let d = c AND 0xf in
                 [if d < 10 then of_char CHR ''0'' + d else of_char CHR ''A'' + d - 10])))
     @ escape_json src"

section \<open>Counting and writing agree\<close>

definition uri_piece :: "u32 list \<Rightarrow> byte \<Rightarrow> bytes" where
  "uri_piece m c = (if escapes m c
     then [of_char CHR ''%'', hexdigits ! unat (drop_bit 4 c), hexdigits ! unat (c AND 0xf)] else [c])"

definition html_piece :: "byte \<Rightarrow> bytes" where
  "html_piece c = escape_html [c]"

definition json_piece :: "byte \<Rightarrow> bytes" where
  "json_piece c = escape_json [c]"

definition html_extra :: "byte \<Rightarrow> nat" where
  "html_extra c = unat (escape_html_null [c])"

definition json_extra :: "byte \<Rightarrow> nat" where
  "json_extra c = unat (escape_json_null [c])"

lemma escape_uri_pieces: "escape_uri_write m s = concat (map (uri_piece m) s)"
  by (induction s) (simp_all add: uri_piece_def)

lemma escape_html_pieces: "escape_html s = concat (map html_piece s)"
  by (induction s) (simp_all add: html_piece_def)

lemma escape_json_pieces: "escape_json s = concat (map json_piece s)"
  by (induction s) (simp_all add: json_piece_def)

interpretation uri: escaper "uri_piece m" "\<lambda>c. 2 * of_bool (escapes m c)"
  by standard (simp add: uri_piece_def)

interpretation html: escaper html_piece html_extra
  by standard (simp add: html_piece_def html_extra_def)

interpretation json: escaper json_piece json_extra
  by standard (auto simp: json_piece_def json_extra_def Let_def not_less)

lemma html_null_sum: "of_nat (sum_list (map html_extra s)) = escape_html_null s"
  by (induction s) (simp_all add: html_extra_def)

lemma json_null_sum: "of_nat (sum_list (map json_extra s)) = escape_json_null s"
  by (induction s) (simp_all add: json_extra_def)

lemma uri_count_sum:
  "of_nat (sum_list (map (\<lambda>c. 2 * of_bool (escapes m c)) s)) = 2 * escape_uri_count m s"
  by (induction s) (simp_all add: distrib_left)

text \<open>The counting mode of the three escape functions announces exactly how much longer than its
  input the written output is (in the width of the counter; for URIs two bytes per counted one).\<close>

theorem escape_lengths:
  "map_option (\<lambda>out. of_nat (length out)) (escape_uri s type)
     = map_option (\<lambda>n. of_nat (length s) + 2 * n) (escape_uri_null s type)
   \<and> of_nat (length (escape_html s)) = of_nat (length s) + escape_html_null s
   \<and> of_nat (length (escape_json s)) = of_nat (length s) + escape_json_null s"
proof (intro conjI)
  show "map_option (\<lambda>out. of_nat (length out)) (escape_uri s type)
     = map_option (\<lambda>n. of_nat (length s) + 2 * n) (escape_uri_null s type)"
    by (simp add: escape_uri_def escape_uri_null_def escape_uri_pieces uri.length_pieces
        uri_count_sum)
  show "of_nat (length (escape_html s)) = of_nat (length s) + escape_html_null s"
    by (simp add: escape_html_pieces html.length_pieces html_null_sum)
  show "of_nat (length (escape_json s)) = of_nat (length s) + escape_json_null s"
    by (simp add: escape_json_pieces json.length_pieces json_null_sum)
qed

section \<open>Unescaping what was escaped\<close>

lemma decoded_irrelevant:
  "unescape_loop ty sw_usual d p s = unescape_loop ty sw_usual d' p' s
   \<and> unescape_loop ty sw_quoted d p s = unescape_loop ty sw_quoted d' p' s"
proof (induction s arbitrary: d d' p p')
  case (Cons c s)
  have "unescape_loop ty sw_usual d x s = unescape_loop ty sw_usual d' x s"
    "unescape_loop ty sw_quoted d x s = unescape_loop ty sw_quoted d' x s" for x
    using Cons.IH by blast+
  then show ?case by (simp add: Let_def)
qed simp

lemma quoted_hexdigit:
  assumes "x < 16"
  shows "unescape_loop ty sw_quoted d p (hexdigits ! unat x # s)
    = unescape_loop ty sw_quoted_second x (hexdigits ! unat x) s"
  using assms by (rule nibble_cases) (simp_all add: hexdigits_def)

lemma quoted_second_hexdigit:
  assumes "x < 16"
  shows "unescape_loop 0 sw_quoted_second d p (hexdigits ! unat x # s)
    = emit [push_bit 4 d + x] (unescape_loop 0 sw_usual d (hexdigits ! unat x) s)"
  using assms by (rule nibble_cases) (simp_all add: hexdigits_def, simp_all add: add.commute)

lemma percent_escaped:
  "m \<in> {uri_map, args_map, uri_component_map, html_map} \<Longrightarrow> escapes m (of_char CHR ''%'')"
  by (auto simp: escapes_def uri_map_def args_map_def uri_component_map_def html_map_def)

lemma unescape_piece:
  assumes "m \<in> {uri_map, args_map, uri_component_map, html_map}"
  shows "unescape_loop 0 sw_usual d p (uri_piece m b @ s) = emit [b] (unescape_loop 0 sw_usual 0 0 s)"
proof -
  define L where "L = unescape_loop 0 sw_usual 0 0 s"
  have start: "unescape_loop 0 sw_usual d p s = L" for d p
    unfolding L_def by (rule decoded_irrelevant [THEN conjunct1])
  show ?thesis
  proof (cases "escapes m b")
    case True
    then show ?thesis
      by (simp add: uri_piece_def quoted_hexdigit quoted_second_hexdigit start
          del: unescape_loop.simps(3,4))
  next
    case False
    with percent_escaped [OF assms] have "b \<noteq> of_char CHR ''%''" by auto
    with False show ?thesis by (simp add: uri_piece_def start)
  qed
qed

lemma unescape_pieces:
  assumes "m \<in> {uri_map, args_map, uri_component_map, html_map}"
  shows "unescape_loop 0 sw_usual 0 0 (concat (map (uri_piece m) s)) = (s, [])"
  by (induction s) (simp_all add: unescape_piece [OF assms] emit_def)

text \<open>C28: unescaping (in the plain mode) undoes escaping of every byte string for the types URI, ARGS,
  URI_COMPONENT and HTML; nothing of the source is left over.\<close>

theorem unescape_escape_uri:
  assumes "type \<in> {0, 1, 2, 3}"
  shows "map_option (\<lambda>out. unescape_uri out 0) (escape_uri s type) = Some (s, [])"
  using assms
  by (auto simp: escape_uri_def unescape_uri_def escape_maps_def escape_uri_pieces unescape_pieces)

theorem unescape_escape_uri_witness:
  "map_option (\<lambda>out. unescape_uri out 0) (escape_uri (lit ''a b%?'') 2) = Some (lit ''a b%?'', [])"
  by (rule unescape_escape_uri) simp

section \<open>HTML and JSON: reference decoders\<close>

text \<open>
  Reference readers for the two output languages: the entities an HTML reader resolves and the
  escapes of a JSON string. They are specifications; nothing in the library decodes HTML.
\<close>

fun html_read :: "bytes \<Rightarrow> bytes option" where
  "html_read [] = Some []"
| "html_read (c # s) =
     (if c \<noteq> of_char CHR ''&'' then map_option ((#) c) (html_read s)
      else if take 3 s = lit ''lt;'' then map_option ((#) (of_char CHR ''<'')) (html_read (drop 3 s))
      else if take 3 s = lit ''gt;'' then map_option ((#) (of_char CHR ''>'')) (html_read (drop 3 s))
      else if take 4 s = lit ''amp;'' then map_option ((#) (of_char CHR ''&'')) (html_read (drop 4 s))
      else if take 5 s = lit ''quot;'' then map_option ((#) 0x22) (html_read (drop 5 s))
      else None)"

lemma html_read_piece: "html_read (html_piece c @ s) = map_option ((#) c) (html_read s)"
  by (simp add: html_piece_def)

interpretation html: codec escape_html html_read
proof
  fix s show "html_read (escape_html s) = Some s"
    by (induction s) (simp_all add: escape_html_pieces html_read_piece)
qed

lemma html_piece_plain:
  "b \<in> set (html_piece c) \<Longrightarrow> b \<noteq> of_char CHR ''<'' \<and> b \<noteq> of_char CHR ''>'' \<and> b \<noteq> 0x22"
  by (simp add: html_piece_def split: if_splits) auto

text \<open>HTML escaping loses nothing (a reader that resolves the four entities gets the input back, so
  distinct texts stay distinct) and its output holds no markup character.\<close>

theorem escape_html_correct:
  "html_read (escape_html s) = Some s
   \<and> of_char CHR ''<'' \<notin> set (escape_html s)
   \<and> of_char CHR ''>'' \<notin> set (escape_html s)
   \<and> 0x22 \<notin> set (escape_html s)"
  using html_piece_plain html.dec_enc [of s] by (auto simp: escape_html_pieces)

definition json_hexval :: "byte \<Rightarrow> byte option" where
  "json_hexval c =
     (if of_char CHR ''0'' \<le> c \<and> c \<le> of_char CHR ''9'' then Some (c - of_char CHR ''0'')
      else if of_char CHR ''A'' \<le> c \<and> c \<le> of_char CHR ''F'' then Some (c - of_char CHR ''A'' + 10)
      else None)"

fun json_read :: "bytes \<Rightarrow> bytes option" where
  "json_read [] = Some []"
| "json_read (c # s) =
     (if c = 0x22 \<or> c \<le> 0x1f then None
      else if c \<noteq> of_char CHR 0x5C then map_option ((#) c) (json_read s)
      else case s of
        [] \<Rightarrow> None
      | e # t \<Rightarrow>
          if e = 0x22 \<or> e = of_char CHR 0x5C then map_option ((#) e) (json_read t)
          else if e = of_char CHR ''n'' then map_option ((#) 10) (json_read t)
          else if e = of_char CHR ''r'' then map_option ((#) 13) (json_read t)
          else if e = of_char CHR ''t'' then map_option ((#) 9) (json_read t)
          else if e = of_char CHR ''b'' then map_option ((#) 8) (json_read t)
          else if e = of_char CHR ''f'' then map_option ((#) 12) (json_read t)
          else if e = of_char CHR ''u'' \<and> take 2 t = lit ''00'' \<and> 4 \<le> length t then
            do { h \<leftarrow> json_hexval (t ! 2); l \<leftarrow> json_hexval (t ! 3);
                 map_option ((#) (push_bit 4 h + l)) (json_read (drop 4 t)) }
          else None)"

lemma json_hexval_digit:
  "x < 16 \<Longrightarrow> json_hexval (if x < 10 then of_char CHR ''0'' + x else of_char CHR ''A'' + x - 10) = Some x"
  by (erule nibble_cases) (simp_all add: json_hexval_def)

lemma json_hexval_high:
  assumes "(c :: byte) \<le> 0x1f"
  shows "json_hexval (of_char CHR ''0'' + drop_bit 4 c) = Some (drop_bit 4 c)"
proof -
  have "drop_bit 4 c < 10"
    using assms by (simp add: word_less_nat_alt word_le_nat_alt unat_drop_bit_div)
  then show ?thesis using json_hexval_digit [of "drop_bit 4 c"] by simp
qed

lemma json_read_piece: "json_read (json_piece c @ s) = map_option ((#) c) (json_read s)"
  using json_hexval_high [of c] json_hexval_digit [of "c AND 15"]
  by (cases "c \<le> 0x1f") (auto simp: json_piece_def Let_def)

interpretation json: codec escape_json json_read
proof
  fix s show "json_read (escape_json s) = Some s"
    by (induction s) (simp_all add: escape_json_pieces json_read_piece)
qed

text \<open>C29: JSON escaping: the output is a well-formed JSON string body (a reader that refuses raw
  control bytes, bare quotes and unknown escapes accepts it) and it denotes exactly the input.\<close>

theorem escape_json_correct:
  "json_read (escape_json s) = Some s"
  by (rule json.dec_enc)

end
