(* ===== verification/Dl_Number.thy ===== *)
theory Dl_Number
  imports Dl_Prelude
begin

text \<open>
  Numbers as text in \<^verbatim>\<open>dl_string.c\<close>: \<^verbatim>\<open>dl_atoi\<close>, \<^verbatim>\<open>dl_hextoi\<close>, the hexadecimal dump and its reader,
  the digit printer \<^verbatim>\<open>dl_sprintf_num\<close> behind the \<^verbatim>\<open>printf\<close> family, and the small byte loops
  \<^verbatim>\<open>dl_strlow\<close>, \<^verbatim>\<open>dl_memcpy_rev\<close>, \<^verbatim>\<open>dl_hton\<close>.
\<close>

section \<open>Byte loops\<close>

definition dl_tolower :: "byte \<Rightarrow> byte" where
  "dl_tolower c = (if of_char CHR ''A'' \<le> c \<and> c \<le> of_char CHR ''Z'' then c OR 0x20 else c)"

definition dl_toupper :: "byte \<Rightarrow> byte" where
  "dl_toupper c = (if of_char CHR ''a'' \<le> c \<and> c \<le> of_char CHR ''z'' then c AND NOT 0x20 else c)"

fun dl_strlow :: "bytes \<Rightarrow> bytes" where
  "dl_strlow [] = []"
| "dl_strlow (c # src) = dl_tolower c # dl_strlow src"

text \<open>\<^verbatim>\<open>cur\<close> starts at the last byte and moves down to \<^verbatim>\<open>src\<close>; \<open>k\<close> is the number of bytes left.\<close>

fun memcpy_rev_loop :: "nat \<Rightarrow> bytes \<Rightarrow> bytes" where
  "memcpy_rev_loop 0 src = []"
| "memcpy_rev_loop (Suc k) src = src ! k # memcpy_rev_loop k src"

definition dl_memcpy_rev :: "bytes \<Rightarrow> bytes" where
  "dl_memcpy_rev src = memcpy_rev_loop (length src) src"

text \<open>The little-endian branch: a copy \<open>cur\<close> of the buffer is written back from its end. \<open>ok\<close> says
  whether the copy can be allocated; \<open>None\<close> is the \<^verbatim>\<open>NULL\<close> return, the buffer then untouched.\<close>

fun hton_loop :: "nat \<Rightarrow> bytes \<Rightarrow> bytes \<Rightarrow> bytes" where
  "hton_loop 0 cur buf = buf"
| "hton_loop (Suc k) cur buf =
     hton_loop k cur (buf[length cur - Suc k := cur ! (length cur - (length cur - Suc k) - 1)])"

definition dl_hton :: "bool \<Rightarrow> bytes \<Rightarrow> bytes option" where
  "dl_hton ok buf = (if \<not> ok then None else Some (hton_loop (length buf) buf buf))"

section \<open>dl_atoi\<close>

definition is_digit :: "byte \<Rightarrow> bool" where
  "is_digit c \<longleftrightarrow> of_char CHR ''0'' \<le> c \<and> c \<le> of_char CHR ''9''"

definition digit_val :: "byte \<Rightarrow> int" where
  "digit_val c = int (unat c) - 48"

definition atoi_cutoff :: int where
  "atoi_cutoff = 2147483647 div 10"

definition atoi_cutlim :: int where
  "atoi_cutlim = 2147483647 mod 10"

fun atoi_loop :: "int \<Rightarrow> bytes \<Rightarrow> int" where
  "atoi_loop value [] = value"
| "atoi_loop value (c # line) =
     (if \<not> is_digit c then rc_value DL_ERROR
      else if atoi_cutoff \<le> value \<and> (atoi_cutoff < value \<or> atoi_cutlim < digit_val c)
      then rc_value DL_ERROR
      else atoi_loop (value * 10 + digit_val c) line)"

definition dl_atoi :: "bytes \<Rightarrow> int" where
  "dl_atoi line = (if line = [] then rc_value DL_ERROR else atoi_loop 0 line)"

section \<open>dl_hextoi\<close>

text \<open>
  The \<open>n\<close> bytes at \<open>line\<close> are read one by one (\<open>None\<close> where the loop reads past the end of \<open>line\<close>);
  \<^verbatim>\<open>uintptr_t\<close> is 64 bits and \<^verbatim>\<open>DL_ERROR\<close> becomes \<open>2 ^ 64 - 1\<close> in it.
\<close>

definition hextoi_cutoff :: u64 where
  "hextoi_cutoff = 0xFFFFFFFFFFFFFFFF div 16"

definition hextoi_error :: u64 where
  "hextoi_error = - 1"

fun hextoi_loop :: "u64 \<Rightarrow> nat \<Rightarrow> bytes \<Rightarrow> u64 option" where
  "hextoi_loop value 0 line = Some value"
| "hextoi_loop value (Suc n) line =
     (if hextoi_cutoff < value then Some hextoi_error
      else case line of
        [] \<Rightarrow> None
      | ch # rest \<Rightarrow>
          if is_digit ch then hextoi_loop (value * 16 + ucast (ch - of_char CHR ''0'')) n rest
          else let c = ch OR 0x20 in
            if of_char CHR ''a'' \<le> c \<and> c \<le> of_char CHR ''f''
            then hextoi_loop (value * 16 + ucast (c - of_char CHR ''a'' + 10)) n rest
            else Some hextoi_error)"

definition dl_hextoi :: "bytes \<Rightarrow> nat \<Rightarrow> u64 option" where
  "dl_hextoi line n = (if n = 0 then Some hextoi_error else hextoi_loop 0 n line)"

section \<open>Hexadecimal dumps\<close>

definition dl_c2hex :: "byte \<Rightarrow> byte" where
  "dl_c2hex d = (if d \<le> 9 then d + of_char CHR ''0'' else d - 10 + of_char CHR ''a'')"

text \<open>
  \<^verbatim>\<open>dl_bc2hex\<close> prints prefix and two digits per byte (\<^verbatim>\<open>"%s%c%c"\<close>). Its counter is an \<^verbatim>\<open>int\<close>: the increment to
  \<open>2 ^ 31\<close> is undefined. A prefix is a C string, given by its bytes before the NUL.
\<close>

fun bc2hex_loop :: "int \<Rightarrow> bytes \<Rightarrow> bytes \<Rightarrow> bytes option" where
  "bc2hex_loop i [] hprefix = Some []"
| "bc2hex_loop i (b # src) hprefix =
     (let d1 = drop_bit 4 b; d2 = b AND 0xf in
      if 2 ^ 31 \<le> i + 1 then None
      else map_option ((@) (hprefix @ [dl_c2hex d1, dl_c2hex d2])) (bc2hex_loop (i + 1) src hprefix))"

definition dl_bc2hex :: "bytes \<Rightarrow> bytes option \<Rightarrow> bytes option" where
  "dl_bc2hex src hprefix = bc2hex_loop 0 src (case hprefix of None \<Rightarrow> [] | Some p \<Rightarrow> p)"

text \<open>
  \<^verbatim>\<open>dl_pbc2hex\<close>: the \<^verbatim>\<open>size_t\<close> it asks the pool for (the length of the prefix plus two is an \<^verbatim>\<open>int\<close>), and what
  it leaves there. The pool's \<^verbatim>\<open>NULL\<close> is not tested, so without memory the first store is undefined, as is
  a store behind the block.
\<close>

definition pbc2hex_size :: "bytes \<Rightarrow> bytes option \<Rightarrow> u64 option" where
  "pbc2hex_size src hprefix =
     (let plen = (case hprefix of None \<Rightarrow> 0 | Some p \<Rightarrow> length p) in
      if 2 ^ 31 \<le> 2 + plen then None else Some ((2 + of_nat plen) * of_nat (length src) + 1))"

definition dl_pbc2hex :: "bool \<Rightarrow> bytes \<Rightarrow> bytes option \<Rightarrow> bytes option" where
  "dl_pbc2hex ok src hprefix =
     do { size \<leftarrow> pbc2hex_size src hprefix;
          if \<not> ok then None
          else do { buf \<leftarrow> dl_bc2hex src hprefix;
                    if unat size < length buf + 1 then None else Some (buf @ [0]) } }"

text \<open>
  \<^verbatim>\<open>dl_hex2bc\<close>: \<open>cur\<close> is the memory from the read position on, \<open>slen\<close> the unsigned count that
  loses \<^verbatim>\<open>2 + step\<close>, an \<^verbatim>\<open>int\<close>, per turn and wraps below zero. \<open>Some None\<close> is the \<^verbatim>\<open>NULL\<close> return.
\<close>

function hex2bc_loop :: "nat \<Rightarrow> bytes \<Rightarrow> u64 \<Rightarrow> bytes option option" where
  "hex2bc_loop step cur slen =
     (if slen = 0 then Some (Some [])
      else if length cur < step then None
      else do { value \<leftarrow> dl_hextoi (drop step cur) 2;
                if value = hextoi_error then Some None
                else if length cur < step + 2 then None
                else map_option (map_option ((#) (ucast value)))
                       (hex2bc_loop step (drop (step + 2) cur) (slen - (2 + of_nat step))) })"
  by pat_completeness auto
termination
  by (relation "measure (\<lambda>(step, cur, slen). length cur)") auto

declare hex2bc_loop.simps [simp del]

definition dl_hex2bc :: "bytes \<Rightarrow> u64 \<Rightarrow> bytes option \<Rightarrow> bytes option option" where
  "dl_hex2bc src slen prefix =
     (let step = (case prefix of None \<Rightarrow> 0 | Some p \<Rightarrow> length p) in
      if 2 ^ 31 \<le> 2 + step then None
      else if 0 < slen \<and> slen mod 2 = 0 then hex2bc_loop step src slen else Some None)"

section \<open>dl_sprintf_num\<close>

text \<open>
  The digits, most significant first, as the \<^verbatim>\<open>do ... while\<close> loops store them from the end of
  \<^verbatim>\<open>temp\<close> downwards.
\<close>

fun dec_digits :: "nat \<Rightarrow> bytes \<Rightarrow> bytes" where
  "dec_digits n acc =
     (let acc' = of_nat (n mod 10 + 48) # acc in
      if n div 10 = 0 then acc' else dec_digits (n div 10) acc')"

fun hex_digits :: "bytes \<Rightarrow> nat \<Rightarrow> bytes \<Rightarrow> bytes" where
  "hex_digits table n acc =
     (let acc' = table ! (n mod 16) # acc in
      if n div 16 = 0 then acc' else hex_digits table (n div 16) acc')"

declare dec_digits.simps [simp del] hex_digits.simps [simp del]

definition num_digits :: "u64 \<Rightarrow> nat \<Rightarrow> bytes" where
  "num_digits ui64 hexadecimal =
     (if hexadecimal = 0 then
        (if ui64 \<le> 0xFFFFFFFF then dec_digits (unat (ucast ui64 :: u32)) []
         else dec_digits (unat ui64) [])
      else if hexadecimal = 1 then hex_digits (lit ''0123456789abcdef'') (unat ui64) []
      else hex_digits (lit ''0123456789ABCDEF'') (unat ui64) [])"

text \<open>\<open>room\<close> is \<^verbatim>\<open>last - buf\<close>; the result is what is written from \<^verbatim>\<open>buf\<close> on.\<close>

fun pad_loop :: "nat \<Rightarrow> nat \<Rightarrow> nat \<Rightarrow> byte \<Rightarrow> bytes" where
  "pad_loop room len width zero =
     (if len < width \<and> 0 < room then zero # pad_loop (room - 1) (Suc len) width zero else [])"

declare pad_loop.simps [simp del]

definition dl_sprintf_num :: "nat \<Rightarrow> u64 \<Rightarrow> byte \<Rightarrow> nat \<Rightarrow> nat \<Rightarrow> bytes" where
  "dl_sprintf_num room ui64 zero hexadecimal width =
     (let ds = num_digits ui64 hexadecimal;
          pad = pad_loop room (length ds) width zero;
          room' = room - length pad;
          len = (if room' < length ds then room' else length ds)
      in pad @ take len ds)"

section \<open>Byte loops\<close>

lemma memcpy_rev_loop: "k \<le> length src \<Longrightarrow> memcpy_rev_loop k src = rev (take k src)"
  by (induction k) (simp_all add: take_Suc_conv_app_nth)

lemma dl_memcpy_rev: "dl_memcpy_rev src = rev src"
  by (simp add: dl_memcpy_rev_def memcpy_rev_loop)

lemma hton_loop:
  "k \<le> length cur \<Longrightarrow> length buf = length cur \<Longrightarrow>
   hton_loop k cur buf = take (length cur - k) buf @ rev (take k cur)"
proof (induction k arbitrary: buf)
  case (Suc k)
  then have "length cur - (length cur - Suc k) - 1 = k" by simp
  moreover have "length cur - k = Suc (length cur - Suc k)" using Suc.prems by simp
  ultimately show ?case
    using Suc by (simp add: take_Suc_conv_app_nth)
qed simp

lemma dl_hton: "dl_hton True buf = Some (rev buf)"
  by (simp add: dl_hton_def hton_loop)

lemma dl_strlow: "dl_strlow s = map dl_tolower s"
  by (induction s) simp_all

section \<open>dl_atoi computes the decimal value\<close>

fun dec_value :: "int \<Rightarrow> bytes \<Rightarrow> int" where
  "dec_value v [] = v"
| "dec_value v (c # s) = dec_value (v * 10 + digit_val c) s"

lemma digit_val_range: "is_digit c \<Longrightarrow> 0 \<le> digit_val c \<and> digit_val c \<le> 9"
  by (simp add: is_digit_def digit_val_def word_le_def)

lemma dec_value_ge: "list_all is_digit s \<Longrightarrow> 0 \<le> v \<Longrightarrow> v \<le> dec_value v s"
proof (induction s arbitrary: v)
  case (Cons c s)
  then have "0 \<le> digit_val c" using digit_val_range [of c] by simp
  then have "v \<le> v * 10 + digit_val c" using Cons.prems by simp
  also have "\<dots> \<le> dec_value (v * 10 + digit_val c) s"
    using Cons \<open>0 \<le> digit_val c\<close> by simp
  finally show ?case by simp
qed simp

lemma atoi_loop_eq:
  "0 \<le> v \<Longrightarrow> v \<le> 2147483647 \<Longrightarrow>
   atoi_loop v s = (if list_all is_digit s \<and> dec_value v s \<le> 2147483647 then dec_value v s else -1)"
proof (induction s arbitrary: v)
  case (Cons c s)
  show ?case
  proof (cases "is_digit c")
    case True
    note d = digit_val_range [OF True]
    have guard: "(atoi_cutoff \<le> v \<and> (atoi_cutoff < v \<or> atoi_cutlim < digit_val c))
        \<longleftrightarrow> 2147483647 < v * 10 + digit_val c"
      using d by (auto simp: atoi_cutoff_def atoi_cutlim_def)
    show ?thesis
    proof (cases "2147483647 < v * 10 + digit_val c")
      case False
      then show ?thesis using True d Cons by (simp add: guard)
    next
      case big: True
      have "v * 10 + digit_val c \<le> dec_value (v * 10 + digit_val c) s" if "list_all is_digit s"
        using dec_value_ge [OF that] d Cons.prems by simp
      then show ?thesis using True big by (auto simp: guard)
    qed
  qed simp
qed simp

text \<open>\<^verbatim>\<open>dl_atoi\<close> returns the decimal value of its text exactly when the text is a non-empty run of
  digits whose value fits a 32-bit \<^verbatim>\<open>int\<close>, and \<^verbatim>\<open>DL_ERROR\<close> otherwise; no step overflows.\<close>

theorem dl_atoi_spec:
  "dl_atoi s =
     (if s \<noteq> [] \<and> list_all is_digit s \<and> dec_value 0 s \<le> 2147483647 then dec_value 0 s
      else rc_value DL_ERROR)"
  by (simp add: dl_atoi_def atoi_loop_eq)

section \<open>Printing and reading decimal numbers\<close>

lemma of_nat_digit: "is_digit (of_nat (n mod 10 + 48)) \<and> digit_val (of_nat (n mod 10 + 48)) = int (n mod 10)"
proof -
  have "n mod 10 + 48 < 2 ^ LENGTH(8)" using mod_less_divisor [of 10 n] by simp
  then have *: "unat (of_nat (n mod 10 + 48) :: byte) = n mod 10 + 48" by (rule unat_of_nat_len)
  show ?thesis
    unfolding is_digit_def digit_val_def word_le_nat_alt * by simp
qed

lemma dec_digits_acc: "dec_digits n acc = dec_digits n [] @ acc"
proof (induction n arbitrary: acc rule: less_induct)
  case (less n)
  let ?d = "of_nat (n mod 10 + 48)"
  show ?case
  proof (cases "n div 10 = 0")
    case False
    then have IH: "dec_digits (n div 10) acc' = dec_digits (n div 10) [] @ acc'" for acc'
      by (intro less.IH) simp
    have "dec_digits n acc = dec_digits (n div 10) (?d # acc)"
      using False by (subst dec_digits.simps) (simp add: Let_def)
    also have "\<dots> = (dec_digits (n div 10) [] @ [?d]) @ acc" by (subst IH) simp
    also have "dec_digits (n div 10) [] @ [?d] = dec_digits (n div 10) [?d]"
      by (rule IH [symmetric])
    also have "\<dots> = dec_digits n []"
      using False by (subst (2) dec_digits.simps) (simp add: Let_def)
    finally show ?thesis .
  qed (simp add: dec_digits.simps [of n])
qed

lemma dec_digits_step:
  "dec_digits n [] = (if n < 10 then [] else dec_digits (n div 10) []) @ [of_nat (n mod 10 + 48)]"
proof (cases "n div 10 = 0")
  case False
  then have "dec_digits n [] = dec_digits (n div 10) [of_nat (n mod 10 + 48)]"
    by (subst dec_digits.simps) (simp add: Let_def)
  also have "\<dots> = dec_digits (n div 10) [] @ [of_nat (n mod 10 + 48)]" by (rule dec_digits_acc)
  finally show ?thesis using False by auto
qed (simp add: dec_digits.simps [of n] div_eq_0_iff)

lemma dec_value_append: "dec_value v (s @ t) = dec_value (dec_value v s) t"
  by (induction s arbitrary: v) simp_all

lemma dec_digits_value: "list_all is_digit (dec_digits n []) \<and> dec_value 0 (dec_digits n []) = int n"
proof (induction n rule: less_induct)
  case (less n)
  have "int (n div 10) * 10 + int (n mod 10) = int n" by presburger
  then show ?case
    using less.IH [of "n div 10"] of_nat_digit [of n]
    by (subst (1 2) dec_digits_step) (auto simp: dec_value_append)
qed

lemma dec_digits_length: "n < 10 ^ Suc k \<Longrightarrow> length (dec_digits n []) \<le> Suc k"
proof (induction k arbitrary: n)
  case (Suc k)
  then have "n div 10 < 10 ^ Suc k" by (simp add: less_mult_imp_div_less)
  with Suc.IH show ?case by (subst dec_digits_step) auto
qed (subst dec_digits_step, simp)

lemma dec_digits_nonempty: "dec_digits n [] \<noteq> []"
  by (subst dec_digits_step) simp

lemma pad_loop_eq: "pad_loop room len width zero = replicate (min (width - len) room) zero"
proof (induction room arbitrary: len)
  case (Suc room)
  show ?case
  proof (cases "len < width")
    case True
    then have "min (width - len) (Suc room) = Suc (min (width - Suc len) room)" by simp
    then show ?thesis using True by (subst pad_loop.simps) (simp add: Suc.IH)
  qed (subst pad_loop.simps, simp)
qed (subst pad_loop.simps, simp)

lemma num_digits_dec: "num_digits n 0 = dec_digits (unat n) []"
proof (cases "n \<le> 0xFFFFFFFF")
  case True
  then have "unat n < 2 ^ 32" by (simp add: word_le_nat_alt)
  then have "unat (ucast n :: u32) = unat n"
    by (simp add: unsigned_ucast_eq take_bit_nat_eq_self)
  then show ?thesis using True by (simp add: num_digits_def)
qed (simp add: num_digits_def)

lemma num_digits_dec_length: "length (num_digits n 0) \<le> 20"
proof -
  have "unat n < 2 ^ 64" using unsigned_less [of n, where 'a = nat] by simp
  then have "unat n < 10 ^ Suc 19" by simp
  from dec_digits_length [OF this] show ?thesis by (simp add: num_digits_dec)
qed

lemma sprintf_num_eq:
  "dl_sprintf_num room n zero h width =
   take room (replicate (width - length (num_digits n h)) zero @ num_digits n h)"
  by (auto simp: dl_sprintf_num_def pad_loop_eq Let_def take_append min_def)

text \<open>\<^verbatim>\<open>dl_sprintf_num\<close> in decimal: it never writes past \<^verbatim>\<open>last\<close>; its output is a prefix of the
  padded number; the digits fit the 20-byte scratch buffer; and with room enough the digits read
  back as the number.\<close>

theorem sprintf_num_decimal:
  "length (dl_sprintf_num room n zero 0 width) \<le> room
   \<and> length (num_digits n 0) \<le> 20
   \<and> dl_sprintf_num room n zero 0 width
      = take room (replicate (width - length (num_digits n 0)) zero @ num_digits n 0)
   \<and> dec_value 0 (num_digits n 0) = uint n"
  using dec_digits_value [of "unat n"] num_digits_dec_length [of n]
  by (auto simp: sprintf_num_eq num_digits_dec)

lemma dec_value_zeros: "dec_value 0 (replicate k (of_char CHR ''0'')) = 0"
  by (induction k) (simp_all add: digit_val_def)

text \<open>Printing with zero padding and reading back: \<^verbatim>\<open>dl_atoi\<close> of what \<^verbatim>\<open>dl_sprintf_num\<close> wrote is the
  number, for every value of a non-negative 32-bit \<^verbatim>\<open>int\<close> and every width the buffer has room for.\<close>

theorem atoi_sprintf_num:
  assumes "n \<le> 2147483647" and "width \<le> room" and "20 \<le> room"
  shows "dl_atoi (dl_sprintf_num room n (of_char CHR ''0'') 0 width) = uint n"
proof -
  let ?ds = "num_digits n 0" and ?z = "of_char CHR ''0'' :: byte"
  have "width - length ?ds + length ?ds \<le> room"
    using num_digits_dec_length [of n] assms by simp
  then have out: "dl_sprintf_num room n ?z 0 width = replicate (width - length ?ds) ?z @ ?ds"
    by (simp add: sprintf_num_eq)
  have val: "dec_value 0 (replicate (width - length ?ds) ?z @ ?ds) = uint n"
    using dec_digits_value [of "unat n"]
    by (simp only: dec_value_append dec_value_zeros num_digits_dec) simp
  have dig: "list_all is_digit (replicate (width - length ?ds) ?z @ ?ds)"
    using dec_digits_value [of "unat n"]
    by (auto simp: num_digits_dec list_all_iff is_digit_def)
  have "uint n \<le> 2147483647" using assms(1) by (simp add: word_le_def)
  with val dig show ?thesis
    unfolding out dl_atoi_spec by (simp add: num_digits_dec dec_digits_nonempty)
qed

theorem atoi_sprintf_num_witness:
  "dl_atoi (dl_sprintf_num 64 2026 (of_char CHR ''0'') 0 6) = uint (2026 :: u64)"
  by (rule atoi_sprintf_num) simp_all

section \<open>dl_hextoi computes the hexadecimal value\<close>

definition is_hex :: "byte \<Rightarrow> bool" where
  "is_hex c \<longleftrightarrow> is_digit c \<or> (of_char CHR ''a'' \<le> c OR 0x20 \<and> c OR 0x20 \<le> of_char CHR ''f'')"

definition hex_val :: "byte \<Rightarrow> nat" where
  "hex_val c = (if is_digit c then unat (c - of_char CHR ''0'')
                else unat ((c OR 0x20) - of_char CHR ''a'' + 10))"

fun hex_value :: "nat \<Rightarrow> bytes \<Rightarrow> nat" where
  "hex_value v [] = v"
| "hex_value v (c # s) = hex_value (v * 16 + hex_val c) s"

lemma hex_val_less: "is_hex c \<Longrightarrow> hex_val c < 16"
proof -
  have sub: "unat (c - 48) = unat c - 48" if "48 \<le> c" for c :: byte
    using that by (simp add: unat_sub)
  have sub': "unat (c - 97 + 10) = unat c - 97 + 10" if "97 \<le> c" "c \<le> 102" for c :: byte
  proof -
    have "unat (c - 97) = unat c - 97" using that by (simp add: unat_sub)
    moreover have "unat c \<le> 102" using that by (simp add: word_le_nat_alt)
    ultimately have "unat (c - 97) + unat (10 :: byte) < 2 ^ LENGTH(8)" by simp
    then have "unat (c - 97 + 10) = unat (c - 97) + unat (10 :: byte)"
      by (simp only: unat_plus_simple [THEN iffD1] unat_add_lem [THEN iffD1])
    then show ?thesis using \<open>unat (c - 97) = unat c - 97\<close> by simp
  qed
  show "is_hex c \<Longrightarrow> hex_val c < 16"
    unfolding is_hex_def hex_val_def is_digit_def
    using sub [of c] sub' [of "c OR 0x20"]
    by (auto simp: word_le_nat_alt)
qed

lemma hextoi_step:
  assumes "v \<le> hextoi_cutoff" and "unat d < 16"
  shows "unat (v * 16 + ucast (d :: byte)) = unat v * 16 + unat d"
proof -
  have v: "unat v \<le> 1152921504606846975"
    using assms(1) by (simp add: hextoi_cutoff_def word_le_nat_alt)
  have d: "unat (ucast d :: u64) = unat d"
    using assms(2) by (simp add: unsigned_ucast_eq take_bit_nat_eq_self)
  have "unat (v * 16 + ucast d) = (unat v * 16 + unat d) mod 2 ^ 64"
    by (simp only: unat_word_ariths d) (simp add: mod_simps)
  also have "\<dots> = unat v * 16 + unat d" using v assms(2) by simp
  finally show ?thesis .
qed

lemma hex_value_ge: "v \<le> hex_value v s"
proof (induction s arbitrary: v)
  case (Cons c s)
  have "v \<le> v * 16 + hex_val c" by simp
  also have "\<dots> \<le> hex_value (v * 16 + hex_val c) s" by (rule Cons.IH)
  finally show ?case by simp
qed simp

lemma hextoi_loop_eq:
  "hextoi_loop v (length s) (s @ t) =
   Some (if list_all is_hex s \<and> hex_value (unat v) s < 2 ^ 64 then of_nat (hex_value (unat v) s)
         else hextoi_error)"
proof (induction s arbitrary: v)
  case Nil
  then show ?case using unsigned_less [of v, where 'a = nat] by simp
next
  case (Cons c s)
  show ?case
  proof (cases "hextoi_cutoff < v")
    case True
    then have "2 ^ 64 \<le> unat v * 16" by (simp add: hextoi_cutoff_def word_less_nat_alt)
    also have "\<dots> \<le> hex_value (unat v * 16 + hex_val c) s"
      using hex_value_ge [of "unat v * 16 + hex_val c" s] by simp
    finally show ?thesis using True by simp
  next
    case False
    note step = hextoi_step [of v, OF leI [OF False]]
    show ?thesis
    proof (cases "is_hex c")
      case True
      define d where "d = (if is_digit c then c - 48 else (c OR 32) - 97 + 10)"
      have d: "unat d = hex_val c" by (simp add: d_def hex_val_def)
      then have "unat d < 16" using hex_val_less [OF True] by simp
      then have "unat (v * 16 + ucast d) = unat v * 16 + hex_val c" using step [of d] d by simp
      moreover have "hextoi_loop v (Suc (length s)) (c # s @ t)
          = hextoi_loop (v * 16 + ucast d) (length s) (s @ t)"
        using False True by (auto simp: d_def is_hex_def Let_def)
      ultimately show ?thesis using Cons.IH [of "v * 16 + ucast d"] True by simp
    next
      case nohex: False
      then have "\<not> is_digit c" "\<not> (97 \<le> c OR 32 \<and> c OR 32 \<le> 102)" by (simp_all add: is_hex_def)
      with nohex False show ?thesis by (auto simp: Let_def)
    qed
  qed
qed

text \<open>\<^verbatim>\<open>dl_hextoi\<close> returns the hexadecimal value of its text exactly when the text is a non-empty
  run of hexadecimal digits whose value fits \<^verbatim>\<open>uintptr_t\<close>; otherwise it returns \<^verbatim>\<open>DL_ERROR\<close>. It
  reads nothing beyond the text.\<close>

theorem dl_hextoi_spec:
  "dl_hextoi (s @ t) (length s) =
     Some (if s \<noteq> [] \<and> list_all is_hex s \<and> hex_value 0 s < 2 ^ 64 then of_nat (hex_value 0 s)
           else hextoi_error)"
  using hextoi_loop_eq [of 0 s t] by (simp add: dl_hextoi_def)

section \<open>Hexadecimal dumps read back\<close>

lemma c2hex_hex: "x < 16 \<Longrightarrow> is_hex (dl_c2hex x) \<and> hex_val (dl_c2hex x) = unat x"
  by (erule nibble_cases) (simp_all add: dl_c2hex_def is_hex_def is_digit_def hex_val_def)

lemma hextoi_byte:
  "dl_hextoi (dl_c2hex (drop_bit 4 b) # dl_c2hex (b AND 15) # t) 2 = Some (ucast b)"
proof -
  let ?s = "[dl_c2hex (drop_bit 4 b), dl_c2hex (b AND 15)]"
  have "hex_value 0 ?s = unat (drop_bit 4 b) * 16 + unat (b AND 15)"
    by (simp add: c2hex_hex)
  also have "\<dots> = unat b"
    by (simp add: unat_and_15 unat_drop_bit_div)
  finally have v: "hex_value 0 ?s = unat b" .
  have "unat b < 2 ^ 64" by (rule less_trans [OF unat_byte_less]) simp
  moreover have "list_all is_hex ?s" by (simp add: c2hex_hex)
  ultimately have "dl_hextoi (?s @ t) (length ?s) = Some (of_nat (unat b))"
    using dl_hextoi_spec [of ?s t] unfolding v by simp
  then show ?thesis by (simp add: numeral_2_eq_2)
qed

lemma byte_not_error: "(ucast (b :: byte) :: u64) \<noteq> hextoi_error"
proof
  assume "(ucast b :: u64) = hextoi_error"
  then have "bit (ucast b :: u64) 63 \<longleftrightarrow> bit hextoi_error 63" by simp
  then show False by (simp add: hextoi_error_def bit_simps)
qed

lemma dl_hextoi_2: "dl_hextoi line 2 = hextoi_loop 0 (Suc (Suc 0)) line"
  by (simp add: dl_hextoi_def numeral_2_eq_2)

text \<open>A dump: prefix and two hexadecimal digits for every byte.\<close>

definition hex_dump :: "bytes \<Rightarrow> bytes \<Rightarrow> bytes" where
  "hex_dump p s = concat (map (\<lambda>b. p @ [dl_c2hex (drop_bit 4 b), dl_c2hex (b AND 0xf)]) s)"

lemma hex_dump_simps [simp]:
  "hex_dump p [] = []"
  "hex_dump p (b # s) = p @ dl_c2hex (drop_bit 4 b) # dl_c2hex (b AND 0xf) # hex_dump p s"
  by (simp_all add: hex_dump_def)

lemma length_hex_dump: "length (hex_dump p s) = length s * (2 + length p)"
  by (induction s) simp_all

lemma bc2hex_loop_dump: "i + int (length s) < 2 ^ 31 \<Longrightarrow> bc2hex_loop i s p = Some (hex_dump p s)"
  by (induction i s p rule: bc2hex_loop.induct) (simp_all add: Let_def)

lemma hex2bc_loop_dump:
  "length s * (2 + length p) < 2 ^ 64 \<Longrightarrow>
   hex2bc_loop (length p) (hex_dump p s) (of_nat (length s * (2 + length p))) = Some (Some s)"
proof (induction s)
  case Nil
  then show ?case by (simp add: hex2bc_loop.simps)
next
  case (Cons b s)
  let ?n = "length (b # s) * (2 + length p)" and ?m = "length s * (2 + length p)"
  have n: "?n = ?m + (2 + length p)" by simp
  have "unat (of_nat ?n :: u64) = ?n" using Cons.prems by (intro unat_of_nat_len) simp
  then have nz: "(of_nat ?n :: u64) \<noteq> 0" by (metis n add_is_0 unat_0 zero_neq_numeral)
  have sub: "(of_nat ?n :: u64) - (2 + of_nat (length p)) = of_nat ?m"
    unfolding n by simp
  have "?m < 2 ^ 64" using Cons.prems n by linarith
  note IH = Cons.IH [OF this]
  show ?case
    by (subst hex2bc_loop.simps)
      (simp only: nz if_False hex_dump_simps,
       simp add: hextoi_byte byte_not_error sub [simplified] IH [simplified] unsigned_of_nat)
qed

lemma dump_size:
  assumes "length s < 2 ^ 31" "length p + 2 < 2 ^ 31"
  shows "length s * (2 + length p) < 2 ^ 62"
proof -
  have "length s * (2 + length p) \<le> (2 ^ 31 - 1) * (2 ^ 31 - 1)" using assms by (intro mult_le_mono) simp_all
  then show ?thesis by simp
qed

text \<open>C30: of fewer than \<open>2 ^ 31\<close> bytes, with a prefix shorter than \<open>2 ^ 31 - 2\<close> bytes, \<^verbatim>\<open>dl_bc2hex\<close> prints for
  every byte the prefix and its two hexadecimal digits; \<^verbatim>\<open>dl_pbc2hex\<close> asks the pool for exactly the bytes it
  writes, final NUL included; and \<^verbatim>\<open>dl_hex2bc\<close>, given the dump and its length, recovers exactly the dumped
  bytes when the length is even and not 0, and refuses the dump (\<^verbatim>\<open>NULL\<close>) otherwise: a prefix of odd length
  makes the dump of an odd number of bytes unreadable.\<close>

theorem hex_roundtrip:
  assumes "length s < 2 ^ 31" "length p + 2 < 2 ^ 31"
  defines "d \<equiv> hex_dump p s"
  shows "dl_bc2hex s (Some p) = Some d \<and> dl_pbc2hex True s (Some p) = Some (d @ [0])
    \<and> pbc2hex_size s (Some p) = Some (of_nat (length (d @ [0]))) \<and> length (d @ [0]) < 2 ^ 64
    \<and> dl_hex2bc d (of_nat (length d)) (Some p) = Some (if s \<noteq> [] \<and> even (length d) then Some s else None)"
proof -
  have len: "length d = length s * (2 + length p)" "length d < 2 ^ 62"
    using dump_size [OF assms(1,2)] by (simp_all add: d_def length_hex_dump)
  have bc: "dl_bc2hex s (Some p) = Some d"
    using assms(1) by (simp add: dl_bc2hex_def d_def bc2hex_loop_dump)
  have size: "pbc2hex_size s (Some p) = Some (of_nat (length d + 1))"
    using assms(2) by (simp add: pbc2hex_size_def len(1) algebra_simps)
  have un: "unat (of_nat (length d + 1) :: u64) = length d + 1" "unat (of_nat (length d) :: u64) = length d"
    using len(2) by (intro unat_of_nat_len; simp)+
  have pb: "dl_pbc2hex True s (Some p) = Some (d @ [0])"
    using size bc un(1) by (simp add: dl_pbc2hex_def del: of_nat_add)
  have pos: "0 < (of_nat (length d) :: u64) \<longleftrightarrow> s \<noteq> []"
    using un(2) len(1) by (simp add: word_less_nat_alt)
  have par: "(of_nat (length d) :: u64) mod 2 = 0 \<longleftrightarrow> even (length d)"
    using un(2) by (simp add: word_unat_eq_iff unat_mod even_iff_mod_2_eq_zero)
  have "hex2bc_loop (length p) d (of_nat (length d)) = Some (Some s)"
    unfolding len(1) unfolding d_def using len by (intro hex2bc_loop_dump) simp
  then have "dl_hex2bc d (of_nat (length d)) (Some p) = Some (if s \<noteq> [] \<and> even (length d) then Some s else None)"
    using assms(2) by (simp add: dl_hex2bc_def pos par)
  then show ?thesis using bc pb size len(2) by simp
qed

theorem hex_roundtrip_witness:
  "dl_bc2hex (lit ''hi'') (Some (lit ''0x'')) = Some (lit ''0x680x69'')
    \<and> dl_hex2bc (lit ''0x680x69'') 8 (Some (lit ''0x'')) = Some (Some (lit ''hi''))"
  using hex_roundtrip [of "lit ''hi''" "lit ''0x''"] by (simp add: dl_c2hex_def)

text \<open>The parity test is on the whole dump, prefixes included: with a one-byte prefix the dump of a
  single byte is refused (\<^verbatim>\<open>NULL\<close>), although it is well-formed.\<close>

theorem hex_odd_prefix_refused:
  "dl_hex2bc (hex_dump [c] [b]) 3 (Some [c]) = Some None
   \<and> hex2bc_loop 1 (hex_dump [c] [b]) 3 = Some (Some [b])"
  using hex2bc_loop_dump [of "[b]" "[c]"] by (simp add: dl_hex2bc_def)

text \<open>A length that is even but no multiple of prefix plus two makes the count wrap: the reader runs on
  past the end of the dump.\<close>

lemma hex2bc_overrun: "dl_hex2bc (lit ''0x410x'') 6 (Some (lit ''0x'')) = None"
proof -
  have "hex2bc_loop 2 (lit ''0x'') 2 = None"
    by (subst hex2bc_loop.simps) (simp add: dl_hextoi_2 hextoi_cutoff_def)
  moreover have "hex2bc_loop 2 (lit ''0x410x'') 6 =
      map_option (map_option ((#) 0x41)) (hex2bc_loop 2 (lit ''0x'') 2)"
    by (subst hex2bc_loop.simps)
      (simp add: dl_hextoi_2 hextoi_cutoff_def is_digit_def hextoi_error_def)
  ultimately show ?thesis by (simp add: dl_hex2bc_def numeral_2_eq_2 [symmetric])
qed

end
