(* ===== verification/Dl_Search.thy ===== *)
theory Dl_Search
  imports Dl_Prelude
begin

text \<open>
  Searching, splitting and replacing in \<^verbatim>\<open>dl_string.c\<close>. A pointer into a string is the list of
  bytes from it to the end of the string, a returned pointer its offset, the pieces a split
  pushes (start and length into the original text) are the bytes they denote. \<^verbatim>\<open>dl_split_by_c\<close> keeps
  its length in an \<^verbatim>\<open>int\<close>: its model is for texts shorter than \<open>2 ^ 31\<close> bytes.
  Allocations (\<^verbatim>\<open>dl_array_create\<close>, \<^verbatim>\<open>dl_array_push\<close>, \<^verbatim>\<open>dl_palloc\<close>) come from a pool whose outcome the
  caller does not control: \<open>ok n\<close> says whether the \<open>n\<close>-th one in program order succeeds.
\<close>

section \<open>dl_strnchr and dl_split_by_c\<close>

fun dl_strnchr :: "bytes \<Rightarrow> byte \<Rightarrow> nat option" where
  "dl_strnchr [] c = None"
| "dl_strnchr (x # str) c = (if x = c then Some 0 else map_option Suc (dl_strnchr str c))"

text \<open>The \<^verbatim>\<open>for (;;)\<close> loop; \<open>n\<close> numbers the pushes. \<open>None\<close> is the \<^verbatim>\<open>NULL\<close> return.\<close>

function split_by_c_loop :: "(nat \<Rightarrow> bool) \<Rightarrow> nat \<Rightarrow> bytes \<Rightarrow> byte \<Rightarrow> bytes list option" where
  "split_by_c_loop ok n beg c =
     (let cur = (case dl_strnchr beg c of None \<Rightarrow> length beg | Some k \<Rightarrow> k) in
      if \<not> ok n then None
      else if cur = length beg then Some [take cur beg]
      else map_option ((#) (take cur beg)) (split_by_c_loop ok (Suc n) (drop (Suc cur) beg) c))"
  by pat_completeness auto
termination
proof (relation "measure (\<lambda>(ok, n, beg, c). length beg)", goal_cases)
  case (2 ok n beg c cur)
  then show ?case by (cases beg) auto
qed simp

declare split_by_c_loop.simps [simp del]

definition dl_split_by_c :: "(nat \<Rightarrow> bool) \<Rightarrow> bytes \<Rightarrow> byte \<Rightarrow> bytes list option" where
  "dl_split_by_c ok str c = (if \<not> ok 0 then None else split_by_c_loop ok 1 str c)"

section \<open>dl_strnstr\<close>

text \<open>
  Both \<^verbatim>\<open>do\<close> loops: \<open>c2\<close> and \<open>t\<close> are the first byte and the rest of the needle, \<open>pos\<close> the offset of
  the byte about to be read. A NUL byte in the text ends the search.
\<close>

fun strnstr_loop :: "byte \<Rightarrow> bytes \<Rightarrow> nat \<Rightarrow> bytes \<Rightarrow> nat option" where
  "strnstr_loop c2 t pos [] = None"
| "strnstr_loop c2 t pos (c1 # s1) =
     (if c1 = 0 then None
      else if c1 \<noteq> c2 then strnstr_loop c2 t (Suc pos) s1
      else if length s1 < length t then None
      else if take (length t) s1 \<noteq> t then strnstr_loop c2 t (Suc pos) s1
      else Some pos)"

definition dl_strnstr :: "bytes \<Rightarrow> bytes \<Rightarrow> nat option" where
  "dl_strnstr s1 s2 = (case s2 of [] \<Rightarrow> None | c2 # t \<Rightarrow> strnstr_loop c2 t 0 s1)"

text \<open>\<open>p\<close> occurs in \<open>s\<close> at offset \<open>k\<close>.\<close>

definition occurs_at :: "bytes \<Rightarrow> bytes \<Rightarrow> nat \<Rightarrow> bool" where
  "occurs_at s p k \<longleftrightarrow> take (length p) (drop k s) = p"

lemma strnstr_loop_Some:
  "strnstr_loop c2 t pos s = Some r \<Longrightarrow>
   \<exists>k. r = pos + k \<and> occurs_at s (c2 # t) k \<and> k < length s \<and> 0 \<notin> set (take (Suc k) s)
     \<and> (\<forall>j<k. \<not> occurs_at s (c2 # t) j)"
proof (induction s arbitrary: pos)
  case (Cons c1 s)
  show ?case
  proof (cases "c1 = c2 \<and> take (length t) s = t")
    case True
    then show ?thesis using Cons.prems by (intro exI [of _ 0]) (auto simp: occurs_at_def split: if_splits)
  next
    case False
    then have "strnstr_loop c2 t (Suc pos) s = Some r" "c1 \<noteq> 0"
      using Cons.prems by (auto split: if_splits)
    from Cons.IH [OF this(1)] obtain k where k: "r = Suc pos + k" "occurs_at s (c2 # t) k"
      "k < length s" "0 \<notin> set (take (Suc k) s)" "\<forall>j<k. \<not> occurs_at s (c2 # t) j" by blast
    have "\<forall>j<Suc k. \<not> occurs_at (c1 # s) (c2 # t) j"
    proof (intro allI impI)
      fix j assume "j < Suc k"
      then show "\<not> occurs_at (c1 # s) (c2 # t) j"
        using False k(5) by (cases j) (auto simp: occurs_at_def)
    qed
    then show ?thesis
      using k \<open>c1 \<noteq> 0\<close> by (intro exI [of _ "Suc k"]) (auto simp: occurs_at_def)
  qed
qed simp

lemma strnstr_loop_finds:
  "occurs_at s (c2 # t) k \<Longrightarrow> k < length s \<Longrightarrow> 0 \<notin> set (take (Suc k) s) \<Longrightarrow>
   strnstr_loop c2 t pos s \<noteq> None"
proof (induction s arbitrary: pos k)
  case (Cons c1 s)
  show ?case
  proof (cases k)
    case 0
    then show ?thesis using Cons.prems by (auto simp: occurs_at_def dest: arg_cong [of _ _ length])
  next
    case (Suc j)
    then have s: "occurs_at s (c2 # t) j" "j < length s" "0 \<notin> set (take (Suc j) s)" "c1 \<noteq> 0"
      using Cons.prems by (auto simp: occurs_at_def)
    have "length (c2 # t) \<le> length (drop j s)"
      using s(1) unfolding occurs_at_def by (metis length_take min.cobounded1 min.commute)
    then have "length t < length s" by simp
    then show ?thesis using Cons.IH [OF s(1-3), of "Suc pos"] s(4) by auto
  qed
qed simp

lemma strnstr_iff:
  "dl_strnstr s p = Some k \<longleftrightarrow>
   p \<noteq> [] \<and> occurs_at s p k \<and> 0 \<notin> set (take (Suc k) s) \<and> (\<forall>j<k. \<not> occurs_at s p j)"
proof (cases p)
  case (Cons c2 t)
  show ?thesis
  proof
    assume "dl_strnstr s p = Some k"
    then show "p \<noteq> [] \<and> occurs_at s p k \<and> 0 \<notin> set (take (Suc k) s) \<and> (\<forall>j<k. \<not> occurs_at s p j)"
      using strnstr_loop_Some [of c2 t 0 s k] by (auto simp: dl_strnstr_def Cons)
  next
    assume R: "p \<noteq> [] \<and> occurs_at s p k \<and> 0 \<notin> set (take (Suc k) s) \<and> (\<forall>j<k. \<not> occurs_at s p j)"
    then have "drop k s \<noteq> []" by (auto simp: occurs_at_def Cons)
    then have "k < length s" by simp
    with R have "strnstr_loop c2 t 0 s \<noteq> None" by (intro strnstr_loop_finds) (auto simp: Cons)
    then obtain r where r: "strnstr_loop c2 t 0 s = Some r" by auto
    from strnstr_loop_Some [OF r] R have "r = k"
      by (metis Cons add_0 linorder_neqE_nat)
    with r show "dl_strnstr s p = Some k" by (simp add: dl_strnstr_def Cons)
  qed
qed (simp add: dl_strnstr_def)

text \<open>C11: \<^verbatim>\<open>dl_strnstr\<close> returns the offset of the first occurrence of the needle, provided the needle is
  not empty and no NUL byte stands before or at that offset, and \<^verbatim>\<open>NULL\<close> in every other case.\<close>

theorem dl_strnstr_spec:
  "dl_strnstr s p = Some k \<longleftrightarrow>
   p \<noteq> [] \<and> occurs_at s p k \<and> 0 \<notin> set (take (Suc k) s) \<and> (\<forall>j<k. \<not> occurs_at s p j)"
  by (rule strnstr_iff)

theorem dl_strnstr_spec_witness:
  "dl_strnstr (lit ''abcabd'') (lit ''abd'') = Some 3"
  unfolding dl_strnstr_spec
proof (intro conjI allI impI)
  fix j :: nat assume "j < 3"
  then have "j = 0 \<or> j = 1 \<or> j = 2" by arith
  then show "\<not> occurs_at (lit ''abcabd'') (lit ''abd'') j" by (auto simp: occurs_at_def)
qed (simp_all add: occurs_at_def)

lemma strnstr_split:
  assumes "dl_strnstr s p = Some k"
  shows "s = take k s @ p @ drop (k + length p) s" and "p \<noteq> []" and "k + length p \<le> length s"
    and "k < length s"
proof -
  from assms have p: "p \<noteq> []" and occ: "take (length p) (drop k s) = p"
    by (auto simp: strnstr_iff occurs_at_def)
  have "s = take k s @ take (length p) (drop k s) @ drop (length p) (drop k s)"
    by (simp only: append_take_drop_id)
  then show "s = take k s @ p @ drop (k + length p) s"
    using occ by (simp add: add.commute)
  have "length p \<le> length (drop k s)" using occ by (metis length_take min.cobounded1 min.commute)
  then show "k + length p \<le> length s" and "k < length s" using p by (cases p; simp)+
  show "p \<noteq> []" by (rule p)
qed

lemma strnstr_rest:
  assumes "dl_strnstr s p = Some k"
  shows "length (drop (k + length p) s) < length s"
  using strnstr_split(2,4) [OF assms] by (cases p) auto

section \<open>Counting, splitting and replacing\<close>

function dl_substr_num :: "bytes \<Rightarrow> bytes \<Rightarrow> nat" where
  "dl_substr_num s1 s2 =
     (case dl_strnstr s1 s2 of
        None \<Rightarrow> 0
      | Some res \<Rightarrow>
          let s1' = drop (res + length s2) s1 in
          if length s1' < length s2 then 1 else 1 + dl_substr_num s1' s2)"
  by pat_completeness auto
termination
proof (relation "measure (\<lambda>(s1, s2). length s1)", goal_cases)
  case (2 s1 s2 res s1')
  then show ?case using strnstr_rest [of s1 s2 res] by simp
qed simp

text \<open>
  The loop of \<^verbatim>\<open>dl_split_by_s\<close> and of its list twin: the pushes inside the loop are checked, the last
  one is not, so its failure is a store through \<^verbatim>\<open>NULL\<close>. \<open>Some None\<close> is the \<^verbatim>\<open>NULL\<close> return.
\<close>

function split_by_s_loop :: "(nat \<Rightarrow> bool) \<Rightarrow> nat \<Rightarrow> bytes \<Rightarrow> bytes \<Rightarrow> bytes list option option" where
  "split_by_s_loop ok n s1 s2 =
     (case dl_strnstr s1 s2 of
        None \<Rightarrow> if ok n then Some (Some [s1]) else None
      | Some res \<Rightarrow>
          if \<not> ok n then Some None
          else map_option (map_option ((#) (take res s1)))
                 (split_by_s_loop ok (Suc n) (drop (res + length s2) s1) s2))"
  by pat_completeness auto
termination
proof (relation "measure (\<lambda>(ok, n, s1, s2). length s1)", goal_cases)
  case (2 ok n s1 s2 res)
  then show ?case using strnstr_rest [of s1 s2 res] by simp
qed simp

declare dl_substr_num.simps [simp del] split_by_s_loop.simps [simp del]

definition dl_split_by_s :: "(nat \<Rightarrow> bool) \<Rightarrow> bytes \<Rightarrow> bytes \<Rightarrow> bytes list option option" where
  "dl_split_by_s ok s1 s2 = (if \<not> ok 0 then Some None else split_by_s_loop ok 1 s1 s2)"

definition dl_split_by_s_l :: "(nat \<Rightarrow> bool) \<Rightarrow> bytes \<Rightarrow> bytes \<Rightarrow> bytes list option option" where
  "dl_split_by_s_l ok s1 s2 = (if \<not> ok 0 then Some None else split_by_s_loop ok 1 s1 s2)"

text \<open>
  The first loop of \<^verbatim>\<open>dl_str_replace\<close>: the pieces, the next allocation number and the running
  \<^verbatim>\<open>int total\<close>, which wraps at 32 bits. Its pushes are not checked.
\<close>

function replace_loop :: "(nat \<Rightarrow> bool) \<Rightarrow> nat \<Rightarrow> u32 \<Rightarrow> bytes \<Rightarrow> bytes \<Rightarrow> nat
    \<Rightarrow> (bytes list \<times> nat \<times> u32) option" where
  "replace_loop ok n tot s1 s2 len_3 =
     (if \<not> ok n then None
      else case dl_strnstr s1 s2 of
        None \<Rightarrow> Some ([s1], Suc n, tot + of_nat (length s1))
      | Some res \<Rightarrow>
          do { (parts, n', tot') \<leftarrow> replace_loop ok (Suc n) (tot + of_nat (res + len_3))
                                      (drop (res + length s2) s1) s2 len_3;
               Some (take res s1 # parts, n', tot') })"
  by pat_completeness auto
termination
proof (relation "measure (\<lambda>(ok, n, tot, s1, s2, len_3). length s1)", goal_cases)
  case (2 ok n tot s1 s2 len_3 res)
  then show ?case using strnstr_rest [of s1 s2 res] by simp
qed simp

declare replace_loop.simps [simp del]

text \<open>The second loop: every part, followed by the replacement unless the part is the last one.\<close>

fun copy_parts :: "bytes list \<Rightarrow> bytes \<Rightarrow> bytes" where
  "copy_parts [] s3 = []"
| "copy_parts [part] s3 = part"
| "copy_parts (part # q # parts) s3 = part @ s3 @ copy_parts (q # parts) s3"

text \<open>
  The result block holds \<^verbatim>\<open>(size_t) total\<close> bytes: where the 32-bit sum is not the number of bytes
  copied, the copy runs over the block (or the block cannot be allocated).
\<close>

definition dl_str_replace :: "(nat \<Rightarrow> bool) \<Rightarrow> bytes \<Rightarrow> bytes \<Rightarrow> bytes \<Rightarrow> bytes option option" where
  "dl_str_replace ok s1 s2 s3 =
     (if \<not> ok 0 then Some None
      else if \<not> ok 1 then Some None
      else do { (parts, n, tot) \<leftarrow> replace_loop ok 2 0 s1 s2 (length s3);
                let out = copy_parts parts s3;
                if \<not> ok n \<or> \<not> ok (Suc n) then None
                else if unat (scast tot :: u64) \<noteq> length out then None
                else Some (Some out) })"

section \<open>The pieces of a text\<close>

text \<open>The reference: cut the text at the leftmost occurrence of the needle, again and again.\<close>

function pieces :: "bytes \<Rightarrow> bytes \<Rightarrow> bytes list" where
  "pieces s p =
     (case dl_strnstr s p of None \<Rightarrow> [s] | Some k \<Rightarrow> take k s # pieces (drop (k + length p) s) p)"
  by pat_completeness auto
termination
proof (relation "measure (\<lambda>(s, p). length s)", goal_cases)
  case (2 s p k)
  then show ?case using strnstr_rest [of s p k] by simp
qed simp

declare pieces.simps [simp del]

lemma pieces_None [simp]: "dl_strnstr s p = None \<Longrightarrow> pieces s p = [s]"
  by (simp add: pieces.simps)

lemma pieces_Some [simp]:
  "dl_strnstr s p = Some k \<Longrightarrow> pieces s p = take k s # pieces (drop (k + length p) s) p"
  by (simp add: pieces.simps [of s p])

lemma pieces_not_Nil [simp]: "pieces s p \<noteq> []"
  by (cases "dl_strnstr s p") simp_all

lemma copy_parts_Cons: "parts \<noteq> [] \<Longrightarrow> copy_parts (q # parts) s3 = q @ s3 @ copy_parts parts s3"
  by (cases parts) simp_all

lemma copy_pieces: "copy_parts (pieces s p) p = s"
proof (induction s p rule: pieces.induct)
  case (1 s p)
  then show ?case
    using strnstr_split(1) [of s p] by (cases "dl_strnstr s p") (simp_all add: copy_parts_Cons)
qed

text \<open>A text cut before a first occurrence holds none itself.\<close>

lemma strnstr_take_None:
  assumes "dl_strnstr s p = Some k" shows "dl_strnstr (take k s) p = None"
proof (rule ccontr)
  assume "dl_strnstr (take k s) p \<noteq> None"
  then obtain j where j: "dl_strnstr (take k s) p = Some j" by auto
  then have occ: "occurs_at (take k s) p j" by (simp add: strnstr_iff)
  have len: "j + length p \<le> k" using strnstr_split(3) [OF j] by simp
  have "j < k" using strnstr_split(4) [OF j] by simp
  have "take (length p) (drop j s) = take (length p) (drop j (take k s))"
    using len by (simp add: drop_take take_take min_def)
  then have "occurs_at s p j" using occ by (simp add: occurs_at_def)
  with \<open>j < k\<close> assms show False by (auto simp: strnstr_iff)
qed

lemma pieces_no_needle: "q \<in> set (pieces s p) \<Longrightarrow> dl_strnstr q p = None"
proof (induction s p rule: pieces.induct)
  case (1 s p)
  then show ?case by (cases "dl_strnstr s p") (auto dest: strnstr_take_None)
qed

lemma split_loop_pieces: "split_by_s_loop (\<lambda>_. True) n s p = Some (Some (pieces s p))"
proof (induction s p arbitrary: n rule: pieces.induct)
  case (1 s p)
  show ?case
    by (subst split_by_s_loop.simps, cases "dl_strnstr s p") (simp_all add: 1)
qed

text \<open>When no allocation fails, \<^verbatim>\<open>dl_split_by_s\<close> (array and list version alike) returns pieces that,
  joined by the separator, are the text again, and none of which holds a further separator.\<close>

theorem split_by_s_spec:
  "\<exists>ps. dl_split_by_s (\<lambda>_. True) s p = Some (Some ps) \<and> dl_split_by_s_l (\<lambda>_. True) s p = Some (Some ps)
     \<and> copy_parts ps p = s \<and> set ps \<subseteq> {q. dl_strnstr q p = None} \<and> ps \<noteq> []"
proof (intro exI conjI)
  show "dl_split_by_s (\<lambda>_. True) s p = Some (Some (pieces s p))"
    and "dl_split_by_s_l (\<lambda>_. True) s p = Some (Some (pieces s p))"
    by (simp_all add: dl_split_by_s_def dl_split_by_s_l_def split_loop_pieces)
  show "set (pieces s p) \<subseteq> {q. dl_strnstr q p = None}" using pieces_no_needle by blast
qed (simp_all add: copy_pieces)

text \<open>The last push of \<^verbatim>\<open>dl_split_by_s\<close> is not checked: for a text without separator the code stores
  through \<^verbatim>\<open>NULL\<close> when that one allocation fails.\<close>

theorem split_by_s_unchecked_push:
  "dl_strnstr s p = None \<Longrightarrow> dl_split_by_s (\<lambda>n. n < 1) s p = None"
  by (simp add: dl_split_by_s_def split_by_s_loop.simps)

theorem split_by_s_unchecked_push_witness: "dl_split_by_s (\<lambda>n. n < 1) (lit ''ab'') (lit '','') = None"
  by (rule split_by_s_unchecked_push) (simp add: dl_strnstr_def)

lemma strnstr_short: "length s < length p \<Longrightarrow> dl_strnstr s p = None"
  using strnstr_split(3) [of s p] by (cases "dl_strnstr s p") auto

lemma substr_num_None: "dl_strnstr s p = None \<Longrightarrow> dl_substr_num s p = 0"
  by (simp add: dl_substr_num.simps)

lemma substr_num_Some:
  assumes "dl_strnstr s p = Some k"
  shows "dl_substr_num s p = 1 + dl_substr_num (drop (k + length p) s) p"
proof (cases "length (drop (k + length p) s) < length p")
  case True
  then show ?thesis
    using assms substr_num_None [OF strnstr_short [OF True]]
    by (subst dl_substr_num.simps) (simp add: Let_def del: length_drop)
next
  case False
  then show ?thesis
    using assms by (subst dl_substr_num.simps) (simp add: Let_def del: length_drop)
qed

text \<open>\<^verbatim>\<open>dl_substr_num\<close> counts exactly the cuts \<^verbatim>\<open>dl_split_by_s\<close> makes: its early exit when the rest is
  shorter than the needle loses none.\<close>

theorem substr_num_spec: "dl_substr_num s p + 1 = length (pieces s p)"
proof (induction s p rule: pieces.induct)
  case (1 s p)
  show ?case
  proof (cases "dl_strnstr s p")
    case None
    then show ?thesis by (simp add: substr_num_None)
  next
    case (Some k)
    then show ?thesis using 1 [OF Some] by (simp add: substr_num_Some)
  qed
qed

section \<open>Splitting at a byte\<close>

lemma strnchr_split:
  "dl_strnchr s c = Some k \<Longrightarrow>
   s = take k s @ c # drop (Suc k) s \<and> c \<notin> set (take k s) \<and> k < length s"
proof (induction s arbitrary: k)
  case (Cons x s)
  then show ?case by (cases k) (auto split: if_splits)
qed simp

lemma strnchr_None: "dl_strnchr s c = None \<longleftrightarrow> c \<notin> set s"
  by (induction s) auto

lemma split_by_c_step_None:
  "dl_strnchr s c = None \<Longrightarrow> split_by_c_loop (\<lambda>_. True) n s c = Some [s]"
  by (subst split_by_c_loop.simps) simp

lemma split_by_c_step_Some:
  "dl_strnchr s c = Some k \<Longrightarrow> split_by_c_loop (\<lambda>_. True) n s c
     = map_option ((#) (take k s)) (split_by_c_loop (\<lambda>_. True) (Suc n) (drop (Suc k) s) c)"
  using strnchr_split [of s c k] by (subst split_by_c_loop.simps) (simp add: Let_def)

lemma split_by_c_loop_spec:
  "\<exists>ps. split_by_c_loop (\<lambda>_. True) n s c = Some ps \<and> copy_parts ps [c] = s
     \<and> (\<forall>q \<in> set ps. c \<notin> set q) \<and> ps \<noteq> []"
proof (induction "length s" arbitrary: s n rule: less_induct)
  case less
  show ?case
  proof (cases "dl_strnchr s c")
    case None
    then show ?thesis by (simp add: split_by_c_step_None strnchr_None)
  next
    case (Some k)
    from strnchr_split [OF this] have s: "s = take k s @ c # drop (Suc k) s" "c \<notin> set (take k s)"
      and lt: "length (drop (Suc k) s) < length s" by auto
    from less [OF lt, of "Suc n"] obtain ps where
      ps: "split_by_c_loop (\<lambda>_. True) (Suc n) (drop (Suc k) s) c = Some ps"
      "copy_parts ps [c] = drop (Suc k) s" "\<forall>q \<in> set ps. c \<notin> set q" "ps \<noteq> []" by blast
    then show ?thesis
      using s Some by (simp add: split_by_c_step_Some copy_parts_Cons)
  qed
qed

text \<open>When no allocation fails, \<^verbatim>\<open>dl_split_by_c\<close> returns at least one piece, the pieces joined by
  the separator are the text again, and no piece holds the separator.\<close>

theorem split_by_c_spec:
  "\<exists>ps. dl_split_by_c (\<lambda>_. True) s c = Some ps \<and> copy_parts ps [c] = s
     \<and> list_all (\<lambda>q. c \<notin> set q) ps \<and> ps \<noteq> []"
  using split_by_c_loop_spec [of 1 s c] by (auto simp: dl_split_by_c_def list_all_iff)

section \<open>Replacing\<close>

lemma replace_loop_pieces:
  "\<exists>n' tot'. replace_loop (\<lambda>_. True) n tot s p m = Some (pieces s p, n', tot')
     \<and> tot' = tot + of_nat (sum_list (map length (pieces s p)) + m * (length (pieces s p) - 1))"
proof (induction s p arbitrary: n tot rule: pieces.induct)
  case (1 s p)
  show ?case
  proof (cases "dl_strnstr s p")
    case None
    then show ?thesis by (subst replace_loop.simps) simp
  next
    case (Some k)
    obtain j where j: "length (pieces (drop (k + length p) s) p) = Suc j"
      by (cases "pieces (drop (k + length p) s) p") simp_all
    have "k \<le> length s" using strnstr_split(4) [OF Some] by simp
    then show ?thesis
      using 1 [OF Some, of "Suc n" "tot + of_nat (k + m)"] Some j
      by (subst replace_loop.simps) (auto simp: algebra_simps)
  qed
qed

lemma length_copy_parts:
  "length (copy_parts ps r) = sum_list (map length ps) + length r * (length ps - 1)"
proof (induction ps r rule: copy_parts.induct)
  case (3 part q parts s3)
  then show ?case by (simp add: algebra_simps)
qed simp_all

lemma int_total:
  assumes "n < 2 ^ 31" shows "unat (scast (of_nat n :: u32) :: u64) = n"
proof -
  have "sint (of_nat n :: u32) = int n"
  proof -
    have "sint (of_nat n :: u32) = signed_take_bit 31 (int n)"
      by (simp add: of_nat_nat [symmetric] signed_of_nat)
    also have "\<dots> = int n" using assms by (intro signed_take_bit_int_eq_self) simp_all
    finally show ?thesis .
  qed
  then have "scast (of_nat n :: u32) = (of_nat n :: u64)"
    by (simp add: scast_eq)
  moreover have "n < 2 ^ 64" using assms by (rule less_trans) simp
  ultimately show ?thesis by (simp add: unat_of_nat_len)
qed

text \<open>C31: \<^verbatim>\<open>dl_str_replace\<close> of \<open>s2\<close> by \<open>s3\<close> returns the pieces of the text around the occurrences of \<open>s2\<close>,
  joined by \<open>s3\<close>, when no allocation fails and the result fits the \<^verbatim>\<open>int\<close> total; those pieces joined
  by \<open>s2\<close> are the input.\<close>

theorem str_replace_spec:
  assumes "length (copy_parts (pieces s1 s2) s3) < 2 ^ 31"
  shows "dl_str_replace (\<lambda>_. True) s1 s2 s3 = Some (Some (copy_parts (pieces s1 s2) s3))
    \<and> copy_parts (pieces s1 s2) s2 = s1"
proof -
  obtain n tot where "replace_loop (\<lambda>_. True) 2 0 s1 s2 (length s3) = Some (pieces s1 s2, n, tot)"
    and "tot = of_nat (length (copy_parts (pieces s1 s2) s3))"
    using replace_loop_pieces [of 2 0 s1 s2 "length s3"] by (auto simp: length_copy_parts)
  then show ?thesis
    using assms
    by (simp add: dl_str_replace_def int_total Let_def copy_pieces del: of_nat_add of_nat_mult)
qed

theorem str_replace_spec_witness:
  "dl_str_replace (\<lambda>_. True) (lit ''a,b'') (lit '','') (lit ''::'') = Some (Some (lit ''a::b''))"
proof -
  have p: "pieces (lit ''a,b'') (lit '','') = [lit ''a'', lit ''b'']"
    by (simp add: pieces.simps dl_strnstr_def)
  show ?thesis
    using str_replace_spec [of "lit ''a,b''" "lit '',''" "lit ''::''"] unfolding p by simp
qed

end
