(* ===== verification/Dl_Utf8.thy ===== *)
theory Dl_Utf8
  imports Dl_Prelude
begin

text \<open>
  UTF-8 decoding in \<^verbatim>\<open>dl_string.c\<close>. The memory from the current position on is a list of bytes; a
  read past its end is \<open>None\<close>. \<^verbatim>\<open>dl_utf8_decode\<close> returns the code and the memory from the moved
  pointer on; the parameter \<open>n\<close> is the \<^verbatim>\<open>size_t\<close> the caller passes, wrap-around of \<open>n - 1\<close> included.
\<close>

section \<open>The code\<close>

abbreviation utf8_error :: u32 where "utf8_error \<equiv> 0xffffffff"
abbreviation utf8_incomplete :: u32 where "utf8_incomplete \<equiv> 0xfffffffe"

text \<open>The \<^verbatim>\<open>while (len)\<close> loop; the inner \<open>None\<close> is the return on a byte below \<^verbatim>\<open>0x80\<close>.\<close>

fun utf8_loop :: "nat \<Rightarrow> u32 \<Rightarrow> bytes \<Rightarrow> (u32 option \<times> bytes) option" where
  "utf8_loop 0 u p = Some (Some u, p)"
| "utf8_loop (Suc len) u [] = None"
| "utf8_loop (Suc len) u (b # p) =
     (let i = ucast b in
      if i < 0x80 then Some (None, p)
      else utf8_loop len (push_bit 6 u OR (i AND 0x3f)) p)"

definition dl_utf8_decode :: "bytes \<Rightarrow> u64 \<Rightarrow> (u32 \<times> bytes) option" where
  "dl_utf8_decode p n =
     (case p of
        [] \<Rightarrow> None
      | b # p' \<Rightarrow>
          let u = ucast b in
          if u < 0xc2 then Some (utf8_error, p')
          else
            let (u, valid, len) =
                  (if 0xf0 \<le> u then (u AND 0x07, 0xffff, 3)
                   else if 0xe0 \<le> u then (u AND 0x0f, 0x7ff, 2)
                   else (u AND 0x1f, 0x7f, 1 :: nat)) in
            if n - 1 < of_nat len then Some (utf8_incomplete, p)
            else
              do { (r, q) \<leftarrow> utf8_loop len u p';
                   Some (case r of
                           None \<Rightarrow> (utf8_error, q)
                         | Some u' \<Rightarrow> (if valid < u' then u' else utf8_error, q)) })"

lemma utf8_loop_length: "utf8_loop len u p = Some (r, q) \<Longrightarrow> length q \<le> length p"
  by (induction len u p rule: utf8_loop.induct) (auto simp: Let_def split: if_splits)

lemma utf8_decode_progress:
  "dl_utf8_decode p n = Some (u, q) \<Longrightarrow> u \<noteq> utf8_incomplete \<Longrightarrow> length q < length p"
  by (auto simp: dl_utf8_decode_def Let_def split: list.splits if_splits option.splits
        Option.bind_splits dest!: utf8_loop_length)

text \<open>
  The loop of \<^verbatim>\<open>dl_utf8_length\<close>: \<open>past\<close> is the number of readable bytes behind \<open>last\<close>, so \<^verbatim>\<open>p < last\<close> is
  \<open>past < length p\<close>. Every decode is handed the full length \<open>n\<close>.
\<close>

function utf8_length_loop :: "u64 \<Rightarrow> nat \<Rightarrow> bytes \<Rightarrow> u64 \<Rightarrow> u64 option" where
  "utf8_length_loop n past p len =
     (if length p \<le> past then Some len
      else if hd p < 0x80 then utf8_length_loop n past (tl p) (len + 1)
      else case dl_utf8_decode p n of
        None \<Rightarrow> None
      | Some (u, q) \<Rightarrow>
          if 0x10ffff < u then Some n else utf8_length_loop n past q (len + 1))"
  by pat_completeness auto
termination
proof (relation "measure (\<lambda>(n, past, p, len). length p)", goal_cases)
  case (3 n past p len a u q)
  then show ?case using utf8_decode_progress [of p n u q] by (cases "u = utf8_incomplete") auto
qed auto

declare utf8_length_loop.simps [simp del]

text \<open>\<open>p\<close> is the text, \<open>rest\<close> what can be read behind it.\<close>

definition dl_utf8_length :: "bytes \<Rightarrow> bytes \<Rightarrow> u64 option" where
  "dl_utf8_length p rest = utf8_length_loop (of_nat (length p)) (length rest) (p @ rest) 0"

section \<open>The encoding of RFC 3629\<close>

definition utf8_enc :: "nat \<Rightarrow> bytes" where
  "utf8_enc c =
     (if c < 0x80 then [of_nat c]
      else if c < 0x800 then [of_nat (0xc0 + c div 64), of_nat (0x80 + c mod 64)]
      else if c < 0x10000 then
        [of_nat (0xe0 + c div 4096), of_nat (0x80 + c div 64 mod 64), of_nat (0x80 + c mod 64)]
      else [of_nat (0xf0 + c div 262144), of_nat (0x80 + c div 4096 mod 64),
            of_nat (0x80 + c div 64 mod 64), of_nat (0x80 + c mod 64)])"

abbreviation code_point :: "nat \<Rightarrow> bool" where "code_point c \<equiv> c < 0x110000"

lemma unat_of_nat_byte: "k < 256 \<Longrightarrow> unat (of_nat k :: byte) = k"
  by (rule unat_of_nat_len) simp

lemma ucast_of_nat_byte: "k < 256 \<Longrightarrow> ucast (of_nat k :: byte) = (of_nat k :: u32)"
  by (simp add: word_unat_eq_iff unat_of_nat_byte unsigned_ucast_eq take_bit_nat_eq_self unat_of_nat_len)

lemma of_nat_less_u32:
  "k < 2 ^ 32 \<Longrightarrow> j < 2 ^ 32 \<Longrightarrow> (of_nat k < (of_nat j :: u32)) = (k < j)"
  by (simp add: word_less_nat_alt unat_of_nat_len)

lemma byte_u32_less:
  assumes "k < 256"
  shows "(of_nat k < (0x80 :: u32)) = (k < 0x80)" and "(of_nat k < (0xc2 :: u32)) = (k < 0xc2)"
    and "((0xe0 :: u32) \<le> of_nat k) = (0xe0 \<le> k)" and "((0xf0 :: u32) \<le> of_nat k) = (0xf0 \<le> k)"
  using assms of_nat_less_u32 [of k "0x80"] of_nat_less_u32 [of k "0xc2"] of_nat_less_u32 [of k "0xe0"]
    of_nat_less_u32 [of k "0xf0"]
  by (simp_all add: linorder_not_less [symmetric])

lemma of_nat_and_mask: "of_nat k AND mask m = (of_nat (k mod 2 ^ m) :: 'a::len word)"
proof -
  have "of_nat k AND mask m = take_bit m (of_nat k :: 'a word)" by (simp only: take_bit_eq_mask)
  also have "\<dots> = of_nat (take_bit m k)" by (rule take_bit_of_nat)
  finally show ?thesis by (simp only: take_bit_eq_mod)
qed

lemma masks:
  "(0x3f :: u32) = mask 6" "(0x1f :: u32) = mask 5" "(0x0f :: u32) = mask 4" "(0x07 :: u32) = mask 3"
  by (simp_all add: mask_eq_exp_minus_1)

lemma nat_shift_or: "b < 64 \<Longrightarrow> push_bit 6 a OR b = 64 * a + (b :: nat)"
proof -
  assume "b < 64"
  then have "take_bit 6 b = b" by (simp add: take_bit_nat_eq_self)
  then have "\<not> bit b n" if "6 \<le> n" for n using that by (metis bit_take_bit_iff not_le)
  then have "push_bit 6 a AND b = 0"
    by (intro bit_eqI) (auto simp: bit_simps)
  then have "push_bit 6 a OR b = push_bit 6 a + b" by (simp add: disjunctive_add_eq_or)
  then show ?thesis by (simp add: push_bit_eq_mult)
qed

lemma utf8_step:
  assumes "b < 64"
  shows "push_bit 6 (of_nat a) OR (ucast (of_nat (0x80 + b) :: byte) AND 0x3f) = (of_nat (64 * a + b) :: u32)"
proof -
  have "(0x80 + b) mod 2 ^ 6 = b" using assms mod_mult_self1 [of b 2 64] by (simp add: add.commute)
  then have "ucast (of_nat (0x80 + b) :: byte) AND 0x3f = (of_nat b :: u32)"
    using assms by (simp only: ucast_of_nat_byte masks of_nat_and_mask)
  then show ?thesis
    by (simp only: push_bit_of_nat of_nat_or_eq [symmetric] nat_shift_or [OF assms])
qed

lemma utf8_loop_step:
  assumes "b < 64"
  shows "utf8_loop (Suc len) (of_nat a) (of_nat (0x80 + b) # p) = utf8_loop len (of_nat (64 * a + b)) p"
proof -
  have "\<not> ucast (of_nat (0x80 + b) :: byte) < (0x80 :: u32)"
    using assms byte_u32_less(1) [of "0x80 + b"] by (simp only: ucast_of_nat_byte)
  then show ?thesis by (simp only: utf8_loop.simps Let_def utf8_step [OF assms] if_False)
qed

lemma utf8_decode_2:
  assumes "2 \<le> a" "a < 32" "b < 64" "2 \<le> unat n"
  shows "dl_utf8_decode (of_nat (0xc0 + a) # of_nat (0x80 + b) # rest) n = Some (of_nat (64 * a + b), rest)"
proof -
  have n: "\<not> n - 1 < of_nat 1" using assms(4) by unat_arith
  have v: "(0x7f :: u32) < of_nat (64 * a + b)" using assms of_nat_less_u32 [of 127 "64 * a + b"] by simp
  have u: "(of_nat (0xc0 + a) AND 0x1f :: u32) = of_nat a"
  proof -
    have "(0xc0 + a) mod 2 ^ 5 = a" using assms(2) mod_mult_self1 [of a 6 32] by (simp add: add.commute)
    then show ?thesis by (simp only: masks of_nat_and_mask)
  qed
  have k: "0xc0 + a < 256" using assms by simp
  show ?thesis
    using assms u n v utf8_loop_step [OF assms(3), of 0 a rest]
    unfolding dl_utf8_decode_def
    by (simp add: ucast_of_nat_byte [OF k] byte_u32_less [OF k] Let_def
          del: of_nat_add of_nat_mult of_nat_numeral utf8_loop.simps(3))
qed

lemma utf8_decode_3:
  assumes "a < 16" "b < 64" "c < 64" "0x7ff < 64 * (64 * a + b) + c" "3 \<le> unat n"
  shows "dl_utf8_decode (of_nat (0xe0 + a) # of_nat (0x80 + b) # of_nat (0x80 + c) # rest) n
     = Some (of_nat (64 * (64 * a + b) + c), rest)"
proof -
  have n: "\<not> n - 1 < of_nat 2" using assms(5) by unat_arith
  have v: "(0x7ff :: u32) < of_nat (64 * (64 * a + b) + c)"
    using assms of_nat_less_u32 [of "0x7ff" "64 * (64 * a + b) + c"] by simp
  have u: "(of_nat (0xe0 + a) AND 0x0f :: u32) = of_nat a"
  proof -
    have "(0xe0 + a) mod 2 ^ 4 = a"
      using assms(1) mod_mult_self1 [of a 14 16] by (simp add: add.commute)
    then show ?thesis by (simp only: masks of_nat_and_mask)
  qed
  have k: "0xe0 + a < 256" using assms by simp
  have l: "utf8_loop 2 (of_nat a) (of_nat (0x80 + b) # of_nat (0x80 + c) # rest)
      = Some (Some (of_nat (64 * (64 * a + b) + c)), rest)"
    by (simp only: numeral_2_eq_2 utf8_loop_step assms utf8_loop.simps(1))
  show ?thesis
    using assms u n v l
    unfolding dl_utf8_decode_def
    by (simp add: ucast_of_nat_byte [OF k] byte_u32_less [OF k] Let_def
          del: of_nat_add of_nat_mult of_nat_numeral utf8_loop.simps(3))
qed

lemma utf8_decode_4:
  assumes "a < 8" "b < 64" "c < 64" "d < 64" "0xffff < 64 * (64 * (64 * a + b) + c) + d" "4 \<le> unat n"
  shows "dl_utf8_decode (of_nat (0xf0 + a) # of_nat (0x80 + b) # of_nat (0x80 + c) # of_nat (0x80 + d) # rest) n
     = Some (of_nat (64 * (64 * (64 * a + b) + c) + d), rest)"
proof -
  have n: "\<not> n - 1 < of_nat 3" using assms(6) by unat_arith
  have v: "(0xffff :: u32) < of_nat (64 * (64 * (64 * a + b) + c) + d)"
    using assms of_nat_less_u32 [of "0xffff" "64 * (64 * (64 * a + b) + c) + d"] by simp
  have u: "(of_nat (0xf0 + a) AND 0x07 :: u32) = of_nat a"
  proof -
    have "(0xf0 + a) mod 2 ^ 3 = a"
      using assms(1) mod_mult_self1 [of a 30 8] by (simp add: add.commute)
    then show ?thesis by (simp only: masks of_nat_and_mask)
  qed
  have k: "0xf0 + a < 256" using assms by simp
  have l: "utf8_loop 3 (of_nat a) (of_nat (0x80 + b) # of_nat (0x80 + c) # of_nat (0x80 + d) # rest)
      = Some (Some (of_nat (64 * (64 * (64 * a + b) + c) + d)), rest)"
    by (simp only: numeral_3_eq_3 utf8_loop_step assms utf8_loop.simps(1))
  show ?thesis
    using assms u n v l
    unfolding dl_utf8_decode_def
    by (simp add: ucast_of_nat_byte [OF k] byte_u32_less [OF k] Let_def
          del: of_nat_add of_nat_mult of_nat_numeral utf8_loop.simps(3))
qed

lemma utf8_decode_enc:
  assumes "0x80 \<le> c" "code_point c" "length (utf8_enc c) \<le> unat n"
  shows "dl_utf8_decode (utf8_enc c @ rest) n = Some (of_nat c, rest)"
proof -
  have q2: "64 * (c div 64) + c mod 64 = c" by simp
  have d: "64 * (c div 4096) + c div 64 mod 64 = c div 64"
    using mult_div_mod_eq [of 64 "c div 64"] by (simp add: div_mult2_eq [symmetric])
  have d': "64 * (c div 262144) + c div 4096 mod 64 = c div 4096"
    using mult_div_mod_eq [of 64 "c div 4096"] by (simp add: div_mult2_eq [symmetric])
  consider "c < 0x800" | "0x800 \<le> c" "c < 0x10000" | "0x10000 \<le> c" by linarith
  then show ?thesis
  proof cases
    case 1
    then have "2 \<le> c div 64" "c div 64 < 32" "2 \<le> unat n" using assms by (simp_all add: utf8_enc_def)
    from utf8_decode_2 [OF this(1,2) _ this(3), of "c mod 64" rest] 1 assms(1) show ?thesis
      unfolding q2 by (simp add: utf8_enc_def del: of_nat_add of_nat_numeral)
  next
    case 2
    then have "c div 4096 < 16" "3 \<le> unat n" using assms by (simp_all add: utf8_enc_def)
    from utf8_decode_3 [OF this(1) _ _ _ this(2), of "c div 64 mod 64" "c mod 64" rest] 2 show ?thesis
      unfolding d q2 by (simp add: utf8_enc_def del: of_nat_add of_nat_numeral)
  next
    case 3
    then have "c div 262144 < 8" "4 \<le> unat n" using assms by (simp_all add: utf8_enc_def)
    from utf8_decode_4 [OF this(1) _ _ _ _ this(2), of "c div 4096 mod 64" "c div 64 mod 64" "c mod 64" rest] 3
    show ?thesis
      unfolding d' d q2 by (simp add: utf8_enc_def del: of_nat_add of_nat_numeral)
  qed
qed

lemma utf8_decode_low:
  assumes "k < 0xc2" shows "dl_utf8_decode (of_nat k # rest) n = Some (utf8_error, rest)"
proof -
  have k: "k < 256" using assms by simp
  show ?thesis
    unfolding dl_utf8_decode_def by (simp add: ucast_of_nat_byte [OF k] byte_u32_less [OF k] assms Let_def)
qed

lemma utf8_decode_short:
  assumes "0xc2 \<le> k" "k < 256" "n \<noteq> 0" "unat n \<le> (if 0xf0 \<le> k then 3 else if 0xe0 \<le> k then 2 else 1)"
  shows "dl_utf8_decode (of_nat k # rest) n = Some (utf8_incomplete, of_nat k # rest)"
proof -
  have n: "n - 1 < of_nat m" if "unat n \<le> m" "m \<le> 3" for m
  proof -
    have "unat (n - 1) = unat n - 1" using assms(3) by (simp add: unat_minus_one)
    moreover have "0 < unat n" using assms(3) by (simp add: unat_gt_0)
    ultimately show ?thesis using that by (simp add: word_less_nat_alt unat_of_nat_len)
  qed
  have "\<not> k < 0xc2" using assms(1) by simp
  then show ?thesis
    using n [of 1] n [of 2] n [of 3] assms(4)
    unfolding dl_utf8_decode_def
    by (simp add: ucast_of_nat_byte [OF assms(2)] byte_u32_less [OF assms(2)] Let_def split: if_splits)
qed

lemma utf8_enc_short:
  assumes "0x80 \<le> c" "code_point c" "n \<noteq> 0" "unat n < length (utf8_enc c)"
  shows "dl_utf8_decode (utf8_enc c @ rest) n = Some (utf8_incomplete, utf8_enc c @ rest)"
proof -
  consider "c < 0x800" | "0x800 \<le> c" "c < 0x10000" | "0x10000 \<le> c" by linarith
  then show ?thesis
  proof cases
    case 1
    then have "2 \<le> c div 64" "c div 64 < 32" "unat n \<le> 1" using assms by (simp_all add: utf8_enc_def)
    then show ?thesis
      using utf8_decode_short [of "0xc0 + c div 64" n] assms(1,3) 1
      by (simp add: utf8_enc_def del: of_nat_add of_nat_numeral)
  next
    case 2
    then have "c div 4096 < 16" "unat n \<le> 2" using assms by (simp_all add: utf8_enc_def)
    then show ?thesis
      using utf8_decode_short [of "0xe0 + c div 4096" n] assms(1,3) 2
      by (simp add: utf8_enc_def del: of_nat_add of_nat_numeral)
  next
    case 3
    then have "c div 262144 < 8" "unat n \<le> 3" using assms by (simp_all add: utf8_enc_def)
    then show ?thesis
      using utf8_decode_short [of "0xf0 + c div 262144" n] assms(1,3) 3
      by (simp add: utf8_enc_def del: of_nat_add of_nat_numeral)
  qed
qed

text \<open>C9: \<^verbatim>\<open>dl_utf8_decode\<close> on the RFC 3629 encoding of any code point, whatever follows it and with any
  length but 0 passed: a code point from \<^verbatim>\<open>U+0080\<close> on is read back and the pointer moves exactly behind
  it, unless the length is too short for the encoding, which gives \<^verbatim>\<open>0xfffffffe\<close> and moves nothing; an
  ASCII byte gives \<^verbatim>\<open>0xffffffff\<close> and is skipped (the function decodes two bytes and more).\<close>

theorem utf8_decode_roundtrip:
  assumes "code_point c" "n \<noteq> 0"
  shows "dl_utf8_decode (utf8_enc c @ rest) n = Some
    (if c < 0x80 then (0xffffffff, rest)
     else if unat n < length (utf8_enc c) then (0xfffffffe, utf8_enc c @ rest)
     else (of_nat c, rest))"
  using utf8_decode_enc [of c n rest] utf8_enc_short [of c n rest] utf8_decode_low [of c rest n] assms
  by (auto simp: not_less utf8_enc_def [of c])

theorem utf8_decode_roundtrip_witness:
  "dl_utf8_decode ([0xe2, 0x82, 0xac] @ [0x41]) 3 = Some (0x20ac, [0x41])"
  using utf8_decode_roundtrip [of "0x20ac" 3 "[0x41]"] by (simp add: utf8_enc_def)

text \<open>A continuation byte is only tested from below: \<^verbatim>\<open>C3 E9\<close>, two lead bytes, decodes as \<^verbatim>\<open>U+00E9\<close>.\<close>

lemma utf8_bad_continuation: "dl_utf8_decode [0xc3, 0xe9] 2 = Some (0xe9, [])"
  by (simp add: dl_utf8_decode_def)

lemma utf8_length_step:
  assumes "code_point c" "length (utf8_enc c) \<le> unat n" "past \<le> length t"
  shows "utf8_length_loop n past (utf8_enc c @ t) k = utf8_length_loop n past t (k + 1)"
proof (cases "c < 0x80")
  case True
  have "unat (of_nat c :: byte) = c" using True by (simp add: unat_of_nat_byte)
  then have "(of_nat c :: byte) < 0x80" using True by (simp add: word_less_nat_alt)
  then show ?thesis
    using True assms by (subst utf8_length_loop.simps) (simp add: utf8_enc_def)
next
  case False
  have lead: "(of_nat m :: byte) < 0x80 \<longleftrightarrow> m < 128" if "m < 256" for m :: nat
    using that by (simp add: word_less_nat_alt unat_of_nat_byte)
  have "\<not> hd (utf8_enc c @ t) < 0x80" and "past < length (utf8_enc c @ t)"
    using False assms by (auto simp: utf8_enc_def lead simp del: of_nat_add)
  moreover have "of_nat c \<le> (0x10ffff :: u32)"
    using assms(1) of_nat_less_u32 [of "0x10ffff" c] by (simp add: linorder_not_less [symmetric])
  ultimately show ?thesis
    using False assms by (subst utf8_length_loop.simps) (simp add: utf8_decode_enc not_less [symmetric])
qed

lemma utf8_length_prefix:
  assumes "\<forall>c \<in> set cs. code_point c \<and> length (utf8_enc c) \<le> unat n" "past \<le> length t"
  shows "utf8_length_loop n past (concat (map utf8_enc cs) @ t) k = utf8_length_loop n past t (k + of_nat (length cs))"
  using assms
proof (induction cs arbitrary: k)
  case (Cons c cs)
  then show ?case
    using utf8_length_step [of c n past "concat (map utf8_enc cs) @ t" k] by (simp add: algebra_simps)
qed simp

lemma length_concat_member: "x \<in> set xs \<Longrightarrow> length (f x) \<le> length (concat (map f xs))"
  by (induction xs) auto

text \<open>\<^verbatim>\<open>dl_utf8_length\<close> of a valid UTF-8 text is its number of code points.\<close>

theorem utf8_length_valid:
  assumes "list_all code_point cs" "length (concat (map utf8_enc cs)) < 2 ^ 64"
  shows "dl_utf8_length (concat (map utf8_enc cs)) rest = Some (of_nat (length cs))"
proof -
  have "\<forall>c \<in> set cs. code_point c \<and> length (utf8_enc c) \<le> unat (of_nat (length (concat (map utf8_enc cs))) :: u64)"
    using assms length_concat_member [of _ cs utf8_enc]
    by (auto simp: list_all_iff unat_of_nat_len simp del: length_concat)
  from utf8_length_prefix [OF this, of "length rest" rest 0] show ?thesis
    by (simp add: dl_utf8_length_def utf8_length_loop.simps)
qed

theorem utf8_length_valid_witness: "dl_utf8_length [0x61, 0xc3, 0xa9] [] = Some 2"
  using utf8_length_valid [of "[0x61, 0xe9]" "[]"] by (simp add: utf8_enc_def)

text \<open>\<^verbatim>\<open>dl_utf8_length\<close> hands the whole length, not what is left of it, to the decoder: a valid
  non-empty text followed by the lead byte of a two-byte sequence makes it read past the end.\<close>

theorem utf8_length_overread:
  assumes "list_all code_point cs" "cs \<noteq> []" "length (concat (map utf8_enc cs)) + 1 < 2 ^ 64"
    and "0xc2 \<le> b" "b < 0xe0"
  shows "dl_utf8_length (concat (map utf8_enc cs) @ [b]) [] = None"
proof -
  let ?p = "concat (map utf8_enc cs)"
  let ?n = "of_nat (length (?p @ [b])) :: u64"
  have len: "length (?p @ [b]) = length ?p + 1" by simp
  have n: "unat ?n = length ?p + 1"
    unfolding len by (rule unat_of_nat_len) (use assms(3) in simp)
  obtain c where c: "c \<in> set cs" using assms(2) by (cases cs) auto
  have "0 < length (utf8_enc c)" by (simp add: utf8_enc_def)
  then have "2 \<le> unat ?n" using n length_concat_member [OF c, of utf8_enc] by linarith
  then have n2: "\<not> ?n - 1 < 1" unfolding word_less_nat_alt by unat_arith
  have "\<forall>c \<in> set cs. code_point c \<and> length (utf8_enc c) \<le> unat ?n"
    using assms(1) length_concat_member [of _ cs utf8_enc] unfolding n
    by (fastforce simp: list_all_iff simp del: length_concat)
  from utf8_length_prefix [OF this, of 0 "[b]" 0]
  have "dl_utf8_length (?p @ [b]) [] = utf8_length_loop ?n 0 [b] (of_nat (length cs))"
    by (simp add: dl_utf8_length_def)
  also have "\<dots> = None"
  proof -
    have b: "\<not> b < 0x80" using assms(4) by (simp add: word_less_nat_alt word_le_nat_alt)
    have "unat b < 2 ^ 32" by (rule less_trans [OF unat_byte_less]) simp
    then have "unat (ucast b :: u32) = unat b" by (simp add: unsigned_ucast_eq take_bit_nat_eq_self)
    then have u: "\<not> (ucast b :: u32) < 0xc2" "\<not> (0xe0 :: u32) \<le> ucast b" "\<not> (0xf0 :: u32) \<le> ucast b"
      using assms(4,5) by (simp_all add: word_less_nat_alt word_le_nat_alt)
    show ?thesis
      using b u n2 by (subst utf8_length_loop.simps) (simp add: dl_utf8_decode_def Let_def numeral_eq_Suc)
  qed
  finally show ?thesis .
qed

theorem utf8_length_overread_witness: "dl_utf8_length ([0x61] @ [0xc3]) [] = None"
  using utf8_length_overread [of "[0x61]" "0xc3"] by (simp add: utf8_enc_def)

end
