(* ===== verification/Dl_Queue.thy ===== *)
theory Dl_Queue
  imports Dl_Prelude "HOL-Library.Multiset"
begin

text \<open>
  The circular doubly linked queue of \<^verbatim>\<open>dl_queue.h\<close> and \<^verbatim>\<open>dl_queue.c\<close>. A node is its address; the heap
  gives the \<^verbatim>\<open>prev\<close> and \<^verbatim>\<open>next\<close> field of every node. The macros are the sequences of stores they
  expand to, each read made in the heap the stores before it left. The loops, which do not end on
  a broken ring, are partial functions. \<open>ring h s xs\<close> is the abstraction: from the sentinel \<open>s\<close> the heap
  links the elements \<open>xs\<close> in both directions.
\<close>

section \<open>The heap and the macros\<close>

type_synonym node = nat

record queue =
  prev :: "node \<Rightarrow> node"
  nxt :: "node \<Rightarrow> node"

definition set_prev :: "node \<Rightarrow> node \<Rightarrow> queue \<Rightarrow> queue" where
  "set_prev a v h = h\<lparr>prev := (prev h)(a := v)\<rparr>"

definition set_next :: "node \<Rightarrow> node \<Rightarrow> queue \<Rightarrow> queue" where
  "set_next a v h = h\<lparr>nxt := (nxt h)(a := v)\<rparr>"

definition dl_queue_init :: "node \<Rightarrow> queue \<Rightarrow> queue" where
  "dl_queue_init q h = (let h = set_prev q q h in set_next q q h)"

definition dl_queue_empty :: "node \<Rightarrow> queue \<Rightarrow> bool" where
  "dl_queue_empty s h \<longleftrightarrow> s = prev h s"

definition dl_queue_insert_head :: "node \<Rightarrow> node \<Rightarrow> queue \<Rightarrow> queue" where
  "dl_queue_insert_head s x h =
     (let h = set_next x (nxt h s) h;
          h = set_prev (nxt h x) x h;
          h = set_prev x s h
      in set_next s x h)"

definition dl_queue_insert_tail :: "node \<Rightarrow> node \<Rightarrow> queue \<Rightarrow> queue" where
  "dl_queue_insert_tail s x h =
     (let h = set_prev x (prev h s) h;
          h = set_next (prev h x) x h;
          h = set_next x s h
      in set_prev s x h)"

definition dl_queue_head :: "node \<Rightarrow> queue \<Rightarrow> node" where
  "dl_queue_head s h = nxt h s"

definition dl_queue_last :: "node \<Rightarrow> queue \<Rightarrow> node" where
  "dl_queue_last s h = prev h s"

definition dl_queue_remove :: "node \<Rightarrow> queue \<Rightarrow> queue" where
  "dl_queue_remove x h =
     (let h = set_prev (nxt h x) (prev h x) h
      in set_next (prev h x) (nxt h x) h)"

definition dl_queue_split :: "node \<Rightarrow> node \<Rightarrow> node \<Rightarrow> queue \<Rightarrow> queue" where
  "dl_queue_split s q n h =
     (let h = set_prev n (prev h s) h;
          h = set_next (prev h n) n h;
          h = set_next n q h;
          h = set_prev s (prev h q) h;
          h = set_next (prev h s) s h
      in set_prev q n h)"

definition dl_queue_add :: "node \<Rightarrow> node \<Rightarrow> queue \<Rightarrow> queue" where
  "dl_queue_add s n h =
     (let h = set_next (prev h s) (nxt h n) h;
          h = set_prev (nxt h n) (prev h s) h;
          h = set_prev s (prev h n) h
      in set_next (prev h s) s h)"

section \<open>dl_queue_middle and dl_queue_sort\<close>

partial_function (option) middle_loop :: "queue \<Rightarrow> node \<Rightarrow> node \<Rightarrow> node \<Rightarrow> node option" where
  "middle_loop h s middle next =
     (let middle = nxt h middle;
          next = nxt h next
      in if next = dl_queue_last s h then Some middle
         else let next = nxt h next
              in if next = dl_queue_last s h then Some middle
                 else middle_loop h s middle next)"

definition dl_queue_middle :: "node \<Rightarrow> queue \<Rightarrow> node option" where
  "dl_queue_middle s h =
     (let middle = dl_queue_head s h
      in if middle = dl_queue_last s h then Some middle
         else middle_loop h s middle (dl_queue_head s h))"

text \<open>The inner \<^verbatim>\<open>do\<close> loop: \<open>p\<close> is \<^verbatim>\<open>prev\<close>; \<open>cmp\<close> reads the records the nodes are embedded in.\<close>

partial_function (option) sort_scan ::
  "(node \<Rightarrow> node \<Rightarrow> int) \<Rightarrow> node \<Rightarrow> node \<Rightarrow> node \<Rightarrow> queue \<Rightarrow> node option" where
  "sort_scan cmp s q p h =
     (if cmp p q \<le> 0 then Some p
      else let p' = prev h p
           in if p' \<noteq> s then sort_scan cmp s q p' h else Some p')"

partial_function (option) sort_loop ::
  "(node \<Rightarrow> node \<Rightarrow> int) \<Rightarrow> node \<Rightarrow> node \<Rightarrow> queue \<Rightarrow> queue option" where
  "sort_loop cmp s q h =
     (if q = s then Some h
      else let p = prev h q;
               n = nxt h q;
               h = dl_queue_remove q h
           in Option.bind (sort_scan cmp s q p h)
                (\<lambda>p. sort_loop cmp s n (dl_queue_insert_head p q h)))"

definition dl_queue_sort :: "(node \<Rightarrow> node \<Rightarrow> int) \<Rightarrow> node \<Rightarrow> queue \<Rightarrow> queue option" where
  "dl_queue_sort cmp s h =
     (let q = dl_queue_head s h
      in if q = dl_queue_last s h then Some h else sort_loop cmp s (nxt h q) h)"

lemmas queue_defs = dl_queue_init_def dl_queue_empty_def dl_queue_insert_head_def
  dl_queue_insert_tail_def dl_queue_head_def dl_queue_last_def dl_queue_remove_def
  dl_queue_split_def dl_queue_add_def

lemma queue_upd [simp]:
  "prev (set_prev a v h) = (prev h)(a := v)" "nxt (set_prev a v h) = nxt h"
  "prev (set_next a v h) = prev h" "nxt (set_next a v h) = (nxt h)(a := v)"
  by (simp_all add: set_prev_def set_next_def)

section \<open>The abstraction\<close>

fun links :: "queue \<Rightarrow> node list \<Rightarrow> bool" where
  "links h (a # b # l) \<longleftrightarrow> nxt h a = b \<and> prev h b = a \<and> links h (b # l)"
| "links h _ \<longleftrightarrow> True"

definition ring :: "queue \<Rightarrow> node \<Rightarrow> node list \<Rightarrow> bool" where
  "ring h s xs \<longleftrightarrow> distinct (s # xs) \<and> links h (s # xs @ [s])"

lemma links_append: "links h (xs @ a # ys) \<longleftrightarrow> links h (xs @ [a]) \<and> links h (a # ys)"
proof (induction xs)
  case (Cons x xs)
  then show ?case by (cases xs) auto
qed simp

lemma links_snoc2: "links h (xs @ [a, b]) \<longleftrightarrow> links h (xs @ [a]) \<and> nxt h a = b \<and> prev h b = a"
  using links_append [of h xs a "[b]"] by simp

lemma links_frame:
  "(\<forall>a \<in> set (butlast l). nxt h' a = nxt h a) \<Longrightarrow> (\<forall>a \<in> set (tl l). prev h' a = prev h a) \<Longrightarrow>
   links h' l = links h l"
  by (induction h l rule: links.induct) (auto split: if_splits)

lemma links_set [simp]:
  "a \<notin> set (tl l) \<Longrightarrow> links (set_prev a v h) l = links h l"
  "a \<notin> set (butlast l) \<Longrightarrow> links (set_next a v h) l = links h l"
  by (rule links_frame; simp)+

text \<open>A ring may be read from any of its nodes.\<close>

lemma ring_rotate: "ring h s (ys @ p # zs) \<longleftrightarrow> ring h p (zs @ s # ys)"
proof -
  have "links h (s # ys @ p # zs @ [s]) \<longleftrightarrow> links h (s # ys @ [p]) \<and> links h (p # zs @ [s])"
    using links_append [of h "s # ys" p "zs @ [s]"] by simp
  moreover have "links h (p # zs @ s # ys @ [p]) \<longleftrightarrow> links h (p # zs @ [s]) \<and> links h (s # ys @ [p])"
    using links_append [of h "p # zs" s "ys @ [p]"] by simp
  ultimately show ?thesis by (auto simp: ring_def)
qed

lemma ring_rotate_Nil: "ring h s (ys @ [p]) \<longleftrightarrow> ring h p (s # ys)"
  using ring_rotate [of h s ys p "[]"] by simp

lemma ring_Nil: "ring h s [] \<longleftrightarrow> nxt h s = s \<and> prev h s = s"
  by (simp add: ring_def)

lemma ring_Cons_iff:
  "ring h s (x # xs) \<longleftrightarrow> nxt h s = x \<and> prev h x = s \<and> distinct (s # x # xs) \<and> links h (x # xs @ [s])"
  by (auto simp: ring_def)

lemma ring_hd: "ring h s xs \<Longrightarrow> nxt h s = hd (xs @ [s])"
  by (cases xs) (simp_all add: ring_def)

lemma ring_last: "ring h s xs \<Longrightarrow> prev h s = last (s # xs)"
  by (cases xs rule: rev_cases) (auto simp: ring_Nil ring_rotate_Nil ring_Cons_iff)

lemma ring_next: "ring h s (ys @ p # zs) \<Longrightarrow> nxt h p = hd (zs @ [s])"
  using ring_hd [of h p "zs @ s # ys"] by (cases zs) (simp_all add: ring_rotate)

lemma ring_prev: "ring h s (ys @ p # zs) \<Longrightarrow> prev h p = last (s # ys)"
  using ring_last [of h p "zs @ s # ys"] by (simp add: ring_rotate)

lemma ring_distinct: "ring h s xs \<Longrightarrow> distinct (s # xs)"
  by (simp add: ring_def)

lemma ring_frame:
  "ring h s xs \<Longrightarrow> (\<And>a. a \<in> set (s # xs) \<Longrightarrow> nxt h' a = nxt h a \<and> prev h' a = prev h a) \<Longrightarrow> ring h' s xs"
  unfolding ring_def using links_frame [of "s # xs @ [s]" h' h] by (auto dest: in_set_butlastD)

lemma init_ring: "ring (dl_queue_init s h) s []"
  by (simp add: ring_Nil queue_defs)

lemma empty_ring: "ring h s xs \<Longrightarrow> dl_queue_empty s h \<longleftrightarrow> xs = []"
  using ring_last [of h s xs] ring_distinct [of h s xs] by (auto simp: dl_queue_empty_def)

lemma insert_head_ring:
  assumes "ring h s xs" "x \<notin> set (s # xs)"
  shows "ring (dl_queue_insert_head s x h) s (x # xs)"
  using assms by (cases xs) (auto simp: ring_def dl_queue_insert_head_def Let_def)

lemma insert_after_ring:
  assumes "ring h s (ys @ p # zs)" "x \<notin> set (s # ys @ p # zs)"
  shows "ring (dl_queue_insert_head p x h) s (ys @ p # x # zs)"
  using assms insert_head_ring [of h p "zs @ s # ys" x] ring_rotate [of _ s ys p "x # zs"]
  by (auto simp: ring_rotate)

lemma insert_tail_ring:
  assumes "ring h s xs" "x \<notin> set (s # xs)"
  shows "ring (dl_queue_insert_tail s x h) s (xs @ [x])"
proof (cases xs rule: rev_cases)
  case Nil
  then show ?thesis using assms by (auto simp: ring_def dl_queue_insert_tail_def Let_def)
next
  case (snoc ys y)
  have "links h (s # ys @ [y])" "nxt h y = s" "prev h s = y"
    using assms(1) links_snoc2 [of h "s # ys" y s] by (auto simp: ring_def snoc)
  then show ?thesis
    using assms links_snoc2 [of _ "s # ys @ [y]" x s] links_snoc2 [of _ "s # ys" y x]
    by (auto simp: ring_def snoc dl_queue_insert_tail_def Let_def)
qed

lemma remove_ring_hd:
  assumes "ring h x (c # cs)" shows "ring (dl_queue_remove x h) c cs"
proof (cases cs rule: rev_cases)
  case Nil
  then show ?thesis using assms by (auto simp: ring_def dl_queue_remove_def Let_def)
next
  case (snoc ds d)
  have "links h (c # ds @ [d])" "nxt h d = x" "prev h x = d"
    using assms links_snoc2 [of h "c # ds" d x] by (auto simp: ring_def snoc)
  then show ?thesis
    using assms links_snoc2 [of _ "c # ds" d c]
    by (auto simp: ring_def snoc dl_queue_remove_def Let_def)
qed

lemma remove_ring:
  assumes "ring h s (ys @ x # zs)" shows "ring (dl_queue_remove x h) s (ys @ zs)"
proof (cases zs)
  case Nil
  then show ?thesis using assms remove_ring_hd [of h x s ys] by (simp add: ring_rotate_Nil)
next
  case (Cons z zs')
  then show ?thesis
    using assms remove_ring_hd [of h x z "zs' @ s # ys"] ring_rotate [of h s ys x "z # zs'"]
      ring_rotate [of "dl_queue_remove x h" s ys z zs'] by simp
qed

lemma links_snoc:
  "l \<noteq> [] \<Longrightarrow> links h (l @ [b]) \<longleftrightarrow> links h l \<and> nxt h (last l) = b \<and> prev h b = last l"
  by (cases l rule: rev_cases) (simp_all add: links_snoc2)

lemma links_snoc_Cons:
  "links h (a # l @ [b]) \<longleftrightarrow> links h (a # l) \<and> nxt h (last (a # l)) = b \<and> prev h b = last (a # l)"
  using links_snoc [of "a # l"] by simp

text \<open>The last node of a chain may get another successor, the first one another predecessor.\<close>

lemma links_but_ends:
  assumes "links h l" "distinct l" "l \<noteq> []"
    and "\<And>a. a \<in> set l \<Longrightarrow> a \<noteq> last l \<Longrightarrow> nxt h' a = nxt h a"
    and "\<And>a. a \<in> set l \<Longrightarrow> a \<noteq> hd l \<Longrightarrow> prev h' a = prev h a"
  shows "links h' l"
proof (rule iffD2 [OF links_frame assms(1)])
  have "last l \<notin> set (butlast l)" using assms(2,3) by (cases l rule: rev_cases) auto
  then show "\<forall>a \<in> set (butlast l). nxt h' a = nxt h a" using assms(4) by (auto dest: in_set_butlastD)
  have "hd l \<notin> set (tl l)" using assms(2,3) by (cases l) auto
  then show "\<forall>a \<in> set (tl l). prev h' a = prev h a" using assms(5) by (cases l) auto
qed

lemma split_ring:
  assumes "ring h s (ys @ q # zs)" "n \<notin> set (s # ys @ q # zs)"
  shows "ring (dl_queue_split s q n h) s ys \<and> ring (dl_queue_split s q n h) n (q # zs)"
proof -
  let ?h = "dl_queue_split s q n h"
  define p where "p = last (s # ys)"
  define l where "l = last (q # zs)"
  have d: "distinct (s # ys @ q # zs)" and sq: "links h (s # ys)" and qs: "links h (q # zs)"
    using assms(1) links_append [of h "s # ys" q "zs @ [s]"] by (auto simp: ring_def links_snoc_Cons)
  have pq: "prev h q = p" and ps: "prev h s = l"
    using assms(1) ring_prev [of h s ys q zs] ring_last [of h s "ys @ q # zs"] by (auto simp: p_def l_def)
  have pl: "p \<in> set (s # ys)" "l \<in> set (q # zs)" unfolding p_def l_def by (rule last_in_set; simp)+
  have nh: "nxt ?h = (nxt h)(l := n, n := q, p := s)"
    and ph: "prev ?h = (prev h)(n := l, s := p, q := n)"
    using d assms(2) pq ps pl by (auto simp: dl_queue_split_def Let_def)
  have sq': "links ?h (s # ys)"
    by (rule links_but_ends [OF sq]) (use d assms(2) pl in \<open>auto simp: nh ph p_def\<close>)
  have qs': "links ?h (q # zs)"
    by (rule links_but_ends [OF qs]) (use d assms(2) pl in \<open>auto simp: nh ph l_def\<close>)
  have ends: "nxt ?h p = s" "prev ?h s = p" "nxt ?h l = n" "prev ?h n = l" "nxt ?h n = q" "prev ?h q = n"
    using d assms(2) pl by (auto simp: nh ph)
  have "ring ?h s ys" using d sq' ends by (simp add: ring_def links_snoc_Cons p_def)
  moreover have "ring ?h n (q # zs)"
    using d assms(2) qs' ends by (simp add: ring_Cons_iff links_snoc_Cons l_def)
  ultimately show ?thesis by blast
qed

lemma add_ring:
  assumes "ring h s xs" "ring h n ys" "set (s # xs) \<inter> set (n # ys) = {}"
  shows "ring (dl_queue_add s n h) s (xs @ ys)"
proof -
  let ?h = "dl_queue_add s n h"
  define p where "p = last (s # xs)"
  have d: "distinct (s # xs)" "distinct (n # ys)" and sx: "links h (s # xs)" and ny: "links h (n # ys)"
    using assms(1,2) by (auto simp: ring_def links_snoc_Cons)
  have p: "prev h s = p" "p \<in> set (s # xs)"
    using assms(1) ring_last [of h s xs] unfolding p_def by (auto intro: last_in_set)
  show ?thesis
  proof (cases ys)
    case Nil
    then have n: "nxt h n = n" "prev h n = n" using assms(2) by (auto simp: ring_Nil)
    have nh: "nxt ?h = (nxt h)(p := s)" and ph: "prev ?h = (prev h)(n := p, s := p)"
      using p n assms(3) Nil by (auto simp: dl_queue_add_def Let_def)
    have "links ?h (s # xs)"
      by (rule links_but_ends [OF sx]) (use d assms(3) p in \<open>auto simp: nh ph p_def\<close>)
    moreover have "nxt ?h p = s" "prev ?h s = p" by (simp_all add: nh ph)
    ultimately show ?thesis using d by (simp add: Nil ring_def links_snoc_Cons p_def)
  next
    case (Cons y ys')
    define l where "l = last (y # ys')"
    have y: "nxt h n = y" "links h (y # ys')" using ny Cons by auto
    have l: "prev h n = l" "l \<in> set (y # ys')"
      using assms(2) ring_last [of h n ys] unfolding l_def Cons by (auto intro: last_in_set)
    have nh: "nxt ?h = (nxt h)(p := y, l := s)" and ph: "prev ?h = (prev h)(y := p, s := l)"
      using p y l assms(3) d Cons by (auto simp: dl_queue_add_def Let_def)
    have sx': "links ?h (s # xs)"
      by (rule links_but_ends [OF sx]) (use d assms(3) p l Cons in \<open>auto simp: nh ph p_def\<close>)
    have yy': "links ?h (y # ys')"
      by (rule links_but_ends [OF y(2)]) (use d assms(3) p l Cons in \<open>auto simp: nh ph l_def\<close>)
    have "nxt ?h p = y" "prev ?h y = p" "nxt ?h l = s" "prev ?h s = l"
      using p l assms(3) Cons by (auto simp: nh ph)
    then have "links ?h (s # xs @ [y])" and "links ?h (y # ys' @ [s])"
      using sx' yy' by (simp_all add: links_snoc_Cons p_def l_def)
    then show ?thesis
      using d assms(3) links_append [of ?h "s # xs" y "ys' @ [s]"] by (auto simp: ring_def Cons)
  qed
qed

section \<open>Middle\<close>

lemma ring_nth_next:
  assumes "ring h s xs" "Suc i < length xs" shows "nxt h (xs ! i) = xs ! Suc i"
  using assms ring_next [of h s "take i xs" "xs ! i" "drop (Suc i) xs"]
  by (simp add: id_take_nth_drop [symmetric] hd_append hd_drop_conv_nth)

lemma middle_loop_spec:
  assumes "ring h s xs" "2 * i + 1 < length xs"
  shows "middle_loop h s (xs ! i) (xs ! (2 * i)) = Some (xs ! (length xs div 2))"
  using assms(2)
proof (induction "length xs - i" arbitrary: i rule: less_induct)
  case less
  let ?last = "xs ! (length xs - 1)"
  have d: "distinct xs" using assms(1) by (simp add: ring_def)
  have last: "dl_queue_last s h = ?last"
    using ring_last [OF assms(1)] less.prems by (auto simp: dl_queue_last_def last_conv_nth)
  have steps: "nxt h (xs ! i) = xs ! Suc i" "nxt h (xs ! (2 * i)) = xs ! Suc (2 * i)"
    using less.prems assms(1) by (auto intro!: ring_nth_next)
  show ?case
  proof (cases "length xs = 2 * i + 2")
    case True
    then show ?thesis by (subst middle_loop.simps) (simp add: steps last)
  next
    case False
    then have lt: "2 * i + 2 < length xs" using less.prems by simp
    then have ne: "xs ! Suc (2 * i) \<noteq> ?last" using d by (simp add: nth_eq_iff_index_eq)
    have step: "nxt h (xs ! Suc (2 * i)) = xs ! (2 * Suc i)"
      using lt assms(1) by (simp add: ring_nth_next)
    show ?thesis
    proof (cases "length xs = 2 * i + 3")
      case True
      then show ?thesis using ne by (subst middle_loop.simps) (simp add: steps last step)
    next
      case False
      then have "xs ! (2 * Suc i) \<noteq> ?last" using d lt by (simp add: nth_eq_iff_index_eq)
      moreover have "middle_loop h s (xs ! Suc i) (xs ! (2 * Suc i)) = Some (xs ! (length xs div 2))"
        using False lt by (intro less.hyps) auto
      ultimately show ?thesis using ne by (subst middle_loop.simps) (simp only: steps last step Let_def if_False)
    qed
  qed
qed

lemma middle_ring:
  assumes "ring h s xs" "xs \<noteq> []"
  shows "dl_queue_middle s h = Some (xs ! (length xs div 2))"
proof -
  have "nxt h s = xs ! 0"
    using assms ring_hd [of h s xs] by (cases xs) auto
  moreover have "prev h s = xs ! (length xs - 1)"
    using assms ring_last [of h s xs] by (simp add: last_conv_nth)
  moreover have "xs ! 0 = xs ! (length xs - 1) \<longleftrightarrow> length xs = 1"
    using assms nth_eq_iff_index_eq [of xs 0 "length xs - 1"] by (auto simp: ring_def le_Suc_eq)
  ultimately show ?thesis
    using assms middle_loop_spec [of h s xs 0]
    by (cases "length xs = 1") (auto simp: dl_queue_middle_def dl_queue_head_def dl_queue_last_def Let_def)
qed

section \<open>Sorting\<close>

lemma insert_at_ring:
  assumes "ring h s (as @ cs)" "x \<notin> set (s # as @ cs)"
  shows "ring (dl_queue_insert_head (last (s # as)) x h) s (as @ x # cs)"
proof (cases as rule: rev_cases)
  case Nil
  then show ?thesis using assms insert_head_ring [of h s cs x] by simp
next
  case (snoc as' p)
  then show ?thesis using assms insert_after_ring [of h s as' p cs x] by simp
qed

lemma sort_scan_spec:
  assumes "ring h s (ys @ zs)" "ys \<noteq> []"
  shows "\<exists>as bs. ys = as @ bs \<and> sort_scan cmp s q (last ys) h = Some (last (s # as))
    \<and> (\<forall>b \<in> set bs. 0 < cmp b q) \<and> (as \<noteq> [] \<longrightarrow> cmp (last as) q \<le> 0)"
  using assms
proof (induction ys arbitrary: zs rule: rev_induct)
  case (snoc y ys)
  show ?case
  proof (cases "cmp y q \<le> 0")
    case True
    then show ?thesis
      by (intro exI [of _ "ys @ [y]"] exI [of _ "[]"]) (simp add: sort_scan.simps)
  next
    case False
    have p: "prev h y = last (s # ys)" using snoc.prems(1) ring_prev [of h s ys y zs] by simp
    have s: "s \<notin> set ys" using snoc.prems(1) by (simp add: ring_def)
    show ?thesis
    proof (cases "ys = []")
      case True
      then show ?thesis
        using False p by (intro exI [of _ "[]"] exI [of _ "[y]"]) (simp add: sort_scan.simps)
    next
      case ne: False
      then have "last ys \<noteq> s" using s last_in_set [of ys] by auto
      then have "sort_scan cmp s q y h = sort_scan cmp s q (last ys) h"
        using False p ne by (subst sort_scan.simps) simp
      moreover obtain as bs where "ys = as @ bs" "sort_scan cmp s q (last ys) h = Some (last (s # as))"
        "\<forall>b \<in> set bs. 0 < cmp b q" "as \<noteq> [] \<longrightarrow> cmp (last as) q \<le> 0"
        using snoc.IH [of "y # zs"] snoc.prems(1) ne by auto
      ultimately show ?thesis
        using False by (intro exI [of _ as] exI [of _ "bs @ [y]"]) auto
    qed
  qed
qed simp

text \<open>Inserting behind the last element that is not greater keeps a list sorted and stable.\<close>

lemma sort_key_insert:
  fixes key :: "'a \<Rightarrow> 'k::linorder"
  assumes "sort_key key pre = as @ bs" "\<forall>b \<in> set bs. key q < key b" "as \<noteq> [] \<longrightarrow> key (last as) \<le> key q"
  shows "sort_key key (pre @ [q]) = as @ q # bs"
proof (rule properties_for_sort_key)
  have "mset pre = mset (as @ bs)" using mset_sort [of key pre] unfolding assms(1) by (rule sym)
  then show "mset (as @ q # bs) = mset (pre @ [q])" by simp
  have srt: "sorted (map key as)" "sorted (map key bs)"
    using sorted_sort_key [of key pre] unfolding assms(1) by (auto simp: sorted_append)
  have "key a \<le> key q" if "a \<in> set as" for a
    using srt(1) assms(3) that by (cases as rule: rev_cases) (auto simp: sorted_append intro: order_trans)
  then have "key a \<le> key q \<and> (\<forall>b \<in> set bs. key a \<le> key b)" if "a \<in> set as" for a
    using assms(2) that by (meson le_less_trans less_imp_le)
  then show "sorted (map key (as @ q # bs))"
    using srt assms(2) by (auto simp: sorted_append less_imp_le)
  fix k assume "k \<in> set (as @ q # bs)"
  have "filter (\<lambda>x. key k = key x) (as @ bs) = filter (\<lambda>x. key k = key x) pre"
    using sort_key_stable [of key "key k" pre] unfolding assms(1) by (simp only: eq_commute [of "key k"])
  moreover have "filter (\<lambda>x. key q = key x) bs = []" using assms(2) by (auto simp: filter_empty_conv)
  ultimately show "filter (\<lambda>x. key k = key x) (as @ q # bs) = filter (\<lambda>x. key k = key x) (pre @ [q])"
    by auto
qed

lemma sort_loop_spec:
  fixes key :: "node \<Rightarrow> 'k::linorder"
  assumes "ring h s (sort_key key pre @ zs)" "pre \<noteq> []" "\<And>a b. cmp a b \<le> 0 \<longleftrightarrow> key a \<le> key b"
  shows "\<exists>h'. sort_loop cmp s (hd (zs @ [s])) h = Some h' \<and> ring h' s (sort_key key (pre @ zs))"
  using assms(1,2)
proof (induction zs arbitrary: pre h)
  case Nil
  then show ?case by (simp add: sort_loop.simps)
next
  case (Cons q zs)
  let ?ys = "sort_key key pre"
  let ?h1 = "dl_queue_remove q h"
  have ne: "?ys \<noteq> []" using Cons.prems(2) by (metis length_0_conv length_sort)
  have d: "distinct (s # ?ys @ q # zs)" using Cons.prems(1) by (rule ring_distinct)
  have pq: "prev h q = last ?ys" using ring_prev [OF Cons.prems(1)] ne by simp
  have nq: "nxt h q = hd (zs @ [s])" using ring_next [OF Cons.prems(1)] .
  have r1: "ring ?h1 s (?ys @ zs)" using remove_ring [OF Cons.prems(1)] .
  obtain as bs where split: "?ys = as @ bs"
    and scan: "sort_scan cmp s q (last ?ys) ?h1 = Some (last (s # as))"
    and gt: "\<forall>b \<in> set bs. 0 < cmp b q" and le: "as \<noteq> [] \<longrightarrow> cmp (last as) q \<le> 0"
    using sort_scan_spec [OF r1 ne] by blast
  let ?h2 = "dl_queue_insert_head (last (s # as)) q ?h1"
  have "ring ?h2 s (as @ q # bs @ zs)"
    using r1 d unfolding split by (intro insert_at_ring) auto
  moreover have "sort_key key (pre @ [q]) = as @ q # bs"
    using split gt le assms(3) by (intro sort_key_insert) (auto simp: not_le [symmetric])
  ultimately obtain h' where "sort_loop cmp s (hd (zs @ [s])) ?h2 = Some h'"
    "ring h' s (sort_key key ((pre @ [q]) @ zs))"
    using Cons.IH [where pre = "pre @ [q]" and h = ?h2] by auto
  moreover have "q \<noteq> s" using d by auto
  ultimately show ?case
    using scan pq nq by (subst sort_loop.simps) (simp add: Let_def del: last.simps)
qed

lemma sort_ring:
  fixes key :: "node \<Rightarrow> 'k::linorder"
  assumes "ring h s xs" "\<And>a b. cmp a b \<le> 0 \<longleftrightarrow> key a \<le> key b"
  shows "\<exists>h'. dl_queue_sort cmp s h = Some h' \<and> ring h' s (sort_key key xs)"
proof (cases "dl_queue_head s h = dl_queue_last s h")
  case True
  then have "xs = [] \<or> (\<exists>x. xs = [x])"
    using assms(1) ring_hd [OF assms(1)] ring_last [OF assms(1)]
    by (cases xs; cases "tl xs") (auto simp: dl_queue_head_def dl_queue_last_def ring_def split: if_splits)
  then show ?thesis using True assms(1) by (auto simp: dl_queue_sort_def)
next
  case False
  obtain x xs' where xs: "xs = x # xs'"
    using False assms(1) by (cases xs) (auto simp: dl_queue_head_def dl_queue_last_def ring_Nil)
  have "dl_queue_head s h = x" "nxt h x = hd (xs' @ [s])"
    using assms(1) ring_next [of h s "[]" x xs'] by (auto simp: xs dl_queue_head_def ring_Cons_iff)
  moreover obtain h' where "sort_loop cmp s (hd (xs' @ [s])) h = Some h'"
    "ring h' s (sort_key key ([x] @ xs'))"
    using sort_loop_spec [of h s key "[x]" xs' cmp] assms by (auto simp: xs)
  ultimately show ?thesis using False by (auto simp: dl_queue_sort_def xs)
qed

section \<open>The interface\<close>

text \<open>
  What a client of a queue relies on: an abstraction relation \<open>repr h s xs\<close> and the effect of every
  operation on it. The client lemmas below are proved from these laws alone.
\<close>

locale deque =
  fixes repr :: "'h \<Rightarrow> node \<Rightarrow> node list \<Rightarrow> bool"
    and create :: "node \<Rightarrow> 'h \<Rightarrow> 'h"
    and push_front :: "node \<Rightarrow> node \<Rightarrow> 'h \<Rightarrow> 'h"
    and push_back :: "node \<Rightarrow> node \<Rightarrow> 'h \<Rightarrow> 'h"
    and remove :: "node \<Rightarrow> 'h \<Rightarrow> 'h"
  assumes repr_create: "repr (create s h) s []"
    and repr_front: "repr h s xs \<Longrightarrow> x \<notin> set (s # xs) \<Longrightarrow> repr (push_front s x h) s (x # xs)"
    and repr_back: "repr h s xs \<Longrightarrow> x \<notin> set (s # xs) \<Longrightarrow> repr (push_back s x h) s (xs @ [x])"
    and repr_remove: "repr h s (ys @ x # zs) \<Longrightarrow> repr (remove x h) s (ys @ zs)"
begin

text \<open>Queueing a list of distinct nodes in order, and stacking it.\<close>

lemma push_back_all:
  "repr h s xs \<Longrightarrow> distinct ys \<Longrightarrow> set ys \<inter> set (s # xs) = {} \<Longrightarrow>
   repr (fold (push_back s) ys h) s (xs @ ys)"
proof (induction ys arbitrary: h xs)
  case (Cons y ys)
  then have "repr (push_back s y h) s (xs @ [y])" by (intro repr_back) auto
  then show ?case using Cons.prems Cons.IH [of "push_back s y h" "xs @ [y]"] by auto
qed simp

lemma push_front_all:
  "repr h s xs \<Longrightarrow> distinct ys \<Longrightarrow> set ys \<inter> set (s # xs) = {} \<Longrightarrow>
   repr (fold (push_front s) ys h) s (rev ys @ xs)"
proof (induction ys arbitrary: h xs)
  case (Cons y ys)
  then have "repr (push_front s y h) s (y # xs)" by (intro repr_front) auto
  then show ?case using Cons.prems Cons.IH [of "push_front s y h" "y # xs"] by auto
qed simp

lemma remove_all: "repr h s (ys @ zs) \<Longrightarrow> repr (fold remove ys h) s zs"
proof (induction ys arbitrary: h)
  case (Cons y ys)
  then show ?case using repr_remove [of h s "[]" y "ys @ zs"] by simp
qed simp

lemma fifo_order:
  "distinct (s # ys @ zs) \<Longrightarrow>
   repr (fold remove ys (fold (push_back s) (ys @ zs) (create s h))) s zs"
  using push_back_all [OF repr_create, of "ys @ zs" s h] remove_all by auto

end

interpretation dq: deque ring dl_queue_init dl_queue_insert_head dl_queue_insert_tail dl_queue_remove
  by unfold_locales (fact init_ring insert_head_ring insert_tail_ring remove_ring)+

section \<open>Properties\<close>

text \<open>C32: the queue operations refine lists: both inserts, insertion behind any element, removal of any
  element (all from a well-formed ring) and the emptiness test do to the ring what the list
  operation says, with both link directions kept.\<close>

theorem queue_operations:
  assumes "ring h s (ys @ p # zs)" "x \<notin> set (s # ys @ p # zs)"
  shows "ring (dl_queue_insert_head s x h) s (x # ys @ p # zs)
    \<and> ring (dl_queue_insert_tail s x h) s (ys @ p # zs @ [x])
    \<and> ring (dl_queue_insert_head p x h) s (ys @ p # x # zs)
    \<and> ring (dl_queue_remove p h) s (ys @ zs)
    \<and> (dl_queue_empty s (dl_queue_remove p h) \<longleftrightarrow> ys @ zs = [])"
  using assms dq.repr_front [OF assms] dq.repr_back [OF assms] insert_after_ring [OF assms]
    dq.repr_remove [OF assms(1)] empty_ring [OF remove_ring [OF assms(1)]] by simp

definition sample :: queue where
  "sample = fold (dl_queue_insert_tail 0) [7, 3, 9] (dl_queue_init 0 \<lparr>prev = id, nxt = id\<rparr>)"

lemma sample_ring: "ring sample 0 [7, 3, 9]"
  unfolding sample_def using dq.push_back_all [OF dq.repr_create, of "[7, 3, 9]" 0] by simp

theorem queue_operations_witness: "ring (dl_queue_remove 3 sample) 0 [7, 9]"
  using queue_operations [of sample 0 "[7]" 3 "[9]" 5] sample_ring by simp

text \<open>Splitting a queue at an element and adding the second part back: \<^verbatim>\<open>dl_queue_split\<close> cuts the
  ring into two rings, before and from \<open>q\<close>, and \<^verbatim>\<open>dl_queue_add\<close> joins them to the original one.\<close>

theorem queue_split_add:
  assumes "ring h s (ys @ q # zs)" "n \<notin> set (s # ys @ q # zs)"
  shows "ring (dl_queue_split s q n h) s ys \<and> ring (dl_queue_split s q n h) n (q # zs)
    \<and> ring (dl_queue_add s n (dl_queue_split s q n h)) s (ys @ q # zs)"
proof -
  have "set (s # ys) \<inter> set (n # q # zs) = {}" using assms ring_distinct [OF assms(1)] by auto
  then show ?thesis
    using split_ring [OF assms] add_ring [of "dl_queue_split s q n h" s ys n "q # zs"] by simp
qed

theorem queue_split_add_witness:
  "ring (dl_queue_split 0 3 1 sample) 0 [7] \<and> ring (dl_queue_split 0 3 1 sample) 1 [3, 9]"
  using queue_split_add [of sample 0 "[7]" 3 "[9]" 1] sample_ring by simp

text \<open>On a non-empty queue \<^verbatim>\<open>dl_queue_middle\<close> returns, and what it returns is the element with
  index \<open>n div 2\<close>, whatever the parity of the length \<open>n\<close>.\<close>

theorem queue_middle:
  assumes "ring h s xs" "xs \<noteq> []"
  shows "dl_queue_middle s h = Some (xs ! (length xs div 2))"
  using assms by (rule middle_ring)

theorem queue_middle_witness: "dl_queue_middle 0 sample = Some 3"
  using queue_middle [OF sample_ring] by simp

text \<open>C6: when \<open>cmp\<close> compares some key of the nodes, \<^verbatim>\<open>dl_queue_sort\<close> ends and leaves the ring of the
  stably sorted elements.\<close>

theorem queue_sort_stable:
  fixes key :: "node \<Rightarrow> 'k::linorder"
  assumes "ring h s xs" "\<And>a b. cmp a b \<le> 0 \<longleftrightarrow> key a \<le> key b"
  shows "\<exists>h'. dl_queue_sort cmp s h = Some h' \<and> ring h' s (sort_key key xs)"
  using assms by (rule sort_ring)

theorem queue_sort_stable_witness:
  "\<exists>h'. dl_queue_sort (\<lambda>a b. int a - int b) 0 sample = Some h' \<and> ring h' 0 [3, 7, 9]"
  using queue_sort_stable [OF sample_ring, of "\<lambda>a b. int a - int b" id] by simp

end
