(* ===== verification/Dl_Fifo.thy ===== *)
theory Dl_Fifo
  imports Dl_Prelude
begin

text \<open>
  The ring buffer of \<^verbatim>\<open>dl_fifo.c\<close> and the integer logarithm of \<^verbatim>\<open>dl_table.c\<close> it is sized with.
  Indices run freely as 32-bit words and wrap; the data block is a list of bytes whose length is
  the size asked from the allocator. A \<^verbatim>\<open>memcpy\<close> that leaves its source or its destination is \<open>None\<close>.
\<close>

section \<open>dl_log2\<close>

text \<open>The table \<^verbatim>\<open>log_2\<close>, run by run.\<close>

definition log_2 :: "int list" where
  "log_2 = [0, 1, 2, 2] @ replicate 4 3 @ replicate 8 4 @ replicate 16 5 @ replicate 32 6
     @ replicate 64 7 @ replicate 128 8"

lemma drop_bit_8_less: "(256 :: u64) \<le> x \<Longrightarrow> unat (drop_bit 8 x) < unat x"
  by (simp add: unat_drop_bit_div word_le_nat_alt)

function log2_loop :: "int \<Rightarrow> u64 \<Rightarrow> int" where
  "log2_loop l x = (if 256 \<le> x then log2_loop (l + 8) (drop_bit 8 x) else l + log_2 ! unat x)"
  by pat_completeness auto

termination
  by (relation "measure (\<lambda>(l, x). unat x)") (auto intro: drop_bit_8_less)

declare log2_loop.simps [simp del]

definition dl_log2 :: "u64 \<Rightarrow> int" where
  "dl_log2 x = log2_loop (- 1) x"

definition ceillog2 :: "u32 \<Rightarrow> int" where
  "ceillog2 x = dl_log2 (ucast (x - 1)) + 1"

section \<open>The buffer\<close>

record fifo =
  f_in :: u32
  f_out :: u32
  f_esize :: u32
  f_mask :: u32
  f_data :: bytes
  f_pool :: bool

text \<open>\<^verbatim>\<open>memcpy\<close> out of a block at an offset and into a block at an offset.\<close>

definition read_at :: "bytes \<Rightarrow> nat \<Rightarrow> nat \<Rightarrow> bytes option" where
  "read_at d off n = (if off + n \<le> length d then Some (take n (drop off d)) else None)"

definition write_at :: "bytes \<Rightarrow> nat \<Rightarrow> bytes \<Rightarrow> bytes option" where
  "write_at d off s =
     (if off + length s \<le> length d then Some (take off d @ s @ drop (off + length s) d) else None)"

text \<open>
  \<^verbatim>\<open>dl_fifo_init\<close>: \<open>ok1\<close>, \<open>ok2\<close> are the outcomes of its two allocations, \<open>junk\<close> what the new block
  holds, \<open>pool\<close> whether a pool was passed. The shift \<^verbatim>\<open>1 << ceillog2(size)\<close> is on \<^verbatim>\<open>int\<close> and undefined
  from 31 on; the product \<^verbatim>\<open>size * esize\<close> wraps.
\<close>

definition dl_fifo_init :: "bool \<Rightarrow> bool \<Rightarrow> (nat \<Rightarrow> byte) \<Rightarrow> u32 \<Rightarrow> u32 \<Rightarrow> bool \<Rightarrow> fifo option option" where
  "dl_fifo_init ok1 ok2 junk sz esize pool =
     (if \<not> ok1 then Some None
      else let c = ceillog2 sz in
        if c < 0 \<or> 31 \<le> c then None
        else let sz = push_bit (nat c) 1 in
          if sz < 2 then Some None
          else if \<not> ok2 then Some None
          else Some (Some \<lparr>f_in = 0, f_out = 0, f_esize = esize, f_mask = sz - 1,
                           f_data = map junk [0..<unat (sz * esize)], f_pool = pool\<rparr>))"

definition dl_fifo_copy_in :: "fifo \<Rightarrow> bytes \<Rightarrow> u32 \<Rightarrow> u32 \<Rightarrow> bytes option" where
  "dl_fifo_copy_in f src len off =
     (let sz = f_mask f + 1;
          esize = f_esize f;
          off = off AND f_mask f;
          (off, sz, len) = (if esize \<noteq> 1 then (off * esize, sz * esize, len * esize)
                              else (off, sz, len));
          l = (if sz - off < len then sz - off else len)
      in do { s1 \<leftarrow> read_at src 0 (unat l);
              d \<leftarrow> write_at (f_data f) (unat off) s1;
              s2 \<leftarrow> read_at src (unat l) (unat (len - l));
              write_at d 0 s2 })"

definition dl_fifo_unused :: "fifo \<Rightarrow> u32" where
  "dl_fifo_unused f = (f_mask f + 1) - (f_in f - f_out f)"

definition dl_fifo_in :: "fifo \<Rightarrow> bytes \<Rightarrow> u32 \<Rightarrow> (u32 \<times> fifo) option" where
  "dl_fifo_in f buf len =
     (let l = dl_fifo_unused f;
          len = (if l < len then l else len)
      in do { d \<leftarrow> dl_fifo_copy_in f buf len (f_in f);
              Some (len, f\<lparr>f_data := d, f_in := f_in f + len\<rparr>) })"

text \<open>
  Here \<^verbatim>\<open>off\<close> is an \<^verbatim>\<open>int\<close>: the arithmetic is that of \<^verbatim>\<open>unsigned\<close>, but as an offset into the block it is
  signed, and a negative one is outside the block.
\<close>

definition dl_fifo_copy_out :: "fifo \<Rightarrow> u32 \<Rightarrow> u32 \<Rightarrow> bytes option" where
  "dl_fifo_copy_out f len off =
     (let sz = f_mask f + 1;
          esize = f_esize f;
          off = off AND f_mask f;
          (off, sz, len) = (if esize \<noteq> 1 then (off * esize, sz * esize, len * esize)
                              else (off, sz, len));
          l = (if sz - off < len then sz - off else len)
      in if sint off < 0 then None
         else do { d1 \<leftarrow> read_at (f_data f) (nat (sint off)) (unat l);
                   d2 \<leftarrow> read_at (f_data f) 0 (unat (len - l));
                   Some (d1 @ d2) })"

definition dl_fifo_out_peek :: "fifo \<Rightarrow> u32 \<Rightarrow> (u32 \<times> bytes) option" where
  "dl_fifo_out_peek f len =
     (let l = f_in f - f_out f;
          len = (if l < len then l else len)
      in do { b \<leftarrow> dl_fifo_copy_out f len (f_out f);
              Some (len, b) })"

definition dl_fifo_out :: "fifo \<Rightarrow> u32 \<Rightarrow> (u32 \<times> bytes \<times> fifo) option" where
  "dl_fifo_out f len =
     do { (len, b) \<leftarrow> dl_fifo_out_peek f len;
          Some (len, b, f\<lparr>f_out := f_out f + len\<rparr>) }"

datatype block = Fifo_data | Fifo_struct

text \<open>The blocks \<^verbatim>\<open>dl_fifo_destroy\<close> frees, in order; with a pool it is the pool that owns them.\<close>

definition dl_fifo_destroy :: "fifo \<Rightarrow> block list" where
  "dl_fifo_destroy f = (if \<not> f_pool f then [Fifo_data, Fifo_struct] else [])"

section \<open>The logarithm\<close>

lemma log_2_cases:
  "log_2 ! 0 = 0" "log_2 ! Suc 0 = 1" "\<lbrakk>2 \<le> x; x < 4\<rbrakk> \<Longrightarrow> log_2 ! x = 2" "\<lbrakk>4 \<le> x; x < 8\<rbrakk> \<Longrightarrow> log_2 ! x = 3"
  "\<lbrakk>8 \<le> x; x < 16\<rbrakk> \<Longrightarrow> log_2 ! x = 4" "\<lbrakk>16 \<le> x; x < 32\<rbrakk> \<Longrightarrow> log_2 ! x = 5"
  "\<lbrakk>32 \<le> x; x < 64\<rbrakk> \<Longrightarrow> log_2 ! x = 6" "\<lbrakk>64 \<le> x; x < 128\<rbrakk> \<Longrightarrow> log_2 ! x = 7"
  "\<lbrakk>128 \<le> x; x < 256\<rbrakk> \<Longrightarrow> log_2 ! x = 8"
  unfolding log_2_def by (auto simp: nth_append nth_Cons')

lemma log_2_spec:
  assumes "0 < x" "x < 256" shows "\<exists>k. log_2 ! x = int k + 1 \<and> 2 ^ k \<le> x \<and> x < 2 ^ (k + 1)"
proof -
  consider "x = 1" | "2 \<le> x" "x < 4" | "4 \<le> x" "x < 8" | "8 \<le> x" "x < 16" | "16 \<le> x" "x < 32"
    | "32 \<le> x" "x < 64" | "64 \<le> x" "x < 128" | "128 \<le> x" "x < 256" using assms by linarith
  then show ?thesis
  proof cases
    case 1 then show ?thesis by (intro exI [of _ 0]) (simp add: log_2_cases)
  next
    case 2 then show ?thesis by (intro exI [of _ 1]) (simp add: log_2_cases)
  next
    case 3 then show ?thesis by (intro exI [of _ 2]) (simp add: log_2_cases)
  next
    case 4 then show ?thesis by (intro exI [of _ 3]) (simp add: log_2_cases)
  next
    case 5 then show ?thesis by (intro exI [of _ 4]) (simp add: log_2_cases)
  next
    case 6 then show ?thesis by (intro exI [of _ 5]) (simp add: log_2_cases)
  next
    case 7 then show ?thesis by (intro exI [of _ 6]) (simp add: log_2_cases)
  next
    case 8 then show ?thesis by (intro exI [of _ 7]) (simp add: log_2_cases)
  qed
qed

lemma log2_loop_spec:
  "0 < x \<Longrightarrow> \<exists>k. log2_loop l x = l + int k + 1 \<and> 2 ^ k \<le> unat x \<and> unat x < 2 ^ (k + 1)"
proof (induction l x rule: log2_loop.induct)
  case (1 l x)
  show ?case
  proof (cases "256 \<le> x")
    case True
    then have "256 \<le> unat x" by (simp add: word_le_nat_alt)
    then have "0 < unat (drop_bit 8 x)" by (simp add: unat_drop_bit_div div_greater_zero_iff)
    then have "0 < drop_bit 8 x" by (simp add: unat_gt_0 word_gt_0)
    from "1.IH" [OF True this] obtain k where
      k: "log2_loop (l + 8) (drop_bit 8 x) = l + 8 + int k + 1"
      "2 ^ k \<le> unat x div 256" "unat x div 256 < 2 ^ (k + 1)" by (auto simp: unat_drop_bit_div)
    have "2 ^ (k + 8) \<le> unat x" using k(2) by (simp add: power_add less_eq_div_iff_mult_less_eq)
    moreover have "unat x < 2 ^ (k + 8 + 1)" using k(3) by (simp add: power_add div_less_iff_less_mult)
    ultimately show ?thesis
      using True k(1) by (intro exI [of _ "k + 8"]) (subst log2_loop.simps, simp)
  next
    case False
    then have "0 < unat x" "unat x < 256"
      using "1.prems" by (simp_all add: word_le_nat_alt unat_gt_0 word_gt_0)
    then show ?thesis using False log_2_spec [of "unat x"] by (subst log2_loop.simps) auto
  qed
qed

text \<open>\<^verbatim>\<open>dl_log2\<close> of a positive number is the position of its highest bit; of zero it is \<open>-1\<close>.\<close>

lemma dl_log2_spec:
  assumes "0 < x" shows "\<exists>k. dl_log2 x = int k \<and> 2 ^ k \<le> unat x \<and> unat x < 2 ^ (k + 1)"
  using log2_loop_spec [OF assms, of "- 1"] by (auto simp: dl_log2_def)

lemma dl_log2_0: "dl_log2 0 = -1"
  by (simp add: dl_log2_def log2_loop.simps log_2_cases)

text \<open>\<^verbatim>\<open>ceillog2\<close> is the exponent of the least power of two that is not smaller.\<close>

lemma ceillog2_spec:
  assumes "0 < x"
  shows "\<exists>c. ceillog2 x = int c \<and> unat x \<le> 2 ^ c \<and> (\<forall>j. unat x \<le> 2 ^ j \<longrightarrow> c \<le> j)"
proof -
  have ux: "0 < unat x" using assms by (simp add: unat_gt_0 word_gt_0)
  have "unat (x - 1) < 2 ^ 64" using unsigned_less [of "x - 1"] by (rule less_trans) simp
  then have u: "unat (ucast (x - 1) :: u64) = unat x - 1"
    using assms by (simp add: unsigned_ucast_eq take_bit_nat_eq_self unat_minus_one word_gt_0)
  show ?thesis
  proof (cases "x = 1")
    case True
    then show ?thesis by (intro exI [of _ 0]) (simp add: ceillog2_def dl_log2_0)
  next
    case False
    then have "unat x \<noteq> 1" by (simp add: word_unat_eq_iff)
    then have "0 < (ucast (x - 1) :: u64)" using u ux by (simp add: word_less_nat_alt)
    from dl_log2_spec [OF this] obtain k where
      k: "dl_log2 (ucast (x - 1)) = int k" "2 ^ k \<le> unat x - 1" "unat x - 1 < 2 ^ (k + 1)"
      unfolding u by blast
    have "k + 1 \<le> j" if "unat x \<le> 2 ^ j" for j
    proof (rule ccontr)
      assume "\<not> k + 1 \<le> j"
      then have "(2::nat) ^ j \<le> 2 ^ k" by (intro power_increasing) simp_all
      with that k(2) ux show False by linarith
    qed
    then show ?thesis using k ux by (intro exI [of _ "k + 1"]) (auto simp: ceillog2_def)
  qed
qed

section \<open>The abstraction\<close>

text \<open>
  Element \<open>j\<close> of a block of elements of \<open>e\<close> bytes; the well-formed states, with a capacity of \<open>2 ^ k\<close>
  elements in a block the signed byte offset of \<^verbatim>\<open>dl_fifo_copy_out\<close> can reach; the queue a state
  stands for, oldest element first.
\<close>

definition elt :: "nat \<Rightarrow> bytes \<Rightarrow> nat \<Rightarrow> bytes" where
  "elt e d j = take e (drop (j * e) d)"

definition fifo_ok :: "nat \<Rightarrow> fifo \<Rightarrow> bool" where
  "fifo_ok k f \<longleftrightarrow> f_mask f = mask k \<and> 0 < k \<and> k < 31 \<and> 0 < unat (f_esize f)
     \<and> 2 ^ k * unat (f_esize f) \<le> 2 ^ 31 \<and> length (f_data f) = 2 ^ k * unat (f_esize f)
     \<and> unat (f_in f - f_out f) \<le> 2 ^ k"

definition contents :: "nat \<Rightarrow> fifo \<Rightarrow> bytes list" where
  "contents k f = map (\<lambda>i. elt (unat (f_esize f)) (f_data f) ((unat (f_out f) + i) mod 2 ^ k))
     [0..<unat (f_in f - f_out f)]"

lemma elt_bound: "j < n \<Longrightarrow> j * e + e \<le> n * (e :: nat)"
  using mult_le_mono1 [of "Suc j" n e] by simp

lemma length_elt: "j < n \<Longrightarrow> length d = n * e \<Longrightarrow> length (elt e d j) = e"
  using elt_bound [of j n e] by (simp add: elt_def)

lemma nth_elt: "i < e \<Longrightarrow> j < n \<Longrightarrow> length d = n * e \<Longrightarrow> elt e d j ! i = d ! (j * e + i)"
  using elt_bound [of j n e] by (simp add: elt_def)

lemma write_at_Some:
  "write_at d off s = Some d' \<longleftrightarrow>
   off + length s \<le> length d \<and> d' = take off d @ s @ drop (off + length s) d"
  by (auto simp: write_at_def)

lemma take_drop_inside: "a + e \<le> length x \<Longrightarrow> take e (drop a (x @ y)) = take e (drop a x)"
  by simp

lemma take_drop_take: "a + e \<le> b \<Longrightarrow> take e (drop a (take b d)) = take e (drop a d)"
  by (simp add: drop_take take_take min_def)

text \<open>Writing whole elements at an element boundary.\<close>

lemma elt_write:
  assumes "length d = n * e" "length s = m * e" "o' + m \<le> n" "j < n"
  shows "elt e (take (o' * e) d @ s @ drop (o' * e + m * e) d) j
       = (if o' \<le> j \<and> j < o' + m then elt e s (j - o') else elt e d j)"
proof -
  have om: "o' * e + m * e \<le> n * e" using mult_le_mono1 [OF assms(3), of e] by (simp add: algebra_simps)
  consider "j < o'" | "o' \<le> j" "j < o' + m" | "o' + m \<le> j" by linarith
  then show ?thesis
  proof cases
    case 1
    have b: "j * e + e \<le> o' * e" "o' * e \<le> length d"
      using elt_bound [OF 1, of e] om assms(1) by linarith+
    then have "j * e + e \<le> length (take (o' * e) d)" by (simp only: length_take min_absorb2)
    then show ?thesis
      unfolding elt_def using 1 by (simp only: take_drop_inside take_drop_take [OF b(1)]) simp
  next
    case 2
    then obtain i where i: "j = o' + i" "i < m" by (auto simp: le_iff_add)
    then show ?thesis
      using elt_bound [of i m e] om assms by (simp add: elt_def algebra_simps)
  next
    case 3
    then obtain i where i: "j = o' + m + i" by (auto simp: le_iff_add)
    have "drop (j * e) (take (o' * e) d @ s @ drop (o' * e + m * e) d) = drop (j * e) d"
      using om assms(1-3) by (simp add: i algebra_simps min_absorb2)
    then show ?thesis using 3 by (simp add: elt_def)
  qed
qed

text \<open>A run of consecutive elements is the concatenation of its elements.\<close>

lemma concat_elts:
  "(o' + l) * e \<le> length d \<Longrightarrow>
   take (l * e) (drop (o' * e) d) = concat (map (\<lambda>i. elt e d (o' + i)) [0..<l])"
proof (induction l)
  case (Suc l)
  have "take (l * e + e) (drop (o' * e) d) = take (l * e) (drop (o' * e) d) @ take e (drop (l * e) (drop (o' * e) d))"
    by (rule take_add)
  moreover have "drop (l * e) (drop (o' * e) d) = drop ((o' + l) * e) d"
    by (simp add: algebra_simps)
  ultimately show ?case using Suc by (simp add: elt_def algebra_simps)
qed simp

lemma length_concat_elts:
  assumes "\<And>i. i < l \<Longrightarrow> length (g i) = e" shows "length (concat (map g [0..<l])) = l * (e :: nat)"
  using assms by (induction l) simp_all

lemma unat_and_mask_pow: "unat (x AND mask k) = unat x mod 2 ^ k"
proof -
  have "x AND mask k = take_bit k x" by (simp only: take_bit_eq_mask)
  also have "unat \<dots> = take_bit k (unat x)" by (rule unsigned_take_bit_eq)
  finally show ?thesis by (simp only: take_bit_eq_mod)
qed

text \<open>The words of the byte arithmetic, for \<open>n\<close> elements at the element offset of index \<open>w\<close>.\<close>

lemma fifo_arith:
  assumes "fifo_ok k f"
  defines "e \<equiv> unat (f_esize f)"
  shows "unat (f_mask f + 1) = 2 ^ k" and "unat ((w AND f_mask f) * f_esize f) = unat w mod 2 ^ k * e"
    and "unat ((f_mask f + 1) * f_esize f) = 2 ^ k * e"
    and "unat n \<le> 2 ^ k \<Longrightarrow> unat (n * f_esize f) = unat n * e"
    and "unat w mod 2 ^ k * e < 2 ^ k * e"
proof -
  have ok: "f_mask f = mask k" "k < 31" "0 < e" "2 ^ k * e \<le> 2 ^ 31"
    using assms(1) by (simp_all add: fifo_ok_def e_def)
  have "(2::nat) ^ k < 2 ^ LENGTH(32)" using ok(2) by (intro power_strict_increasing) simp_all
  then have "unat (of_nat (2 ^ k) :: u32) = 2 ^ k" by (rule unat_of_nat_len)
  then show N: "unat (f_mask f + 1) = 2 ^ k" by (simp add: ok(1) mask_eq_exp_minus_1)
  have mult: "unat (a * f_esize f) = unat a * e" if "unat a \<le> 2 ^ k" for a
  proof -
    have "unat a * e \<le> 2 ^ 31" using mult_le_mono1 [OF that, of e] ok(4) by (rule le_trans)
    then have "unat a * unat (f_esize f) < 2 ^ LENGTH(32)" unfolding e_def by (rule le_less_trans) simp
    then show ?thesis unfolding e_def by (rule iffD1 [OF unat_mult_lem])
  qed
  show "unat ((f_mask f + 1) * f_esize f) = 2 ^ k * e"
    using mult [of "f_mask f + 1"] unfolding N by simp
  have w: "unat (w AND f_mask f) = unat w mod 2 ^ k" unfolding ok(1) by (rule unat_and_mask_pow)
  have lt: "unat w mod 2 ^ k < 2 ^ k" by simp
  show "unat ((w AND f_mask f) * f_esize f) = unat w mod 2 ^ k * e"
    using mult [of "w AND f_mask f"] lt unfolding w by simp
  show "unat (n * f_esize f) = unat n * e" if "unat n \<le> 2 ^ k"
    using mult [OF that] .
  show "unat w mod 2 ^ k * e < 2 ^ k * e" using lt ok(3) by simp
qed

text \<open>Both branches of \<^verbatim>\<open>if (esize != 1)\<close> compute the same three products.\<close>

lemma esize_branch:
  "(if e \<noteq> 1 then (a * e, b * e, c * e) else (a, b, c)) = (a * e, b * e, c * (e :: u32))"
  by simp

text \<open>\<^verbatim>\<open>dl_fifo_copy_in\<close> stores element \<open>i\<close> of the source at the \<open>i\<close>-th place from the index, cyclically.\<close>

lemma split_words:
  assumes "unat b \<le> unat (a :: u32)"
  shows "unat (a - b) = unat a - unat b"
  using assms by (simp add: unat_sub word_le_nat_alt)

lemma copy_in_spec:
  assumes ok: "fifo_ok k f" and n: "unat len \<le> 2 ^ k" and src: "unat len * unat (f_esize f) \<le> length src"
  shows "\<exists>d. dl_fifo_copy_in f src len w = Some d \<and> length d = length (f_data f)
    \<and> (\<forall>j<2 ^ k. elt (unat (f_esize f)) d j
          = (let i = (j + 2 ^ k - unat w mod 2 ^ k) mod 2 ^ k in
             if i < unat len then elt (unat (f_esize f)) src i else elt (unat (f_esize f)) (f_data f) j))"
proof -
  define e where "e = unat (f_esize f)"
  define o' where "o' = unat w mod 2 ^ k"
  define N where "N = (2::nat) ^ k"
  define n where "n = unat len"
  define m where "m = (if N - o' < n then N - o' else n)"
  have e: "0 < e" and data: "length (f_data f) = N * e" using ok by (simp_all add: fifo_ok_def e_def N_def)
  note ar = fifo_arith [OF ok, folded e_def]
  have o: "o' < N" "o' * e < N * e" using e by (simp_all add: o'_def N_def)
  define woff where "woff = (w AND f_mask f) * f_esize f"
  define wsize where "wsize = (f_mask f + 1) * f_esize f"
  define wlen where "wlen = len * f_esize f"
  have u: "unat woff = o' * e" "unat wsize = N * e" "unat wlen = n * e"
    using ar(2) [of w] ar(3) ar(4) [OF assms(2)] by (simp_all add: woff_def wsize_def wlen_def o'_def N_def n_def)
  define wl where "wl = (if wsize - woff < wlen then wsize - woff else wlen)"
  have sub: "unat (wsize - woff) = (N - o') * e"
    using o u by (simp add: split_words diff_mult_distrib)
  have wl: "unat wl = m * e" "m \<le> n" "m \<le> N - o'"
    using e u sub by (auto simp: wl_def m_def word_less_nat_alt)
  have wr: "unat (wlen - wl) = (n - m) * e" using wl u by (simp add: split_words diff_mult_distrib)
  have nm: "n - m \<le> o'" "n \<le> N" using o(1) n by (auto simp: m_def n_def N_def)
  have mN: "o' * e + m * e \<le> N * e" and nN: "(n - m) * e \<le> o' * e"
    using mult_le_mono1 [of "o' + m" N e] mult_le_mono1 [OF nm(1), of e] wl(3) o(1)
    by (simp_all add: add_mult_distrib)
  have ns: "m * e \<le> length src" "m * e + (n - m) * e \<le> length src"
  proof -
    have "m * e + (n - m) * e = n * e" using wl(2) by (simp flip: add_mult_distrib)
    moreover have "n * e \<le> length src" using src by (simp add: n_def e_def)
    ultimately show "m * e \<le> length src" "m * e + (n - m) * e \<le> length src" by linarith+
  qed
  define s1 where "s1 = take (m * e) src"
  define s2 where "s2 = take ((n - m) * e) (drop (m * e) src)"
  have ls: "length s1 = m * e" "length s2 = (n - m) * e" using ns by (simp_all add: s1_def s2_def)
  define d1 where "d1 = take (o' * e) (f_data f) @ s1 @ drop (o' * e + m * e) (f_data f)"
  define d2 where "d2 = take (0 * e) d1 @ s2 @ drop (0 * e + (n - m) * e) d1"
  have ld: "length d1 = N * e" using mN o ls data by (simp add: d1_def)
  have ld2: "length d2 = N * e" using ls ld nN o by (simp add: d2_def)
  have "dl_fifo_copy_in f src len w = Some d2"
    unfolding dl_fifo_copy_in_def esize_branch Let_def prod.case woff_def [symmetric] wsize_def [symmetric]
      wlen_def [symmetric] wl_def [symmetric]
    using ns mN nN o ls ld data
    by (simp add: read_at_def write_at_def u wl(1) wr s1_def [symmetric] s2_def [symmetric] d1_def [symmetric] d2_def)
  moreover have "elt e d2 j = (let i = (j + N - o') mod N in if i < n then elt e src i else elt e (f_data f) j)"
    if j: "j < N" for j
  proof -
    have e1: "elt e d1 j = (if o' \<le> j \<and> j < o' + m then elt e s1 (j - o') else elt e (f_data f) j)"
      unfolding d1_def using data ls(1) wl(3) o(1) j by (intro elt_write) auto
    have e2: "elt e d2 j = (if j < n - m then elt e s2 j else elt e d1 j)"
      unfolding d2_def using elt_write [OF ld ls(2), of 0 j] nm o(1) j by simp
    show ?thesis
    proof (cases "o' \<le> j")
      case True
      then have i: "(j + N - o') mod N = j - o'" using j o(1) by (simp add: mod_if)
      show ?thesis
      proof (cases "j - o' < n")
        case True
        then have "j < o' + m" using \<open>o' \<le> j\<close> j by (auto simp: m_def)
        moreover have "\<not> j < n - m" using nm \<open>o' \<le> j\<close> by simp
        moreover have "elt e s1 (j - o') = elt e src (j - o')"
          using elt_bound [of "j - o'" m e] \<open>j < o' + m\<close> \<open>o' \<le> j\<close> ns(1)
          unfolding elt_def s1_def by (simp only: take_drop_take)
        ultimately show ?thesis using e1 e2 i True \<open>o' \<le> j\<close> by (simp add: Let_def)
      next
        case False
        then have "\<not> j < o' + m" "\<not> j < n - m" using wl(2) nm \<open>o' \<le> j\<close> by auto
        then show ?thesis using e1 e2 i False by (simp add: Let_def)
      qed
    next
      case False
      then have i: "(j + N - o') mod N = j + N - o'" using j o(1) by simp
      show ?thesis
      proof (cases "j + N - o' < n")
        case True
        then have m: "m = N - o'" "j < n - m" using False o(1) by (auto simp: m_def)
        have "elt e s2 j = elt e src (m + j)"
          using elt_bound [OF m(2), of e] ns unfolding elt_def s2_def
          by (simp add: take_drop_take drop_drop algebra_simps)
        then show ?thesis using e2 i True m False o(1) by (simp add: Let_def add.commute)
      next
        case False': False
        then have "\<not> j < n - m" using o(1) by (auto simp: m_def split: if_splits)
        then show ?thesis using e1 e2 i False' False by (simp add: Let_def)
      qed
    qed
  qed
  ultimately show ?thesis
    using ld2 data unfolding e_def N_def o'_def n_def by (intro exI [of _ d2] conjI allI impI) simp_all
qed

lemma sint_small:
  assumes "unat (x :: u32) < 2 ^ 31" shows "sint x = int (unat x)"
proof -
  have "sint x = signed_take_bit 31 (int (unat x))" by (simp add: sint_uint)
  also have "\<dots> = int (unat x)"
  proof (rule signed_take_bit_int_eq_self)
    have "int (unat x) < int (2 ^ 31)" using assms by (simp only: of_nat_less_iff)
    then show "int (unat x) < 2 ^ 31" by simp
    have "- (2 ^ 31) \<le> (0 :: int)" by simp
    also have "0 \<le> int (unat x)" by (rule of_nat_0_le_iff)
    finally show "- (2 ^ 31) \<le> int (unat x)" .
  qed
  finally show ?thesis .
qed

lemma sint_neg_u32:
  assumes "2 ^ 31 \<le> unat (x :: u32)" shows "sint x < 0"
proof -
  have "unat x < 2 * 2 ^ 31" using unsigned_less [of x] by simp
  then have "unat x div 2 ^ 31 = 1" using assms by (simp add: div_nat_eqI)
  then have "bit (unat x) 31" by (simp add: bit_iff_odd)
  moreover have "sint x = signed_take_bit 31 (int (unat x))" by (simp add: sint_uint)
  ultimately show ?thesis by (simp only: signed_take_bit_negative_iff bit_of_nat_iff_bit)
qed

lemma copy_out_spec:
  assumes ok: "fifo_ok k f" and n: "unat len \<le> 2 ^ k"
  shows "dl_fifo_copy_out f len w
    = Some (concat (map (\<lambda>i. elt (unat (f_esize f)) (f_data f) ((unat w + i) mod 2 ^ k)) [0..<unat len]))"
proof -
  define e where "e = unat (f_esize f)"
  define o' where "o' = unat w mod 2 ^ k"
  define N where "N = (2::nat) ^ k"
  define n where "n = unat len"
  define m where "m = (if N - o' < n then N - o' else n)"
  have e: "0 < e" and data: "length (f_data f) = N * e" and max: "N * e \<le> 2 ^ 31"
    using ok by (simp_all add: fifo_ok_def e_def N_def)
  note ar = fifo_arith [OF ok, folded e_def]
  have o: "o' < N" "o' * e < N * e" using e by (simp_all add: o'_def N_def)
  define woff where "woff = (w AND f_mask f) * f_esize f"
  define wsize where "wsize = (f_mask f + 1) * f_esize f"
  define wlen where "wlen = len * f_esize f"
  have u: "unat woff = o' * e" "unat wsize = N * e" "unat wlen = n * e"
    using ar(2) [of w] ar(3) ar(4) [OF assms(2)] by (simp_all add: woff_def wsize_def wlen_def o'_def N_def n_def)
  define wl where "wl = (if wsize - woff < wlen then wsize - woff else wlen)"
  have sub: "unat (wsize - woff) = (N - o') * e"
    using o u by (simp add: split_words diff_mult_distrib)
  have wl: "unat wl = m * e" "m \<le> n" "m \<le> N - o'"
    using e u sub by (auto simp: wl_def m_def word_less_nat_alt)
  have wr: "unat (wlen - wl) = (n - m) * e" using wl u by (simp add: split_words diff_mult_distrib)
  have nm: "n - m \<le> N" "o' + m \<le> N" using o(1) n wl(3) by (auto simp: m_def n_def N_def)
  have rd: "o' * e + m * e \<le> length (f_data f)" "(n - m) * e \<le> length (f_data f)"
    using mult_le_mono1 [OF nm(2), of e] mult_le_mono1 [OF nm(1), of e] data by (simp_all add: add_mult_distrib)
  have "unat woff < 2 ^ 31" using o(2) max u(1) by linarith
  then have so: "sint woff = int (o' * e)" using sint_small [of woff] unfolding u(1) by simp
  have "dl_fifo_copy_out f len w
      = Some (take (m * e) (drop (o' * e) (f_data f)) @ take ((n - m) * e) (drop (0 * e) (f_data f)))"
    unfolding dl_fifo_copy_out_def esize_branch Let_def prod.case woff_def [symmetric] wsize_def [symmetric]
      wlen_def [symmetric] wl_def [symmetric]
    using rd by (simp add: read_at_def so wl(1) wr del: of_nat_mult)
  also have "take (m * e) (drop (o' * e) (f_data f)) = concat (map (\<lambda>i. elt e (f_data f) (o' + i)) [0..<m])"
    using rd(1) by (intro concat_elts) (simp add: add_mult_distrib)
  also have "\<dots> = concat (map (\<lambda>i. elt e (f_data f) ((unat w + i) mod N)) [0..<m])"
  proof -
    have "o' + i = (unat w + i) mod N" if "i < m" for i
    proof -
      have "(o' + i) mod N = (unat w + i) mod N" by (simp add: o'_def N_def mod_add_left_eq)
      moreover have "o' + i < N" using that nm(2) by simp
      ultimately show ?thesis by simp
    qed
    then show ?thesis by (intro arg_cong [of _ _ concat] map_cong) simp_all
  qed
  also have "take ((n - m) * e) (drop (0 * e) (f_data f))
      = concat (map (\<lambda>i. elt e (f_data f) (0 + i)) [0..<n - m])"
    using rd(2) by (intro concat_elts) simp
  also have "\<dots> = concat (map (\<lambda>i. elt e (f_data f) ((unat w + i) mod N)) [m..<n])"
  proof -
    have "0 + i = (unat w + (m + i)) mod N" if "i < n - m" for i
    proof -
      have m: "m = N - o'" using that by (simp add: m_def split: if_splits)
      have "i < N" using that n unfolding n_def N_def by linarith
      have "(unat w + (m + i)) mod N = (o' + (m + i)) mod N" by (simp add: o'_def N_def mod_add_left_eq)
      also have "o' + (m + i) = i + N" using m o(1) by simp
      finally show ?thesis using \<open>i < N\<close> by simp
    qed
    moreover have "map (\<lambda>i. i + m) [0..<n - m] = map ((+) m) [0..<n - m]" by (rule map_cong) simp_all
    then have "[m..<n] = map ((+) m) [0..<n - m]" using wl(2) map_add_upt [of m "n - m"] by simp
    ultimately show ?thesis by (intro arg_cong [of _ _ concat]) simp
  qed
  finally show ?thesis
    using wl(2) upt_add_eq_append [of 0 m "n - m"] by (simp add: e_def N_def n_def)
qed

section \<open>Refinement of a bounded queue\<close>

lemma index_add:
  assumes "k < 32" shows "unat (a + b :: u32) mod 2 ^ k = (unat a + unat b) mod 2 ^ k"
proof -
  have "(2::nat) ^ k dvd 2 ^ 32" using assms by (intro le_imp_power_dvd) simp
  then show ?thesis by (simp add: unat_word_ariths mod_mod_cancel)
qed

lemma cyclic_distance:
  assumes "c \<le> (N::nat)" "0 < N"
  shows "((a + x) mod N + N - (a + c) mod N) mod N = (x + N - c) mod N"
proof -
  have "(a + c) mod N \<le> (a + x) mod N + N" using mod_less_divisor [OF assms(2), of "a + c"] by linarith
  then have "int (((a + x) mod N + N - (a + c) mod N) mod N)
      = (int ((a + x) mod N) + int N - int ((a + c) mod N)) mod int N"
    by (simp add: of_nat_diff zmod_int)
  also have "\<dots> = ((int a + int x) mod int N - (int a + int c) mod int N) mod int N"
    using mod_diff_left_eq [of "(int a + int x) mod int N + int N" "int N" "(int a + int c) mod int N"]
    by (simp add: zmod_int)
  also have "\<dots> = (int x - int c) mod int N"
    by (simp only: mod_diff_eq) simp
  also have "\<dots> = (int x + int N - int c) mod int N"
    using mod_add_self2 [of "int x - int c" "int N"] by (simp add: algebra_simps)
  also have "\<dots> = int ((x + N - c) mod N)" using assms(1) by (simp add: of_nat_diff zmod_int)
  finally show ?thesis by simp
qed

lemma unused_words:
  assumes "fifo_ok k f"
  shows "unat (dl_fifo_unused f) = 2 ^ k - unat (f_in f - f_out f)"
  using assms fifo_arith(1) [OF assms] unfolding dl_fifo_unused_def
  by (subst split_words) (simp_all add: fifo_ok_def)

lemma unat_min: "unat (if l < len then l else len) = min (unat len) (unat (l :: u32))"
  by (simp add: word_less_nat_alt min_def)

lemma fifo_in_refines:
  assumes ok: "fifo_ok k f"
    and n: "n = min (unat len) (2 ^ k - length (contents k f))" and buf: "n * unat (f_esize f) \<le> length buf"
  shows "\<exists>f'. dl_fifo_in f buf len = Some (of_nat n, f') \<and> fifo_ok k f' \<and> f_esize f' = f_esize f
    \<and> contents k f' = contents k f @ map (elt (unat (f_esize f)) buf) [0..<n]"
proof -
  define c where "c = unat (f_in f - f_out f)"
  define l where "l = (if dl_fifo_unused f < len then dl_fifo_unused f else len)"
  define e where "e = unat (f_esize f)"
  have k: "k < 31" and c: "c \<le> 2 ^ k" using ok by (simp_all add: fifo_ok_def c_def)
  have l: "unat l = n" unfolding l_def unat_min unused_words [OF ok] n by (simp add: contents_def)
  have nc: "n \<le> 2 ^ k" "c + n \<le> 2 ^ k" using c by (auto simp: n contents_def c_def)
  obtain d where d: "dl_fifo_copy_in f buf l (f_in f) = Some d" "length d = length (f_data f)"
    "\<forall>j<2 ^ k. elt e d j = (let i = (j + 2 ^ k - unat (f_in f) mod 2 ^ k) mod 2 ^ k in
             if i < n then elt e buf i else elt e (f_data f) j)"
    using copy_in_spec [OF ok, of l buf "f_in f"] buf nc(1) unfolding l e_def by blast
  define f' where "f' = f\<lparr>f_data := d, f_in := f_in f + l\<rparr>"
  have run: "dl_fifo_in f buf len = Some (of_nat n, f')"
    using d(1) l unfolding dl_fifo_in_def l_def [symmetric] Let_def
    by (simp add: f'_def word_unat_eq_iff flip: l)
  have "(2::nat) ^ k < 2 ^ LENGTH(32)" using k by (intro power_strict_increasing) simp_all
  with nc(2) have "c + n < 2 ^ LENGTH(32)" by (rule le_less_trans)
  then have "unat ((f_in f - f_out f) + l) = c + n"
    using unat_add_lem [of "f_in f - f_out f" l] by (simp only: l c_def)
  moreover have "f_in f' - f_out f' = (f_in f - f_out f) + l" by (simp add: f'_def)
  ultimately have c': "unat (f_in f' - f_out f') = c + n" by simp
  have N: "2 ^ k * unat (f_esize f) = length (f_data f)" using ok by (simp add: fifo_ok_def)
  have ok': "fifo_ok k f'" using ok d(2) c' nc(2) by (simp add: fifo_ok_def f'_def)
  have "unat (f_in f) = unat (f_out f + (f_in f - f_out f))" by simp
  then have in_pos: "unat (f_in f) mod 2 ^ k = (unat (f_out f) + c) mod 2 ^ k"
    using k index_add [of k "f_out f" "f_in f - f_out f"] by (simp add: c_def)
  have pos: "elt e d ((unat (f_out f) + x) mod 2 ^ k)
      = (let i = (x + 2 ^ k - c) mod 2 ^ k in
           if i < n then elt e buf i else elt e (f_data f) ((unat (f_out f) + x) mod 2 ^ k))" for x
    using d(3) c cyclic_distance [of c "2 ^ k" "unat (f_out f)" x] unfolding in_pos by simp
  have old: "elt e d ((unat (f_out f) + x) mod 2 ^ k) = elt e (f_data f) ((unat (f_out f) + x) mod 2 ^ k)"
    if "x < c" for x
  proof -
    have "(x + 2 ^ k - c) mod 2 ^ k = x + 2 ^ k - c" using that c by (intro mod_less) linarith
    moreover have "\<not> x + 2 ^ k - c < n" using nc(2) c by linarith
    ultimately show ?thesis using pos [of x] by (simp add: Let_def)
  qed
  have new: "elt e d ((unat (f_out f) + (x + c)) mod 2 ^ k) = elt e buf x" if "x < n" for x
  proof -
    have "(x + c + 2 ^ k - c) mod 2 ^ k = x" using that nc(1) by simp
    then show ?thesis using pos [of "x + c"] that by (simp add: Let_def)
  qed
  have "contents k f' = map (\<lambda>i. elt e d ((unat (f_out f) + i) mod 2 ^ k)) ([0..<c] @ map (\<lambda>i. i + c) [0..<n])"
    unfolding contents_def c' map_add_upt by (simp add: f'_def e_def upt_add_eq_append [symmetric] add.commute)
  also have "\<dots> = contents k f @ map (elt e buf) [0..<n]"
    unfolding map_append contents_def c_def [symmetric] e_def [symmetric] using old new by simp
  finally show ?thesis using run ok' by (auto simp: f'_def e_def)
qed

lemma fifo_out_refines:
  assumes ok: "fifo_ok k f" and n: "n = min (unat len) (length (contents k f))"
  shows "\<exists>f'. dl_fifo_out f len = Some (of_nat n, concat (take n (contents k f)), f') \<and> fifo_ok k f'
    \<and> f_esize f' = f_esize f \<and> contents k f' = drop n (contents k f)"
proof -
  define c where "c = unat (f_in f - f_out f)"
  define l where "l = (if f_in f - f_out f < len then f_in f - f_out f else len)"
  define e where "e = unat (f_esize f)"
  have k: "k < 31" and c: "c \<le> 2 ^ k" using ok by (simp_all add: fifo_ok_def c_def)
  have l: "unat l = n" unfolding l_def unat_min n by (simp add: contents_def)
  have nc: "n \<le> c" "n \<le> 2 ^ k" using c by (auto simp: n contents_def c_def)
  define f' where "f' = f\<lparr>f_out := f_out f + l\<rparr>"
  have "take n (contents k f) = map (\<lambda>i. elt e (f_data f) ((unat (f_out f) + i) mod 2 ^ k)) [0..<n]"
    using nc by (simp add: contents_def take_map c_def e_def)
  then have run: "dl_fifo_out f len = Some (of_nat n, concat (take n (contents k f)), f')"
    using copy_out_spec [OF ok, of l "f_out f"] nc(2)
    unfolding dl_fifo_out_def dl_fifo_out_peek_def l_def [symmetric] Let_def
    by (simp add: l f'_def e_def word_unat_eq_iff) (simp flip: l)
  have d: "f_in f' - f_out f' = (f_in f - f_out f) - l" by (simp add: f'_def)
  have c': "unat (f_in f' - f_out f') = c - n"
    using nc(1) split_words [of l "f_in f - f_out f"] unfolding d by (simp only: l c_def)
  have ok': "fifo_ok k f'" using ok c' c by (simp add: fifo_ok_def f'_def)
  have "contents k f' = map (\<lambda>i. elt e (f_data f) ((unat (f_out f) + (i + n)) mod 2 ^ k)) [0..<c - n]"
  proof -
    have "(unat (f_out f + l) + i) mod 2 ^ k = (unat (f_out f) + (i + n)) mod 2 ^ k" for i
    proof -
      have "(unat (f_out f + l) + i) mod 2 ^ k = (unat (f_out f + l) mod 2 ^ k + i) mod 2 ^ k"
        by (simp only: mod_add_left_eq)
      also have "\<dots> = ((unat (f_out f) + n) mod 2 ^ k + i) mod 2 ^ k"
        using k index_add [of k "f_out f" l] by (simp only: l)
      also have "\<dots> = (unat (f_out f) + (i + n)) mod 2 ^ k"
        by (simp only: mod_add_left_eq add.assoc add.commute [of n i])
      finally show ?thesis .
    qed
    then show ?thesis unfolding contents_def c' by (simp add: f'_def e_def)
  qed
  also have "\<dots> = drop n (contents k f)"
  proof -
    have "map (\<lambda>i. i + n) [0..<c - n] = [n..<c]" using map_add_upt [of n "c - n"] nc(1) by simp
    then show ?thesis
      unfolding contents_def c_def [symmetric] drop_map drop_upt e_def [symmetric]
      by (simp add: comp_def flip: \<open>map (\<lambda>i. i + n) [0..<c - n] = [n..<c]\<close>)
  qed
  finally show ?thesis using run ok' by (auto simp: f'_def)
qed

section \<open>Creation\<close>

lemma ceillog2_le:
  assumes "2 \<le> unat x" "unat x \<le> 2 ^ m"
  shows "\<exists>k. ceillog2 x = int k \<and> 0 < k \<and> k \<le> m \<and> unat x \<le> 2 ^ k \<and> (\<forall>j. unat x \<le> 2 ^ j \<longrightarrow> k \<le> j)"
proof -
  have "0 < x" using assms(1) by (simp add: word_gt_0 unat_gt_0 [symmetric])
  from ceillog2_spec [OF this] obtain k where
    k: "ceillog2 x = int k" "unat x \<le> 2 ^ k" "\<forall>j. unat x \<le> 2 ^ j \<longrightarrow> k \<le> j" by blast
  moreover have "k \<noteq> 0" using k(2) assms(1) by (cases "k = 0") auto
  ultimately show ?thesis using assms(2) by auto
qed

lemma init_ok:
  assumes "2 \<le> unat sz" "unat sz \<le> 2 ^ 30" "0 < unat esize" "ceillog2 sz = int k" "k \<le> 30" "0 < k"
    and "2 ^ k * unat esize \<le> 2 ^ 31"
  shows "\<exists>f. dl_fifo_init True True junk sz esize pool = Some (Some f) \<and> fifo_ok k f \<and> contents k f = []
    \<and> f_esize f = esize"
proof -
  define c where "c = (2 ^ k :: u32)"
  have "(2::nat) ^ k < 2 ^ LENGTH(32)" using assms(5) by (intro power_strict_increasing) simp_all
  then have "unat (of_nat (2 ^ k) :: u32) = 2 ^ k" by (rule unat_of_nat_len)
  then have c: "unat c = 2 ^ k" by (simp add: c_def)
  have "(2::nat) ^ 1 \<le> 2 ^ k" using assms(6) by (intro power_increasing) simp_all
  then have c2: "\<not> c < 2" using c by (simp add: word_less_nat_alt)
  have "2 ^ k * unat esize < 2 ^ LENGTH(32)" using assms(7) by (rule le_less_trans) simp
  then have len: "unat (c * esize) = 2 ^ k * unat esize"
    using unat_mult_lem [of c esize] unfolding c by blast
  have "c - 1 = mask k" by (simp add: c_def mask_eq_exp_minus_1)
  then show ?thesis
    using assms(3-7) c2 len
    by (simp add: dl_fifo_init_def Let_def c_def [symmetric] fifo_ok_def contents_def)
qed

section \<open>The contract of a bounded queue\<close>

text \<open>
  \<open>put\<close> takes as many of the offered elements as fit and appends them, \<open>get\<close> removes up to \<open>n\<close> from
  the front. The client lemmas say what a producer and a consumer can rely on.
\<close>

locale bounded_queue =
  fixes wf :: "'q \<Rightarrow> bool" and view :: "'q \<Rightarrow> 'a list" and cap :: nat and legal :: "'a list \<Rightarrow> bool"
    and put :: "'q \<Rightarrow> 'a list \<Rightarrow> (nat \<times> 'q) option"
    and get :: "'q \<Rightarrow> nat \<Rightarrow> ('a list \<times> 'q) option"
  assumes view_cap: "wf q \<Longrightarrow> length (view q) \<le> cap"
    and put_law: "wf q \<Longrightarrow> legal xs \<Longrightarrow> n = min (length xs) (cap - length (view q)) \<Longrightarrow>
      \<exists>q'. put q xs = Some (n, q') \<and> wf q' \<and> view q' = view q @ take n xs"
    and get_law: "wf q \<Longrightarrow> n \<le> cap \<Longrightarrow>
      \<exists>q'. get q n = Some (take n (view q), q') \<and> wf q' \<and> view q' = drop n (view q)"
begin

lemma put_all:
  assumes "wf q" "legal xs" "length (view q) + length xs \<le> cap"
  shows "\<exists>q'. put q xs = Some (length xs, q') \<and> wf q' \<and> view q' = view q @ xs"
  using put_law [OF assms(1,2), of "length xs"] assms(3) by simp

lemma get_all:
  assumes "wf q" shows "\<exists>q'. get q (length (view q)) = Some (view q, q') \<and> wf q' \<and> view q' = []"
  using get_law [OF assms view_cap [OF assms]] by simp

lemma put_full:
  assumes "wf q" "legal xs" "length (view q) = cap"
  shows "\<exists>q'. put q xs = Some (0, q') \<and> view q' = view q"
  using put_law [OF assms(1,2) refl] assms(3) by auto

lemma get_put:
  assumes "wf q" "view q = []" "legal xs" "length xs \<le> cap"
  shows "\<exists>q' q''. put q xs = Some (length xs, q') \<and> get q' (length xs) = Some (xs, q'') \<and> view q'' = []"
proof -
  obtain q' where "put q xs = Some (length xs, q')" "wf q'" "view q' = xs"
    using put_all [of q xs] assms by auto
  then show ?thesis using get_all [of q'] by auto
qed

end

text \<open>The fifo as a queue of elements: a buffer holding the elements is passed in, the buffer read is
  cut into elements.\<close>

definition fifo_put :: "fifo \<Rightarrow> bytes list \<Rightarrow> (nat \<times> fifo) option" where
  "fifo_put f xs = map_option (\<lambda>(n, f'). (unat n, f')) (dl_fifo_in f (concat xs) (of_nat (length xs)))"

definition fifo_get :: "fifo \<Rightarrow> nat \<Rightarrow> (bytes list \<times> fifo) option" where
  "fifo_get f n = map_option (\<lambda>(n, b, f'). (map (elt (unat (f_esize f)) b) [0..<unat n], f'))
     (dl_fifo_out f (of_nat n))"

lemma elt_concat:
  "list_all (\<lambda>x. length x = e) xs \<Longrightarrow> i < length xs \<Longrightarrow> elt e (concat xs) i = xs ! i"
proof (induction xs arbitrary: i)
  case (Cons x xs)
  then show ?case by (cases i) (auto simp: elt_def)
qed simp

lemma elts_concat:
  assumes "list_all (\<lambda>x. length x = e) xs" "n \<le> length xs"
  shows "map (elt e (concat xs)) [0..<n] = take n xs"
  using assms by (intro nth_equalityI) (simp_all add: elt_concat)

lemma length_concat_same: "list_all (\<lambda>x. length x = e) xs \<Longrightarrow> length (concat xs) = length xs * e"
  by (induction xs) simp_all

lemma contents_elts:
  assumes "fifo_ok k f" shows "list_all (\<lambda>x. length x = unat (f_esize f)) (contents k f)"
  using assms by (auto simp: contents_def list_all_iff fifo_ok_def intro!: length_elt [where n = "2 ^ k"])

lemma contents_cap: "fifo_ok k f \<Longrightarrow> length (contents k f) \<le> 2 ^ k"
  by (simp add: contents_def fifo_ok_def)

lemma pow_u32: "k < 31 \<Longrightarrow> n \<le> 2 ^ k \<Longrightarrow> unat (of_nat n :: u32) = n"
proof -
  assume "k < 31" "n \<le> 2 ^ k"
  moreover from \<open>k < 31\<close> have "(2::nat) ^ k < 2 ^ LENGTH(32)" by (intro power_strict_increasing) simp_all
  ultimately show ?thesis by (intro unat_of_nat_len) linarith
qed

interpretation fq: bounded_queue
  "\<lambda>f. fifo_ok k f \<and> unat (f_esize f) = e" "contents k" "2 ^ k"
  "\<lambda>xs. list_all (\<lambda>x. length x = e) xs \<and> length xs < 2 ^ 32" fifo_put fifo_get
proof (unfold_locales, goal_cases)
  case (1 q)
  then show ?case by (simp add: contents_cap)
next
  case (2 q xs n)
  then have k: "k < 31" and u: "unat (of_nat (length xs) :: u32) = length xs"
    by (auto simp: fifo_ok_def intro: unat_of_nat_len)
  have n: "n \<le> length xs" "n \<le> 2 ^ k" using 2 by auto
  have "length (concat xs) = length xs * e" using 2(2) length_concat_same by blast
  then have "n * e \<le> length (concat xs)" using n(1) by (simp only: mult_le_mono1)
  then obtain f' where "dl_fifo_in q (concat xs) (of_nat (length xs)) = Some (of_nat n, f')" "fifo_ok k f'"
    "f_esize f' = f_esize q" "contents k f' = contents k q @ map (elt e (concat xs)) [0..<n]"
    using fifo_in_refines [of k q n "of_nat (length xs)" "concat xs"] 2 u by auto
  then show ?case using 2 n elts_concat [of e xs n] pow_u32 [OF k n(2)] by (auto simp: fifo_put_def)
next
  case (3 q n)
  then have k: "k < 31" by (simp add: fifo_ok_def)
  define m where "m = min n (length (contents k q))"
  have m: "m \<le> 2 ^ k" using 3 by (simp add: m_def)
  have tk: "take m (contents k q) = take n (contents k q)" "drop m (contents k q) = drop n (contents k q)"
    by (auto simp: m_def min_def)
  obtain f' where f': "dl_fifo_out q (of_nat n) = Some (of_nat m, concat (take m (contents k q)), f')"
    "fifo_ok k f'" "f_esize f' = f_esize q" "contents k f' = drop m (contents k q)"
    using fifo_out_refines [of k q m "of_nat n"] 3 pow_u32 [OF k, of n] unfolding m_def by auto
  have "list_all (\<lambda>x. length x = e) (take m (contents k q))"
    using contents_elts [of k q] 3 by (auto simp: list_all_iff dest: in_set_takeD)
  then have "map (elt e (concat (take m (contents k q)))) [0..<m] = take m (contents k q)"
    using elts_concat [of e "take m (contents k q)" m] by (simp add: m_def)
  then show ?case using 3 f' pow_u32 [OF k m] tk by (auto simp: fifo_get_def)
qed

section \<open>Any interleaving of producer and consumer\<close>

text \<open>
  \<open>fifo_run f a d g\<close>: from \<open>f\<close>, a sequence of calls leads to \<open>g\<close>; \<open>a\<close> are the elements the calls of
  \<^verbatim>\<open>dl_fifo_in\<close> said they took, \<open>d\<close> the elements the calls of \<^verbatim>\<open>dl_fifo_out\<close> returned. The producer
  passes a buffer of at least \<open>len\<close> elements.
\<close>

inductive fifo_run :: "fifo \<Rightarrow> bytes list \<Rightarrow> bytes list \<Rightarrow> fifo \<Rightarrow> bool" for f where
  run_start: "fifo_run f [] [] f"
| run_in: "fifo_run f a d g \<Longrightarrow> unat len * unat (f_esize g) \<le> length buf \<Longrightarrow>
    dl_fifo_in g buf len = Some (n, g') \<Longrightarrow>
    fifo_run f (a @ map (elt (unat (f_esize g)) buf) [0..<unat n]) d g'"
| run_out: "fifo_run f a d g \<Longrightarrow> dl_fifo_out g len = Some (n, b, g') \<Longrightarrow>
    fifo_run f a (d @ map (elt (unat (f_esize g)) b) [0..<unat n]) g'"

inductive_cases fifo_runE: "fifo_run f a d g"

lemma fifo_run_invariant:
  assumes "fifo_run f a d g" "fifo_ok k f"
  shows "fifo_ok k g \<and> contents k f @ a = d @ contents k g"
  using assms(1)
proof induction
  case run_start
  then show ?case using assms(2) by simp
next
  case (run_in a d g len buf n g')
  define m where "m = min (unat len) (2 ^ k - length (contents k g))"
  have k: "k < 31" "m \<le> 2 ^ k" using run_in.IH by (auto simp: fifo_ok_def m_def)
  have "m * unat (f_esize g) \<le> length buf"
    using run_in.hyps(2) mult_le_mono1 [of m "unat len" "unat (f_esize g)"] unfolding m_def by linarith
  then show ?case
    using fifo_in_refines [of k g m len buf] run_in.IH run_in.hyps(3) pow_u32 [OF k]
    unfolding m_def by (auto simp flip: append_assoc)
next
  case (run_out a d g len n b g')
  define m where "m = min (unat len) (length (contents k g))"
  have k: "k < 31" "m \<le> 2 ^ k" using run_out.IH contents_cap [of k g] by (auto simp: fifo_ok_def m_def)
  have "list_all (\<lambda>x. length x = unat (f_esize g)) (take m (contents k g))"
    using contents_elts [of k g] run_out.IH by (auto simp: list_all_iff dest: in_set_takeD)
  then have "map (elt (unat (f_esize g)) (concat (take m (contents k g)))) [0..<m] = take m (contents k g)"
    using elts_concat [of _ "take m (contents k g)" m] by (simp add: m_def)
  then show ?case
    using fifo_out_refines [of k g m len] run_out.IH run_out.hyps(2) pow_u32 [OF k]
    unfolding m_def by auto
qed

section \<open>Properties\<close>

text \<open>\<^verbatim>\<open>ceillog2\<close> is the exponent of the least power of two that is not smaller than its positive
  argument.\<close>

theorem ceillog2_least:
  assumes "0 < x"
  shows "\<exists>c. ceillog2 x = int c \<and> unat x \<le> 2 ^ c \<and> (\<forall>j. unat x \<le> 2 ^ j \<longrightarrow> c \<le> j)"
  using assms by (rule ceillog2_spec)

theorem ceillog2_least_witness: "\<exists>c. ceillog2 100 = int c \<and> 100 \<le> (2::nat) ^ c"
  using ceillog2_least [of 100] by auto

text \<open>For a size between \<open>2\<close> and \<open>2 ^ 30\<close> and a block of at most \<open>2 ^ 31\<close> bytes, \<^verbatim>\<open>dl_fifo_init\<close> creates
  an empty, well-formed buffer whose capacity is the least power of two not below the size.\<close>

theorem fifo_init:
  assumes "2 \<le> unat sz" "unat sz \<le> 2 ^ 30" "0 < unat esize" "2 * unat sz * unat esize \<le> 2 ^ 31"
  shows "\<exists>k f. dl_fifo_init True True junk sz esize pool = Some (Some f) \<and> fifo_ok k f
    \<and> contents k f = [] \<and> f_esize f = esize \<and> unat sz \<le> 2 ^ k \<and> 2 ^ k < 2 * unat sz"
proof -
  from ceillog2_le [OF assms(1,2)] obtain k where k: "ceillog2 sz = int k" "0 < k" "k \<le> 30" "unat sz \<le> 2 ^ k"
    and least: "\<forall>j. unat sz \<le> 2 ^ j \<longrightarrow> k \<le> j" by blast
  have "\<not> unat sz \<le> 2 ^ (k - 1)" using least k(2) by (auto dest!: spec [of _ "k - 1"])
  moreover have "(2::nat) ^ k = 2 * 2 ^ (k - 1)" using k(2) by (cases k) simp_all
  ultimately have lt: "2 ^ k < 2 * unat sz" by simp
  then have "2 ^ k * unat esize \<le> 2 * unat sz * unat esize" by (intro mult_le_mono1) simp
  then have "2 ^ k * unat esize \<le> 2 ^ 31" using assms(4) by (rule le_trans)
  then show ?thesis using init_ok [OF assms(1-3) k(1) k(3) k(2)] k(4) lt by blast
qed

theorem fifo_init_witness:
  "\<exists>k f. dl_fifo_init True True (\<lambda>_. 0) 5 4 False = Some (Some f) \<and> contents k f = []"
  using fifo_init [of 5 4 "\<lambda>_. 0" False] by auto

text \<open>C7: from an empty well-formed buffer, whatever the sequence of calls (indices wrapping at 32 bits
  included): the elements accepted are exactly the elements delivered followed by the elements
  still in the buffer, never more of them than the capacity. Nothing is lost, duplicated or
  reordered.\<close>

theorem fifo_keeps_order:
  assumes "fifo_ok k f" "contents k f = []" "fifo_run f a d g"
  shows "a = d @ contents k g \<and> length (contents k g) \<le> 2 ^ k \<and> fifo_ok k g"
  using fifo_run_invariant [OF assms(3,1)] assms(2) contents_cap [of k g] by auto

definition small_fifo :: fifo where
  "small_fifo = \<lparr>f_in = - 1, f_out = - 1, f_esize = 1, f_mask = 1, f_data = [0, 0], f_pool = False\<rparr>"

lemma small_fifo_ok: "fifo_ok 1 small_fifo \<and> contents 1 small_fifo = []"
  by (simp add: fifo_ok_def small_fifo_def contents_def)

lemma small_run:
  "fifo_run small_fifo [[7], [8]] [[7]] (small_fifo\<lparr>f_data := [8, 7], f_in := 1, f_out := 0\<rparr>)"
proof -
  let ?g = "small_fifo\<lparr>f_data := [8, 7], f_in := 1\<rparr>"
  have "dl_fifo_in small_fifo [7, 8, 9] 3 = Some (2, ?g)"
    by (simp add: dl_fifo_in_def dl_fifo_unused_def dl_fifo_copy_in_def read_at_def write_at_def small_fifo_def)
  moreover have "map (elt 1 [7, 8, 9]) [0..<unat (2 :: u32)] = [[7], [8]]"
    by (simp add: elt_def upt_rec)
  ultimately have g: "fifo_run small_fifo [[7], [8]] [] ?g"
    using run_in [OF run_start [of small_fifo], of 3 "[7, 8, 9]" 2 ?g] by (simp add: small_fifo_def)
  have "dl_fifo_out ?g 1 = Some (1, [7], ?g\<lparr>f_out := 0\<rparr>)"
    by (simp add: dl_fifo_out_def dl_fifo_out_peek_def dl_fifo_copy_out_def read_at_def small_fifo_def)
  from run_out [OF g this] show ?thesis by (simp add: small_fifo_def elt_def)
qed

theorem fifo_keeps_order_witness:
  "[[7], [8]] = [[7]] @ contents 1 (small_fifo\<lparr>f_data := [8, 7], f_in := 1, f_out := 0\<rparr>)"
  using fifo_keeps_order [of 1 small_fifo, OF _ _ small_run] small_fifo_ok by blast

text \<open>A producer that fits is served completely: what is put into an empty buffer in one call, across
  the wrap of indices and block, is what the next \<^verbatim>\<open>dl_fifo_out\<close> of as many elements returns.\<close>

theorem fifo_put_get:
  assumes "fifo_ok k f" "contents k f = []" "list_all (\<lambda>x. length x = unat (f_esize f)) xs" "length xs \<le> 2 ^ k"
  shows "\<exists>f' f''. fifo_put f xs = Some (length xs, f') \<and> fifo_get f' (length xs) = Some (xs, f'')
    \<and> contents k f'' = []"
proof -
  have "k < 31" using assms(1) by (simp add: fifo_ok_def)
  then have "(2::nat) ^ k < 2 ^ 32" by (intro power_strict_increasing) simp_all
  then have "length xs < 2 ^ 32" using assms(4) by linarith
  then show ?thesis using fq.get_put [of k f "unat (f_esize f)" xs] assms by simp
qed

theorem fifo_put_get_witness:
  "\<exists>f' f''. fifo_put small_fifo [[7], [8]] = Some (2, f') \<and> fifo_get f' 2 = Some ([[7], [8]], f'')"
  using fifo_put_get [of 1 small_fifo "[[7], [8]]"] small_fifo_ok
  by (auto simp: small_fifo_def numeral_2_eq_2)

text \<open>The offset of \<^verbatim>\<open>dl_fifo_copy_out\<close> is an \<^verbatim>\<open>int\<close>: once the read position lies \<open>2 ^ 31\<close> bytes or
  more into the block, \<^verbatim>\<open>dl_fifo_out\<close> addresses memory before the block.\<close>

theorem fifo_out_negative_offset:
  assumes "f_mask f = mask k" "2 ^ k * unat (f_esize f) < 2 ^ 32" "k < 32"
    and "2 ^ 31 \<le> (unat (f_out f) mod 2 ^ k) * unat (f_esize f)"
  shows "dl_fifo_out f len = None"
proof -
  let ?off = "(f_out f AND f_mask f) * f_esize f"
  have w: "unat (f_out f AND f_mask f) = unat (f_out f) mod 2 ^ k" unfolding assms(1) by (rule unat_and_mask_pow)
  have "unat (f_out f) mod 2 ^ k * unat (f_esize f) \<le> 2 ^ k * unat (f_esize f)"
    by (intro mult_le_mono1) (simp add: less_imp_le)
  moreover have "2 ^ k * unat (f_esize f) < 2 ^ LENGTH(32)" using assms(2) by simp
  ultimately have "unat (f_out f AND f_mask f) * unat (f_esize f) < 2 ^ LENGTH(32)"
    unfolding w by (rule le_less_trans)
  then have "unat ?off = unat (f_out f) mod 2 ^ k * unat (f_esize f)"
    using unat_mult_lem [of "f_out f AND f_mask f" "f_esize f"] unfolding w by simp
  then have "2 ^ 31 \<le> unat ?off" using assms(4) by simp
  then have "sint ?off < 0" by (simp add: sint_neg_u32)
  then show ?thesis
    by (simp add: dl_fifo_out_def dl_fifo_out_peek_def dl_fifo_copy_out_def esize_branch Let_def)
qed

definition big_fifo :: fifo where
  "big_fifo = \<lparr>f_in = 2 ^ 30, f_out = 2 ^ 30 - 1, f_esize = 3, f_mask = 2 ^ 30 - 1,
     f_data = replicate (3 * 2 ^ 30) 0, f_pool = False\<rparr>"

lemma big_fifo_fields:
  "f_mask big_fifo = mask 30" "unat (f_esize big_fifo) = 3" "unat (f_out big_fifo) = 2 ^ 30 - 1"
  by (simp_all add: big_fifo_def mask_eq_exp_minus_1)

theorem fifo_out_negative_offset_witness: "dl_fifo_out big_fifo 1 = None"
  by (rule fifo_out_negative_offset [of _ 30]) (simp_all add: big_fifo_fields)

text \<open>The product \<^verbatim>\<open>size * esize\<close> is not checked either: two elements of \<open>2 ^ 31\<close> bytes get a block of none.\<close>

lemma fifo_init_overflow:
  "dl_fifo_init True True junk 2 0x80000000 pool
   = Some (Some \<lparr>f_in = 0, f_out = 0, f_esize = 0x80000000, f_mask = 1, f_data = [], f_pool = pool\<rparr>)"
proof -
  have "ceillog2 2 = 1" using ceillog2_le [of 2 1] by auto
  then show ?thesis by (simp add: dl_fifo_init_def)
qed

text \<open>A size of \<open>0\<close> wraps to a logarithm of \<open>32\<close>: the shift is undefined.\<close>

lemma fifo_init_zero: "dl_fifo_init True True junk 0 esize pool = None"
proof -
  have u: "unat (ucast (0 - 1 :: u32) :: u64) = 2 ^ 32 - 1"
    by (simp add: unsigned_ucast_eq take_bit_nat_eq_self unsigned_minus_1_eq_mask mask_eq_exp_minus_1)
  then have "0 < (ucast (0 - 1 :: u32) :: u64)" by (simp add: word_less_nat_alt)
  from dl_log2_spec [OF this] obtain k where k: "dl_log2 (ucast (0 - 1 :: u32)) = int k"
    "(2::nat) ^ 32 - 1 < 2 ^ (k + 1)" unfolding u by blast
  have "31 \<le> k"
  proof (rule ccontr)
    assume "\<not> 31 \<le> k"
    then have "(2::nat) ^ (k + 1) \<le> 2 ^ 31" by (intro power_increasing) simp_all
    with k(2) show False by simp
  qed
  then show ?thesis using k(1) by (simp add: dl_fifo_init_def ceillog2_def)
qed

end
