(* ===== verification/Dl_Hash.thy ===== *)
theory Dl_Hash
  imports Dl_Prelude "HOL-Library.Multiset"
begin

text \<open>
  The chained hash table of \<^verbatim>\<open>dl_hash.c\<close>. A slot is the list of its nodes, main node first (an empty
  list is a main node of type \<^verbatim>\<open>DL_H_NULL\<close>); a node carries the chain of its values. Reads of a
  stored key past its end are \<open>None\<close>. \<open>ok n\<close> says whether the \<open>n\<close>-th allocation of a call succeeds.
  A failed allocation leaves a half-filled node or value in the table, and the table lives on with it:
  the fields the code has not written are \<open>None\<close> (\<open>n_key\<close>, \<open>n_hash\<close>) or \<open>NoStr\<close> and \<open>NoData\<close>, and a
  use of them is undefined (\<open>None\<close>). \<open>el_sum\<close> counts the successful setter calls, which are fewer than
  \<open>2 ^ 31\<close> (no code of the library reads it).
\<close>

section \<open>Nodes and chains\<close>

datatype hval = H_INT u64 | H_STR bytes | H_VOID nat

text \<open>
  What a stored \<^verbatim>\<open>dl_hash_v\<close> holds: a value, or what \<^verbatim>\<open>fill_v\<close> leaves of a string when the \<^verbatim>\<open>dl_str\<close>
  (\<open>NoStr\<close>, \<^verbatim>\<open>v.s\<close> is \<^verbatim>\<open>NULL\<close>) or its bytes (\<open>NoData\<close>, \<^verbatim>\<open>v.s->data\<close> is \<^verbatim>\<open>NULL\<close>) cannot be allocated.
\<close>

datatype hcell = Val hval | NoStr | NoData

text \<open>
  \<open>n_key\<close> is \<open>None\<close> where the key pointer is \<^verbatim>\<open>NULL\<close>, freed or not written, \<open>n_hash\<close> where the hash is
  not written.
\<close>

record 'v hnode =
  n_key :: "bytes option"
  n_hash :: "u32 option"
  n_vals :: "'v list"

record hash =
  slots :: "hcell hnode list list"
  el_sum :: int
  flag :: u32
  handler :: bool

abbreviation H_UNIQUE :: u32 where "H_UNIQUE \<equiv> 1"
abbreviation H_LIST :: u32 where "H_LIST \<equiv> 2"

fun hash_key_loop :: "u32 \<Rightarrow> bytes \<Rightarrow> u32" where
  "hash_key_loop key [] = key"
| "hash_key_loop key (b # data) = hash_key_loop (key * 31 + ucast b) data"

definition dl_hash_key :: "bytes \<Rightarrow> u32" where
  "dl_hash_key data = hash_key_loop 0 (take (if 20 < length data then 20 else length data) data)"

definition slot_index :: "'v hnode list list \<Rightarrow> u32 \<Rightarrow> nat" where
  "slot_index ss h_key = unat h_key mod length ss"

text \<open>
  The \<^verbatim>\<open>while (n)\<close> search: the position of the node whose hash is equal and whose key agrees with the
  searched one on the length of the searched one.
\<close>

fun chain_find :: "'v hnode list \<Rightarrow> u32 \<Rightarrow> bytes \<Rightarrow> nat option option" where
  "chain_find [] h_key key = Some None"
| "chain_find (n # ns) h_key key =
     (case n_hash n of
        None \<Rightarrow> None
      | Some hk \<Rightarrow>
          if hk = h_key then
            (case n_key n of
               None \<Rightarrow> None
             | Some data \<Rightarrow>
                 if length data < length key then None
                 else if take (length key) data = key then Some (Some 0)
                 else map_option (map_option Suc) (chain_find ns h_key key))
          else map_option (map_option Suc) (chain_find ns h_key key))"

section \<open>dl_hash_init and dl_hash_set\<close>

text \<open>The number of slots is an \<^verbatim>\<open>int\<close>: from \<open>2 ^ 31\<close> on, the size asked for is beyond any allocation.\<close>

definition dl_hash_init :: "bool \<Rightarrow> bool \<Rightarrow> u32 \<Rightarrow> bool \<Rightarrow> u32 \<Rightarrow> hash option" where
  "dl_hash_init ok1 ok2 slot hdl type =
     (if \<not> ok1 then None
      else let slot_total = (if slot \<noteq> 0 then unat slot else 64) in
        if \<not> ok2 \<or> 2 ^ 31 \<le> slot_total then None
        else Some \<lparr>slots = replicate slot_total [], el_sum = 0, flag = type, handler = hdl\<rparr>)"

text \<open>
  \<^verbatim>\<open>fill_v\<close>: whether it succeeds, what is in \<^verbatim>\<open>hv\<close> then, and the number of the next allocation.
  \<^verbatim>\<open>*(int *)v\<close> keeps the low 32 bits of the \<^verbatim>\<open>long\<close>, sign-extended.
\<close>

fun fill_v :: "(nat \<Rightarrow> bool) \<Rightarrow> nat \<Rightarrow> hval \<Rightarrow> bool \<times> hcell \<times> nat" where
  "fill_v ok n (H_STR s) =
     (if \<not> ok n then (False, NoStr, n + 1)
      else if \<not> ok (n + 1) then (False, NoData, n + 2)
      else (True, Val (H_STR s), n + 2))"
| "fill_v ok n (H_INT i) = (True, Val (H_INT (scast (ucast i :: u32))), n)"
| "fill_v ok n (H_VOID p) = (True, Val (H_VOID p), n)"

text \<open>
  \<^verbatim>\<open>fill_node\<close>: whether it succeeds, and what \<^verbatim>\<open>n\<close> is then. The copy into the key block comes before
  the \<^verbatim>\<open>NULL\<close> test of it.
\<close>

definition fill_node :: "(nat \<Rightarrow> bool) \<Rightarrow> nat \<Rightarrow> bytes \<Rightarrow> hval \<Rightarrow> hcell hnode \<Rightarrow> (bool \<times> hcell hnode) option" where
  "fill_node ok m key v n =
     (case fill_v ok m v of
        (b, c, m) \<Rightarrow>
          let n = n\<lparr>n_vals := [c]\<rparr> in
          if \<not> b then Some (False, n)
          else if \<not> ok m then Some (False, n)
          else if \<not> ok (m + 1) then None
          else Some (True, n\<lparr>n_key := Some key\<rparr>))"

text \<open>
  The main node of an unused slot has the hash 0 (from \<^verbatim>\<open>dl_calloc\<close> or \<^verbatim>\<open>free_k\<close>) and no usable key; a
  new node of a used slot is not initialised, but linked before it is filled.
\<close>

definition dl_hash_set :: "(nat \<Rightarrow> bool) \<Rightarrow> hash \<Rightarrow> bytes \<Rightarrow> hval \<Rightarrow> (rc \<times> hash) option" where
  "dl_hash_set ok h key v =
     (let h_key = dl_hash_key key;
          i = slot_index (slots h) h_key;
          chain = slots h ! i
      in if chain = [] then
           (case fill_node ok 0 key v \<lparr>n_key = None, n_hash = Some 0, n_vals = []\<rparr> of
              None \<Rightarrow> None
            | Some (False, n) \<Rightarrow> Some (DL_ERROR, h\<lparr>slots := (slots h)[i := [n]]\<rparr>)
            | Some (True, n) \<Rightarrow>
                Some (DL_OK, h\<lparr>slots := (slots h)[i := [n\<lparr>n_hash := Some h_key\<rparr>]], el_sum := el_sum h + 1\<rparr>))
         else case chain_find chain h_key key of
           None \<Rightarrow> None
         | Some None \<Rightarrow>
             if \<not> ok 0 then Some (DL_ERROR, h)
             else (case fill_node ok 1 key v \<lparr>n_key = None, n_hash = None, n_vals = []\<rparr> of
                     None \<Rightarrow> None
                   | Some (False, n) \<Rightarrow>
                       Some (DL_ERROR, h\<lparr>slots := (slots h)[i := hd chain # n # tl chain]\<rparr>)
                   | Some (True, n) \<Rightarrow>
                       Some (DL_OK, h\<lparr>slots := (slots h)[i := hd chain # n\<lparr>n_hash := Some h_key\<rparr> # tl chain],
                                      el_sum := el_sum h + 1\<rparr>))
         | Some (Some j) \<Rightarrow>
             if flag h AND H_LIST \<noteq> 0 then
               if \<not> ok 0 then None
               else (case fill_v ok 1 v of
                       (b, c, _) \<Rightarrow>
                         let n = chain ! j;
                             n = n\<lparr>n_vals := hd (n_vals n) # c # tl (n_vals n)\<rparr>;
                             h = h\<lparr>slots := (slots h)[i := chain[j := n]]\<rparr>
                         in if \<not> b then Some (DL_ERROR, h)
                            else Some (DL_OK, h\<lparr>el_sum := el_sum h + 1\<rparr>))
             else Some (DL_AGAIN, h))"

definition dl_hash_set_str :: "(nat \<Rightarrow> bool) \<Rightarrow> hash \<Rightarrow> bytes \<Rightarrow> bytes \<Rightarrow> (rc \<times> hash) option" where
  "dl_hash_set_str ok h k v = dl_hash_set ok h k (H_STR v)"

definition dl_hash_set_int :: "(nat \<Rightarrow> bool) \<Rightarrow> hash \<Rightarrow> bytes \<Rightarrow> u64 \<Rightarrow> (rc \<times> hash) option" where
  "dl_hash_set_int ok h k v = dl_hash_set ok h k (H_INT v)"

definition dl_hash_set_void :: "(nat \<Rightarrow> bool) \<Rightarrow> hash \<Rightarrow> bytes \<Rightarrow> nat \<Rightarrow> (rc \<times> hash) option" where
  "dl_hash_set_void ok h k v = dl_hash_set ok h k (H_VOID v)"

section \<open>dl_hash_find, dl_hash_del and dl_hash_destroy\<close>

definition dl_hash_find :: "hash \<Rightarrow> bytes \<Rightarrow> hcell list option option" where
  "dl_hash_find h data =
     (let h_key = dl_hash_key data;
          chain = slots h ! slot_index (slots h) h_key
      in if chain = [] then Some None
         else map_option (map_option (\<lambda>j. n_vals (chain ! j))) (chain_find chain h_key data))"

text \<open>
  \<^verbatim>\<open>free_v\<close> hands the custom values to the handler, head first; the pointers handed over are
  returned. A missing handler is a call through \<^verbatim>\<open>NULL\<close>; of a half-filled string \<^verbatim>\<open>v.s->data\<close> is read.
\<close>

fun free_v :: "bool \<Rightarrow> hcell list \<Rightarrow> nat list option" where
  "free_v hdl [] = Some []"
| "free_v hdl (Val (H_VOID p) # vs) = (if \<not> hdl then None else map_option ((#) p) (free_v hdl vs))"
| "free_v hdl (Val (H_STR s) # vs) = free_v hdl vs"
| "free_v hdl (Val (H_INT i) # vs) = free_v hdl vs"
| "free_v hdl (NoStr # vs) = None"
| "free_v hdl (NoData # vs) = free_v hdl vs"

text \<open>\<^verbatim>\<open>free_k\<close> reads \<^verbatim>\<open>k->key->data\<close>.\<close>

definition free_node :: "bool \<Rightarrow> hcell hnode \<Rightarrow> nat list option" where
  "free_node hdl n = (case n_key n of None \<Rightarrow> None | Some _ \<Rightarrow> free_v hdl (n_vals n))"

text \<open>
  Removing the main node moves the next one into its place, removing another one unlinks it: on
  the list of nodes both drop position \<open>j\<close>. \<open>el_sum\<close> is left as it is.
\<close>

definition dl_hash_del :: "hash \<Rightarrow> bytes \<Rightarrow> (hash \<times> nat list) option" where
  "dl_hash_del h key =
     (let h_key = dl_hash_key key;
          i = slot_index (slots h) h_key;
          chain = slots h ! i
      in if chain = [] then Some (h, [])
         else case chain_find chain h_key key of
           None \<Rightarrow> None
         | Some None \<Rightarrow> Some (h, [])
         | Some (Some j) \<Rightarrow>
             do { ps \<leftarrow> free_node (handler h) (chain ! j);
                  Some (h\<lparr>slots := (slots h)[i := (if j = 0 then tl chain
                                                    else take j chain @ drop (Suc j) chain)]\<rparr>, ps) })"

definition dl_hash_set_rep :: "(nat \<Rightarrow> bool) \<Rightarrow> hash \<Rightarrow> bytes \<Rightarrow> hval \<Rightarrow> ((rc \<times> hash) \<times> nat list) option" where
  "dl_hash_set_rep ok h k v =
     do { (h', ps) \<leftarrow> dl_hash_del h k;
          r \<leftarrow> dl_hash_set ok h' k v;
          Some (r, ps) }"

definition dl_hash_set_str_rep ::
  "(nat \<Rightarrow> bool) \<Rightarrow> hash \<Rightarrow> bytes \<Rightarrow> bytes \<Rightarrow> ((rc \<times> hash) \<times> nat list) option" where
  "dl_hash_set_str_rep ok h k v = dl_hash_set_rep ok h k (H_STR v)"

definition dl_hash_set_int_rep ::
  "(nat \<Rightarrow> bool) \<Rightarrow> hash \<Rightarrow> bytes \<Rightarrow> u64 \<Rightarrow> ((rc \<times> hash) \<times> nat list) option" where
  "dl_hash_set_int_rep ok h k v = dl_hash_set_rep ok h k (H_INT v)"

definition dl_hash_set_void_rep ::
  "(nat \<Rightarrow> bool) \<Rightarrow> hash \<Rightarrow> bytes \<Rightarrow> nat \<Rightarrow> ((rc \<times> hash) \<times> nat list) option" where
  "dl_hash_set_void_rep ok h k v = dl_hash_set_rep ok h k (H_VOID v)"

text \<open>\<^verbatim>\<open>dl_hash_destroy\<close>: slot by slot, node by node.\<close>

fun free_nodes :: "bool \<Rightarrow> hcell hnode list \<Rightarrow> nat list option" where
  "free_nodes hdl [] = Some []"
| "free_nodes hdl (n # ns) =
     do { ps \<leftarrow> free_node hdl n;
          qs \<leftarrow> free_nodes hdl ns;
          Some (ps @ qs) }"

definition dl_hash_destroy :: "hash \<Rightarrow> nat list option" where
  "dl_hash_destroy h = free_nodes (handler h) (concat (slots h))"

section \<open>The abstraction\<close>

text \<open>
  \<^verbatim>\<open>memcmp\<close> over the length of the searched key is a comparison of keys where two keys with the same
  hash value have the same length: the keys a table is used with are a \<open>safe\<close> set. A well-formed
  table over such a set stands for a map from keys to value chains.
\<close>

definition safe :: "bytes set \<Rightarrow> bool" where
  "safe K \<longleftrightarrow> (\<forall>a\<in>K. \<forall>b\<in>K. dl_hash_key a = dl_hash_key b \<longrightarrow> length a = length b)"

definition node_ok :: "bytes set \<Rightarrow> 'v hnode list list \<Rightarrow> nat \<Rightarrow> 'v hnode \<Rightarrow> bool" where
  "node_ok K ss i n \<longleftrightarrow> (\<exists>k \<in> K. n_key n = Some k \<and> n_hash n = Some (dl_hash_key k)
     \<and> slot_index ss (dl_hash_key k) = i) \<and> n_vals n \<noteq> []"

definition table_ok :: "bytes set \<Rightarrow> 'v hnode list list \<Rightarrow> bool" where
  "table_ok K ss \<longleftrightarrow> ss \<noteq> [] \<and> (\<forall>i<length ss. (\<forall>n \<in> set (ss ! i). node_ok K ss i n)
     \<and> distinct (map n_key (ss ! i)))"

definition chain_map :: "'v hnode list \<Rightarrow> bytes option \<Rightarrow> 'v list option" where
  "chain_map ns = map_of (map (\<lambda>n. (n_key n, n_vals n)) ns)"

definition table_map :: "'v hnode list list \<Rightarrow> bytes \<Rightarrow> 'v list option" where
  "table_map ss k = chain_map (ss ! slot_index ss (dl_hash_key k)) (Some k)"

lemma slot_index_less [simp]: "ss \<noteq> [] \<Longrightarrow> slot_index ss hk < length ss"
  by (simp add: slot_index_def)

lemma slot_index_upd [simp]: "slot_index (ss[i := c]) hk = slot_index ss hk"
  by (simp add: slot_index_def)

lemma node_ok_upd [simp]: "node_ok K (ss[i := c]) j n = node_ok K ss j n"
  by (simp add: node_ok_def)

lemma chain_map_simps [simp]:
  "chain_map [] = Map.empty"
  "chain_map (n # ns) = (chain_map ns)(n_key n \<mapsto> n_vals n)"
  by (simp_all add: chain_map_def)

lemma chain_map_None: "chain_map ns k = None \<longleftrightarrow> k \<notin> n_key ` set ns"
  by (induction ns) auto

lemma chain_map_split:
  "distinct (map n_key (xs @ n # ys)) \<Longrightarrow> chain_map (xs @ n # ys) = (chain_map (xs @ ys))(n_key n \<mapsto> n_vals n)"
proof (induction xs)
  case (Cons x xs)
  then have "n_key x \<noteq> n_key n" by auto
  then show ?case using Cons by (auto simp: fun_eq_iff)
qed simp

lemma chain_map_without:
  assumes "n_key n \<notin> n_key ` set ns" shows "(chain_map ns)(n_key n := None) = chain_map ns"
  using chain_map_None [of ns "n_key n"] assms by (simp add: fun_upd_idem)

abbreviation keyed :: "bytes set \<Rightarrow> 'v hnode \<Rightarrow> bool" where
  "keyed K n \<equiv> \<exists>k \<in> K. n_key n = Some k \<and> n_hash n = Some (dl_hash_key k)"

lemma chain_find_spec:
  assumes "safe K" "k \<in> K" "\<forall>n \<in> set ns. keyed K n"
  shows "\<exists>r. chain_find ns (dl_hash_key k) k = Some r
    \<and> (r = None \<longrightarrow> Some k \<notin> n_key ` set ns) \<and> (\<forall>j. r = Some j \<longrightarrow> j < length ns \<and> n_key (ns ! j) = Some k)"
  using assms(3)
proof (induction ns)
  case (Cons n ns)
  have "\<forall>n \<in> set ns. keyed K n" using Cons.prems by simp
  from Cons.IH [OF this] obtain r where r: "chain_find ns (dl_hash_key k) k = Some r" "r = None \<longrightarrow> Some k \<notin> n_key ` set ns"
    "\<forall>j. r = Some j \<longrightarrow> j < length ns \<and> n_key (ns ! j) = Some k" by blast
  obtain k' where n: "k' \<in> K" "n_key n = Some k'" "n_hash n = Some (dl_hash_key k')" using Cons.prems by auto
  show ?case
  proof (cases "k' = k")
    case True
    then have "chain_find (n # ns) (dl_hash_key k) k = Some (Some 0)" using n by simp
    then show ?thesis using n(2) True by auto
  next
    case False
    have "length k' = length k" if "dl_hash_key k' = dl_hash_key k"
      using n that assms(1,2) unfolding safe_def by metis
    then have f: "chain_find (n # ns) (dl_hash_key k) k = Some (map_option Suc r)" using r(1) False n by simp
    show ?thesis
    proof (intro exI conjI allI impI)
      show "chain_find (n # ns) (dl_hash_key k) k = Some (map_option Suc r)" by (rule f)
      show "Some k \<notin> n_key ` set (n # ns)" if "map_option Suc r = None" using that r(2) False n by auto
      fix j assume "map_option Suc r = Some j"
      then obtain i where i: "r = Some i" "j = Suc i" by auto
      then show "j < length (n # ns)" "n_key ((n # ns) ! j) = Some k" using r(3) by simp_all
    qed
  qed
qed simp

lemma table_chain:
  assumes "table_ok K ss" "i < length ss"
  shows "\<forall>n \<in> set (ss ! i). node_ok K ss i n" and "distinct (map n_key (ss ! i))"
  using assms by (simp_all add: table_ok_def)

lemma table_slot:
  assumes "table_ok K ss"
  shows "\<forall>n \<in> set (ss ! slot_index ss hk). keyed K n"
    and "distinct (map n_key (ss ! slot_index ss hk))"
proof -
  have "ss \<noteq> []" using assms by (simp add: table_ok_def)
  then have i: "slot_index ss hk < length ss" by simp
  show "\<forall>n \<in> set (ss ! slot_index ss hk). keyed K n"
    using table_chain(1) [OF assms i] unfolding node_ok_def by blast
  show "distinct (map n_key (ss ! slot_index ss hk))" by (rule table_chain(2) [OF assms i])
qed

lemma chain_find_absent:
  assumes "safe K" "k \<in> K" "table_ok K ss" "table_map ss k = None"
  defines "chain \<equiv> ss ! slot_index ss (dl_hash_key k)"
  shows "chain_find chain (dl_hash_key k) k = Some None \<and> Some k \<notin> n_key ` set chain"
proof -
  have a: "Some k \<notin> n_key ` set chain" using assms(4) by (simp add: table_map_def chain_def chain_map_None)
  have "\<forall>n \<in> set chain. keyed K n"
    using table_slot(1) [OF assms(3)] by (simp add: chain_def)
  from chain_find_spec [OF assms(1,2) this] obtain r where
    r: "chain_find chain (dl_hash_key k) k = Some r" "\<forall>j. r = Some j \<longrightarrow> j < length chain \<and> n_key (chain ! j) = Some k"
    by blast
  have "r = None"
  proof (cases r)
    case (Some j)
    then have "n_key (chain ! j) \<in> n_key ` set chain" using r(2) by (intro imageI nth_mem) simp
    then show ?thesis using r(2) Some a by simp
  qed
  then show ?thesis using r(1) a by simp
qed

lemma chain_find_present:
  assumes "safe K" "k \<in> K" "table_ok K ss" "table_map ss k = Some vs"
  defines "chain \<equiv> ss ! slot_index ss (dl_hash_key k)"
  shows "\<exists>xs n ys. chain_find chain (dl_hash_key k) k = Some (Some (length xs)) \<and> chain = xs @ n # ys
    \<and> n_key n = Some k \<and> n_vals n = vs"
proof -
  have "Some k \<in> n_key ` set chain"
    using assms(4) chain_map_None [of chain "Some k"] by (auto simp: table_map_def chain_def)
  moreover have ok: "\<forall>n \<in> set chain. keyed K n" and d: "distinct (map n_key chain)"
    using table_slot [OF assms(3)] by (simp_all add: chain_def)
  ultimately obtain j where
    j: "chain_find chain (dl_hash_key k) k = Some (Some j)" "j < length chain" "n_key (chain ! j) = Some k"
    using chain_find_spec [OF assms(1,2) ok] by (metis option.exhaust)
  have split: "chain = take j chain @ chain ! j # drop (Suc j) chain" using id_take_nth_drop [OF j(2)] .
  have "distinct (map n_key (take j chain @ chain ! j # drop (Suc j) chain))" using d by (simp flip: split)
  from chain_map_split [OF this] have "chain_map chain (Some k) = Some (n_vals (chain ! j))"
    using j(3) by (simp flip: split)
  then have "n_vals (chain ! j) = vs" using assms(4) by (simp add: table_map_def chain_def)
  moreover have "length (take j chain) = j" using j(2) by simp
  ultimately show ?thesis using split j by metis
qed

text \<open>Replacing the chain of the slot of \<open>k\<close> by one that differs at \<open>k\<close> only.\<close>

lemma table_update:
  assumes "table_ok K ss" "i = slot_index ss (dl_hash_key k)"
    and "\<forall>n \<in> set chain. node_ok K ss i n" "distinct (map n_key chain)"
    and "chain_map chain = (chain_map (ss ! i))(Some k := r)"
  shows "table_ok K (ss[i := chain])" and "table_map (ss[i := chain]) = (table_map ss)(k := r)"
proof -
  have ne: "ss \<noteq> []" using assms(1) by (simp add: table_ok_def)
  show "table_ok K (ss[i := chain])"
    using assms by (auto simp: table_ok_def nth_list_update)
  show "table_map (ss[i := chain]) = (table_map ss)(k := r)"
    using ne assms(2,5) by (auto simp: table_map_def nth_list_update fun_eq_iff)
qed

section \<open>Refinement\<close>

text \<open>The values of a chain without half-filled strings.\<close>

definition whole :: "hcell list \<Rightarrow> hval list" where
  "whole cs = concat (map (\<lambda>c. case c of Val v \<Rightarrow> [v] | _ \<Rightarrow> []) cs)"

lemma whole_simps [simp]:
  "whole [] = []" "whole (Val v # cs) = v # whole cs" "whole (NoStr # cs) = whole cs"
  "whole (NoData # cs) = whole cs" "whole (cs @ ds) = whole cs @ whole ds"
  by (simp_all add: whole_def)

lemma whole_map_Val [simp]: "whole (map Val vs) = vs"
  by (induction vs) simp_all

definition all_whole :: "hcell hnode list list \<Rightarrow> bool" where
  "all_whole ss \<longleftrightarrow> (\<forall>n \<in> set (concat ss). n_vals n = map Val (whole (n_vals n)))"

definition hash_ok :: "bytes set \<Rightarrow> hash \<Rightarrow> bool" where
  "hash_ok K h \<longleftrightarrow> safe K \<and> table_ok K (slots h) \<and> all_whole (slots h)"

definition hash_map :: "hash \<Rightarrow> bytes \<Rightarrow> hval list option" where
  "hash_map h = map_option whole \<circ> table_map (slots h)"

abbreviation no_oom :: "nat \<Rightarrow> bool" where "no_oom \<equiv> \<lambda>_. True"

text \<open>What comes back for a stored value: strings and pointers as they are, of an integer its low 32
  bits, sign-extended.\<close>

fun stored :: "hval \<Rightarrow> hval" where
  "stored (H_STR s) = H_STR s"
| "stored (H_INT i) = H_INT (scast (ucast i :: u32))"
| "stored (H_VOID p) = H_VOID p"

lemma fill_v_stored: "\<exists>m. fill_v no_oom n v = (True, Val (stored v), m)"
  by (cases v) simp_all

lemma fill_node_stored:
  "fill_node no_oom m key v n = Some (True, n\<lparr>n_key := Some key, n_vals := [Val (stored v)]\<rparr>)"
  using fill_v_stored [of m v] by (auto simp: fill_node_def)

lemma all_whole_upd:
  "all_whole ss \<Longrightarrow> \<forall>n \<in> set c. n_vals n = map Val (whole (n_vals n)) \<Longrightarrow> all_whole (ss[i := c])"
  by (auto simp: all_whole_def dest!: set_update_subset_insert [THEN subsetD])

lemma all_whole_slot: "all_whole ss \<Longrightarrow> i < length ss \<Longrightarrow> n \<in> set (ss ! i) \<Longrightarrow> n_vals n = map Val (whole (n_vals n))"
  by (auto simp: all_whole_def)

lemma slot_of:
  assumes "hash_ok K h" "i = slot_index (slots h) (dl_hash_key k)"
  shows "i < length (slots h)" "\<forall>n \<in> set (slots h ! i). node_ok K (slots h) i n"
    "distinct (map n_key (slots h ! i))" "\<forall>n \<in> set (slots h ! i). n_vals n = map Val (whole (n_vals n))"
proof -
  have ok: "table_ok K (slots h)" "all_whole (slots h)" using assms(1) by (simp_all add: hash_ok_def)
  show i: "i < length (slots h)" using ok(1) assms(2) by (simp add: table_ok_def)
  show "\<forall>n \<in> set (slots h ! i). node_ok K (slots h) i n" "distinct (map n_key (slots h ! i))"
    using table_chain [OF ok(1) i] by blast+
  show "\<forall>n \<in> set (slots h ! i). n_vals n = map Val (whole (n_vals n))"
    using all_whole_slot [OF ok(2) i] by blast
qed

lemma find_absent:
  assumes "hash_ok K h" "k \<in> K" "hash_map h k = None" "chain = slots h ! slot_index (slots h) (dl_hash_key k)"
  shows "chain_find chain (dl_hash_key k) k = Some None" "Some k \<notin> n_key ` set chain"
  using chain_find_absent [of K k "slots h"] assms by (simp_all add: hash_ok_def hash_map_def)

lemma find_present:
  assumes "hash_ok K h" "k \<in> K" "hash_map h k = Some vs" "chain = slots h ! slot_index (slots h) (dl_hash_key k)"
  obtains xs n ys where "chain_find chain (dl_hash_key k) k = Some (Some (length xs))" "chain = xs @ n # ys"
    "n_key n = Some k" "n_vals n = map Val vs" "vs \<noteq> []"
proof -
  obtain cs where cs: "table_map (slots h) k = Some cs" "vs = whole cs"
    using assms(3) by (auto simp: hash_map_def)
  then obtain xs n ys where n: "chain_find chain (dl_hash_key k) k = Some (Some (length xs))"
    "chain = xs @ n # ys" "n_key n = Some k" "n_vals n = cs"
    using chain_find_present [of K k "slots h" cs] assms by (auto simp: hash_ok_def)
  have "n \<in> set (slots h ! slot_index (slots h) (dl_hash_key k))" using n(2) assms(4) by auto
  then have "n_vals n = map Val vs" "n_vals n \<noteq> []"
    using slot_of [OF assms(1) refl, of k] n(4) cs(2) by (auto simp: node_ok_def)
  then show thesis using that [OF n(1-3)] by auto
qed

text \<open>Replacing the chain of the slot of \<open>k\<close>: the table stays well-formed and its map changes at \<open>k\<close> only.\<close>

lemma hash_update:
  assumes "hash_ok K h" "i = slot_index (slots h) (dl_hash_key k)"
    and "\<forall>n \<in> set c. node_ok K (slots h) i n \<and> n_vals n = map Val (whole (n_vals n))" "distinct (map n_key c)"
    and "chain_map c = (chain_map (slots h ! i))(Some k := map_option (map Val) r)"
  shows "hash_ok K (h\<lparr>slots := (slots h)[i := c], el_sum := e\<rparr>)"
    "hash_map (h\<lparr>slots := (slots h)[i := c], el_sum := e\<rparr>) = (hash_map h)(k := r)"
    "hash_ok K (h\<lparr>slots := (slots h)[i := c]\<rparr>)"
    "hash_map (h\<lparr>slots := (slots h)[i := c]\<rparr>) = (hash_map h)(k := r)"
proof -
  have ok: "safe K" "table_ok K (slots h)" "all_whole (slots h)" using assms(1) by (simp_all add: hash_ok_def)
  note upd = table_update [OF ok(2) assms(2) _ assms(4,5)]
  have "all_whole ((slots h)[i := c])" using ok(3) assms(3) by (intro all_whole_upd) auto
  then show "hash_ok K (h\<lparr>slots := (slots h)[i := c], el_sum := e\<rparr>)" "hash_ok K (h\<lparr>slots := (slots h)[i := c]\<rparr>)"
    using upd(1) assms(3) ok(1) by (simp_all add: hash_ok_def)
  have "map_option whole (map_option (map Val) r) = r" by (cases r) simp_all
  then show "hash_map (h\<lparr>slots := (slots h)[i := c], el_sum := e\<rparr>) = (hash_map h)(k := r)"
    "hash_map (h\<lparr>slots := (slots h)[i := c]\<rparr>) = (hash_map h)(k := r)"
    using upd(2) assms(3) by (auto simp: hash_map_def fun_eq_iff)
qed

lemma find_spec:
  assumes "hash_ok K h" "k \<in> K" shows "dl_hash_find h k = Some (map_option (map Val) (hash_map h k))"
proof -
  define chain where "chain = slots h ! slot_index (slots h) (dl_hash_key k)"
  show ?thesis
  proof (cases "hash_map h k")
    case None
    then show ?thesis
      using find_absent [OF assms None chain_def] by (simp add: dl_hash_find_def Let_def chain_def [symmetric])
  next
    case (Some vs)
    from find_present [OF assms Some chain_def] obtain xs n ys where
      "chain_find chain (dl_hash_key k) k = Some (Some (length xs))" "chain = xs @ n # ys" "n_vals n = map Val vs"
      by metis
    then show ?thesis using Some by (simp add: dl_hash_find_def Let_def chain_def [symmetric])
  qed
qed

lemma set_absent:
  assumes "hash_ok K h" "k \<in> K" "hash_map h k = None"
  shows "\<exists>h'. dl_hash_set no_oom h k v = Some (DL_OK, h') \<and> hash_ok K h'
    \<and> hash_map h' = (hash_map h)(k \<mapsto> [stored v]) \<and> flag h' = flag h \<and> handler h' = handler h
    \<and> el_sum h' = el_sum h + 1"
proof -
  define i where "i = slot_index (slots h) (dl_hash_key k)"
  define chain where "chain = slots h ! i"
  define n where "n = \<lparr>n_key = Some k, n_hash = Some (dl_hash_key k), n_vals = [Val (stored v)]\<rparr>"
  note sl = slot_of [OF assms(1) i_def, folded chain_def]
  have nok: "node_ok K (slots h) i n" using assms(2) by (simp add: node_ok_def n_def i_def)
  note absent = find_absent [OF assms, of chain, folded i_def, OF chain_def]
  define c' where "c' = (if chain = [] then [n] else hd chain # n # tl chain)"
  have c'm: "chain_map c' = (chain_map (slots h ! i))(Some k := map_option (map Val) (Some [stored v]))"
    using absent(2) fun_upd_twist [of "n_key (hd chain)" "Some k" "chain_map (tl chain)"]
    by (cases chain; auto simp: c'_def n_def chain_def [symmetric])
  have c'd: "distinct (map n_key c')" using sl(3) absent(2) by (cases chain) (auto simp: c'_def n_def)
  have c'n: "\<forall>n \<in> set c'. node_ok K (slots h) i n \<and> n_vals n = map Val (whole (n_vals n))"
    using sl(2,4) nok by (cases chain) (simp_all add: c'_def n_def)
  have "dl_hash_set no_oom h k v = Some (DL_OK, h\<lparr>slots := (slots h)[i := c'], el_sum := el_sum h + 1\<rparr>)"
    using absent(1)
    by (simp add: dl_hash_set_def Let_def i_def [symmetric] chain_def [symmetric] c'_def n_def fill_node_stored)
  then show ?thesis
    using hash_update(1,2) [OF assms(1) i_def c'n c'd c'm] by auto
qed

lemma set_present:
  assumes "hash_ok K h" "k \<in> K" "hash_map h k = Some vs"
  shows "if flag h AND H_LIST = 0 then dl_hash_set no_oom h k v = Some (DL_AGAIN, h)
    else \<exists>h'. dl_hash_set no_oom h k v = Some (DL_OK, h') \<and> hash_ok K h'
      \<and> hash_map h' = (hash_map h)(k \<mapsto> hd vs # stored v # tl vs) \<and> flag h' = flag h
      \<and> handler h' = handler h \<and> el_sum h' = el_sum h + 1"
proof -
  define i where "i = slot_index (slots h) (dl_hash_key k)"
  define chain where "chain = slots h ! i"
  note sl = slot_of [OF assms(1) i_def, folded chain_def]
  from find_present [OF assms, of chain, folded i_def, OF chain_def] obtain xs n ys
    where f: "chain_find chain (dl_hash_key k) k = Some (Some (length xs))"
      and split: "chain = xs @ n # ys" and n: "n_key n = Some k" "n_vals n = map Val vs" "vs \<noteq> []" by metis
  have ne: "chain \<noteq> []" using split by simp
  show ?thesis
  proof (cases "flag h AND H_LIST = 0")
    case True
    then show ?thesis using f ne by (simp add: dl_hash_set_def Let_def i_def [symmetric] chain_def [symmetric])
  next
    case False
    define ws where "ws = hd vs # stored v # tl vs"
    define n' where "n' = n\<lparr>n_vals := map Val ws\<rparr>"
    define c' where "c' = xs @ n' # ys"
    have d: "distinct (map n_key (xs @ n # ys))" using sl(3) split by simp
    then have d': "distinct (map n_key c')" by (simp add: c'_def n'_def)
    have cm: "chain_map c' = (chain_map (slots h ! i))(Some k := map_option (map Val) (Some ws))"
      using chain_map_split [OF d] chain_map_split [OF d' [unfolded c'_def]] split n(1)
      by (simp add: c'_def n'_def chain_def)
    have "node_ok K (slots h) i n" using sl(2) split by simp
    then have "node_ok K (slots h) i n'" by (auto simp: node_ok_def n'_def ws_def)
    then have cn: "\<forall>n \<in> set c'. node_ok K (slots h) i n \<and> n_vals n = map Val (whole (n_vals n))"
      using sl(2,4) split by (simp add: c'_def n'_def)
    have ws: "hd (n_vals n) # Val (stored v) # tl (n_vals n) = map Val ws"
      using n(2,3) by (cases vs) (simp_all add: ws_def)
    have upd: "chain[length xs := n\<lparr>n_vals := hd (n_vals n) # Val (stored v) # tl (n_vals n)\<rparr>] = c'"
      unfolding ws by (simp add: split c'_def n'_def)
    have nth: "chain ! length xs = n" by (simp add: split)
    obtain m where "fill_v no_oom 1 v = (True, Val (stored v), m)" using fill_v_stored by blast
    then have "dl_hash_set no_oom h k v
        = Some (DL_OK, h\<lparr>slots := (slots h)[i := c'], el_sum := el_sum h + 1\<rparr>)"
      using False f ne upd nth by (simp add: dl_hash_set_def Let_def i_def [symmetric] chain_def [symmetric])
    then show ?thesis
      using False hash_update(1,2) [OF assms(1) i_def cn d' cm] by (auto simp: ws_def)
  qed
qed

text \<open>The custom pointers of a value chain; what the handler gets.\<close>

definition void_ptrs :: "hval list \<Rightarrow> nat list" where
  "void_ptrs vs = concat (map (\<lambda>v. case v of H_VOID p \<Rightarrow> [p] | _ \<Rightarrow> []) vs)"

lemma void_ptrs_simps [simp]:
  "void_ptrs [] = []" "void_ptrs (H_VOID p # vs) = p # void_ptrs vs"
  "void_ptrs (H_STR s # vs) = void_ptrs vs" "void_ptrs (H_INT n # vs) = void_ptrs vs"
  by (simp_all add: void_ptrs_def)

lemma void_ptrs_append [simp]: "void_ptrs (vs @ ws) = void_ptrs vs @ void_ptrs ws"
  by (simp add: void_ptrs_def)

lemma free_v_ptrs: "free_v True cs = (if NoStr \<in> set cs then None else Some (void_ptrs (whole cs)))"
  by (induction "True" cs rule: free_v.induct) auto

lemma NoStr_whole [simp]: "NoStr \<notin> Val ` A"
  by auto

lemma del_absent:
  assumes "hash_ok K h" "k \<in> K" "hash_map h k = None"
  shows "dl_hash_del h k = Some (h, [])"
  using find_absent [OF assms refl] by (simp add: dl_hash_del_def Let_def)

lemma del_present:
  assumes "hash_ok K h" "k \<in> K" "hash_map h k = Some vs" "handler h"
  shows "\<exists>h'. dl_hash_del h k = Some (h', void_ptrs vs) \<and> hash_ok K h' \<and> hash_map h' = (hash_map h)(k := None)
    \<and> flag h' = flag h \<and> handler h' = handler h \<and> el_sum h' = el_sum h"
proof -
  define i where "i = slot_index (slots h) (dl_hash_key k)"
  define chain where "chain = slots h ! i"
  note sl = slot_of [OF assms(1) i_def, folded chain_def]
  from find_present [OF assms(1-3), of chain, folded i_def, OF chain_def] obtain xs n ys
    where f: "chain_find chain (dl_hash_key k) k = Some (Some (length xs))"
      and split: "chain = xs @ n # ys" and n: "n_key n = Some k" "n_vals n = map Val vs" by metis
  have c': "(if length xs = 0 then tl chain else take (length xs) chain @ drop (Suc (length xs)) chain) = xs @ ys"
    by (simp add: split)
  have d: "distinct (map n_key (xs @ n # ys))" using sl(3) split by simp
  then have "n_key n \<notin> n_key ` set (xs @ ys)" by auto
  then have cm: "chain_map (xs @ ys) = (chain_map (slots h ! i))(Some k := map_option (map Val) None)"
    using chain_map_split [OF d] chain_map_without [of n "xs @ ys"] split n(1) by (simp add: chain_def)
  have cn: "\<forall>n \<in> set (xs @ ys). node_ok K (slots h) i n \<and> n_vals n = map Val (whole (n_vals n))"
    and d': "distinct (map n_key (xs @ ys))"
    using sl(2-4) split by simp_all
  have "free_node (handler h) (chain ! length xs) = Some (void_ptrs vs)"
    using n assms(4) by (simp add: free_node_def split free_v_ptrs)
  then have "dl_hash_del h k = Some (h\<lparr>slots := (slots h)[i := xs @ ys]\<rparr>, void_ptrs vs)"
    using f c' by (simp add: dl_hash_del_def Let_def i_def [symmetric] chain_def [symmetric]) (simp add: split)
  then show ?thesis
    using hash_update(3,4) [OF assms(1) i_def cn d' cm] by auto
qed

lemma init_spec:
  assumes "safe K" "dl_hash_init True True slot hdl type = Some h"
  shows "hash_ok K h \<and> hash_map h = Map.empty \<and> flag h = type \<and> handler h = hdl \<and> el_sum h = 0"
proof -
  define n where "n = (if slot \<noteq> 0 then unat slot else 64)"
  have "0 < n" by (simp add: n_def unat_gt_0)
  moreover have h: "h = \<lparr>slots = replicate n [], el_sum = 0, flag = type, handler = hdl\<rparr>"
    using assms(2) by (auto simp: dl_hash_init_def Let_def n_def split: if_splits)
  ultimately show ?thesis
    using assms(1) slot_index_less [of "replicate n ([] :: hcell hnode list)"]
    by (auto simp: hash_ok_def table_ok_def hash_map_def table_map_def all_whole_def fun_eq_iff)
qed

section \<open>The contract of a table\<close>

text \<open>
  \<open>merge vs v\<close> is what storing \<open>v\<close> under a key that has the chain \<open>vs\<close> makes of the chain; \<open>None\<close> refuses
  (\<^verbatim>\<open>DL_AGAIN\<close>). Both hash tables of the library implement this contract.
\<close>

locale kv_table =
  fixes K :: "bytes set" and wf :: "'t \<Rightarrow> bool" and amap :: "'t \<Rightarrow> bytes \<Rightarrow> hval list option"
    and put :: "'t \<Rightarrow> bytes \<Rightarrow> hval \<Rightarrow> (rc \<times> 't) option"
    and get :: "'t \<Rightarrow> bytes \<Rightarrow> hval list option option"
    and merge :: "hval list \<Rightarrow> hval \<Rightarrow> hval list option"
  assumes get_law: "wf t \<Longrightarrow> k \<in> K \<Longrightarrow> get t k = Some (amap t k)"
    and put_new: "wf t \<Longrightarrow> k \<in> K \<Longrightarrow> amap t k = None \<Longrightarrow>
      \<exists>t'. put t k v = Some (DL_OK, t') \<and> wf t' \<and> amap t' = (amap t)(k \<mapsto> [stored v])"
    and put_again: "wf t \<Longrightarrow> k \<in> K \<Longrightarrow> amap t k = Some vs \<Longrightarrow> merge vs v = None \<Longrightarrow>
      put t k v = Some (DL_AGAIN, t)"
    and put_merge: "wf t \<Longrightarrow> k \<in> K \<Longrightarrow> amap t k = Some vs \<Longrightarrow> merge vs v = Some vs' \<Longrightarrow>
      \<exists>t'. put t k v = Some (DL_OK, t') \<and> wf t' \<and> amap t' = (amap t)(k \<mapsto> vs')"
begin

lemma put_total:
  assumes "wf t" "k \<in> K"
  shows "\<exists>r t'. put t k v = Some (r, t') \<and> wf t' \<and> amap t' =
    (case amap t k of
       None \<Rightarrow> (amap t)(k \<mapsto> [stored v])
     | Some vs \<Rightarrow> (case merge vs v of None \<Rightarrow> amap t | Some vs' \<Rightarrow> (amap t)(k \<mapsto> vs')))"
proof (cases "amap t k")
  case None
  then show ?thesis using put_new [OF assms None, of v] by auto
next
  case (Some vs)
  then show ?thesis
    using put_again [OF assms Some, of v] put_merge [OF assms Some, of v] assms(1) by (cases "merge vs v") auto
qed

text \<open>Storing under one key does not disturb the others.\<close>

lemma get_put_other:
  assumes "wf t" "k \<in> K" "k' \<in> K" "k' \<noteq> k" "put t k v = Some (r, t')"
  shows "get t' k' = get t k'"
proof -
  from put_total [OF assms(1,2), of v] assms(5) have "wf t'" "amap t' k' = amap t k'"
    using assms(4) by (auto split: option.splits)
  then show ?thesis using assms(1,3) by (simp add: get_law)
qed

text \<open>Storing pairs with distinct new keys makes exactly these pairs findable.\<close>

lemma put_fresh_list:
  assumes "wf t" "distinct (map fst kvs)" "fst ` set kvs \<subseteq> K" "\<forall>k \<in> fst ` set kvs. amap t k = None"
  shows "\<exists>t'. fold (\<lambda>(k, v) r. Option.bind r (\<lambda>t. map_option snd (put t k v))) kvs (Some t) = Some t'
    \<and> wf t' \<and> (\<forall>(k, v) \<in> set kvs. get t' k = Some (Some [stored v]))
    \<and> (\<forall>k. k \<notin> fst ` set kvs \<longrightarrow> amap t' k = amap t k)"
  using assms
proof (induction kvs arbitrary: t)
  case (Cons kv kvs)
  obtain k v where kv: "kv = (k, v)" by (cases kv)
  obtain t1 where t1: "put t k v = Some (DL_OK, t1)" "wf t1" "amap t1 = (amap t)(k \<mapsto> [stored v])"
    using put_new [of t k v] Cons.prems by (auto simp: kv)
  have "\<forall>k \<in> fst ` set kvs. amap t1 k = None" using Cons.prems by (auto simp: kv t1(3))
  then obtain t2 where t2: "fold (\<lambda>(k, v) r. Option.bind r (\<lambda>t. map_option snd (put t k v))) kvs (Some t1) = Some t2"
    "wf t2" "\<forall>(k, v) \<in> set kvs. get t2 k = Some (Some [stored v])"
    "\<forall>k. k \<notin> fst ` set kvs \<longrightarrow> amap t2 k = amap t1 k"
    using Cons.IH [OF t1(2)] Cons.prems by (auto simp: kv)
  have "k \<notin> fst ` set kvs" "k \<in> K" using Cons.prems by (auto simp: kv)
  then have "get t2 k = Some (Some [stored v])" using t2(2,4) t1(3) by (simp add: get_law)
  then show ?case using t1 t2 by (auto simp: kv)
qed simp

end

definition hash_get :: "hash \<Rightarrow> bytes \<Rightarrow> hval list option option" where
  "hash_get h k = map_option (map_option whole) (dl_hash_find h k)"

lemma hash_get_spec: "hash_ok K h \<Longrightarrow> k \<in> K \<Longrightarrow> hash_get h k = Some (hash_map h k)"
  by (cases "hash_map h k") (simp_all add: hash_get_def find_spec)

definition unique_merge :: "hval list \<Rightarrow> hval \<Rightarrow> hval list option" where
  "unique_merge vs v = None"

definition list_merge :: "hval list \<Rightarrow> hval \<Rightarrow> hval list option" where
  "list_merge vs v = Some (hd vs # stored v # tl vs)"

interpretation hu: kv_table K "\<lambda>h. hash_ok K h \<and> flag h AND H_LIST = 0" hash_map
  "dl_hash_set no_oom" hash_get unique_merge
proof (unfold_locales, goal_cases)
  case (2 t k v)
  then show ?case using set_absent [of K t k v] by auto
next
  case (3 t k vs v)
  then show ?case using set_present [of K t k vs v] by auto
qed (auto simp: hash_get_spec unique_merge_def)

interpretation hl: kv_table K "\<lambda>h. hash_ok K h \<and> flag h AND H_LIST \<noteq> 0" hash_map
  "dl_hash_set no_oom" hash_get list_merge
proof (unfold_locales, goal_cases)
  case (2 t k v)
  then show ?case using set_absent [of K t k v] by auto
next
  case (4 t k vs v vs')
  then show ?case using set_present [of K t k vs v] by (auto simp: list_merge_def)
qed (auto simp: hash_get_spec list_merge_def)

section \<open>Every custom pointer reaches the handler once\<close>

text \<open>The custom pointers that can still reach the handler: those of nodes with a key. A half-filled node
  is never found, and \<^verbatim>\<open>free_k\<close> on it is undefined.\<close>

definition node_bag :: "hcell hnode \<Rightarrow> nat multiset" where
  "node_bag n = (if n_key n = None then {#} else mset (void_ptrs (whole (n_vals n))))"

definition chain_bag :: "hcell hnode list \<Rightarrow> nat multiset" where
  "chain_bag ns = sum_list (map node_bag ns)"

definition hash_bag :: "hash \<Rightarrow> nat multiset" where
  "hash_bag h = chain_bag (concat (slots h))"

text \<open>A node \<^verbatim>\<open>free_node\<close> can free.\<close>

definition tidy :: "hcell hnode \<Rightarrow> bool" where
  "tidy n \<longleftrightarrow> n_key n \<noteq> None \<and> NoStr \<notin> set (n_vals n)"

definition all_tidy :: "hash \<Rightarrow> bool" where
  "all_tidy h \<longleftrightarrow> (\<forall>n \<in> set (concat (slots h)). tidy n)"

lemma chain_bag_simps [simp]:
  "chain_bag [] = {#}" "chain_bag (n # ns) = node_bag n + chain_bag ns"
  "chain_bag (xs @ ys) = chain_bag xs + chain_bag ys"
  by (simp_all add: chain_bag_def)

lemma bag_update:
  assumes "i < length ss"
  shows "chain_bag (concat (ss[i := c])) + chain_bag (ss ! i) = chain_bag (concat ss) + chain_bag c"
proof -
  have "concat ss = concat (take i ss) @ ss ! i @ concat (drop (Suc i) ss)"
    using id_take_nth_drop [OF assms] by (metis concat.simps(2) concat_append)
  moreover have "concat (ss[i := c]) = concat (take i ss) @ c @ concat (drop (Suc i) ss)"
    using assms by (simp add: upd_conv_take_nth_drop)
  ultimately show ?thesis by (simp add: ac_simps)
qed

lemma void_ptrs_Cons: "void_ptrs (v # vs) = void_ptrs [v] @ void_ptrs vs"
  by (simp add: void_ptrs_def)

lemma whole_Cons: "whole (c # cs) = whole [c] @ whole cs"
  by (simp add: whole_def)

lemma fill_v_outcome:
  "fill_v ok m v = (b, c, m') \<Longrightarrow> if b then c \<noteq> NoStr \<and> void_ptrs (whole [c]) = void_ptrs [v] else whole [c] = []"
  by (cases v) (auto split: if_splits)

lemma fill_node_outcome:
  assumes "fill_node ok m k v n = Some (b, n')"
  shows "n_vals n' \<noteq> []"
    and "if b then n_key n' = Some k \<and> tidy n' \<and> node_bag n' = mset (void_ptrs [v]) else n_key n' = n_key n"
proof -
  obtain b' c m' where f: "fill_v ok m v = (b', c, m')" by (cases "fill_v ok m v")
  show "n_vals n' \<noteq> []" using assms by (auto simp: fill_node_def f Let_def split: if_splits)
  show "if b then n_key n' = Some k \<and> tidy n' \<and> node_bag n' = mset (void_ptrs [v]) else n_key n' = n_key n"
    using assms fill_v_outcome [OF f]
    by (auto simp: fill_node_def f Let_def node_bag_def tidy_def split: if_splits)
qed

lemma chain_find_hit: "chain_find ns hk k = Some (Some j) \<Longrightarrow> j < length ns \<and> n_key (ns ! j) \<noteq> None"
  by (induction ns arbitrary: j) (auto split: if_splits option.splits)

definition vals_ok :: "hash \<Rightarrow> bool" where
  "vals_ok h \<longleftrightarrow> slots h \<noteq> [] \<and> (\<forall>n \<in> set (concat (slots h)). n_vals n \<noteq> [])"

lemma vals_ok_slot: "vals_ok h \<Longrightarrow> i < length (slots h) \<Longrightarrow> \<forall>n \<in> set (slots h ! i). n_vals n \<noteq> []"
  by (auto simp: vals_ok_def)

lemma chain_upd:
  "vals_ok h \<Longrightarrow> \<forall>n \<in> set c. n_vals n \<noteq> [] \<Longrightarrow> vals_ok (h\<lparr>slots := (slots h)[i := c], el_sum := e\<rparr>)"
  "all_tidy h \<Longrightarrow> \<forall>n \<in> set c. tidy n \<Longrightarrow> all_tidy (h\<lparr>slots := (slots h)[i := c], el_sum := e\<rparr>)"
  by (auto simp: vals_ok_def all_tidy_def dest!: set_update_subset_insert [THEN subsetD])

lemma chain_bag_at:
  assumes "j < length c"
  shows "chain_bag (c[j := n]) + node_bag (c ! j) = chain_bag c + node_bag n"
    and "chain_bag c = chain_bag (take j c @ drop (Suc j) c) + node_bag (c ! j)"
proof -
  have "chain_bag c = chain_bag (take j c @ c ! j # drop (Suc j) c)" using id_take_nth_drop [OF assms] by simp
  then show "chain_bag (c[j := n]) + node_bag (c ! j) = chain_bag c + node_bag n"
    "chain_bag c = chain_bag (take j c @ drop (Suc j) c) + node_bag (c ! j)"
    by (simp_all add: upd_conv_take_nth_drop [OF assms] ac_simps)
qed

text \<open>
  A call leaves the table alone or gives one slot another chain. Only \<^verbatim>\<open>DL_OK\<close> adds the pointer, only
  \<^verbatim>\<open>DL_ERROR\<close> leaves something half-filled.
\<close>

definition slot_changed :: "hash \<Rightarrow> nat \<Rightarrow> rc \<Rightarrow> hval \<Rightarrow> hash \<Rightarrow> bool" where
  "slot_changed h i r v h' \<longleftrightarrow> (\<exists>c e. h' = h\<lparr>slots := (slots h)[i := c], el_sum := e\<rparr>
     \<and> (\<forall>n \<in> set c. n_vals n \<noteq> [])
     \<and> chain_bag c = chain_bag (slots h ! i) + (if r = DL_OK then mset (void_ptrs [v]) else {#})
     \<and> (r \<noteq> DL_ERROR \<longrightarrow> (\<forall>n \<in> set (slots h ! i). tidy n) \<longrightarrow> (\<forall>n \<in> set c. tidy n)))"

lemma slots_only: "h\<lparr>slots := ss\<rparr> = h\<lparr>slots := ss, el_sum := el_sum h\<rparr>"
  by (cases h) simp

lemma slot_changedI:
  assumes "h' = h\<lparr>slots := (slots h)[i := c], el_sum := e\<rparr>" "\<forall>n \<in> set c. n_vals n \<noteq> []"
    and "chain_bag c = chain_bag (slots h ! i) + (if r = DL_OK then mset (void_ptrs [v]) else {#})"
    and "r \<noteq> DL_ERROR \<Longrightarrow> \<forall>n \<in> set (slots h ! i). tidy n \<Longrightarrow> \<forall>n \<in> set c. tidy n"
  shows "slot_changed h i r v h'"
  using assms unfolding slot_changed_def by blast

text \<open>The two places where a node is filled: \<open>c x\<close> is the chain with the node \<open>x\<close> in it.\<close>

lemma fill_case:
  assumes "(case fill_node ok m k v n of None \<Rightarrow> None
      | Some (False, x) \<Rightarrow> Some (DL_ERROR, h\<lparr>slots := (slots h)[i := c x]\<rparr>)
      | Some (True, x) \<Rightarrow> Some (DL_OK, h\<lparr>slots := (slots h)[i := c (x\<lparr>n_hash := Some hk\<rparr>)], el_sum := el_sum h + 1\<rparr>))
    = Some (r, h')"
    and "n_key n = None"
    and c: "\<And>x. set (c x) = insert x (set (slots h ! i))" "\<And>x. chain_bag (c x) = chain_bag (slots h ! i) + node_bag x"
    and ne: "\<forall>n \<in> set (slots h ! i). n_vals n \<noteq> []"
  shows "slot_changed h i r v h'"
proof -
  obtain b x where x: "fill_node ok m k v n = Some (b, x)" using assms(1) by (cases "fill_node ok m k v n") auto
  note out = fill_node_outcome [OF x]
  show ?thesis
  proof (cases b)
    case True
    then have "r = DL_OK" and h': "h' = h\<lparr>slots := (slots h)[i := c (x\<lparr>n_hash := Some hk\<rparr>)], el_sum := el_sum h + 1\<rparr>"
      using assms(1) x by simp_all
    moreover have "node_bag (x\<lparr>n_hash := Some hk\<rparr>) = mset (void_ptrs [v])" "tidy (x\<lparr>n_hash := Some hk\<rparr>)"
      using out True by (simp_all add: node_bag_def tidy_def split: if_splits)
    ultimately show ?thesis using out ne by (intro slot_changedI [OF h']) (simp_all add: c)
  next
    case False
    then have "r = DL_ERROR" and "h' = h\<lparr>slots := (slots h)[i := c x]\<rparr>" using assms(1) x by simp_all
    moreover from this(2) have "h' = h\<lparr>slots := (slots h)[i := c x], el_sum := el_sum h\<rparr>" by simp
    moreover have "node_bag x = {#}" using out False assms(2) by (simp add: node_bag_def)
    ultimately show ?thesis using out ne by (intro slot_changedI [where c = "c x" and e = "el_sum h"]) (simp_all add: c)
  qed
qed

lemma list_case:
  assumes "chain_find (slots h ! i) hk k = Some (Some j)" "n = slots h ! i ! j" "fill_v ok m v = (b, c, m')"
    and "n' = n\<lparr>n_vals := hd (n_vals n) # c # tl (n_vals n)\<rparr>"
    and "r = (if b then DL_OK else DL_ERROR)" "h' = h\<lparr>slots := (slots h)[i := (slots h ! i)[j := n']], el_sum := e\<rparr>"
    and ne: "\<forall>n \<in> set (slots h ! i). n_vals n \<noteq> []"
  shows "slot_changed h i r v h'"
proof (rule slot_changedI [OF assms(6)])
  note hit = chain_find_hit [OF assms(1)]
  then have n: "n \<in> set (slots h ! i)" "n_key n \<noteq> None" by (simp_all add: assms(2))
  then obtain a as where vals: "n_vals n = a # as" using ne by (cases "n_vals n") auto
  have sub: "set ((slots h ! i)[j := n']) \<subseteq> insert n' (set (slots h ! i))" by (rule set_update_subset_insert)
  then show "\<forall>x \<in> set ((slots h ! i)[j := n']). n_vals x \<noteq> []" using ne by (auto simp: assms(4))
  have "node_bag n' = node_bag n + (if r = DL_OK then mset (void_ptrs [v]) else {#})"
    using n(2) fill_v_outcome [OF assms(3)] assms(5) whole_Cons [of a as] whole_Cons [of a "c # as"] whole_Cons [of c as]
    by (simp add: node_bag_def assms(4) vals split: if_splits)
  then show "chain_bag ((slots h ! i)[j := n'])
      = chain_bag (slots h ! i) + (if r = DL_OK then mset (void_ptrs [v]) else {#})"
    using chain_bag_at(1) [of j "slots h ! i" n'] hit by (simp add: assms(2) add.assoc add.commute [of "node_bag _"])
  assume "r \<noteq> DL_ERROR" and t: "\<forall>n \<in> set (slots h ! i). tidy n"
  then have "c \<noteq> NoStr" using fill_v_outcome [OF assms(3)] assms(5) by (auto split: if_splits)
  then have "tidy n'" using t n by (auto simp: tidy_def assms(4) vals)
  then show "\<forall>n \<in> set ((slots h ! i)[j := n']). tidy n" using t sub by blast
qed

lemma set_outcome:
  assumes "dl_hash_set ok h k v = Some (r, h')" "i = slot_index (slots h) (dl_hash_key k)"
    and ne: "\<forall>n \<in> set (slots h ! i). n_vals n \<noteq> []"
  shows "r \<noteq> DL_OK \<and> h' = h \<or> slot_changed h i r v h'"
proof -
  define chain where "chain = slots h ! i"
  note set = assms(1) [unfolded dl_hash_set_def Let_def assms(2) [symmetric] chain_def [symmetric]]
  consider (empty) "chain = []"
    | (new) "chain \<noteq> []" "chain_find chain (dl_hash_key k) k = Some None" "ok 0"
    | (same) "chain \<noteq> []" "chain_find chain (dl_hash_key k) k = Some None" "\<not> ok 0"
    | (old) j where "chain \<noteq> []" "chain_find chain (dl_hash_key k) k = Some (Some j)"
    using set by (cases "chain_find chain (dl_hash_key k) k") (auto split: if_splits)
  then show ?thesis
  proof cases
    case empty
    have "slot_changed h i r v h'"
      by (rule fill_case [where c = "\<lambda>x. [x]"]) (use set empty ne in \<open>auto simp: chain_def\<close>)
    then show ?thesis ..
  next
    case new
    then obtain x xs where x: "chain = x # xs" by (cases chain) auto
    have "slot_changed h i r v h'"
      by (rule fill_case [where c = "\<lambda>y. hd chain # y # tl chain"])
        (use set new ne in \<open>auto simp: x chain_def [symmetric]\<close>)
    then show ?thesis ..
  next
    case same
    then show ?thesis using set by simp
  next
    case (old j)
    obtain b c m where f: "fill_v ok 1 v = (b, c, m)" by (cases "fill_v ok 1 v")
    show ?thesis
    proof (cases "flag h AND H_LIST \<noteq> 0")
      case True
      have "slot_changed h i r v h'"
        by (rule list_case [OF old(2) [unfolded chain_def] refl f refl, where e = "if b then el_sum h + 1 else el_sum h"])
          (use set old f True ne in \<open>auto simp: chain_def split: if_splits\<close>)
      then show ?thesis ..
    qed (use set old in simp)
  qed
qed

lemma set_bag:
  assumes "vals_ok h" "dl_hash_set ok h k v = Some (r, h')"
  shows "vals_ok h' \<and> handler h' = handler h
    \<and> hash_bag h' = hash_bag h + (if r = DL_OK then mset (void_ptrs [v]) else {#})
    \<and> (r \<noteq> DL_ERROR \<longrightarrow> all_tidy h \<longrightarrow> all_tidy h')"
proof -
  define i where "i = slot_index (slots h) (dl_hash_key k)"
  have i: "i < length (slots h)" using assms(1) by (simp add: i_def vals_ok_def)
  from set_outcome [OF assms(2) i_def vals_ok_slot [OF assms(1) i]] show ?thesis
  proof
    assume "slot_changed h i r v h'"
    then obtain c e where c: "h' = h\<lparr>slots := (slots h)[i := c], el_sum := e\<rparr>" "\<forall>n \<in> set c. n_vals n \<noteq> []"
      "chain_bag c = chain_bag (slots h ! i) + (if r = DL_OK then mset (void_ptrs [v]) else {#})"
      "r \<noteq> DL_ERROR \<longrightarrow> (\<forall>n \<in> set (slots h ! i). tidy n) \<longrightarrow> (\<forall>n \<in> set c. tidy n)"
      unfolding slot_changed_def by blast
    have "all_tidy h \<Longrightarrow> \<forall>n \<in> set (slots h ! i). tidy n" using i by (auto simp: all_tidy_def)
    then show ?thesis
      using c chain_upd [where h = h and c = c and i = i and e = e] assms(1) bag_update [OF i, of c] by (simp add: hash_bag_def ac_simps)
  qed (use assms(1) in simp)
qed

lemma free_node_ptrs: "free_node True n = (if tidy n then Some (void_ptrs (whole (n_vals n))) else None)"
  by (auto simp: free_node_def tidy_def free_v_ptrs split: option.splits)

lemma free_node_bag: "free_node True n = Some ps \<Longrightarrow> node_bag n = mset ps"
  by (auto simp: free_node_ptrs node_bag_def tidy_def split: if_splits)

lemma del_bag:
  assumes "vals_ok h" "handler h" "dl_hash_del h k = Some (h', ps)"
  shows "vals_ok h' \<and> handler h' \<and> hash_bag h = hash_bag h' + mset ps \<and> (all_tidy h \<longrightarrow> all_tidy h')"
proof -
  define i where "i = slot_index (slots h) (dl_hash_key k)"
  define chain where "chain = slots h ! i"
  have i: "i < length (slots h)" using assms(1) by (simp add: i_def vals_ok_def)
  note ch = vals_ok_slot [OF assms(1) i, folded chain_def]
  note del = assms(3) [unfolded dl_hash_del_def Let_def i_def [symmetric] chain_def [symmetric]]
  show ?thesis
  proof (cases "chain = [] \<or> chain_find chain (dl_hash_key k) k = Some None")
    case True
    then show ?thesis using del assms(1,2) by (auto split: if_splits)
  next
    case False
    then obtain j where f: "chain_find chain (dl_hash_key k) k = Some (Some j)"
      using del by (auto split: option.splits)
    then have j: "j < length chain" using chain_find_hit by blast
    define c where "c = take j chain @ drop (Suc j) chain"
    have "(if j = 0 then tl chain else take j chain @ drop (Suc j) chain) = c" by (simp add: c_def drop_Suc)
    then have h': "h' = h\<lparr>slots := (slots h)[i := c], el_sum := el_sum h\<rparr>" and ps: "free_node True (chain ! j) = Some ps"
      using del False f assms(2) by (auto simp: bind_eq_Some_conv)
    have "chain_bag chain = chain_bag c + mset ps"
      using chain_bag_at(2) [OF j] free_node_bag [OF ps] by (simp add: c_def)
    moreover have c: "set c \<subseteq> set chain" by (auto simp: c_def dest: in_set_takeD in_set_dropD)
    moreover have "all_tidy h \<longrightarrow> (\<forall>n \<in> set c. tidy n)" using i c by (fastforce simp: all_tidy_def chain_def)
    ultimately show ?thesis
      using chain_upd [where h = h and c = c and i = i and e = "el_sum h"] assms(1,2) ch bag_update [OF i, of c]
      by (auto simp: h' hash_bag_def chain_def)
  qed
qed

lemma free_nodes_ptrs:
  "free_nodes True ns = (if \<forall>n \<in> set ns. tidy n then Some (concat (map (\<lambda>n. void_ptrs (whole (n_vals n))) ns)) else None)"
  by (induction ns) (simp_all add: free_node_ptrs)

lemma free_nodes_bag: "free_nodes True ns = Some ps \<Longrightarrow> chain_bag ns = mset ps"
  by (induction ns arbitrary: ps) (auto simp: bind_eq_Some_conv free_node_bag)

text \<open>
  \<open>hash_run h0 given freed codes h\<close>: calls of \<^verbatim>\<open>dl_hash_set\<close>, with any outcome of their allocations, and
  \<^verbatim>\<open>dl_hash_del\<close> lead from \<open>h0\<close> to \<open>h\<close>; \<open>given\<close> are the custom pointers of the sets that returned
  \<^verbatim>\<open>DL_OK\<close>, \<open>freed\<close> the pointers handed to the handler, \<open>codes\<close> what the sets returned.
\<close>

inductive hash_run :: "hash \<Rightarrow> nat list \<Rightarrow> nat list \<Rightarrow> rc list \<Rightarrow> hash \<Rightarrow> bool" for h0 where
  hash_start: "hash_run h0 [] [] [] h0"
| hash_set: "hash_run h0 gs fs rs h \<Longrightarrow> dl_hash_set ok h k v = Some (r, h') \<Longrightarrow>
    hash_run h0 (gs @ (if r = DL_OK then void_ptrs [v] else [])) fs (rs @ [r]) h'"
| hash_del: "hash_run h0 gs fs rs h \<Longrightarrow> dl_hash_del h k = Some (h', ps) \<Longrightarrow> hash_run h0 gs (fs @ ps) rs h'"

inductive_cases hash_runE: "hash_run h0 gs fs rs h"

lemma hash_run_bag:
  assumes "hash_run h0 gs fs rs h" "vals_ok h0" "handler h0" "hash_bag h0 = {#}" "all_tidy h0"
  shows "vals_ok h \<and> handler h \<and> mset gs = mset fs + hash_bag h \<and> (DL_ERROR \<notin> set rs \<longrightarrow> all_tidy h)"
  using assms(1)
proof induction
  case (hash_set gs fs rs h ok k v r h')
  then show ?case using set_bag [of h ok k v r h'] by auto
next
  case (hash_del gs fs rs h k h' ps)
  then show ?case using del_bag [of h k h' ps] by auto
qed (use assms(2-5) in simp)

section \<open>Properties\<close>

lemma safe_same_length: "safe {k. length k = n}"
  by (simp add: safe_def)

lemma safe_single: "safe {k}"
  by (simp add: safe_def)

definition fresh :: "u32 \<Rightarrow> hash" where
  "fresh type = the (dl_hash_init True True 3 True type)"

lemma fresh_init: "dl_hash_init True True 3 True type = Some (fresh type)"
  by (simp add: fresh_def dl_hash_init_def)

lemma fresh_ok:
  "safe K \<Longrightarrow> hash_ok K (fresh type) \<and> hash_map (fresh type) = Map.empty \<and> flag (fresh type) = type
    \<and> handler (fresh type) \<and> el_sum (fresh type) = 0"
  using init_spec [OF _ fresh_init, of K type] by simp

text \<open>C3: with no failing allocation and over a safe set of keys (two of them with the same hash value
  have the same length) a table is a map from keys to value chains: \<^verbatim>\<open>dl_hash_find\<close> looks the key up,
  \<^verbatim>\<open>dl_hash_set\<close> adds a new key with a one-element chain; for a known key it refuses with
  \<^verbatim>\<open>DL_AGAIN\<close>, or, with \<^verbatim>\<open>H_LIST\<close>, chains the value behind the first one. Strings and pointers come back
  as they were given, integers cut to their low 32 bits.\<close>

theorem hash_refines_map:
  assumes "hash_ok K h" "k \<in> K"
  shows "dl_hash_find h k = Some (map_option (map Val) (hash_map h k))
    \<and> (\<exists>r h'. dl_hash_set no_oom h k v = Some (r, h') \<and> hash_ok K h'
        \<and> hash_map h' =
            (case hash_map h k of
               None \<Rightarrow> (hash_map h)(k \<mapsto> [stored v])
             | Some vs \<Rightarrow> if flag h AND H_LIST = 0 then hash_map h
                          else (hash_map h)(k \<mapsto> hd vs # stored v # tl vs))
        \<and> r = (if hash_map h k \<noteq> None \<and> flag h AND H_LIST = 0 then DL_AGAIN else DL_OK))"
proof (cases "hash_map h k")
  case None
  then show ?thesis using set_absent [OF assms None, of v] find_spec [OF assms] by auto
next
  case (Some vs)
  then show ?thesis
    using set_present [OF assms Some, of v] find_spec [OF assms] assms(1) by (auto split: if_splits)
qed

text \<open>Two keys, one of them with a chain of two values, an integer that does not fit.\<close>

theorem hash_refines_map_witness:
  "\<exists>h1 h2 h3. dl_hash_set no_oom (fresh H_LIST) [97] (H_INT 0x100000007) = Some (DL_OK, h1)
    \<and> dl_hash_set no_oom h1 [98] (H_STR [120]) = Some (DL_OK, h2)
    \<and> dl_hash_set no_oom h2 [97] (H_VOID 5) = Some (DL_OK, h3)
    \<and> dl_hash_find h3 [97] = Some (Some [Val (H_INT 7), Val (H_VOID 5)])
    \<and> dl_hash_find h3 [98] = Some (Some [Val (H_STR [120])]) \<and> dl_hash_find h3 [99] = Some None"
proof -
  let ?K = "{k :: bytes. length k = 1}"
  have h0: "hash_ok ?K (fresh H_LIST)" "hash_map (fresh H_LIST) = Map.empty" "flag (fresh H_LIST) = H_LIST"
    using fresh_ok [OF safe_same_length [of 1]] by simp_all
  have fl: "flag h' = flag h" if "dl_hash_set ok h k v = Some (r, h')" for ok h k v r h'
    using that by (auto simp: dl_hash_set_def Let_def split: if_splits option.splits prod.splits bool.splits)
  obtain h1 where h1: "dl_hash_set no_oom (fresh H_LIST) [97] (H_INT 0x100000007) = Some (DL_OK, h1)"
    "hash_ok ?K h1" "hash_map h1 = [[97] \<mapsto> [H_INT 7]]"
    using hash_refines_map [OF h0(1), of "[97]" "H_INT 0x100000007"] h0(2) by auto
  obtain h2 where h2: "dl_hash_set no_oom h1 [98] (H_STR [120]) = Some (DL_OK, h2)"
    "hash_ok ?K h2" "hash_map h2 = [[97] \<mapsto> [H_INT 7], [98] \<mapsto> [H_STR [120]]]"
    using hash_refines_map [OF h1(2), of "[98]" "H_STR [120]"] h1(3) by auto
  have "flag h2 AND H_LIST \<noteq> 0" using fl [OF h1(1)] fl [OF h2(1)] h0(3) by simp
  then obtain h3 where h3: "dl_hash_set no_oom h2 [97] (H_VOID 5) = Some (DL_OK, h3)" "hash_ok ?K h3"
    "hash_map h3 = [[97] \<mapsto> [H_INT 7, H_VOID 5], [98] \<mapsto> [H_STR [120]]]"
    using hash_refines_map [OF h2(2), of "[97]" "H_VOID 5"] h2(3) by (auto simp: fun_upd_twist)
  show ?thesis
    using h1(1) h2(1) h3(1) hash_refines_map [OF h3(2), of "[97]"] hash_refines_map [OF h3(2), of "[98]"]
      hash_refines_map [OF h3(2), of "[99]"] h3(3) by auto
qed

text \<open>C33: \<^verbatim>\<open>dl_hash_del\<close> removes exactly the key and hands the custom values of its chain to the handler;
  the replacing setters leave exactly the new value under the key. (\<open>el_sum\<close>, the element count,
  is not decremented.)\<close>

theorem hash_delete_replace:
  assumes "hash_ok K h" "k \<in> K" "handler h"
  defines "old \<equiv> (case hash_map h k of None \<Rightarrow> [] | Some vs \<Rightarrow> void_ptrs vs)"
  shows "(\<exists>h'. dl_hash_del h k = Some (h', old) \<and> hash_ok K h' \<and> hash_map h' = (hash_map h)(k := None)
        \<and> el_sum h' = el_sum h)
    \<and> (\<exists>h'. dl_hash_set_rep no_oom h k v = Some ((DL_OK, h'), old) \<and> hash_ok K h'
        \<and> hash_map h' = (hash_map h)(k \<mapsto> [stored v]))"
proof -
  have del: "\<exists>h'. dl_hash_del h k = Some (h', old) \<and> hash_ok K h' \<and> hash_map h' = (hash_map h)(k := None)
      \<and> el_sum h' = el_sum h"
  proof (cases "hash_map h k")
    case None
    then show ?thesis using del_absent [OF assms(1,2) None] assms(1) by (simp add: old_def fun_upd_idem)
  next
    case (Some vs)
    then show ?thesis using del_present [OF assms(1,2) Some assms(3)] by (auto simp: old_def)
  qed
  then obtain h' where h': "dl_hash_del h k = Some (h', old)" "hash_ok K h'" "hash_map h' = (hash_map h)(k := None)"
    by blast
  then have "hash_map h' k = None" by simp
  from set_absent [OF h'(2) assms(2) this, of v] del h' show ?thesis by (auto simp: dl_hash_set_rep_def)
qed

theorem hash_delete_replace_witness:
  "\<exists>h'. dl_hash_set_rep no_oom (fresh H_UNIQUE) [97] (H_VOID 5) = Some ((DL_OK, h'), [])
    \<and> hash_map h' = [[97] \<mapsto> [H_VOID 5]]"
  using hash_delete_replace [of "{k. length k = 1}" "fresh H_UNIQUE" "[97]" "H_VOID 5"]
    fresh_ok [OF safe_same_length [of 1]] by auto

text \<open>C14: no custom pointer reaches the handler twice, and none is lost before the end: in any run of
  \<^verbatim>\<open>dl_hash_set\<close> and \<^verbatim>\<open>dl_hash_del\<close> on a new table with a handler, whatever allocations fail, half-filled
  nodes left by failing calls included, the pointers handed over are among those of the calls that
  returned \<^verbatim>\<open>DL_OK\<close>; where \<^verbatim>\<open>dl_hash_destroy\<close> returns it hands over exactly the others, and it does
  return when no call gave \<^verbatim>\<open>DL_ERROR\<close>.\<close>

theorem hash_pointers_once:
  assumes "dl_hash_init True True slot True type = Some h0" "hash_run h0 gs fs rs h"
  shows "mset fs \<subseteq># mset gs \<and> (\<forall>rest. dl_hash_destroy h = Some rest \<longrightarrow> mset gs = mset fs + mset rest)
    \<and> (DL_ERROR \<notin> set rs \<longrightarrow> dl_hash_destroy h \<noteq> None)"
proof -
  have h0: "vals_ok h0" "handler h0" "hash_bag h0 = {#}" "all_tidy h0"
    using assms(1) by (auto simp: dl_hash_init_def Let_def vals_ok_def hash_bag_def all_tidy_def unat_eq_0
        split: if_splits)
  have run: "handler h" "mset gs = mset fs + hash_bag h" "DL_ERROR \<notin> set rs \<longrightarrow> all_tidy h"
    using hash_run_bag [OF assms(2) h0] by simp_all
  then show ?thesis
    using free_nodes_bag [of "concat (slots h)"] free_nodes_ptrs [of "concat (slots h)"]
    by (auto simp: dl_hash_destroy_def hash_bag_def all_tidy_def)
qed

lemma fresh_run:
  "\<exists>h. hash_run (fresh H_UNIQUE) [5] [] [DL_OK] h"
proof -
  obtain h where "dl_hash_set no_oom (fresh H_UNIQUE) [97] (H_VOID 5) = Some (DL_OK, h)"
    using set_absent [of "{k. length k = 1}" "fresh H_UNIQUE" "[97]" "H_VOID 5"]
      fresh_ok [OF safe_same_length [of 1]] by auto
  from hash_set [OF hash_start this] show ?thesis by auto
qed

theorem hash_pointers_once_witness:
  "\<exists>h rest. hash_run (fresh H_UNIQUE) [5] [] [DL_OK] h \<and> dl_hash_destroy h = Some rest \<and> mset rest = {#5#}"
proof -
  obtain h where h: "hash_run (fresh H_UNIQUE) [5] [] [DL_OK] h" using fresh_run by blast
  with hash_pointers_once [OF fresh_init this] show ?thesis by (cases "dl_hash_destroy h") auto
qed

lemma free_nodes_half: "n \<in> set ns \<Longrightarrow> n_key n = None \<Longrightarrow> free_nodes hdl ns = None"
  by (induction ns) (auto simp: free_node_def bind_eq_None_conv)

text \<open>C20: a setter that fails while it fills the node of a new key returns \<^verbatim>\<open>DL_ERROR\<close> and leaves the node
  in the table without a key: \<^verbatim>\<open>dl_hash_destroy\<close> then dereferences \<^verbatim>\<open>NULL\<close>, a freed or an uninitialised
  pointer, so that the table can never be destroyed again.\<close>

theorem hash_oom_destroy_crash:
  assumes "hash_ok K h" "k \<in> K" "hash_map h k = None" "dl_hash_set ok h k v = Some (DL_ERROR, h')" "h' \<noteq> h"
  shows "dl_hash_destroy h' = None"
proof -
  define i where "i = slot_index (slots h) (dl_hash_key k)"
  define chain where "chain = slots h ! i"
  have i: "i < length (slots h)" by (rule slot_of [OF assms(1) i_def])
  have f: "chain_find chain (dl_hash_key k) k = Some None"
    using find_absent [OF assms(1-3) refl] by (simp add: chain_def i_def)
  note set = assms(4) [unfolded dl_hash_set_def Let_def i_def [symmetric] chain_def [symmetric]]
  have "\<exists>m n0 n c. fill_node ok m k v n0 = Some (False, n) \<and> n_key n0 = None \<and> n \<in> set c
    \<and> h' = h\<lparr>slots := (slots h)[i := c]\<rparr>"
  proof (cases "chain = []")
    case True
    then obtain n where "fill_node ok 0 k v \<lparr>n_key = None, n_hash = Some 0, n_vals = []\<rparr> = Some (False, n)"
      "h' = h\<lparr>slots := (slots h)[i := [n]]\<rparr>"
      using set by (auto split: option.splits prod.splits bool.splits)
    then show ?thesis by (intro exI conjI) auto
  next
    case False
    then have "ok 0" using set f assms(5) by (auto split: if_splits)
    then obtain n where "fill_node ok 1 k v \<lparr>n_key = None, n_hash = None, n_vals = []\<rparr> = Some (False, n)"
      "h' = h\<lparr>slots := (slots h)[i := hd chain # n # tl chain]\<rparr>"
      using set f False by (auto split: option.splits prod.splits bool.splits)
    then show ?thesis by (intro exI conjI) auto
  qed
  then obtain m n0 n c where n: "fill_node ok m k v n0 = Some (False, n)" "n_key n0 = None"
    "n \<in> set c" "h' = h\<lparr>slots := (slots h)[i := c]\<rparr>" by blast
  have "n_key n = None" using fill_node_outcome(2) [OF n(1)] n(2) by simp
  moreover have "n \<in> set (concat (slots h'))" using n(3,4) i set_update_memI [OF i, of c] by auto
  ultimately show ?thesis using free_nodes_half by (simp add: dl_hash_destroy_def)
qed

theorem hash_oom_destroy_crash_witness:
  "\<exists>h'. dl_hash_set (\<lambda>_. False) (fresh H_UNIQUE) [97] (H_INT 5) = Some (DL_ERROR, h') \<and> dl_hash_destroy h' = None"
proof -
  have s: "slots (fresh H_UNIQUE) = replicate 3 []" by (simp add: fresh_def dl_hash_init_def)
  then have c: "slots (fresh H_UNIQUE) ! slot_index (slots (fresh H_UNIQUE)) (dl_hash_key [97]) = []"
    by (simp add: slot_index_def)
  define h' where "h' = (fresh H_UNIQUE)\<lparr>slots := (slots (fresh H_UNIQUE))[slot_index (slots (fresh H_UNIQUE)) (dl_hash_key [97])
    := [\<lparr>n_key = None, n_hash = Some 0, n_vals = [Val (H_INT 5)]\<rparr>]]\<rparr>"
  have set: "dl_hash_set (\<lambda>_. False) (fresh H_UNIQUE) [97] (H_INT 5) = Some (DL_ERROR, h')"
    by (simp add: dl_hash_set_def Let_def c fill_node_def h'_def)
  have "slots h' ! slot_index (slots (fresh H_UNIQUE)) (dl_hash_key [97]) \<noteq> []"
    by (simp add: h'_def slot_index_def s)
  then have "h' \<noteq> fresh H_UNIQUE" using c by metis
  then show ?thesis
    using hash_oom_destroy_crash [OF _ _ _ set] set fresh_ok [OF safe_single [of "[97]"], of H_UNIQUE] by auto
qed

lemma hash_key_20: "20 \<le> length p \<Longrightarrow> dl_hash_key (p @ x) = dl_hash_key p"
  by (simp add: dl_hash_key_def)

lemma first_key:
  assumes "distinct (map n_key (xs @ n # ys))" "\<forall>x \<in> set (xs @ n # ys). n_key x = k \<and> P x" shows "xs = []"
proof (cases xs)
  case (Cons x xs)
  then have "n_key x = n_key n" using assms(2) by simp
  then show ?thesis using assms(1) Cons by simp
qed

text \<open>Keys longer than 20 bytes that share their first 20 are confused: the search for a prefix
  finds the longer stored key, and the search for an extension reads past the end of the stored
  key.\<close>

theorem hash_prefix_confusion:
  assumes "20 \<le> length p" "x \<noteq> []"
    and "hash_ok {p @ x} h" "hash_map h (p @ x) = Some vs"
    and "hash_ok {p} g" "hash_map g p = Some ws"
  shows "dl_hash_find h p = Some (Some (map Val vs)) \<and> dl_hash_find g (p @ x) = None"
proof
  define c where "c = slots h ! slot_index (slots h) (dl_hash_key p)"
  have c': "c = slots h ! slot_index (slots h) (dl_hash_key (p @ x))" by (simp add: c_def hash_key_20 [OF assms(1)])
  from find_present [OF assms(3) singletonI assms(4) c'] obtain xs n ys
    where n: "c = xs @ n # ys" "n_key n = Some (p @ x)" "n_vals n = map Val vs" by blast
  have ok: "table_ok {p @ x} (slots h)" using assms(3) by (simp add: hash_ok_def)
  have all: "\<forall>n \<in> set c. n_key n = Some (p @ x) \<and> n_hash n = Some (dl_hash_key p)"
    using table_slot(1) [OF ok, of "dl_hash_key p"] hash_key_20 [OF assms(1)] by (auto simp: c_def)
  have "distinct (map n_key c)" using table_slot(2) [OF ok, of "dl_hash_key p"] by (simp add: c_def)
  then have "xs = []" using all unfolding n(1) by (rule first_key)
  then show "dl_hash_find h p = Some (Some (map Val vs))"
    using n all by (simp add: dl_hash_find_def Let_def c_def [symmetric])
next
  define c where "c = slots g ! slot_index (slots g) (dl_hash_key p)"
  from find_present [OF assms(5) singletonI assms(6) c_def] obtain xs n ys
    where n: "c = xs @ n # ys" "n_key n = Some p" by blast
  have ok: "table_ok {p} (slots g)" using assms(5) by (simp add: hash_ok_def)
  have all: "\<forall>n \<in> set c. n_key n = Some p \<and> n_hash n = Some (dl_hash_key p)"
    using table_slot(1) [OF ok, of "dl_hash_key p"] by (auto simp: c_def)
  have "distinct (map n_key c)" using table_slot(2) [OF ok, of "dl_hash_key p"] by (simp add: c_def)
  then have "xs = []" using all unfolding n(1) by (rule first_key)
  then show "dl_hash_find g (p @ x) = None"
    using assms(2) n all by (simp add: dl_hash_find_def Let_def hash_key_20 [OF assms(1)] c_def [symmetric])
qed

lemma stored_table:
  "\<exists>h. dl_hash_set no_oom (fresh H_UNIQUE) k v = Some (DL_OK, h) \<and> hash_ok {k} h
     \<and> hash_map h k = Some [stored v]"
  using set_absent [of "{k}" "fresh H_UNIQUE" k v] fresh_ok [OF safe_single [of k]] by auto

theorem hash_prefix_confusion_witness:
  "\<exists>h. dl_hash_set no_oom (fresh H_UNIQUE) (replicate 20 97 @ [98]) (H_INT 7) = Some (DL_OK, h)
     \<and> dl_hash_find h (replicate 20 97) = Some (Some [Val (stored (H_INT 7))])"
proof -
  obtain h where h: "dl_hash_set no_oom (fresh H_UNIQUE) (replicate 20 97 @ [98]) (H_INT 7) = Some (DL_OK, h)"
    "hash_ok {replicate 20 97 @ [98]} h" "hash_map h (replicate 20 97 @ [98]) = Some [stored (H_INT 7)]"
    using stored_table by blast
  obtain g where g: "hash_ok {replicate 20 97} g" "hash_map g (replicate 20 97) = Some [stored (H_INT 7)]"
    using stored_table [of "replicate 20 97" "H_INT 7"] by blast
  show ?thesis using hash_prefix_confusion [OF _ _ h(2,3) g] h(1) by auto
qed

text \<open>\<^verbatim>\<open>dl_hash_set_int\<close> takes a \<^verbatim>\<open>long\<close> and stores its low 32 bits, sign-extended: a value comes back
  unchanged only if it fits an \<^verbatim>\<open>int\<close>.\<close>

theorem hash_int_truncated:
  assumes "hash_ok K h" "k \<in> K" "hash_map h k = None"
  shows "\<exists>h'. dl_hash_set_int no_oom h k n = Some (DL_OK, h')
    \<and> dl_hash_find h' k = Some (Some [Val (H_INT (scast (ucast n :: u32)))])"
  using set_absent [OF assms, of "H_INT n"] find_spec [OF _ assms(2)] by (auto simp: dl_hash_set_int_def)

theorem hash_int_truncated_witness:
  "\<exists>h'. dl_hash_set_int no_oom (fresh H_UNIQUE) [97] 0x100000000 = Some (DL_OK, h')
    \<and> dl_hash_find h' [97] = Some (Some [Val (H_INT 0)])"
  using hash_int_truncated [of "{k. length k = 1}" "fresh H_UNIQUE" "[97]" "0x100000000"]
    fresh_ok [OF safe_same_length [of 1]] by simp

text \<open>Any list of pairs with distinct keys of a safe set, stored one after the other in a new
  \<^verbatim>\<open>H_UNIQUE\<close> table, is found again, each key with exactly its value, whatever slots they share.\<close>

theorem hash_store_all:
  assumes "safe K" "distinct (map fst kvs)" "fst ` set kvs \<subseteq> K" "dl_hash_init True True slot hdl H_UNIQUE = Some h"
  shows "\<exists>h'. fold (\<lambda>(k, v) r. Option.bind r (\<lambda>h. map_option snd (dl_hash_set no_oom h k v))) kvs (Some h) = Some h'
    \<and> list_all (\<lambda>(k, v). hash_get h' k = Some (Some [stored v])) kvs"
  using hu.put_fresh_list [of K h kvs] init_spec [OF assms(1,4)] assms by (auto simp: list_all_iff)

theorem hash_store_all_witness:
  "\<exists>h'. fold (\<lambda>(k, v) r. Option.bind r (\<lambda>h. map_option snd (dl_hash_set no_oom h k v)))
      [([97], H_INT 1), ([100], H_INT 2)] (Some (fresh H_UNIQUE)) = Some h'
    \<and> hash_get h' [100] = Some (Some [H_INT 2])"
  using hash_store_all [of "{k. length k = 1}" "[([97], H_INT 1), ([100], H_INT 2)]" 3 True "fresh H_UNIQUE"]
    safe_same_length [of 1] fresh_init by auto

end
