(* ===== verification/Dl_Phash.thy ===== *)
theory Dl_Phash
  imports Dl_Hash
begin

text \<open>
  The pool-backed hash table of \<^verbatim>\<open>dl_phash.c\<close>: nodes, hash function and search are those of
  \<^verbatim>\<open>dl_hash.c\<close> (\<open>Dl_Hash\<close>), there is no deletion, and a known key is refused (\<^verbatim>\<open>PH_UNIQUE\<close>), gets its
  value replaced (\<^verbatim>\<open>PH_REPLACE\<close>) or chained. Keys and strings are not copied but referenced: the
  model is for callers that leave them unchanged while the table lives.
\<close>

section \<open>The code\<close>

record phash =
  p_slots :: "hval hnode list list"
  p_sum :: int
  p_flag :: u32

abbreviation PH_UNIQUE :: u32 where "PH_UNIQUE \<equiv> 1"
abbreviation PH_LIST :: u32 where "PH_LIST \<equiv> 2"
abbreviation PH_REPLACE :: u32 where "PH_REPLACE \<equiv> 4"

definition dl_phash_key :: "bytes \<Rightarrow> u32" where
  "dl_phash_key data = hash_key_loop 0 (take (if 20 < length data then 20 else length data) data)"

definition dl_phash_init :: "bool \<Rightarrow> bool \<Rightarrow> u32 \<Rightarrow> u32 \<Rightarrow> phash option" where
  "dl_phash_init ok1 ok2 slot type =
     (if \<not> ok1 then None
      else let slot_total = (if slot \<noteq> 0 then unat slot else 64) in
        if \<not> ok2 \<or> 2 ^ 31 \<le> slot_total then None
        else Some \<lparr>p_slots = replicate slot_total [], p_sum = 0, p_flag = type\<rparr>)"

fun pfill_v :: "hval \<Rightarrow> hval" where
  "pfill_v (H_STR s) = H_STR s"
| "pfill_v (H_INT i) = H_INT (scast (ucast i :: u32))"
| "pfill_v (H_VOID p) = H_VOID p"

definition pfill_node :: "bytes \<Rightarrow> hval \<Rightarrow> hval hnode" where
  "pfill_node key v = \<lparr>n_key = Some key, n_hash = Some (dl_phash_key key), n_vals = [pfill_v v]\<rparr>"

text \<open>\<open>ok n\<close> is the outcome of the \<open>n\<close>-th request to the pool.\<close>

definition dl_phash_set :: "(nat \<Rightarrow> bool) \<Rightarrow> nat \<Rightarrow> phash \<Rightarrow> bytes \<Rightarrow> hval \<Rightarrow> (rc \<times> phash) option" where
  "dl_phash_set ok m h key v =
     (let h_key = dl_phash_key key;
          i = slot_index (p_slots h) h_key;
          chain = p_slots h ! i
      in if chain = [] then
           Some (DL_OK, h\<lparr>p_slots := (p_slots h)[i := [pfill_node key v]], p_sum := p_sum h + 1\<rparr>)
         else case chain_find chain h_key key of
           None \<Rightarrow> None
         | Some None \<Rightarrow>
             if \<not> ok m then Some (DL_ERROR, h)
             else Some (DL_OK, h\<lparr>p_slots := (p_slots h)[i := hd chain # pfill_node key v # tl chain],
                                       p_sum := p_sum h + 1\<rparr>)
         | Some (Some j) \<Rightarrow>
             if p_flag h AND PH_UNIQUE \<noteq> 0 then Some (DL_AGAIN, h)
             else if p_flag h AND PH_REPLACE \<noteq> 0 then
               Some (DL_OK, h\<lparr>p_slots := (p_slots h)[i := chain[j := pfill_node key v]]\<rparr>)
             else if \<not> ok m then None
             else let n = chain ! j;
                      n' = n\<lparr>n_vals := hd (n_vals n) # pfill_v v # tl (n_vals n)\<rparr>
                  in Some (DL_OK, h\<lparr>p_slots := (p_slots h)[i := chain[j := n']], p_sum := p_sum h + 1\<rparr>))"

text \<open>The setters first take a key header from the pool; its \<^verbatim>\<open>NULL\<close> is not tested.\<close>

definition dl_phash_put :: "(nat \<Rightarrow> bool) \<Rightarrow> phash \<Rightarrow> bytes \<Rightarrow> hval \<Rightarrow> (rc \<times> phash) option" where
  "dl_phash_put ok h data v = (if \<not> ok 0 then None else dl_phash_set ok 1 h data v)"

definition dl_phash_set_str :: "(nat \<Rightarrow> bool) \<Rightarrow> phash \<Rightarrow> bytes \<Rightarrow> bytes \<Rightarrow> (rc \<times> phash) option" where
  "dl_phash_set_str ok h data v = dl_phash_put ok h data (H_STR v)"

definition dl_phash_set_int :: "(nat \<Rightarrow> bool) \<Rightarrow> phash \<Rightarrow> bytes \<Rightarrow> u64 \<Rightarrow> (rc \<times> phash) option" where
  "dl_phash_set_int ok h data v = dl_phash_put ok h data (H_INT v)"

definition dl_phash_set_void :: "(nat \<Rightarrow> bool) \<Rightarrow> phash \<Rightarrow> bytes \<Rightarrow> nat \<Rightarrow> (rc \<times> phash) option" where
  "dl_phash_set_void ok h data v = dl_phash_put ok h data (H_VOID v)"

definition dl_phash_find :: "phash \<Rightarrow> bytes \<Rightarrow> hval list option option" where
  "dl_phash_find h data =
     (let h_key = dl_hash_key data;
          chain = p_slots h ! slot_index (p_slots h) h_key
      in if chain = [] then Some None
         else map_option (map_option (\<lambda>j. n_vals (chain ! j))) (chain_find chain h_key data))"

section \<open>Refinement\<close>

definition phash_ok :: "bytes set \<Rightarrow> phash \<Rightarrow> bool" where
  "phash_ok K h \<longleftrightarrow> safe K \<and> table_ok K (p_slots h)"

definition phash_map :: "phash \<Rightarrow> bytes \<Rightarrow> hval list option" where
  "phash_map h = table_map (p_slots h)"

lemma phash_key [simp]: "dl_phash_key = dl_hash_key"
  by (simp add: fun_eq_iff dl_phash_key_def dl_hash_key_def)

lemma pfill_v_stored [simp]: "pfill_v v = stored v"
  by (cases v) simp_all

lemma phash_find_spec:
  assumes "phash_ok K h" "k \<in> K" shows "dl_phash_find h k = Some (phash_map h k)"
proof -
  define chain where "chain = p_slots h ! slot_index (p_slots h) (dl_hash_key k)"
  have ok: "safe K" "table_ok K (p_slots h)" using assms(1) by (simp_all add: phash_ok_def)
  show ?thesis
  proof (cases "phash_map h k")
    case None
    then show ?thesis
      using chain_find_absent [OF ok(1) assms(2) ok(2)] by (simp add: dl_phash_find_def phash_map_def Let_def)
  next
    case (Some vs)
    then obtain xs n ys where "chain_find chain (dl_hash_key k) k = Some (Some (length xs))"
      "chain = xs @ n # ys" "n_vals n = vs"
      using chain_find_present [OF ok(1) assms(2) ok(2)] unfolding phash_map_def chain_def by blast
    then show ?thesis using Some by (simp add: dl_phash_find_def Let_def chain_def [symmetric])
  qed
qed

text \<open>What a setter makes of the value chain of a known key, by the flags of the table.\<close>

definition pmerge :: "u32 \<Rightarrow> hval list \<Rightarrow> hval \<Rightarrow> hval list option" where
  "pmerge f vs v =
     (if f AND PH_UNIQUE \<noteq> 0 then None
      else if f AND PH_REPLACE \<noteq> 0 then Some [stored v]
      else Some (hd vs # stored v # tl vs))"

lemma pset_absent:
  assumes "phash_ok K h" "k \<in> K" "phash_map h k = None"
  shows "\<exists>h'. dl_phash_put no_oom h k v = Some (DL_OK, h') \<and> phash_ok K h'
    \<and> phash_map h' = (phash_map h)(k \<mapsto> [stored v]) \<and> p_flag h' = p_flag h"
proof -
  define i where "i = slot_index (p_slots h) (dl_hash_key k)"
  define chain where "chain = p_slots h ! i"
  define n where "n = pfill_node k v"
  have ok: "safe K" "table_ok K (p_slots h)" using assms(1) by (simp_all add: phash_ok_def)
  have i: "i < length (p_slots h)" using ok(2) by (simp add: i_def table_ok_def)
  note tc = table_chain [OF ok(2) i, folded chain_def]
  have nok: "node_ok K (p_slots h) i n" using assms(2) by (simp add: node_ok_def n_def pfill_node_def i_def)
  have absent: "chain_find chain (dl_hash_key k) k = Some None" "Some k \<notin> n_key ` set chain"
    using chain_find_absent [OF ok(1) assms(2) ok(2)] assms(3)
    by (simp_all add: phash_map_def chain_def i_def)
  define c' where "c' = (if chain = [] then [n] else hd chain # n # tl chain)"
  have c'm: "chain_map c' = (chain_map (p_slots h ! i))(Some k := Some [stored v])"
    and c'd: "distinct (map n_key c')" and c'n: "\<forall>n \<in> set c'. node_ok K (p_slots h) i n"
    using tc nok absent(2) fun_upd_twist [of "n_key (hd chain)" "Some k" "chain_map (tl chain)"]
    by (cases chain; auto simp: c'_def n_def pfill_node_def chain_def [symmetric])+
  have "dl_phash_put no_oom h k v = Some (DL_OK, h\<lparr>p_slots := (p_slots h)[i := c'], p_sum := p_sum h + 1\<rparr>)"
    using absent(1)
    by (auto simp: dl_phash_put_def dl_phash_set_def Let_def i_def [symmetric] chain_def [symmetric] c'_def n_def)
  then show ?thesis
    using table_update [OF ok(2) i_def c'n c'd c'm] ok(1) by (auto simp: phash_ok_def phash_map_def)
qed

lemma pset_present:
  assumes "phash_ok K h" "k \<in> K" "phash_map h k = Some vs"
  shows "case pmerge (p_flag h) vs v of
      None \<Rightarrow> dl_phash_put no_oom h k v = Some (DL_AGAIN, h)
    | Some vs' \<Rightarrow> \<exists>h'. dl_phash_put no_oom h k v = Some (DL_OK, h') \<and> phash_ok K h'
      \<and> phash_map h' = (phash_map h)(k \<mapsto> vs') \<and> p_flag h' = p_flag h"
proof -
  define i where "i = slot_index (p_slots h) (dl_hash_key k)"
  define chain where "chain = p_slots h ! i"
  have ok: "safe K" "table_ok K (p_slots h)" using assms(1) by (simp_all add: phash_ok_def)
  have i: "i < length (p_slots h)" using ok(2) by (simp add: i_def table_ok_def)
  note tc = table_chain [OF ok(2) i, folded chain_def]
  obtain xs n ys where f: "chain_find chain (dl_hash_key k) k = Some (Some (length xs))"
    and split: "chain = xs @ n # ys" and n: "n_key n = Some k" "n_vals n = vs"
    using chain_find_present [OF ok(1) assms(2) ok(2)] assms(3)
    unfolding phash_map_def chain_def i_def by blast
  have ne: "chain \<noteq> []" and nth: "chain ! length xs = n" using split by simp_all
  have upd: "table_ok K ((p_slots h)[i := xs @ n' # ys])"
      "table_map ((p_slots h)[i := xs @ n' # ys]) = (table_map (p_slots h))(k \<mapsto> n_vals n')"
    if n': "n_key n' = Some k" "node_ok K (p_slots h) i n'" for n'
  proof -
    have d: "distinct (map n_key (xs @ n # ys))" using tc(2) split by simp
    then have d': "distinct (map n_key (xs @ n' # ys))" using n n' by simp
    have cm: "chain_map (xs @ n' # ys) = (chain_map (p_slots h ! i))(Some k := Some (n_vals n'))"
      using chain_map_split [OF d] chain_map_split [OF d'] split n n' by (simp add: chain_def)
    have "\<forall>n \<in> set (xs @ n' # ys). node_ok K (p_slots h) i n" using tc(1) split n' by simp
    from table_update [OF ok(2) i_def this d' cm]
    show "table_ok K ((p_slots h)[i := xs @ n' # ys])"
      "table_map ((p_slots h)[i := xs @ n' # ys]) = (table_map (p_slots h))(k \<mapsto> n_vals n')" .
  qed
  have nok: "node_ok K (p_slots h) i n" using tc(1) split by simp
  define n1 where "n1 = pfill_node k v"
  define n2 where "n2 = n\<lparr>n_vals := hd vs # stored v # tl vs\<rparr>"
  have n1: "n_key n1 = Some k" "node_ok K (p_slots h) i n1" "n_vals n1 = [stored v]"
    using assms(2) by (simp_all add: n1_def pfill_node_def node_ok_def i_def)
  have n2: "n_key n2 = Some k" "node_ok K (p_slots h) i n2" "n_vals n2 = hd vs # stored v # tl vs"
    using nok n by (auto simp: n2_def node_ok_def)
  have put: "dl_phash_put no_oom h k v =
      (if p_flag h AND PH_UNIQUE \<noteq> 0 then Some (DL_AGAIN, h)
       else if p_flag h AND PH_REPLACE \<noteq> 0 then Some (DL_OK, h\<lparr>p_slots := (p_slots h)[i := xs @ n1 # ys]\<rparr>)
       else Some (DL_OK, h\<lparr>p_slots := (p_slots h)[i := xs @ n2 # ys], p_sum := p_sum h + 1\<rparr>))"
    using f ne nth n
    by (simp add: dl_phash_put_def dl_phash_set_def Let_def i_def [symmetric] chain_def [symmetric] n1_def n2_def)
      (simp add: split)
  show ?thesis
    using upd [OF n1(1,2)] upd [OF n2(1,2)] n1(3) n2(3) ok(1)
    unfolding put by (auto simp: pmerge_def phash_ok_def phash_map_def)
qed

interpretation ph: kv_table K "\<lambda>h. phash_ok K h \<and> p_flag h = f" phash_map
  "dl_phash_put no_oom" dl_phash_find "pmerge f"
proof (unfold_locales, goal_cases)
  case (2 t k v)
  then show ?case using pset_absent [of K t k v] by auto
next
  case (3 t k vs v)
  then show ?case using pset_present [of K t k vs v] by auto
next
  case (4 t k vs v vs')
  then show ?case using pset_present [of K t k vs v] by auto
qed (auto simp: phash_find_spec)

section \<open>Properties\<close>

lemma pinit_spec:
  assumes "safe K" "dl_phash_init True True slot type = Some h"
  shows "phash_ok K h \<and> phash_map h = Map.empty \<and> p_flag h = type"
proof -
  define n where "n = (if slot \<noteq> 0 then unat slot else 64)"
  have "0 < n" by (simp add: n_def unat_gt_0)
  moreover have h: "h = \<lparr>p_slots = replicate n [], p_sum = 0, p_flag = type\<rparr>"
    using assms(2) by (auto simp: dl_phash_init_def Let_def n_def split: if_splits)
  ultimately show ?thesis
    using assms(1) slot_index_less [of "replicate n ([] :: hval hnode list)"]
    by (auto simp: phash_ok_def table_ok_def phash_map_def table_map_def fun_eq_iff)
qed

text \<open>C10: over a safe set of keys the pool table is a map from keys to value chains: find looks up, a
  setter adds a new key, and for a known key refuses (\<^verbatim>\<open>PH_UNIQUE\<close>), replaces the whole chain
  (\<^verbatim>\<open>PH_REPLACE\<close>) or chains the value behind the first one.\<close>

theorem phash_refines_map:
  assumes "phash_ok K h" "k \<in> K"
  shows "dl_phash_find h k = Some (phash_map h k)
    \<and> (\<exists>r h'. dl_phash_put no_oom h k v = Some (r, h') \<and> phash_ok K h' \<and> p_flag h' = p_flag h
        \<and> phash_map h' =
            (case phash_map h k of
               None \<Rightarrow> (phash_map h)(k \<mapsto> [stored v])
             | Some vs \<Rightarrow> if p_flag h AND PH_UNIQUE \<noteq> 0 then phash_map h
                          else if p_flag h AND PH_REPLACE \<noteq> 0 then (phash_map h)(k \<mapsto> [stored v])
                          else (phash_map h)(k \<mapsto> hd vs # stored v # tl vs))
        \<and> r = (if phash_map h k \<noteq> None \<and> p_flag h AND PH_UNIQUE \<noteq> 0 then DL_AGAIN else DL_OK))"
proof (cases "phash_map h k")
  case None
  then show ?thesis using pset_absent [OF assms None, of v] phash_find_spec [OF assms] by auto
next
  case (Some vs)
  then show ?thesis
    using pset_present [OF assms Some, of v] phash_find_spec [OF assms] assms(1)
    by (auto simp: pmerge_def split: if_splits)
qed

theorem phash_refines_map_witness:
  "\<exists>h h'. dl_phash_init True True 3 PH_REPLACE = Some h
    \<and> dl_phash_put no_oom h [97] (H_INT 5) = Some (DL_OK, h') \<and> phash_map h' = [[97] \<mapsto> [H_INT 5]]"
proof -
  obtain h where h: "dl_phash_init True True 3 PH_REPLACE = Some h" by (simp add: dl_phash_init_def)
  then have "phash_ok {k. length k = 1} h" "phash_map h = Map.empty"
    using pinit_spec [OF safe_same_length h, of 1] by auto
  then show ?thesis using phash_refines_map [of "{k. length k = 1}" h "[97]" "H_INT 5"] h by auto
qed

text \<open>Any list of pairs with distinct keys of a safe set, stored in a new pool table, is found again,
  with every flag.\<close>

theorem phash_store_all:
  assumes "safe K" "distinct (map fst kvs)" "fst ` set kvs \<subseteq> K" "dl_phash_init True True slot f = Some h"
  shows "\<exists>h'. fold (\<lambda>(k, v) r. Option.bind r (\<lambda>h. map_option snd (dl_phash_put no_oom h k v))) kvs (Some h) = Some h'
    \<and> list_all (\<lambda>(k, v). dl_phash_find h' k = Some (Some [stored v])) kvs"
  using ph.put_fresh_list [of K h f kvs] pinit_spec [OF assms(1,4)] assms by (auto simp: list_all_iff)

theorem phash_store_all_witness:
  "\<exists>h h'. dl_phash_init True True 3 PH_LIST = Some h
    \<and> map_option snd (dl_phash_put no_oom h [97] (H_INT 5)) = Some h'
    \<and> dl_phash_find h' [97] = Some (Some [H_INT 5])"
proof -
  obtain h where h: "dl_phash_init True True 3 PH_LIST = Some h" by (simp add: dl_phash_init_def)
  then show ?thesis
    using phash_store_all [of "{k. length k = 1}" "[([97], H_INT 5)]" 3 PH_LIST h] safe_same_length [of 1] by auto
qed

end
