(* ===== verification/Dl_Bstree.thy ===== *)
theory Dl_Bstree
  imports Dl_Prelude "HOL-Library.Tree"
begin

text \<open>
  The AVL tree of \<^verbatim>\<open>dl_bstree.c\<close> on an explicit heap: a node is its address, the heap gives its fields,
  a pointer is an address or \<^verbatim>\<open>NULL\<close> (\<open>None\<close>). Binding a pointer in the option monad dereferences it,
  so a dereference of \<^verbatim>\<open>NULL\<close> makes the whole call \<open>None\<close>, as does a loop or recursion that never
  ends. Heights are \<^verbatim>\<open>ulong\<close>, keys the integers of a \<^verbatim>\<open>long\<close>.
\<close>

section \<open>The heap\<close>

record bst =
  t_key :: "addr \<Rightarrow> int"
  t_height :: "addr \<Rightarrow> u64"
  t_left :: "addr \<Rightarrow> ptr"
  t_right :: "addr \<Rightarrow> ptr"
  t_parent :: "addr \<Rightarrow> ptr"

definition set_height :: "addr \<Rightarrow> u64 \<Rightarrow> bst \<Rightarrow> bst" where
  "set_height a v h = h\<lparr>t_height := (t_height h)(a := v)\<rparr>"

definition set_left :: "addr \<Rightarrow> ptr \<Rightarrow> bst \<Rightarrow> bst" where
  "set_left a v h = h\<lparr>t_left := (t_left h)(a := v)\<rparr>"

definition set_right :: "addr \<Rightarrow> ptr \<Rightarrow> bst \<Rightarrow> bst" where
  "set_right a v h = h\<lparr>t_right := (t_right h)(a := v)\<rparr>"

definition set_parent :: "addr \<Rightarrow> ptr \<Rightarrow> bst \<Rightarrow> bst" where
  "set_parent a v h = h\<lparr>t_parent := (t_parent h)(a := v)\<rparr>"

text \<open>\<^verbatim>\<open>if (p != NULL) p->parent = v\<close>\<close>

definition set_parent_of :: "ptr \<Rightarrow> ptr \<Rightarrow> bst \<Rightarrow> bst" where
  "set_parent_of p v h = (case p of None \<Rightarrow> h | Some a \<Rightarrow> set_parent a v h)"

text \<open>
  The macros. The balance is a difference of \<^verbatim>\<open>ulong\<close>s and itself one: a taller right side gives a
  huge number. Only the assignment to \<^verbatim>\<open>int balance\<close> (\<open>int_of\<close>) makes it negative.
\<close>

definition dl_bst_height :: "ptr \<Rightarrow> bst \<Rightarrow> u64" where
  "dl_bst_height p h = (case p of None \<Rightarrow> 0 | Some a \<Rightarrow> t_height h a)"

definition dl_bst_get_balance :: "ptr \<Rightarrow> bst \<Rightarrow> u64" where
  "dl_bst_get_balance p h =
     (case p of None \<Rightarrow> 0
      | Some a \<Rightarrow> dl_bst_height (t_left h a) h - dl_bst_height (t_right h a) h)"

definition int_of :: "u64 \<Rightarrow> int" where
  "int_of x = sint (ucast x :: u32)"

definition new_height :: "addr \<Rightarrow> bst \<Rightarrow> u64" where
  "new_height a h =
     1 + (if dl_bst_height (t_left h a) h > dl_bst_height (t_right h a) h
          then dl_bst_height (t_left h a) h else dl_bst_height (t_right h a) h)"

section \<open>Search and rotations\<close>

partial_function (option) min_loop :: "bst \<Rightarrow> addr \<Rightarrow> addr option" where
  "min_loop h a = (case t_left h a of None \<Rightarrow> Some a | Some l \<Rightarrow> min_loop h l)"

definition dl_bstree_min :: "bst \<Rightarrow> ptr \<Rightarrow> ptr option" where
  "dl_bstree_min h p = (case p of None \<Rightarrow> Some None | Some a \<Rightarrow> map_option Some (min_loop h a))"

partial_function (option) find_loop :: "bst \<Rightarrow> int \<Rightarrow> ptr \<Rightarrow> ptr option" where
  "find_loop h k cur =
     (case cur of
        None \<Rightarrow> Some None
      | Some a \<Rightarrow>
          if t_key h a = k then Some (Some a)
          else if k < t_key h a then find_loop h k (t_left h a)
          else find_loop h k (t_right h a))"

definition dl_bstree_find_by_key :: "ptr \<Rightarrow> int \<Rightarrow> bst \<Rightarrow> ptr option" where
  "dl_bstree_find_by_key root k h = find_loop h k root"

definition dl_bstree_right_rotate :: "ptr \<Rightarrow> bst \<Rightarrow> (addr \<times> bst) option" where
  "dl_bstree_right_rotate p h =
     do { node \<leftarrow> p;
          root \<leftarrow> t_left h node;
          let c = t_right h root;
          let h = set_left node c h;
          let h = set_parent_of (t_right h root) (Some node) h;
          let h = set_right root (Some node) h;
          let h = set_parent node (Some root) h;
          let h = set_parent root None h;
          let h = set_height node (new_height node h) h;
          let h = set_height root (new_height root h) h;
          Some (root, h) }"

definition dl_bstree_left_rotate :: "ptr \<Rightarrow> bst \<Rightarrow> (addr \<times> bst) option" where
  "dl_bstree_left_rotate p h =
     do { node \<leftarrow> p;
          root \<leftarrow> t_right h node;
          let c = t_left h root;
          let h = set_right node c h;
          let h = set_parent_of (t_left h root) (Some node) h;
          let h = set_left root (Some node) h;
          let h = set_parent node (Some root) h;
          let h = set_parent root None h;
          let h = set_height node (new_height node h) h;
          let h = set_height root (new_height root h) h;
          Some (root, h) }"

section \<open>Insertion\<close>

definition dl_bstree_insert_repair :: "addr \<Rightarrow> addr \<Rightarrow> bst \<Rightarrow> (addr \<times> bst) option" where
  "dl_bstree_insert_repair t node h =
     (let h = set_height t (new_height t h) h;
          balance = int_of (dl_bst_get_balance (Some t) h)
      in if 1 < balance then
           do { l \<leftarrow> t_left h t;
                if t_key h node < t_key h l then dl_bstree_right_rotate (Some t) h
                else if t_key h l < t_key h node then
                  do { (l', h) \<leftarrow> dl_bstree_left_rotate (t_left h t) h;
                       dl_bstree_right_rotate (Some t) (set_left t (Some l') h) }
                else Some (t, h) }
         else if balance < -1 then
           do { r \<leftarrow> t_right h t;
                if t_key h r < t_key h node then dl_bstree_left_rotate (Some t) h
                else if t_key h node < t_key h r then
                  do { (r', h) \<leftarrow> dl_bstree_right_rotate (t_right h t) h;
                       dl_bstree_left_rotate (Some t) (set_right t (Some r') h) }
                else Some (t, h) }
         else Some (t, h))"

text \<open>The inner \<open>None\<close> is the \<^verbatim>\<open>NULL\<close> return for a duplicate key.\<close>

partial_function (option) dl_bstree_insert_value :: "addr \<Rightarrow> addr \<Rightarrow> bst \<Rightarrow> (ptr \<times> bst) option" where
  "dl_bstree_insert_value t node h =
     (if t_key h node < t_key h t then
        (case t_left h t of
           None \<Rightarrow>
             (let h = set_left t (Some node) h;
                  h = set_parent_of (t_left h t) (Some t) h
              in map_option (\<lambda>(a, h). (Some a, h)) (dl_bstree_insert_repair t node h))
         | Some l \<Rightarrow>
             Option.bind (dl_bstree_insert_value l node h) (\<lambda>(r, h).
               let h = set_left t r h in
               case r of
                 None \<Rightarrow> Some (None, h)
               | Some l' \<Rightarrow>
                   map_option (\<lambda>(a, h). (Some a, h))
                     (dl_bstree_insert_repair t node (set_parent l' (Some t) h))))
      else if t_key h t < t_key h node then
        (case t_right h t of
           None \<Rightarrow>
             (let h = set_right t (Some node) h;
                  h = set_parent_of (t_right h t) (Some t) h
              in map_option (\<lambda>(a, h). (Some a, h)) (dl_bstree_insert_repair t node h))
         | Some r \<Rightarrow>
             Option.bind (dl_bstree_insert_value r node h) (\<lambda>(r, h).
               let h = set_right t r h in
               case r of
                 None \<Rightarrow> Some (None, h)
               | Some r' \<Rightarrow>
                   map_option (\<lambda>(a, h). (Some a, h))
                     (dl_bstree_insert_repair t node (set_parent r' (Some t) h))))
      else Some (None, h))"

text \<open>
  \<^verbatim>\<open>dl_bstree_insert\<close> with \<^verbatim>\<open>bst->insert\<close> set to \<^verbatim>\<open>dl_bstree_insert_value\<close>: the new \<^verbatim>\<open>bst->root\<close>, the
  returned pointer and the heap.
\<close>

definition dl_bstree_insert :: "ptr \<Rightarrow> addr \<Rightarrow> bst \<Rightarrow> (ptr \<times> ptr \<times> bst) option" where
  "dl_bstree_insert root node h =
     (let h = set_height node 1 h;
          h = set_left node None h;
          h = set_right node None h;
          h = set_parent node None h
      in case root of
           None \<Rightarrow> Some (Some node, Some node, h)
         | Some r \<Rightarrow>
             do { (n, h) \<leftarrow> dl_bstree_insert_value r node h;
                  Some (case n of None \<Rightarrow> (root, None, h) | Some n \<Rightarrow> (Some n, Some n, h)) })"

section \<open>Deletion\<close>

text \<open>Hang \<open>child\<close> below the parent of \<open>node\<close> in its place.\<close>

definition replace_in_parent :: "addr \<Rightarrow> ptr \<Rightarrow> bst \<Rightarrow> bst" where
  "replace_in_parent node child h =
     (case t_parent h node of
        None \<Rightarrow> h
      | Some p \<Rightarrow> if t_right h p = Some node then set_right p child h else set_left p child h)"

text \<open>
  The node has no or one child: unlink it. With no child the code asks whether the node is the left
  child of its parent, with one child whether it is the right one.
\<close>

definition unlink_leaf :: "addr \<Rightarrow> bst \<Rightarrow> bst" where
  "unlink_leaf node h =
     (case t_parent h node of
        None \<Rightarrow> h
      | Some p \<Rightarrow> if t_left h p = Some node then set_left p None h else set_right p None h)"

definition unlink_single :: "addr \<Rightarrow> addr \<Rightarrow> bst \<Rightarrow> bst" where
  "unlink_single node child h =
     (let h = set_parent child (t_parent h node) h
      in replace_in_parent node (Some child) h)"

text \<open>
  Two children: exchange the node with its successor \<open>child\<close>, which is below it on the right;
  \<open>tr\<close>, \<open>tp\<close> are the fields saved in \<^verbatim>\<open>temp\<close>.
\<close>

definition exchange :: "addr \<Rightarrow> addr \<Rightarrow> bst \<Rightarrow> bst option" where
  "exchange node child h =
     (let tr = t_right h child;
          tp = t_parent h child;
          h = set_parent child (t_parent h node) h;
          h = replace_in_parent node (Some child) h;
          h = set_left child (t_left h node) h;
          h = set_parent_of (t_left h node) (Some child) h
      in if t_right h node = Some child then
           let h = set_right child (Some node) h;
               h = set_parent node (Some child) h;
               h = set_left node None h;
               h = set_right node tr h
           in Some (set_parent_of tr (Some node) h)
         else
           do { r \<leftarrow> t_right h node;
                let h = set_right child (Some r) h;
                let h = set_parent r (Some child) h;
                let h = set_left node None h;
                let h = set_parent node tp h;
                p \<leftarrow> tp;
                let h = set_left p (Some node) h;
                let h = set_right node tr h;
                Some (set_parent_of tr (Some node) h) })"

text \<open>
  The rebalancing after a deletion. \<open>bl\<close> and \<open>br\<close> are unsigned, so \<open>0 \<le> bl\<close> always holds and \<open>br \<le> 0\<close>
  only for \<open>br = 0\<close>.
\<close>

definition delete_repair :: "addr \<Rightarrow> bst \<Rightarrow> (addr \<times> bst) option" where
  "delete_repair node h =
     (let h = set_height node (new_height node h) h;
          balance = int_of (dl_bst_get_balance (Some node) h);
          bl = dl_bst_get_balance (t_left h node) h;
          br = dl_bst_get_balance (t_right h node) h
      in if 1 < balance \<and> 0 \<le> bl then dl_bstree_right_rotate (Some node) h
         else if balance < -1 \<and> br \<le> 0 then dl_bstree_left_rotate (Some node) h
         else if 1 < balance \<and> bl < 0 then
           do { (l, h) \<leftarrow> dl_bstree_left_rotate (t_left h node) h;
                dl_bstree_right_rotate (Some node) (set_left node (Some l) h) }
         else if balance < -1 \<and> 0 < br then
           do { (r, h) \<leftarrow> dl_bstree_right_rotate (t_right h node) h;
                dl_bstree_left_rotate (Some node) (set_right node (Some r) h) }
         else Some (node, h))"

partial_function (option) dl_bstree_delete :: "ptr \<Rightarrow> int \<Rightarrow> bst \<Rightarrow> (ptr \<times> bst) option" where
  "dl_bstree_delete p k h =
     (case p of
        None \<Rightarrow> Some (None, h)
      | Some node \<Rightarrow>
          if k < t_key h node then
            Option.bind (dl_bstree_delete (t_left h node) k h) (\<lambda>(l, h).
              map_option (\<lambda>(a, h). (Some a, h)) (delete_repair node (set_left node l h)))
          else if t_key h node < k then
            Option.bind (dl_bstree_delete (t_right h node) k h) (\<lambda>(r, h).
              map_option (\<lambda>(a, h). (Some a, h)) (delete_repair node (set_right node r h)))
          else
            (case (t_left h node, t_right h node) of
               (None, None) \<Rightarrow> Some (None, unlink_leaf node h)
             | (Some c, None) \<Rightarrow> Some (Some c, unlink_single node c h)
             | (None, Some c) \<Rightarrow> Some (Some c, unlink_single node c h)
             | (Some l, Some r) \<Rightarrow>
                 Option.bind (min_loop h r) (\<lambda>child.
                 Option.bind (exchange node child h) (\<lambda>h.
                 Option.bind (dl_bstree_delete (t_right h child) (t_key h node) h) (\<lambda>(r, h).
                   map_option (\<lambda>(a, h). (Some a, h)) (delete_repair child (set_right child r h)))))))"

definition dl_bstree_delete_by_key :: "ptr \<Rightarrow> int \<Rightarrow> bst \<Rightarrow> (ptr \<times> bst) option" where
  "dl_bstree_delete_by_key root k h =
     (case root of None \<Rightarrow> Some (None, h) | Some r \<Rightarrow> dl_bstree_delete (Some r) k h)"

definition dl_bstree_delete_by_node :: "ptr \<Rightarrow> ptr \<Rightarrow> bst \<Rightarrow> (ptr \<times> bst) option" where
  "dl_bstree_delete_by_node root node h =
     (case root of
        None \<Rightarrow> Some (None, h)
      | Some r \<Rightarrow> (case node of
                     None \<Rightarrow> Some (None, h)
                   | Some n \<Rightarrow> dl_bstree_delete (Some r) (t_key h n) h))"

section \<open>Iteration\<close>

text \<open>The \<^verbatim>\<open>for (;;)\<close> loop of \<^verbatim>\<open>dl_bstree_next\<close>; \<open>root\<close> is \<^verbatim>\<open>bst->root\<close>.\<close>

partial_function (option) next_loop :: "ptr \<Rightarrow> bst \<Rightarrow> addr \<Rightarrow> ptr option" where
  "next_loop root h node =
     (if Some node = root then Some None
      else Option.bind (t_parent h node) (\<lambda>p.
             if t_left h p = Some node then Some (Some p) else next_loop root h p))"

definition dl_bstree_next :: "ptr \<Rightarrow> addr \<Rightarrow> bst \<Rightarrow> ptr option" where
  "dl_bstree_next root node h =
     (case t_right h node of
        Some r \<Rightarrow> map_option Some (min_loop h r)
      | None \<Rightarrow> next_loop root h node)"

end
