(* ===== verification/Dl_Avl.thy ===== *)
theory Dl_Avl
  imports Main "HOL-Library.Tree"
begin

text \<open>
  The reference for \<^verbatim>\<open>dl_bstree\<close> insertion: AVL insertion on binary trees of nodes, ordered by a key
  function, with the rotations and the rotation choices (by comparing keys) of the code. Rotations
  keep the inorder sequence, insertion adds one element at its place and keeps the balance.
\<close>

fun avl :: "'a tree \<Rightarrow> bool" where
  "avl Leaf = True"
| "avl (Node l a r) \<longleftrightarrow> height l \<le> height r + 1 \<and> height r \<le> height l + 1 \<and> avl l \<and> avl r"

fun rot_right :: "'a tree \<Rightarrow> 'a tree" where
  "rot_right (Node (Node t1 y t2) z t3) = Node t1 y (Node t2 z t3)"
| "rot_right t = t"

fun rot_left :: "'a tree \<Rightarrow> 'a tree" where
  "rot_left (Node t1 z (Node t2 y t3)) = Node (Node t1 z t2) y t3"
| "rot_left t = t"

fun repair :: "('a \<Rightarrow> int) \<Rightarrow> 'a \<Rightarrow> 'a tree \<Rightarrow> 'a tree" where
  "repair k x Leaf = Leaf"
| "repair k x (Node l a r) =
     (if height r + 1 < height l then
        (if k x < k (value l) then rot_right (Node l a r)
         else if k (value l) < k x then rot_right (Node (rot_left l) a r) else Node l a r)
      else if height l + 1 < height r then
        (if k (value r) < k x then rot_left (Node l a r)
         else if k x < k (value r) then rot_left (Node l a (rot_right r)) else Node l a r)
      else Node l a r)"

fun ins :: "('a \<Rightarrow> int) \<Rightarrow> 'a \<Rightarrow> 'a tree \<Rightarrow> 'a tree option" where
  "ins k x Leaf = Some (Node Leaf x Leaf)"
| "ins k x (Node l a r) =
     (if k x < k a then map_option (\<lambda>l. repair k x (Node l a r)) (ins k x l)
      else if k a < k x then map_option (\<lambda>r. repair k x (Node l a r)) (ins k x r)
      else None)"

definition ordered :: "('a \<Rightarrow> int) \<Rightarrow> 'a tree \<Rightarrow> bool" where
  "ordered k t \<longleftrightarrow> sorted_wrt (\<lambda>a b. k a < k b) (inorder t)"

lemma ordered_Leaf [simp]: "ordered k Leaf"
  by (simp add: ordered_def)

lemma ordered_Node [simp]:
  "ordered k (Node l a r) \<longleftrightarrow> ordered k l \<and> ordered k r \<and> (\<forall>x \<in> set_tree l. k x < k a) \<and> (\<forall>x \<in> set_tree r. k a < k x)"
  by (auto simp: ordered_def sorted_wrt_append intro: less_trans)

lemma inorder_rot_right [simp]: "inorder (rot_right t) = inorder t"
  by (induction t rule: rot_right.induct) simp_all

lemma inorder_rot_left [simp]: "inorder (rot_left t) = inorder t"
  by (induction t rule: rot_left.induct) simp_all

lemma inorder_repair [simp]: "inorder (repair k x t) = inorder t"
  by (cases t) simp_all

lemma rot_right_Node: "height r + 1 < height l \<Longrightarrow> \<exists>t1 y t2. l = Node t1 y t2"
  by (cases l) auto

text \<open>An insertion that makes the tree taller leaves it leaning to the side of the new key.\<close>

definition leaning :: "('a \<Rightarrow> int) \<Rightarrow> 'a \<Rightarrow> 'a tree \<Rightarrow> bool" where
  "leaning k x t = (case t of Leaf \<Rightarrow> False | Node l a r \<Rightarrow>
     (k x < k a \<and> height l = height r + 1) \<or> (k a < k x \<and> height r = height l + 1))"

lemma repair_left:
  assumes "avl l'" "avl r" "height l' \<le> height r + 2" "height r \<le> height l' + 1" "k x < k a"
    and "height l' = height r + 2 \<Longrightarrow> leaning k x l'"
  shows "avl (repair k x (Node l' a r)) \<and>
    (if height l' = height r + 2 then height (repair k x (Node l' a r)) = height l'
     else repair k x (Node l' a r) = Node l' a r)"
proof (cases "height l' = height r + 2")
  case True
  then obtain t1 y t2 where l': "l' = Node t1 y t2" by (cases l') auto
  have "leaning k x l'" using assms(6) True .
  then consider "k x < k y" "height t1 = height t2 + 1" | "k y < k x" "height t2 = height t1 + 1"
    by (auto simp: leaning_def l')
  then show ?thesis
  proof cases
    case 1
    then show ?thesis using True assms(1,2) by (simp add: l' max_def)
  next
    case 2
    then obtain t3 z t4 where t2: "t2 = Node t3 z t4" by (cases t2) auto
    show ?thesis using 2 True assms(1,2) by (auto simp: l' t2 max_def split: if_splits)
  qed
next
  case False
  then show ?thesis using assms by simp
qed

lemma repair_right:
  assumes "avl l" "avl r'" "height r' \<le> height l + 2" "height l \<le> height r' + 1" "k a < k x"
    and "height r' = height l + 2 \<Longrightarrow> leaning k x r'"
  shows "avl (repair k x (Node l a r')) \<and>
    (if height r' = height l + 2 then height (repair k x (Node l a r')) = height r'
     else repair k x (Node l a r') = Node l a r')"
proof (cases "height r' = height l + 2")
  case True
  then obtain t1 y t2 where r': "r' = Node t1 y t2" by (cases r') auto
  have "leaning k x r'" using assms(6) True .
  then consider "k x < k y" "height t1 = height t2 + 1" | "k y < k x" "height t2 = height t1 + 1"
    by (auto simp: leaning_def r')
  then show ?thesis
  proof cases
    case 2
    then show ?thesis using True assms(1,2) by (simp add: r' max_def)
  next
    case 1
    then obtain t3 z t4 where t1: "t1 = Node t3 z t4" by (cases t1) auto
    show ?thesis using 1 True assms(1,2) by (auto simp: r' t1 max_def split: if_splits)
  qed
next
  case False
  then show ?thesis using assms by simp
qed

lemma ins_avl:
  "ins k x t = Some t' \<Longrightarrow> avl t \<Longrightarrow>
   avl t' \<and> (height t' = height t \<or> (height t' = height t + 1 \<and> (t = Leaf \<or> leaning k x t')))"
proof (induction k x t arbitrary: t' rule: ins.induct)
  case (2 k x l a r)
  consider "k x < k a" | "k a < k x" using "2.prems"(1) by (auto split: if_splits)
  then show ?case
  proof cases
    case 1
    then obtain l' where l': "ins k x l = Some l'" "t' = repair k x (Node l' a r)" using "2.prems"(1) by auto
    have IH: "avl l'" "height l' = height l \<or> (height l' = height l + 1 \<and> (l = Leaf \<or> leaning k x l'))"
      using "2.IH"(1) [OF 1 l'(1)] "2.prems"(2) by auto
    have "leaning k x l'" if "height l' = height r + 2"
    proof -
      have "height l' = height l + 1" using that IH(2) "2.prems"(2) by auto
      then show ?thesis using that IH(2) by auto
    qed
    then have A: "avl t' \<and> (if height l' = height r + 2 then height t' = height l' else t' = Node l' a r)"
      using repair_left [of l' r k x a] IH "2.prems"(2) 1 l'(2) by auto
    have b: "height l \<le> height r + 1" "height r \<le> height l + 1" using "2.prems"(2) by simp_all
    show ?thesis
    proof (cases "height l' = height r + 2")
      case True
      then have "height l = height r + 1" using IH(2) b by auto
      then show ?thesis using True A by simp
    next
      case False
      then have t': "t' = Node l' a r" using A by simp
      show ?thesis
      proof (cases "height l' = height l \<or> height l < height r")
        case True
        have "height l' = height l \<or> height l' = height l + 1" using IH(2) by blast
        then have "height t' = height (Node l a r)"
          unfolding t' using True b by (auto simp: max_def simp del: eq_height_0)
        then show ?thesis using A by simp
      next
        case lt: False
        then have "height l' = height l + 1" "height l' = height r + 1" using IH(2) b False by auto
        then show ?thesis using A t' 1 by (simp add: leaning_def max_def)
      qed
    qed
  next
    case 2
    then have nl: "\<not> k x < k a" by simp
    obtain r' where r': "ins k x r = Some r'" "t' = repair k x (Node l a r')" using 2 "2.prems"(1) by auto
    have IH: "avl r'" "height r' = height r \<or> (height r' = height r + 1 \<and> (r = Leaf \<or> leaning k x r'))"
      using "2.IH"(2) [OF nl 2 r'(1)] "2.prems"(2) by auto
    have "leaning k x r'" if "height r' = height l + 2"
    proof -
      have "height r' = height r + 1" using that IH(2) "2.prems"(2) by auto
      then show ?thesis using that IH(2) by auto
    qed
    then have A: "avl t' \<and> (if height r' = height l + 2 then height t' = height r' else t' = Node l a r')"
      using repair_right [of l r' k a x] IH "2.prems"(2) 2 r'(2) by auto
    have b: "height l \<le> height r + 1" "height r \<le> height l + 1" using "2.prems"(2) by simp_all
    show ?thesis
    proof (cases "height r' = height l + 2")
      case True
      then have "height r = height l + 1" using IH(2) b by auto
      then show ?thesis using True A by simp
    next
      case False
      then have t': "t' = Node l a r'" using A by simp
      show ?thesis
      proof (cases "height r' = height r \<or> height r < height l")
        case True
        have "height r' = height r \<or> height r' = height r + 1" using IH(2) by blast
        then have "height t' = height (Node l a r)"
          unfolding t' using True b by (auto simp: max_def simp del: eq_height_0)
        then show ?thesis using A by simp
      next
        case lt: False
        then have "height r' = height r + 1" "height r' = height l + 1" using IH(2) b False by auto
        then show ?thesis using A t' 2 by (simp add: leaning_def max_def)
      qed
    qed
  qed
qed (auto simp: leaning_def)

lemma ins_inorder:
  "ins k x t = Some t' \<Longrightarrow> ordered k t \<Longrightarrow>
   \<exists>as bs. inorder t = as @ bs \<and> inorder t' = as @ x # bs \<and> (\<forall>a \<in> set as. k a < k x) \<and> (\<forall>b \<in> set bs. k x < k b)"
proof (induction k x t arbitrary: t' rule: ins.induct)
  case (1 k x)
  then show ?case by auto
next
  case (2 k x l a r)
  consider "k x < k a" | "k a < k x" using "2.prems"(1) by (auto split: if_splits)
  then show ?case
  proof cases
    case 1
    then obtain l' where l': "ins k x l = Some l'" "t' = repair k x (Node l' a r)" using "2.prems"(1) by auto
    obtain as bs where "inorder l = as @ bs" "inorder l' = as @ x # bs" "\<forall>a \<in> set as. k a < k x"
      "\<forall>b \<in> set bs. k x < k b"
      using "2.IH"(1) [OF 1 l'(1)] "2.prems"(2) by auto
    moreover have "\<forall>b \<in> set_tree r. k x < k b" using "2.prems"(2) 1 by (auto intro: less_trans)
    ultimately show ?thesis
      using 1 l'(2) by (intro exI [of _ as] exI [of _ "bs @ a # inorder r"]) auto
  next
    case 2
    then have nl: "\<not> k x < k a" by simp
    obtain r' where r': "ins k x r = Some r'" "t' = repair k x (Node l a r')" using 2 "2.prems"(1) by auto
    obtain as bs where "inorder r = as @ bs" "inorder r' = as @ x # bs" "\<forall>a \<in> set as. k a < k x"
      "\<forall>b \<in> set bs. k x < k b"
      using "2.IH"(2) [OF nl 2 r'(1)] "2.prems"(2) by auto
    moreover have "\<forall>b \<in> set_tree l. k b < k x" using "2.prems"(2) 2 by (auto intro: less_trans)
    ultimately show ?thesis
      using 2 r'(2) by (intro exI [of _ "inorder l @ a # as"] exI [of _ bs]) auto
  qed
qed

lemma ins_None: "ordered k t \<Longrightarrow> ins k x t = None \<longleftrightarrow> k x \<in> k ` set_tree t"
  by (induction k x t rule: ins.induct) (auto simp: image_iff)

text \<open>An AVL tree of height \<open>n\<close> has at least \<open>2 ^ (n div 2)\<close> leaves.\<close>

lemma avl_size: "avl t \<Longrightarrow> 2 ^ (height t div 2) \<le> size1 t"
proof (induction t rule: measure_induct_rule [of size])
  case (less t)
  show ?case
  proof (cases t)
    case (Node l a r)
    show ?thesis
    proof (cases "height t \<le> 1")
      case True
      then show ?thesis by (simp add: size1_size)
    next
      case False
      have l: "2 ^ (height l div 2) \<le> size1 l" and r: "2 ^ (height r div 2) \<le> size1 r"
        using less Node by auto
      have ht: "height t \<le> height l + 2" "height t \<le> height r + 2" using less.prems Node by auto
      have "height t div 2 - 1 \<le> height l div 2" "height t div 2 - 1 \<le> height r div 2" using ht by linarith+
      then have "2 ^ (height t div 2 - 1) \<le> (2::nat) ^ (height l div 2)"
        "2 ^ (height t div 2 - 1) \<le> (2::nat) ^ (height r div 2)" by (simp_all add: power_increasing)
      moreover have "(2::nat) ^ (height t div 2) = 2 * 2 ^ (height t div 2 - 1)"
        using False by (cases "height t div 2") auto
      ultimately have "2 ^ (height t div 2) \<le> size1 l + size1 r" using l r by linarith
      then show ?thesis using Node by simp
    qed
  qed simp
qed

lemma avl_height_bound: "avl t \<Longrightarrow> size t < 2 ^ 64 \<Longrightarrow> height t < 130"
proof (rule ccontr)
  assume t: "avl t" "size t < 2 ^ 64" "\<not> height t < 130"
  then have "(2::nat) ^ 65 \<le> 2 ^ (height t div 2)" by (intro power_increasing) auto
  also have "\<dots> \<le> size1 t" using t(1) by (rule avl_size)
  finally show False using t(2) by (simp add: size1_size)
qed

end
