(* ===== verification/Dl_Bstree_Refine.thy ===== *)
theory Dl_Bstree_Refine
  imports Dl_Bstree Dl_Avl "HOL-Library.Multiset"
begin

text \<open>
  What \<^verbatim>\<open>dl_bstree\<close> does to its heap, against the trees of \<open>Dl_Avl\<close>: a heap holds a tree of addresses
  (child and parent pointers, stored heights), insertion refines \<open>ins\<close>, search and iteration follow
  the inorder sequence. Deletion rebalances with unsigned balances; its failures are at the end.
\<close>

section \<open>Trees on the heap\<close>

fun rt :: "addr tree \<Rightarrow> ptr" where
  "rt Leaf = None"
| "rt (Node l a r) = Some a"

definition hangs :: "bst \<Rightarrow> addr \<Rightarrow> addr tree \<Rightarrow> bool" where
  "hangs h a t \<longleftrightarrow> (case t of Leaf \<Rightarrow> True | Node l b r \<Rightarrow> t_parent h b = Some a)"

lemma hangs_simps [simp]:
  "hangs h a Leaf" "hangs h a (Node l b r) \<longleftrightarrow> t_parent h b = Some a"
  by (simp_all add: hangs_def)

fun tree_ok :: "bst \<Rightarrow> addr tree \<Rightarrow> bool" where
  "tree_ok h Leaf \<longleftrightarrow> True"
| "tree_ok h (Node l a r) \<longleftrightarrow> t_left h a = rt l \<and> t_right h a = rt r \<and> hangs h a l \<and> hangs h a r
     \<and> tree_ok h l \<and> tree_ok h r \<and> t_height h a = of_nat (height (Node l a r))"

lemma tree_ok_Node:
  "tree_ok h (Node l a r) \<longleftrightarrow> t_left h a = rt l \<and> t_right h a = rt r \<and> hangs h a l \<and> hangs h a r
     \<and> tree_ok h l \<and> tree_ok h r \<and> t_height h a = of_nat (max (height l) (height r) + 1)"
  by simp

definition frame :: "bst \<Rightarrow> bst \<Rightarrow> addr set \<Rightarrow> bool" where
  "frame h h' S \<longleftrightarrow> t_key h' = t_key h \<and> (\<forall>a. a \<notin> S \<longrightarrow> t_left h' a = t_left h a \<and> t_right h' a = t_right h a
     \<and> t_height h' a = t_height h a \<and> t_parent h' a = t_parent h a)"

lemma upd_simps [simp]:
  "t_key (set_height a v h) = t_key h" "t_key (set_left a p h) = t_key h" "t_key (set_right a p h) = t_key h"
  "t_key (set_parent a p h) = t_key h" "t_key (set_parent_of q p h) = t_key h"
  "t_height (set_height a v h) = (t_height h)(a := v)" "t_height (set_left a p h) = t_height h"
  "t_height (set_right a p h) = t_height h" "t_height (set_parent a p h) = t_height h"
  "t_height (set_parent_of q p h) = t_height h"
  "t_left (set_height a v h) = t_left h" "t_left (set_left a p h) = (t_left h)(a := p)"
  "t_left (set_right a p h) = t_left h" "t_left (set_parent a p h) = t_left h"
  "t_left (set_parent_of q p h) = t_left h"
  "t_right (set_height a v h) = t_right h" "t_right (set_left a p h) = t_right h"
  "t_right (set_right a p h) = (t_right h)(a := p)" "t_right (set_parent a p h) = t_right h"
  "t_right (set_parent_of q p h) = t_right h"
  "t_parent (set_height a v h) = t_parent h" "t_parent (set_left a p h) = t_parent h"
  "t_parent (set_right a p h) = t_parent h" "t_parent (set_parent a p h) = (t_parent h)(a := p)"
  "t_parent (set_parent_of q p h) = (case q of None \<Rightarrow> t_parent h | Some b \<Rightarrow> (t_parent h)(b := p))"
  by (simp_all add: set_height_def set_left_def set_right_def set_parent_def set_parent_of_def split: option.splits)

lemma rt_in_set: "rt t = Some a \<Longrightarrow> a \<in> set_tree t"
  by (cases t) auto

lemma rt_None [simp]: "rt t = None \<longleftrightarrow> t = Leaf"
  by (cases t) auto

lemma tree_ok_frame:
  assumes "tree_ok h t" "distinct (inorder t)"
    and "\<And>a. a \<in> set_tree t \<Longrightarrow> t_left h' a = t_left h a \<and> t_right h' a = t_right h a \<and> t_height h' a = t_height h a"
    and "\<And>a. a \<in> set_tree t \<Longrightarrow> rt t \<noteq> Some a \<Longrightarrow> t_parent h' a = t_parent h a"
  shows "tree_ok h' t"
  using assms
proof (induction t)
  case (Node l a r)
  have l: "tree_ok h' l"
    using Node.prems by (intro Node.IH(1)) auto
  have r: "tree_ok h' r"
    using Node.prems by (intro Node.IH(2)) auto
  have "hangs h' a l"
    using Node.prems by (cases l) auto
  moreover have "hangs h' a r"
    using Node.prems by (cases r) auto
  ultimately show ?case using l r Node.prems(1,3) by simp
qed simp

lemma bst_height: "tree_ok h t \<Longrightarrow> dl_bst_height (rt t) h = of_nat (height t)"
  by (cases t) (simp_all add: dl_bst_height_def)

lemma bst_balance:
  "t_left h a = rt l \<Longrightarrow> t_right h a = rt r \<Longrightarrow> tree_ok h l \<Longrightarrow> tree_ok h r \<Longrightarrow>
   dl_bst_get_balance (Some a) h = of_nat (height l) - of_nat (height r)"
  by (simp add: dl_bst_get_balance_def bst_height)

abbreviation low :: "'a tree \<Rightarrow> bool" where "low t \<equiv> height t < 1000"

lemma unat_low: "n < 2000 \<Longrightarrow> unat (of_nat n :: u64) = n"
  by (rule unat_of_nat_len) (erule less_trans, simp)

lemma new_height_spec:
  assumes "t_left h a = rt l" "t_right h a = rt r" "tree_ok h l" "tree_ok h r" "low l" "low r"
  shows "new_height a h = of_nat (max (height l) (height r) + 1)"
  using assms by (simp add: new_height_def bst_height word_less_nat_alt unat_low max_def)

lemma ucast_of_int: "ucast (of_int k :: u64) = (of_int k :: u32)"
  by (rule bit_word_eqI) (simp add: bit_simps)

lemma sint_of_int_u32: "sint (of_int k :: u32) = signed_take_bit 31 k"
  by (simp add: signed_of_int)

lemma int_of_diff:
  assumes "m < 1000" "n < 1000" shows "int_of (of_nat m - of_nat n) = int m - int n"
proof -
  have "(of_nat m - of_nat n :: u64) = of_int (int m - int n)" by simp
  then have "int_of (of_nat m - of_nat n) = signed_take_bit 31 (int m - int n)"
    unfolding int_of_def by (simp only: ucast_of_int sint_of_int_u32)
  also have "\<dots> = int m - int n" using assms by (intro signed_take_bit_int_eq_self) simp_all
  finally show ?thesis .
qed

section \<open>Rotations\<close>

text \<open>A rotation writes the two rotated nodes and the parent field of the subtree that moves.\<close>

definition touched :: "bst \<Rightarrow> bst \<Rightarrow> addr \<Rightarrow> addr \<Rightarrow> ptr \<Rightarrow> bool" where
  "touched h h' y z p \<longleftrightarrow> t_key h' = t_key h \<and> (\<forall>a. a \<noteq> y \<longrightarrow> a \<noteq> z \<longrightarrow> t_left h' a = t_left h a
     \<and> t_right h' a = t_right h a \<and> t_height h' a = t_height h a \<and> (Some a \<noteq> p \<longrightarrow> t_parent h' a = t_parent h a))"

lemma touched_tree_ok:
  assumes "touched h h' y z p" "tree_ok h t" "distinct (inorder t)" "y \<notin> set_tree t" "z \<notin> set_tree t"
    and "p = rt t \<or> (\<forall>a. p = Some a \<longrightarrow> a \<notin> set_tree t)"
  shows "tree_ok h' t"
  using assms by (intro tree_ok_frame [OF assms(2,3)]) (auto simp: touched_def)

lemma touched_hangs:
  assumes "touched h h' y z p" "hangs h x t" "y \<notin> set_tree t" "z \<notin> set_tree t"
    and "\<forall>a. p = Some a \<longrightarrow> a \<notin> set_tree t"
  shows "hangs h' x t"
  using assms by (cases t) (auto simp: touched_def)

lemma touched_frame:
  assumes "touched h h' y z p" "y \<in> S" "z \<in> S" "\<And>a. p = Some a \<Longrightarrow> a \<in> S" shows "frame h h' S"
  unfolding frame_def
proof (intro conjI allI impI)
  show "t_key h' = t_key h" using assms(1) by (simp add: touched_def)
  fix a assume "a \<notin> S"
  then have "a \<noteq> y" "a \<noteq> z" "Some a \<noteq> p" using assms(2-4) by auto
  then show "t_left h' a = t_left h a" "t_right h' a = t_right h a" "t_height h' a = t_height h a"
    "t_parent h' a = t_parent h a"
    using assms(1) by (simp_all add: touched_def)
qed

lemma right_rotate_spec:
  assumes "t_left h z = Some y" "t_right h z = rt t3" "hangs h z t3" "tree_ok h t3"
    and "t_left h y = rt t1" "t_right h y = rt t2" "hangs h y t1" "tree_ok h t1" "tree_ok h t2"
    and "distinct (inorder (Node (Node t1 y t2) z t3))" "height t1 < 990" "height t2 < 990" "height t3 < 990"
  shows "\<exists>h'. dl_bstree_right_rotate (Some z) h = Some (y, h') \<and> tree_ok h' (Node t1 y (Node t2 z t3))
    \<and> frame h h' (set_tree (Node (Node t1 y t2) z t3)) \<and> t_parent h' y = None"
proof -
  define h1 where "h1 = set_parent y None (set_parent z (Some y) (set_right y (Some z)
     (set_parent_of (rt t2) (Some z) (set_left z (rt t2) h))))"
  define h2 where "h2 = set_height z (new_height z h1) h1"
  define h3 where "h3 = set_height y (new_height y h2) h2"
  have d: "distinct (inorder t1)" "distinct (inorder t2)" "distinct (inorder t3)" "y \<noteq> z"
    "y \<notin> set_tree t1" "y \<notin> set_tree t2" "y \<notin> set_tree t3" "z \<notin> set_tree t1" "z \<notin> set_tree t2" "z \<notin> set_tree t3"
    "set_tree t1 \<inter> set_tree t2 = {}" "set_tree t2 \<inter> set_tree t3 = {}"
    using assms(10) by auto
  have rot: "dl_bstree_right_rotate (Some z) h = Some (y, h3)"
    using assms(1,6) d(4) by (simp add: dl_bstree_right_rotate_def Let_def h1_def h2_def h3_def)
  have touch: "touched h h1 y z (rt t2)" "touched h h2 y z (rt t2)" "touched h h3 y z (rt t2)"
    by (auto simp: touched_def h1_def h2_def h3_def split: option.splits)
  have p2: "rt t2 = rt t1 \<or> (\<forall>a. rt t2 = Some a \<longrightarrow> a \<notin> set_tree t1)" "\<forall>a. rt t2 = Some a \<longrightarrow> a \<notin> set_tree t1"
    "\<forall>a. rt t2 = Some a \<longrightarrow> a \<notin> set_tree t3"
    using d(11,12) rt_in_set [of t2] by auto
  note ok1 = touched_tree_ok [OF _ assms(8) d(1) d(5) d(8)] and ok2 = touched_tree_ok [OF _ assms(9) d(2) d(6) d(9)]
    and ok3 = touched_tree_ok [OF _ assms(4) d(3) d(7) d(10)]
  have t: "tree_ok h1 t2" "tree_ok h1 t3" "tree_ok h2 t1" "tree_ok h2 t2" "tree_ok h2 t3"
    "tree_ok h3 t1" "tree_ok h3 t2" "tree_ok h3 t3"
    using ok1 ok2 ok3 touch p2 by blast+
  have z1: "t_left h1 z = rt t2" "t_right h1 z = rt t3"
    using d(4) assms(2) by (simp_all add: h1_def)
  have hz: "new_height z h1 = of_nat (max (height t2) (height t3) + 1)"
    using assms(12,13) by (intro new_height_spec [OF z1 t(1,2)]) simp_all
  have hangs2: "hangs h2 z t2" "hangs h3 z t2"
    using d(6,9) by (cases t2; auto simp: h1_def h2_def h3_def)+
  have hangs3: "hangs h2 z t3" "hangs h3 z t3"
    using touched_hangs [OF touch(2) assms(3) d(7,10) p2(3)] touched_hangs [OF touch(3) assms(3) d(7,10) p2(3)] .
  have sub2: "tree_ok h2 (Node t2 z t3)"
    using t(4,5) z1 hangs2(1) hangs3(1) hz by (simp add: h2_def)
  have y2: "t_left h2 y = rt t1" "t_right h2 y = rt (Node t2 z t3)"
    using d(4) assms(5) by (simp_all add: h2_def h1_def)
  have hy: "new_height y h2 = of_nat (max (height t1) (height (Node t2 z t3)) + 1)"
    using assms(11-13) by (intro new_height_spec [OF y2 t(3) sub2]) simp_all
  have sub3: "tree_ok h3 (Node t2 z t3)"
    using t(7,8) z1 hangs2(2) hangs3(2) hz d(4) by (simp add: h3_def h2_def)
  have "hangs h3 y (Node t2 z t3)" using d(4) by (simp add: h3_def h2_def h1_def split: option.splits)
  moreover have "hangs h3 y t1" by (rule touched_hangs [OF touch(3) assms(7) d(5,8) p2(2)])
  ultimately have "tree_ok h3 (Node t1 y (Node t2 z t3))"
    using t(6) sub3 y2 hy by (simp add: h3_def)
  moreover have "frame h h3 (set_tree (Node (Node t1 y t2) z t3))"
    by (rule touched_frame [OF touch(3)]) (auto dest: rt_in_set)
  moreover have "t_parent h3 y = None" by (simp add: h1_def h2_def h3_def)
  ultimately show ?thesis using rot by blast
qed

lemma left_rotate_spec:
  assumes "t_right h z = Some y" "t_left h z = rt t1" "hangs h z t1" "tree_ok h t1"
    and "t_left h y = rt t2" "t_right h y = rt t3" "hangs h y t3" "tree_ok h t3" "tree_ok h t2"
    and "distinct (inorder (Node t1 z (Node t2 y t3)))" "height t1 < 990" "height t2 < 990" "height t3 < 990"
  shows "\<exists>h'. dl_bstree_left_rotate (Some z) h = Some (y, h') \<and> tree_ok h' (Node (Node t1 z t2) y t3)
    \<and> frame h h' (set_tree (Node t1 z (Node t2 y t3))) \<and> t_parent h' y = None"
proof -
  define h1 where "h1 = set_parent y None (set_parent z (Some y) (set_left y (Some z)
     (set_parent_of (rt t2) (Some z) (set_right z (rt t2) h))))"
  define h2 where "h2 = set_height z (new_height z h1) h1"
  define h3 where "h3 = set_height y (new_height y h2) h2"
  have d: "distinct (inorder t1)" "distinct (inorder t2)" "distinct (inorder t3)" "y \<noteq> z"
    "y \<notin> set_tree t1" "y \<notin> set_tree t2" "y \<notin> set_tree t3" "z \<notin> set_tree t1" "z \<notin> set_tree t2" "z \<notin> set_tree t3"
    "set_tree t1 \<inter> set_tree t2 = {}" "set_tree t2 \<inter> set_tree t3 = {}"
    using assms(10) by auto
  have rot: "dl_bstree_left_rotate (Some z) h = Some (y, h3)"
    using assms(1,5) d(4) by (simp add: dl_bstree_left_rotate_def Let_def h1_def h2_def h3_def)
  have touch: "touched h h1 y z (rt t2)" "touched h h2 y z (rt t2)" "touched h h3 y z (rt t2)"
    by (auto simp: touched_def h1_def h2_def h3_def split: option.splits)
  have p2: "rt t2 = rt t3 \<or> (\<forall>a. rt t2 = Some a \<longrightarrow> a \<notin> set_tree t3)" "\<forall>a. rt t2 = Some a \<longrightarrow> a \<notin> set_tree t3"
    "\<forall>a. rt t2 = Some a \<longrightarrow> a \<notin> set_tree t1"
    using d(11,12) rt_in_set [of t2] by auto
  note ok1 = touched_tree_ok [OF _ assms(4) d(1) d(5) d(8)] and ok2 = touched_tree_ok [OF _ assms(9) d(2) d(6) d(9)]
    and ok3 = touched_tree_ok [OF _ assms(8) d(3) d(7) d(10)]
  have t: "tree_ok h1 t1" "tree_ok h1 t2" "tree_ok h2 t1" "tree_ok h2 t2" "tree_ok h2 t3"
    "tree_ok h3 t1" "tree_ok h3 t2" "tree_ok h3 t3"
    using ok1 ok2 ok3 touch p2 by blast+
  have z1: "t_left h1 z = rt t1" "t_right h1 z = rt t2"
    using d(4) assms(2) by (simp_all add: h1_def)
  have hz: "new_height z h1 = of_nat (max (height t1) (height t2) + 1)"
    using assms(11,12) by (intro new_height_spec [OF z1 t(1,2)]) simp_all
  have hangs2: "hangs h2 z t2" "hangs h3 z t2"
    using d(6,9) by (cases t2; auto simp: h1_def h2_def h3_def)+
  have hangs1: "hangs h2 z t1" "hangs h3 z t1"
    using touched_hangs [OF touch(2) assms(3) d(5,8) p2(3)] touched_hangs [OF touch(3) assms(3) d(5,8) p2(3)] .
  have sub2: "tree_ok h2 (Node t1 z t2)"
    using t(3,4) z1 hangs2(1) hangs1(1) hz by (simp add: h2_def)
  have y2: "t_left h2 y = rt (Node t1 z t2)" "t_right h2 y = rt t3"
    using d(4) assms(6) by (simp_all add: h2_def h1_def)
  have hy: "new_height y h2 = of_nat (max (height (Node t1 z t2)) (height t3) + 1)"
    using assms(11-13) by (intro new_height_spec [OF y2 sub2 t(5)]) simp_all
  have sub3: "tree_ok h3 (Node t1 z t2)"
    using t(6,7) z1 hangs2(2) hangs1(2) hz d(4) by (simp add: h3_def h2_def)
  have "hangs h3 y (Node t1 z t2)" using d(4) by (simp add: h3_def h2_def h1_def split: option.splits)
  moreover have "hangs h3 y t3" by (rule touched_hangs [OF touch(3) assms(7) d(7,10) p2(2)])
  ultimately have "tree_ok h3 (Node (Node t1 z t2) y t3)"
    using t(8) sub3 y2 hy by (simp add: h3_def)
  moreover have "frame h h3 (set_tree (Node t1 z (Node t2 y t3)))"
    by (rule touched_frame [OF touch(3)]) (auto dest: rt_in_set)
  moreover have "t_parent h3 y = None" by (simp add: h1_def h2_def h3_def)
  ultimately show ?thesis using rot by blast
qed

lemma frame_refl: "frame h h S"
  by (simp add: frame_def)

lemma frame_trans: "frame h h' S \<Longrightarrow> frame h' h'' T \<Longrightarrow> S \<union> T \<subseteq> U \<Longrightarrow> frame h h'' U"
  unfolding frame_def
proof (elim conjE, intro conjI allI impI)
  fix a assume a: "\<forall>a. a \<notin> S \<longrightarrow> t_left h' a = t_left h a \<and> t_right h' a = t_right h a
      \<and> t_height h' a = t_height h a \<and> t_parent h' a = t_parent h a"
    "\<forall>a. a \<notin> T \<longrightarrow> t_left h'' a = t_left h' a \<and> t_right h'' a = t_right h' a
      \<and> t_height h'' a = t_height h' a \<and> t_parent h'' a = t_parent h' a" "S \<union> T \<subseteq> U" "a \<notin> U"
  then have "a \<notin> S" "a \<notin> T" by auto
  then show "t_left h'' a = t_left h a" "t_right h'' a = t_right h a" "t_height h'' a = t_height h a"
    "t_parent h'' a = t_parent h a"
    using a(1,2) by simp_all
qed simp

lemma frame_tree_ok:
  assumes "frame h h' S" "tree_ok h t" "distinct (inorder t)" "S \<inter> set_tree t = {}"
  shows "tree_ok h' t"
  using assms by (intro tree_ok_frame [OF assms(2,3)]) (auto simp: frame_def)

lemma frame_hangs: "frame h h' S \<Longrightarrow> hangs h a t \<Longrightarrow> S \<inter> set_tree t = {} \<Longrightarrow> hangs h' a t"
  by (cases t) (auto simp: frame_def)

lemma frame_sets:
  "a \<in> S \<Longrightarrow> frame h (set_left a p h) S" "a \<in> S \<Longrightarrow> frame h (set_right a p h) S"
  "a \<in> S \<Longrightarrow> frame h (set_height a v h) S" "a \<in> S \<Longrightarrow> frame h (set_parent a p h) S"
  by (auto simp: frame_def)

section \<open>Insertion refines \<open>ins\<close>\<close>

lemma insert_repair_spec:
  assumes "t_left h a = rt l" "t_right h a = rt r" "hangs h a l" "hangs h a r" "tree_ok h l" "tree_ok h r"
    and "distinct (inorder (Node l a r))" "height l < 900" "height r < 900"
    and "height r + 1 < height l \<Longrightarrow> leaning (t_key h) x l" "height l + 1 < height r \<Longrightarrow> leaning (t_key h) x r"
  shows "\<exists>b h'. dl_bstree_insert_repair a x h = Some (b, h')
    \<and> rt (repair (t_key h) x (Node l a r)) = Some b \<and> tree_ok h' (repair (t_key h) x (Node l a r))
    \<and> frame h h' (set_tree (Node l a r)) \<and> (t_parent h a = None \<longrightarrow> t_parent h' b = None)"
proof -
  define h0 where "h0 = set_height a (new_height a h) h"
  let ?S = "set_tree (Node l a r)"
  have d: "distinct (inorder l)" "distinct (inorder r)" "a \<notin> set_tree l" "a \<notin> set_tree r"
    "set_tree l \<inter> set_tree r = {}"
    using assms(7) by auto
  have fa: "frame h h0 {a}" unfolding h0_def by (rule frame_sets) simp
  have f0: "frame h h0 ?S" unfolding h0_def by (rule frame_sets) simp
  have ok0: "tree_ok h0 l" "tree_ok h0 r" "hangs h0 a l" "hangs h0 a r"
    using frame_tree_ok [OF fa assms(5) d(1)] frame_tree_ok [OF fa assms(6) d(2)]
      frame_hangs [OF fa assms(3)] frame_hangs [OF fa assms(4)] d by auto
  have lr0: "t_left h0 a = rt l" "t_right h0 a = rt r" "t_key h0 = t_key h"
    using assms(1,2) by (simp_all add: h0_def)
  have hgt: "t_height h0 a = of_nat (max (height l) (height r) + 1)"
    using new_height_spec [OF assms(1,2,5,6)] assms(8,9) by (simp add: h0_def)
  have bal: "int_of (dl_bst_get_balance (Some a) h0) = int (height l) - int (height r)"
    using bst_balance [OF lr0(1,2) ok0(1,2)] int_of_diff assms(8,9) by simp
  note rep = dl_bstree_insert_repair_def [of a x h, folded h0_def, unfolded Let_def bal]
  consider (left) "height r + 1 < height l" | (right) "height l + 1 < height r"
    | (none) "\<not> height r + 1 < height l" "\<not> height l + 1 < height r" by linarith
  then show ?thesis
  proof cases
    case left
    then obtain t1 y t2 where l: "l = Node t1 y t2" by (cases l) auto
    have "leaning (t_key h) x l" using assms(10) left .
    then consider "t_key h x < t_key h y" | "t_key h y < t_key h x" "t2 \<noteq> Leaf"
      by (cases t2; auto simp: leaning_def l)
    then show ?thesis
    proof cases
      case 1
      have "\<exists>h'. dl_bstree_right_rotate (Some a) h0 = Some (y, h') \<and> tree_ok h' (Node t1 y (Node t2 a r))
        \<and> frame h0 h' (set_tree (Node (Node t1 y t2) a r)) \<and> t_parent h' y = None"
        using ok0 lr0 assms(7-9) unfolding l by (intro right_rotate_spec) (auto simp: max_def split: if_splits)
      then obtain h' where h': "dl_bstree_right_rotate (Some a) h0 = Some (y, h')"
        "tree_ok h' (Node t1 y (Node t2 a r))" "frame h0 h' ?S" "t_parent h' y = None" unfolding l by blast
      then have "dl_bstree_insert_repair a x h = Some (y, h')"
        unfolding rep using left 1 lr0 l by simp
      moreover have "frame h h' ?S" by (rule frame_trans [OF f0 h'(3)]) simp
      ultimately show ?thesis using 1 left h'(2,4) by (simp add: l)
    next
      case 2
      then obtain t3 w t4 where t2: "t2 = Node t3 w t4" by (cases t2) auto
      have "\<exists>h'. dl_bstree_left_rotate (Some y) h0 = Some (w, h') \<and> tree_ok h' (Node (Node t1 y t3) w t4)
        \<and> frame h0 h' (set_tree (Node t1 y (Node t3 w t4))) \<and> t_parent h' w = None"
        using ok0 d assms(8) unfolding l t2 by (intro left_rotate_spec) (auto simp: max_def split: if_splits)
      then obtain h1 where h1: "dl_bstree_left_rotate (Some y) h0 = Some (w, h1)"
        "tree_ok h1 (Node (Node t1 y t3) w t4)" "frame h0 h1 (set_tree l)" unfolding l t2 by blast
      define h2 where "h2 = set_left a (Some w) h1"
      have f2: "frame h1 h2 {a}" unfolding h2_def by (rule frame_sets) simp
      have f02: "frame h0 h2 (insert a (set_tree l))" by (rule frame_trans [OF h1(3) f2]) auto
      have ok2: "tree_ok h2 (Node (Node t1 y t3) w t4)"
        by (rule frame_tree_ok [OF f2 h1(2)]) (use d in \<open>auto simp: l t2\<close>)
      have okr: "tree_ok h2 r" "hangs h2 a r"
        using frame_tree_ok [OF f02 ok0(2) d(2)] frame_hangs [OF f02 ok0(4)] d by auto
      have a2: "t_left h2 a = Some w" "t_right h2 a = rt r"
        using lr0 h1(3) d(3) by (auto simp: h2_def frame_def)
      have "\<exists>h'. dl_bstree_right_rotate (Some a) h2 = Some (w, h') \<and> tree_ok h' (Node (Node t1 y t3) w (Node t4 a r))
        \<and> frame h2 h' (set_tree (Node (Node (Node t1 y t3) w t4) a r)) \<and> t_parent h' w = None"
        using ok2 okr a2 assms(7-9) unfolding l t2 by (intro right_rotate_spec) (auto simp: max_def split: if_splits)
      then obtain h' where h': "dl_bstree_right_rotate (Some a) h2 = Some (w, h')"
        "tree_ok h' (Node (Node t1 y t3) w (Node t4 a r))" "frame h2 h' (set_tree (Node (Node (Node t1 y t3) w t4) a r))" "t_parent h' w = None"
        by blast
      have "dl_bstree_insert_repair a x h = Some (w, h')"
        unfolding rep using left 2 lr0 l h1(1) h'(1) by (simp add: h2_def [symmetric])
      moreover have "frame h h' ?S"
        by (rule frame_trans [OF frame_trans [OF f0 f02 order_refl] h'(3)]) (auto simp: l t2)
      ultimately show ?thesis using 2 left h'(2,4) by (simp add: l t2)
    qed
  next
    case right
    then have nl: "\<not> height r + 1 < height l" by simp
    obtain t1 y t2 where r: "r = Node t1 y t2" using right by (cases r) auto
    have "leaning (t_key h) x r" using assms(11) right .
    then consider "t_key h y < t_key h x" | "t_key h x < t_key h y" "t1 \<noteq> Leaf"
      by (cases t1; auto simp: leaning_def r)
    then show ?thesis
    proof cases
      case 1
      have "\<exists>h'. dl_bstree_left_rotate (Some a) h0 = Some (y, h') \<and> tree_ok h' (Node (Node l a t1) y t2)
        \<and> frame h0 h' (set_tree (Node l a (Node t1 y t2))) \<and> t_parent h' y = None"
        using ok0 lr0 assms(7-9) unfolding r by (intro left_rotate_spec) (auto simp: max_def split: if_splits)
      then obtain h' where h': "dl_bstree_left_rotate (Some a) h0 = Some (y, h')"
        "tree_ok h' (Node (Node l a t1) y t2)" "frame h0 h' ?S" "t_parent h' y = None" unfolding r by blast
      then have "dl_bstree_insert_repair a x h = Some (y, h')"
        unfolding rep using right 1 lr0 r by simp
      moreover have "frame h h' ?S" by (rule frame_trans [OF f0 h'(3)]) simp
      ultimately show ?thesis using 1 right nl h'(2,4) by (simp add: r)
    next
      case 2
      then obtain t3 w t4 where t1: "t1 = Node t3 w t4" by (cases t1) auto
      have "\<exists>h'. dl_bstree_right_rotate (Some y) h0 = Some (w, h') \<and> tree_ok h' (Node t3 w (Node t4 y t2))
        \<and> frame h0 h' (set_tree (Node (Node t3 w t4) y t2)) \<and> t_parent h' w = None"
        using ok0 d assms(9) unfolding r t1 by (intro right_rotate_spec) (auto simp: max_def split: if_splits)
      then obtain h1 where h1: "dl_bstree_right_rotate (Some y) h0 = Some (w, h1)"
        "tree_ok h1 (Node t3 w (Node t4 y t2))" "frame h0 h1 (set_tree r)" unfolding r t1 by blast
      define h2 where "h2 = set_right a (Some w) h1"
      have f2: "frame h1 h2 {a}" unfolding h2_def by (rule frame_sets) simp
      have f02: "frame h0 h2 (insert a (set_tree r))" by (rule frame_trans [OF h1(3) f2]) auto
      have ok2: "tree_ok h2 (Node t3 w (Node t4 y t2))"
        by (rule frame_tree_ok [OF f2 h1(2)]) (use d in \<open>auto simp: r t1\<close>)
      have okl: "tree_ok h2 l" "hangs h2 a l"
        using frame_tree_ok [OF f02 ok0(1) d(1)] frame_hangs [OF f02 ok0(3)] d by auto
      have a2: "t_right h2 a = Some w" "t_left h2 a = rt l"
        using lr0 h1(3) d(4) by (auto simp: h2_def frame_def)
      have "\<exists>h'. dl_bstree_left_rotate (Some a) h2 = Some (w, h') \<and> tree_ok h' (Node (Node l a t3) w (Node t4 y t2))
        \<and> frame h2 h' (set_tree (Node l a (Node t3 w (Node t4 y t2)))) \<and> t_parent h' w = None"
        using ok2 okl a2 assms(7-9) unfolding r t1 by (intro left_rotate_spec) (auto simp: max_def split: if_splits)
      then obtain h' where h': "dl_bstree_left_rotate (Some a) h2 = Some (w, h')"
        "tree_ok h' (Node (Node l a t3) w (Node t4 y t2))" "frame h2 h' (set_tree (Node l a (Node t3 w (Node t4 y t2))))" "t_parent h' w = None"
        by blast
      have "dl_bstree_insert_repair a x h = Some (w, h')"
        unfolding rep using right 2 lr0 r h1(1) h'(1) by (simp add: h2_def [symmetric])
      moreover have "frame h h' ?S"
        by (rule frame_trans [OF frame_trans [OF f0 f02 order_refl] h'(3)]) (auto simp: r t1)
      ultimately show ?thesis using 2 right nl h'(2,4) by (simp add: r t1)
    qed
  next
    case none
    then have "dl_bstree_insert_repair a x h = Some (a, h0)" unfolding rep by simp
    moreover have "tree_ok h0 (Node l a r)" using ok0 lr0 hgt by simp
    moreover have "t_parent h0 a = t_parent h a" by (simp add: h0_def)
    ultimately show ?thesis using none f0 by simp
  qed
qed

lemma mset_ins: "ins k x t = Some t' \<Longrightarrow> mset (inorder t') = add_mset x (mset (inorder t))"
  by (induction k x t arbitrary: t' rule: ins.induct) (auto split: if_splits)

lemma set_ins: "ins k x t = Some t' \<Longrightarrow> set_tree t' = insert x (set_tree t)"
  using mset_ins [of k x t t'] by (metis set_inorder set_mset_add_mset_insert set_mset_mset)

lemma distinct_ins:
  assumes "ins k x t = Some t'" "distinct (inorder t)" "x \<notin> set_tree t" shows "distinct (inorder t')"
proof -
  have "mset (inorder t') = mset (x # inorder t)" using mset_ins [OF assms(1)] by simp
  then show ?thesis using assms(2,3) by (metis distinct.simps(2) mset_eq_imp_distinct_iff set_inorder)
qed

lemma ins_not_Leaf: "ins k x t = Some t' \<Longrightarrow> \<exists>b. rt t' = Some b"
  using set_ins [of k x t t'] by (cases t') auto

text \<open>The parent pointer of the root is \<^verbatim>\<open>NULL\<close>.\<close>

definition rooted :: "bst \<Rightarrow> ptr \<Rightarrow> bool" where
  "rooted h root \<longleftrightarrow> (\<forall>a. root = Some a \<longrightarrow> t_parent h a = None)"

lemma insert_value_spec:
  assumes "tree_ok h t" "distinct (inorder t)" "x \<notin> set_tree t" "avl t" "height t < 800"
    and "t_left h x = None" "t_right h x = None" "t_height h x = 1"
    and "rt t = Some a" "ins (t_key h) x t = Some t'"
  shows "\<exists>h'. dl_bstree_insert_value a x h = Some (rt t', h') \<and> tree_ok h' t'
    \<and> frame h h' (insert x (set_tree t)) \<and> (t_parent h a = None \<longrightarrow> rooted h' (rt t'))"
  using assms
proof (induction t arbitrary: a t')
  case (Node l b r)
  have a: "a = b" using Node.prems(9) by simp
  have d: "distinct (inorder l)" "distinct (inorder r)" "b \<notin> set_tree l" "b \<notin> set_tree r"
    "set_tree l \<inter> set_tree r = {}" "x \<noteq> b" "x \<notin> set_tree l" "x \<notin> set_tree r"
    using Node.prems(2,3) by auto
  have ok: "t_left h b = rt l" "t_right h b = rt r" "hangs h b l" "hangs h b r" "tree_ok h l" "tree_ok h r"
    using Node.prems(1) by simp_all
  have av: "avl l" "avl r" "height l \<le> height r + 1" "height r \<le> height l + 1" using Node.prems(4) by simp_all
  have ht: "height l < 800" "height r < 800" using Node.prems(5) by simp_all
  have leaf: "tree_ok h0 (Node Leaf x Leaf)" if "frame h h0 S" "x \<notin> S" for h0 S
    using that Node.prems(6-8) by (simp add: frame_def)
  consider "t_key h x < t_key h b" | "t_key h b < t_key h x" using Node.prems(10) by (auto split: if_splits)
  then show ?case
  proof cases
    case 1
    then obtain l' where l': "ins (t_key h) x l = Some l'" "t' = repair (t_key h) x (Node l' b r)"
      using Node.prems(10) by auto
    have grow: "avl l'" "height l' \<le> height l + 1"
      "height r + 1 < height l' \<Longrightarrow> leaning (t_key h) x l'" "\<not> height l' + 1 < height r"
      using ins_avl [OF l'(1) av(1)] av(3,4) by auto
    obtain c where c: "rt l' = Some c" using ins_not_Leaf [OF l'(1)] by blast
    have sl: "set_tree l' = insert x (set_tree l)" and dl: "distinct (inorder l')"
      using set_ins [OF l'(1)] distinct_ins [OF l'(1) d(1,7)] by auto
    have "\<exists>h1. tree_ok h1 l' \<and> frame h h1 (insert b (set_tree l')) \<and> t_left h1 b = rt l' \<and> t_right h1 b = rt r
        \<and> t_parent h1 c = Some b \<and> t_parent h1 b = t_parent h b
        \<and> dl_bstree_insert_value b x h = map_option (\<lambda>(a, h). (Some a, h)) (dl_bstree_insert_repair b x h1)"
    proof (cases "l = Leaf")
      case True
      define h1 where "h1 = set_parent x (Some b) (set_left b (Some x) h)"
      have l'x: "l' = Node Leaf x Leaf" using l'(1) True by simp
      have "tree_ok h1 l'" using Node.prems(6-8) d(6) by (simp add: l'x h1_def)
      moreover have "frame h h1 (insert b (set_tree l'))" by (auto simp: frame_def h1_def l'x)
      moreover have "dl_bstree_insert_value b x h = map_option (\<lambda>(a, h). (Some a, h)) (dl_bstree_insert_repair b x h1)"
        using 1 ok(1) True by (subst dl_bstree_insert_value.simps) (simp add: Let_def h1_def set_parent_of_def)
      ultimately show ?thesis using c d(6) ok(2) by (intro exI [of _ h1]) (simp add: h1_def l'x)
    next
      case False
      then obtain e where e: "rt l = Some e" by (cases l) auto
      obtain h2 where h2: "dl_bstree_insert_value e x h = Some (rt l', h2)" "tree_ok h2 l'"
        "frame h h2 (insert x (set_tree l))"
        using Node.IH(1) [OF ok(5) d(1) d(7) av(1) ht(1) Node.prems(6-8) e l'(1)] by blast
      define h1 where "h1 = set_parent c (Some b) (set_left b (rt l') h2)"
      have cl: "c \<in> set_tree l'" using rt_in_set [OF c] .
      have bl: "b \<notin> set_tree l'" using sl d(3,6) by simp
      have "t_parent h1 b = t_parent h b" using h2(3) d(3,6) cl bl by (auto simp: h1_def frame_def)
      moreover have "tree_ok h1 l'"
        by (rule tree_ok_frame [OF h2(2) dl]) (use bl c in \<open>auto simp: h1_def\<close>)
      moreover have "frame h2 h1 (insert b (set_tree l'))" using cl by (auto simp: frame_def h1_def)
      then have "frame h h1 (insert b (set_tree l'))" using frame_trans [OF h2(3)] sl by blast
      moreover have "t_right h1 b = rt r" using h2(3) d(3,6) ok(2) by (auto simp: h1_def frame_def)
      moreover have "dl_bstree_insert_value b x h = map_option (\<lambda>(a, h). (Some a, h)) (dl_bstree_insert_repair b x h1)"
        using 1 ok(1) e h2(1) c by (subst dl_bstree_insert_value.simps) (simp add: Let_def h1_def)
      ultimately show ?thesis by (intro exI [of _ h1]) (simp add: h1_def)
    qed
    then obtain h1 where h1: "tree_ok h1 l'" "frame h h1 (insert b (set_tree l'))" "t_left h1 b = rt l'"
      "t_right h1 b = rt r" "t_parent h1 c = Some b" "t_parent h1 b = t_parent h b"
      "dl_bstree_insert_value b x h = map_option (\<lambda>(a, h). (Some a, h)) (dl_bstree_insert_repair b x h1)" by blast
    have disj: "insert b (set_tree l') \<inter> set_tree r = {}" using sl d by auto
    have k: "t_key h1 = t_key h" using h1(2) by (simp add: frame_def)
    have "hangs h1 b l'" using h1(5) c by (cases l') auto
    moreover have "distinct (inorder (Node l' b r))" using dl d(2) disj d(3,6) sl d(4) by auto
    ultimately obtain g h' where h': "dl_bstree_insert_repair b x h1 = Some (g, h')" "rt t' = Some g" "tree_ok h' t'"
      "frame h1 h' (set_tree (Node l' b r))" "t_parent h1 b = None \<longrightarrow> t_parent h' g = None"
      using insert_repair_spec [OF h1(3,4) _ frame_hangs [OF h1(2) ok(4) disj] h1(1)
          frame_tree_ok [OF h1(2) ok(6) d(2) disj], of x] grow ht
      unfolding k l'(2) by auto
    have "frame h h' (insert x (set_tree (Node l b r)))"
      by (rule frame_trans [OF h1(2) h'(4)]) (auto simp: sl)
    then show ?thesis using h1(6,7) h' a by (auto simp: rooted_def)
  next
    case 2
    then have nl: "\<not> t_key h x < t_key h b" by simp
    obtain r' where r': "ins (t_key h) x r = Some r'" "t' = repair (t_key h) x (Node l b r')"
      using 2 Node.prems(10) by auto
    have grow: "avl r'" "height r' \<le> height r + 1"
      "height l + 1 < height r' \<Longrightarrow> leaning (t_key h) x r'" "\<not> height r' + 1 < height l"
      using ins_avl [OF r'(1) av(2)] av(3,4) by auto
    obtain c where c: "rt r' = Some c" using ins_not_Leaf [OF r'(1)] by blast
    have sr: "set_tree r' = insert x (set_tree r)" and dr: "distinct (inorder r')"
      using set_ins [OF r'(1)] distinct_ins [OF r'(1) d(2,8)] by auto
    have "\<exists>h1. tree_ok h1 r' \<and> frame h h1 (insert b (set_tree r')) \<and> t_right h1 b = rt r' \<and> t_left h1 b = rt l
        \<and> t_parent h1 c = Some b \<and> t_parent h1 b = t_parent h b
        \<and> dl_bstree_insert_value b x h = map_option (\<lambda>(a, h). (Some a, h)) (dl_bstree_insert_repair b x h1)"
    proof (cases "r = Leaf")
      case True
      define h1 where "h1 = set_parent x (Some b) (set_right b (Some x) h)"
      have r'x: "r' = Node Leaf x Leaf" using r'(1) True by simp
      have "tree_ok h1 r'" using Node.prems(6-8) d(6) by (simp add: r'x h1_def)
      moreover have "frame h h1 (insert b (set_tree r'))" by (auto simp: frame_def h1_def r'x)
      moreover have "dl_bstree_insert_value b x h = map_option (\<lambda>(a, h). (Some a, h)) (dl_bstree_insert_repair b x h1)"
        using 2 nl ok(2) True by (subst dl_bstree_insert_value.simps) (simp add: Let_def h1_def set_parent_of_def)
      ultimately show ?thesis using c d(6) ok(1) by (intro exI [of _ h1]) (simp add: h1_def r'x)
    next
      case False
      then obtain e where e: "rt r = Some e" by (cases r) auto
      obtain h2 where h2: "dl_bstree_insert_value e x h = Some (rt r', h2)" "tree_ok h2 r'"
        "frame h h2 (insert x (set_tree r))"
        using Node.IH(2) [OF ok(6) d(2) d(8) av(2) ht(2) Node.prems(6-8) e r'(1)] by blast
      define h1 where "h1 = set_parent c (Some b) (set_right b (rt r') h2)"
      have cr: "c \<in> set_tree r'" using rt_in_set [OF c] .
      have br: "b \<notin> set_tree r'" using sr d(4,6) by simp
      have "t_parent h1 b = t_parent h b" using h2(3) d(4,6) cr br by (auto simp: h1_def frame_def)
      moreover have "tree_ok h1 r'"
        by (rule tree_ok_frame [OF h2(2) dr]) (use br c in \<open>auto simp: h1_def\<close>)
      moreover have "frame h2 h1 (insert b (set_tree r'))" using cr by (auto simp: frame_def h1_def)
      then have "frame h h1 (insert b (set_tree r'))" using frame_trans [OF h2(3)] sr by blast
      moreover have "t_left h1 b = rt l" using h2(3) d(4,6) ok(1) by (auto simp: h1_def frame_def)
      moreover have "dl_bstree_insert_value b x h = map_option (\<lambda>(a, h). (Some a, h)) (dl_bstree_insert_repair b x h1)"
        using 2 nl ok(2) e h2(1) c by (subst dl_bstree_insert_value.simps) (simp add: Let_def h1_def)
      ultimately show ?thesis by (intro exI [of _ h1]) (simp add: h1_def)
    qed
    then obtain h1 where h1: "tree_ok h1 r'" "frame h h1 (insert b (set_tree r'))" "t_right h1 b = rt r'"
      "t_left h1 b = rt l" "t_parent h1 c = Some b" "t_parent h1 b = t_parent h b"
      "dl_bstree_insert_value b x h = map_option (\<lambda>(a, h). (Some a, h)) (dl_bstree_insert_repair b x h1)" by blast
    have disj: "insert b (set_tree r') \<inter> set_tree l = {}" using sr d by auto
    have k: "t_key h1 = t_key h" using h1(2) by (simp add: frame_def)
    have "hangs h1 b r'" using h1(5) c by (cases r') auto
    moreover have "distinct (inorder (Node l b r'))" using dr d(1) disj d(3,6) sr d(4) by auto
    ultimately obtain g h' where h': "dl_bstree_insert_repair b x h1 = Some (g, h')" "rt t' = Some g" "tree_ok h' t'"
      "frame h1 h' (set_tree (Node l b r'))" "t_parent h1 b = None \<longrightarrow> t_parent h' g = None"
      using insert_repair_spec [OF h1(4,3) frame_hangs [OF h1(2) ok(3) disj] _
          frame_tree_ok [OF h1(2) ok(5) d(1) disj] h1(1), of x] grow ht
      unfolding k r'(2) by auto
    have "frame h h' (insert x (set_tree (Node l b r)))"
      by (rule frame_trans [OF h1(2) h'(4)]) (auto simp: sr)
    then show ?thesis using h1(6,7) h' a by (auto simp: rooted_def)
  qed
qed simp

section \<open>The whole tree\<close>

definition bst_ok :: "bst \<Rightarrow> ptr \<Rightarrow> addr tree \<Rightarrow> bool" where
  "bst_ok h root t \<longleftrightarrow> rt t = root \<and> tree_ok h t \<and> distinct (inorder t) \<and> ordered (t_key h) t \<and> avl t"

lemma ordered_ins:
  assumes "ins k x t = Some t'" "ordered k t" shows "ordered k t'"
  using ins_inorder [OF assms] assms(2) by (auto simp: ordered_def sorted_wrt_append)

lemma insert_spec:
  assumes "bst_ok h root t" "size t < 2 ^ 64" "x \<notin> set_tree t" "t_key h x \<notin> t_key h ` set_tree t"
  shows "\<exists>t' h'. dl_bstree_insert root x h = Some (rt t', rt t', h') \<and> bst_ok h' (rt t') t'
    \<and> ins (t_key h) x t = Some t' \<and> frame h h' (insert x (set_tree t)) \<and> (rooted h root \<longrightarrow> rooted h' (rt t'))"
proof -
  define h0 where "h0 = set_parent x None (set_right x None (set_left x None (set_height x 1 h)))"
  have ok: "rt t = root" "tree_ok h t" "distinct (inorder t)" "ordered (t_key h) t" "avl t"
    using assms(1) by (simp_all add: bst_ok_def)
  have f0: "frame h h0 {x}" by (simp add: frame_def h0_def)
  have k0: "t_key h0 = t_key h" by (simp add: h0_def)
  have ok0: "tree_ok h0 t" using frame_tree_ok [OF f0 ok(2,3)] assms(3) by simp
  have x0: "t_left h0 x = None" "t_right h0 x = None" "t_height h0 x = 1" by (simp_all add: h0_def)
  obtain t' where t': "ins (t_key h) x t = Some t'" using ins_None [OF ok(4), of x] assms(4) by auto
  have good: "distinct (inorder t')" "ordered (t_key h) t'" "avl t'"
    using distinct_ins [OF t' ok(3) assms(3)] ordered_ins [OF t' ok(4)] ins_avl [OF t' ok(5)] by auto
  have "\<exists>h'. dl_bstree_insert root x h = Some (rt t', rt t', h') \<and> tree_ok h' t' \<and> frame h h' (insert x (set_tree t))
    \<and> (rooted h root \<longrightarrow> rooted h' (rt t'))"
  proof (cases root)
    case None
    then have "t = Leaf" using ok(1) by simp
    then have "t' = Node Leaf x Leaf" using t' by simp
    then show ?thesis
      using None x0 f0 \<open>t = Leaf\<close>
      by (simp add: dl_bstree_insert_def Let_def h0_def [symmetric] rooted_def) (simp add: h0_def)
  next
    case (Some r)
    have ht: "height t < 800" using avl_height_bound [OF ok(5) assms(2)] by simp
    obtain h' where h': "dl_bstree_insert_value r x h0 = Some (rt t', h')" "tree_ok h' t'"
      "frame h0 h' (insert x (set_tree t))" "t_parent h0 r = None \<longrightarrow> rooted h' (rt t')"
      using insert_value_spec [OF ok0 ok(3) assms(3) ok(5) ht x0, of r t'] ok(1) Some t' k0 by auto
    obtain b where b: "rt t' = Some b" using ins_not_Leaf [OF t'] by blast
    have "r \<noteq> x" using assms(3) ok(1) Some rt_in_set [of t r] by auto
    then have "rooted h root \<longrightarrow> t_parent h0 r = None" using Some by (simp add: rooted_def h0_def)
    moreover have "frame h h' (insert x (set_tree t))" by (rule frame_trans [OF f0 h'(3)]) simp
    ultimately show ?thesis
      using Some h' b by (simp add: dl_bstree_insert_def Let_def h0_def [symmetric])
  qed
  then obtain h' where h': "dl_bstree_insert root x h = Some (rt t', rt t', h')" "tree_ok h' t'"
    "frame h h' (insert x (set_tree t))" "rooted h root \<longrightarrow> rooted h' (rt t')" by blast
  moreover have "t_key h' = t_key h" using h'(3) by (simp add: frame_def)
  ultimately show ?thesis using good t' by (auto simp: bst_ok_def)
qed

section \<open>Search\<close>

lemma find_loop_spec:
  "tree_ok h t \<Longrightarrow> ordered (t_key h) t \<Longrightarrow>
   find_loop h k (rt t) = Some (find (\<lambda>a. t_key h a = k) (inorder t))"
proof (induction t)
  case Leaf
  then show ?case by (simp add: find_loop.simps)
next
  case (Node l a r)
  have "find (\<lambda>a. t_key h a = k) (inorder l) = None" if "t_key h a \<le> k"
    using Node.prems(2) that by (force simp: find_None_iff)
  moreover have "find (\<lambda>a. t_key h a = k) (inorder r) = None" if "k \<le> t_key h a"
    using Node.prems(2) that by (force simp: find_None_iff)
  moreover have "find P (xs @ ys) = (case find P xs of None \<Rightarrow> find P ys | Some x \<Rightarrow> Some x)"
    for P and xs ys :: "addr list" by (induction xs) auto
  ultimately show ?case
    using Node by (subst find_loop.simps) (auto split: option.splits)
qed

section \<open>Iteration\<close>

lemma min_loop_spec: "tree_ok h t \<Longrightarrow> rt t = Some a \<Longrightarrow> min_loop h a = Some (hd (inorder t))"
proof (induction t arbitrary: a)
  case (Node l b r)
  then show ?case
    by (cases l) (subst min_loop.simps, auto simp: hd_append)+
qed simp

lemma last_right: "tree_ok h t \<Longrightarrow> t \<noteq> Leaf \<Longrightarrow> t_right h (last (inorder t)) = None"
  by (induction t) auto

lemma next_loop_last:
  "tree_ok h t \<Longrightarrow> distinct (inorder t) \<Longrightarrow> rt t = Some c \<Longrightarrow> R \<notin> set_tree t \<or> R = c \<Longrightarrow>
   next_loop (Some R) h (last (inorder t)) = next_loop (Some R) h c"
proof (induction t arbitrary: c)
  case (Node l a r)
  show ?case
  proof (cases r)
    case (Node rl b rr)
    have "b \<noteq> R" "b \<notin> set_tree l" using Node.prems Node by auto
    then have "t_left h a \<noteq> Some b" using Node.prems(1) rt_in_set [of l] by auto
    then have "next_loop (Some R) h b = next_loop (Some R) h a"
      using Node.prems(1) \<open>b \<noteq> R\<close> Node by (subst next_loop.simps) simp
    then show ?thesis using Node.IH(2) [of b] Node.prems Node by auto
  qed (use Node.prems in simp)
qed simp

lemma next_inorder:
  "tree_ok h t \<Longrightarrow> distinct (inorder t) \<Longrightarrow> R \<notin> set_tree t \<or> rt t = Some R \<Longrightarrow>
   inorder t = xs @ x # y # ys \<Longrightarrow> dl_bstree_next (Some R) x h = Some (Some y)"
proof (induction t arbitrary: xs ys)
  case (Node l a r)
  have eq: "inorder l @ a # inorder r = xs @ x # y # ys" using Node.prems(4) by simp
  have d: "distinct (inorder l @ a # inorder r)" using Node.prems(2) by simp
  then have dx: "x \<notin> set xs" "x \<notin> set (y # ys)" unfolding eq by auto
  have "x \<in> set (inorder l @ a # inorder r)" unfolding eq by simp
  then consider "x \<in> set (inorder l)" | "x = a" | "x \<in> set (inorder r)" by auto
  then show ?case
  proof cases
    case 1
    then obtain us vs where l: "inorder l = us @ x # vs" "x \<notin> set us" by (meson split_list_first)
    have "us @ x # (vs @ a # inorder r) = xs @ x # y # ys" using eq l by simp
    moreover have "x \<notin> set (vs @ a # inorder r)" using d unfolding l(1) by auto
    ultimately have v: "vs @ a # inorder r = y # ys"
      using append_Cons_eq_iff [OF l(2), of "vs @ a # inorder r" xs "y # ys"] by simp
    have Rl: "R \<notin> set_tree l" using Node.prems(2,3) by auto
    show ?thesis
    proof (cases vs)
      case Nil
      then have x: "x = last (inorder l)" "y = a" using l v by simp_all
      obtain b where b: "rt l = Some b" using 1 by (cases l) auto
      then have "t_parent h b = Some a" "t_left h a = Some b" "b \<noteq> R"
        using Node.prems(1) Rl by (cases l; auto)+
      then have "next_loop (Some R) h b = Some (Some a)" by (subst next_loop.simps) simp
      moreover have "next_loop (Some R) h x = next_loop (Some R) h b"
        unfolding x using Node.prems Rl b by (intro next_loop_last) auto
      moreover have "t_right h x = None" unfolding x using Node.prems(1) b by (intro last_right) auto
      ultimately show ?thesis using x by (simp add: dl_bstree_next_def)
    next
      case (Cons w ws)
      then show ?thesis using Node.IH(1) [of us ws] Node.prems Rl l v by auto
    qed
  next
    case 2
    have "x \<notin> set (inorder l)" "x \<notin> set (inorder r)" using d 2 by auto
    then have "inorder r = y # ys"
      using eq 2 append_Cons_eq_iff [of x "inorder l" "inorder r" xs "y # ys"] by simp
    moreover obtain b where b: "rt r = Some b" using calculation by (cases r) auto
    ultimately show ?thesis
      using min_loop_spec [of h r b] Node.prems(1) 2 by (simp add: dl_bstree_next_def)
  next
    case 3
    then obtain us vs where r: "inorder r = us @ x # vs" "x \<notin> set us" by (meson split_list_first)
    have "x \<notin> set (inorder l @ a # us)" "x \<notin> set vs" using d unfolding r(1) by auto
    moreover have "(inorder l @ a # us) @ x # vs = xs @ x # y # ys" using eq r by simp
    ultimately have "vs = y # ys"
      using append_Cons_eq_iff [of x "inorder l @ a # us" vs xs "y # ys"] by simp
    moreover have "R \<notin> set_tree r" using Node.prems(2,3) by auto
    ultimately show ?thesis using Node.IH(2) [of us ys] Node.prems r by auto
  qed
qed simp

lemma next_last:
  assumes "tree_ok h t" "distinct (inorder t)" "rt t = Some R"
  shows "dl_bstree_next (Some R) (last (inorder t)) h = Some None"
proof -
  have "t \<noteq> Leaf" using assms(3) by auto
  then show ?thesis
    using next_loop_last [OF assms, of R] last_right [OF assms(1)]
    by (simp add: dl_bstree_next_def next_loop.simps [of "Some R" h R])
qed

section \<open>Duplicates and deletion\<close>

lemma insert_value_dup:
  "tree_ok h t \<Longrightarrow> ordered (t_key h) t \<Longrightarrow> t_key h x \<in> t_key h ` set_tree t \<Longrightarrow> rt t = Some a \<Longrightarrow>
   \<exists>h'. dl_bstree_insert_value a x h = Some (None, h')"
proof (induction t arbitrary: a)
  case (Node l b r)
  have a: "a = b" using Node.prems(4) by simp
  consider "t_key h x = t_key h b" | "t_key h x < t_key h b" "t_key h x \<in> t_key h ` set_tree l"
    | "t_key h b < t_key h x" "t_key h x \<in> t_key h ` set_tree r"
    using Node.prems(2,3) by force
  then show ?case
  proof cases
    case 1
    then show ?thesis using a by (subst dl_bstree_insert_value.simps) simp
  next
    case 2
    then obtain c where c: "rt l = Some c" by (cases l) auto
    then obtain h' where "dl_bstree_insert_value c x h = Some (None, h')"
      using Node.IH(1) [of c] Node.prems 2 by auto
    then show ?thesis
      using 2 a c Node.prems(1) by (subst dl_bstree_insert_value.simps) (simp add: Let_def)
  next
    case 3
    then obtain c where c: "rt r = Some c" by (cases r) auto
    then obtain h' where "dl_bstree_insert_value c x h = Some (None, h')"
      using Node.IH(2) [of c] Node.prems 3 by auto
    then show ?thesis
      using 3 a c Node.prems(1) by (subst dl_bstree_insert_value.simps) (simp add: Let_def)
  qed
qed simp

lemma delete_repair_id:
  assumes "tree_ok h (Node l a r)" "avl (Node l a r)" "height l < 900" "height r < 900"
  shows "delete_repair a h = Some (a, h)"
proof -
  have ok: "t_left h a = rt l" "t_right h a = rt r" "tree_ok h l" "tree_ok h r" using assms(1) by simp_all
  have "new_height a h = t_height h a" using new_height_spec [OF ok] assms by simp
  then have "set_height a (new_height a h) h = h" by (simp add: set_height_def)
  moreover have "int_of (dl_bst_get_balance (Some a) h) = int (height l) - int (height r)"
    using bst_balance [OF ok] int_of_diff assms(3,4) by simp
  ultimately show ?thesis using assms(2) by (simp add: delete_repair_def Let_def)
qed

lemma delete_absent:
  "tree_ok h t \<Longrightarrow> avl t \<Longrightarrow> height t < 900 \<Longrightarrow> k \<notin> t_key h ` set_tree t \<Longrightarrow>
   dl_bstree_delete (rt t) k h = Some (rt t, h)"
proof (induction t)
  case Leaf
  then show ?case by (simp add: dl_bstree_delete.simps)
next
  case (Node l a r)
  have id: "set_left a (rt l) h = h" "set_right a (rt r) h = h"
    using Node.prems(1) by (simp_all add: set_left_def set_right_def fun_upd_idem)
  have rep: "delete_repair a h = Some (a, h)" using Node.prems by (intro delete_repair_id) auto
  consider "k < t_key h a" | "t_key h a < k" using Node.prems(4) by fastforce
  then show ?case
  proof cases
    case 1
    moreover have "dl_bstree_delete (rt l) k h = Some (rt l, h)" using Node by (auto simp: image_Un)
    ultimately show ?thesis using id rep Node.prems(1) by (subst dl_bstree_delete.simps) simp
  next
    case 2
    moreover have "dl_bstree_delete (rt r) k h = Some (rt r, h)" using Node by (auto simp: image_Un)
    ultimately show ?thesis using id rep Node.prems(1) by (subst dl_bstree_delete.simps) simp
  qed
qed

section \<open>The contract of an ordered index\<close>

text \<open>
  A container of nodes ordered by an integer key: \<open>repr s xs\<close> says that \<open>s\<close> holds \<open>xs\<close>, in order. \<open>put\<close>
  adds one node, \<open>succ\<close> gives the next one.
\<close>

locale ordered_index =
  fixes repr :: "'s \<Rightarrow> addr list \<Rightarrow> bool" and keyof :: "'s \<Rightarrow> addr \<Rightarrow> int" and cap :: nat
    and put :: "addr \<Rightarrow> 's \<Rightarrow> 's option" and succ :: "'s \<Rightarrow> addr \<Rightarrow> ptr option"
  assumes repr_sorted: "repr s xs \<Longrightarrow> sorted_wrt (\<lambda>a b. keyof s a < keyof s b) xs"
    and put_law: "repr s xs \<Longrightarrow> length xs < cap \<Longrightarrow> x \<notin> set xs \<Longrightarrow> keyof s x \<notin> keyof s ` set xs \<Longrightarrow>
      \<exists>s' as bs. put x s = Some s' \<and> keyof s' = keyof s \<and> xs = as @ bs \<and> repr s' (as @ x # bs)"
    and succ_law: "repr s (xs @ x # y # ys) \<Longrightarrow> succ s x = Some (Some y)"
begin

lemma put_mset:
  assumes "repr s xs" "length xs < cap" "x \<notin> set xs" "keyof s x \<notin> keyof s ` set xs"
  shows "\<exists>s' zs. put x s = Some s' \<and> keyof s' = keyof s \<and> repr s' zs \<and> mset zs = add_mset x (mset xs)"
  using put_law [OF assms] by fastforce

lemma put_list:
  "repr s xs \<Longrightarrow> length xs + length ys \<le> cap \<Longrightarrow> distinct (xs @ ys) \<Longrightarrow> inj_on (keyof s) (set (xs @ ys)) \<Longrightarrow>
   \<exists>s' zs. fold (\<lambda>x r. Option.bind r (put x)) ys (Some s) = Some s' \<and> keyof s' = keyof s
     \<and> repr s' zs \<and> mset zs = mset (xs @ ys)"
proof (induction ys arbitrary: s xs)
  case (Cons y ys)
  have "keyof s y \<notin> keyof s ` set xs" using Cons.prems(3,4) by (auto simp: inj_on_def)
  then obtain s1 zs1 where s1: "put y s = Some s1" "keyof s1 = keyof s" "repr s1 zs1"
    "mset zs1 = add_mset y (mset xs)"
    using put_mset [OF Cons.prems(1), of y] Cons.prems(2,3) by auto
  have len: "length zs1 = Suc (length xs)" and set: "set zs1 = insert y (set xs)"
    using s1(4) by (metis size_mset size_add_mset) (metis s1(4) set_mset_add_mset_insert set_mset_mset)
  have "mset (zs1 @ ys) = mset (xs @ y # ys)" using s1(4) by simp
  then have d: "distinct (zs1 @ ys)" using Cons.prems(3) by (metis mset_eq_imp_distinct_iff)
  have inj: "inj_on (keyof s1) (set (zs1 @ ys))" using Cons.prems(4) set s1(2) by (simp add: insert_commute)
  obtain s' zs where "fold (\<lambda>x r. Option.bind r (put x)) ys (Some s1) = Some s'" "keyof s' = keyof s1"
    "repr s' zs" "mset zs = mset (zs1 @ ys)"
    using Cons.IH [OF s1(3) _ d inj] Cons.prems(2) len by auto
  then show ?case using s1 by auto
qed auto

text \<open>Putting nodes with distinct keys into an empty index sorts them.\<close>

lemma put_sorts:
  assumes "repr s []" "length ys \<le> cap" "distinct ys" "inj_on (keyof s) (set ys)"
  shows "\<exists>s'. fold (\<lambda>x r. Option.bind r (put x)) ys (Some s) = Some s' \<and> repr s' (sort_key (keyof s) ys)"
proof -
  obtain s' zs where z: "fold (\<lambda>x r. Option.bind r (put x)) ys (Some s) = Some s'" "keyof s' = keyof s"
    "repr s' zs" "mset zs = mset ys"
    using put_list [OF assms(1), of ys] assms(2-4) by auto
  have "sorted (map (keyof s) zs)"
    using repr_sorted [OF z(3)] unfolding z(2) sorted_map by (rule sorted_wrt_mono_rel [rotated]) simp
  then have "sort_key (keyof s) ys = zs" using z(4) assms(4) by (intro sort_key_inj_key_eq) simp_all
  then show ?thesis using z by auto
qed

end

definition bst_put :: "addr \<Rightarrow> ptr \<times> bst \<Rightarrow> (ptr \<times> bst) option" where
  "bst_put x s = map_option (\<lambda>(root, r, h). (root, h)) (dl_bstree_insert (fst s) x (snd s))"

definition bst_repr :: "ptr \<times> bst \<Rightarrow> addr list \<Rightarrow> bool" where
  "bst_repr s xs \<longleftrightarrow> (\<exists>t. bst_ok (snd s) (fst s) t \<and> inorder t = xs)"

interpretation bx: ordered_index bst_repr "\<lambda>s. t_key (snd s)" "2 ^ 64" bst_put
  "\<lambda>s x. dl_bstree_next (fst s) x (snd s)"
proof (unfold_locales, goal_cases)
  case (1 s xs)
  then show ?case by (auto simp: bst_repr_def bst_ok_def ordered_def)
next
  case (2 s xs x)
  then obtain t where t: "bst_ok (snd s) (fst s) t" "inorder t = xs" by (auto simp: bst_repr_def)
  then have "size t < 2 ^ 64" "x \<notin> set_tree t" "t_key (snd s) x \<notin> t_key (snd s) ` set_tree t"
    using 2 by (auto simp flip: set_inorder length_inorder)
  from insert_spec [OF t(1) this] obtain t' h' where
    t': "dl_bstree_insert (fst s) x (snd s) = Some (rt t', rt t', h')" "bst_ok h' (rt t') t'"
    "ins (t_key (snd s)) x t = Some t'" "frame (snd s) h' (insert x (set_tree t))" by blast
  have "ordered (t_key (snd s)) t" using t(1) by (simp add: bst_ok_def)
  from ins_inorder [OF t'(3) this] obtain as bs where "inorder t = as @ bs" "inorder t' = as @ x # bs" by blast
  moreover have "t_key h' = t_key (snd s)" using t'(4) by (simp add: frame_def)
  ultimately show ?case using t' t(2) by (auto simp: bst_put_def bst_repr_def)
next
  case (3 s xs x y ys)
  then obtain t where t: "bst_ok (snd s) (fst s) t" "inorder t = xs @ x # y # ys" by (auto simp: bst_repr_def)
  then obtain R where "rt t = Some R" by (cases t) auto
  then show ?case
    using next_inorder [of "snd s" t R xs x y ys] t by (auto simp: bst_ok_def)
qed

lemma next_nth:
  assumes "bst_ok h root t" "i < length (inorder t)"
  shows "dl_bstree_next root (inorder t ! i) h
      = Some (if i + 1 < length (inorder t) then Some (inorder t ! (i + 1)) else None)
    \<and> dl_bstree_min h root = Some (Some (inorder t ! 0))"
proof -
  have ok: "rt t = root" "tree_ok h t" "distinct (inorder t)" using assms(1) by (simp_all add: bst_ok_def)
  have ne: "t \<noteq> Leaf" "inorder t \<noteq> []" using assms(2) by auto
  then obtain R where R: "root = Some R" "rt t = Some R" using ok(1) by (cases t) auto
  have "dl_bstree_min h root = Some (Some (inorder t ! 0))"
    using min_loop_spec [OF ok(2) R(2)] ne R(1) by (simp add: dl_bstree_min_def hd_conv_nth)
  moreover have "dl_bstree_next root (inorder t ! i) h
      = Some (if i + 1 < length (inorder t) then Some (inorder t ! (i + 1)) else None)"
  proof (cases "i + 1 < length (inorder t)")
    case True
    then have "inorder t = take i (inorder t) @ inorder t ! i # inorder t ! (i + 1) # drop (i + 2) (inorder t)"
      using assms(2) by (simp add: Cons_nth_drop_Suc)
    from next_inorder [OF ok(2,3) _ this, of R] show ?thesis using R True by simp
  next
    case False
    then have "inorder t ! i = last (inorder t)"
      using assms(2) ne by (metis Suc_eq_plus1 Suc_lessI diff_Suc_1 last_conv_nth)
    then show ?thesis using next_last [OF ok(2,3) R(2)] R False by simp
  qed
  ultimately show ?thesis by simp
qed

interpretation bc: cursor bst_repr "\<lambda>s x. dl_bstree_next (fst s) x (snd s)"
  by unfold_locales (auto simp: bst_repr_def next_nth)

text \<open>A client that starts at the least node and follows \<^verbatim>\<open>dl_bstree_next\<close> sees every node once, in order.\<close>

lemma bstree_walk:
  assumes "bst_ok h root t" "t \<noteq> Leaf"
  shows "\<exists>a. dl_bstree_min h root = Some (Some a) \<and> walk (\<lambda>x. dl_bstree_next root x h) (size t) a = Some (inorder t)"
proof -
  have "inorder t \<noteq> []" "length (inorder t) = size t" "0 < size t" using assms(2) by (simp_all add: neq_Leaf_iff) auto
  then show ?thesis
    using next_nth [OF assms(1), of 0] bc.walk_all [of "(root, h)" "inorder t"] assms
    by (auto simp: bst_repr_def hd_conv_nth)
qed

section \<open>Properties\<close>

text \<open>C2: inserting a node that is not in the tree, with a key the tree does not hold, into a well-formed
  tree (ordered, AVL-balanced, heights, child and parent pointers right, the parent of the root \<^verbatim>\<open>NULL\<close>)
  of less than \<open>2 ^ 64\<close> nodes returns the new root of a tree that is well-formed in the same sense and
  holds the old nodes in their order and the new one at its place; no other node is written. (The
  duplicate key is \<^verbatim>\<open>bstree_duplicate_loses_subtree\<close>.)\<close>

theorem bstree_insert:
  assumes "bst_ok h root t" "rooted h root" "size t < 2 ^ 64" "x \<notin> set_tree t" "t_key h x \<notin> t_key h ` set_tree t"
  shows "\<exists>t' h' as bs. dl_bstree_insert root x h = Some (rt t', rt t', h') \<and> bst_ok h' (rt t') t'
    \<and> rooted h' (rt t') \<and> inorder t = as @ bs \<and> inorder t' = as @ x # bs \<and> frame h h' (insert x (set_tree t))"
proof -
  from insert_spec [OF assms(1,3-5)] assms(2) obtain t' h'
    where t': "dl_bstree_insert root x h = Some (rt t', rt t', h')" "bst_ok h' (rt t') t'"
      "ins (t_key h) x t = Some t'" "frame h h' (insert x (set_tree t))" "rooted h' (rt t')" by blast
  moreover have "ordered (t_key h) t" using assms(1) by (simp add: bst_ok_def)
  ultimately show ?thesis using ins_inorder [OF t'(3)] by metis
qed

definition empty_bst :: bst where
  "empty_bst = \<lparr>t_key = int, t_height = \<lambda>_. 0, t_left = \<lambda>_. None, t_right = \<lambda>_. None, t_parent = \<lambda>_. None\<rparr>"

lemma empty_bst_ok: "bst_ok empty_bst None Leaf" "t_key empty_bst = int"
  by (simp_all add: bst_ok_def empty_bst_def)

definition line_bst :: bst where
  "line_bst = \<lparr>t_key = int, t_height = (\<lambda>a. if a = 1 then 2 else 1), t_left = \<lambda>_. None,
     t_right = (\<lambda>a. if a = 1 then Some 2 else None), t_parent = \<lambda>a. if a = 2 then Some 1 else None\<rparr>"

text \<open>The third node makes the root lean by two: the insertion rotates it.\<close>

theorem bstree_insert_witness:
  "\<exists>t' h'. dl_bstree_insert (Some 1) 3 line_bst = Some (rt t', rt t', h') \<and> rooted h' (rt t') \<and> inorder t' = [1, 2, 3]"
proof -
  have "bst_ok line_bst (Some 1) (Node Leaf 1 (Node Leaf 2 Leaf))" "rooted line_bst (Some 1)"
    by (auto simp: bst_ok_def rooted_def line_bst_def)
  moreover have k: "t_key line_bst = int" by (simp add: line_bst_def)
  ultimately obtain t' h' as bs where
    t': "dl_bstree_insert (Some 1) 3 line_bst = Some (rt t', rt t', h')" "bst_ok h' (rt t') t'" "rooted h' (rt t')"
      "[1, 2] = as @ bs" "inorder t' = as @ 3 # bs" "frame line_bst h' (insert 3 {1, 2})"
    using bstree_insert [of line_bst "Some 1" "Node Leaf 1 (Node Leaf 2 Leaf)" 3] by (auto simp: insert_commute)
  have "t_key h' = int" using t'(6) k by (simp add: frame_def)
  then have "sorted (inorder t')" using t'(2) by (simp add: bst_ok_def ordered_def sorted_wrt_iff_nth_less sorted_iff_nth_mono_less less_imp_le)
  then have "inorder t' = [1, 2, 3]" using t'(4,5) by (auto simp: Cons_eq_append_conv)
  then show ?thesis using t' by blast
qed

text \<open>Nodes with distinct keys, inserted one after the other into an empty tree in any order, end up
  in a well-formed tree whose inorder sequence is the nodes sorted by key.\<close>

theorem bstree_sorts:
  assumes "bst_ok h None Leaf" "length xs \<le> 2 ^ 64" "distinct xs" "inj_on (t_key h) (set xs)"
  shows "\<exists>root h' t. fold (\<lambda>x r. Option.bind r (bst_put x)) xs (Some (None, h)) = Some (root, h')
    \<and> bst_ok h' root t \<and> inorder t = sort_key (t_key h) xs"
proof -
  have "bst_repr (None, h) []" using assms(1) by (auto simp: bst_repr_def intro!: exI [of _ Leaf])
  from bx.put_sorts [OF this assms(2,3)] assms(4) show ?thesis by (auto simp: bst_repr_def)
qed

theorem bstree_sorts_witness:
  "\<exists>root h' t. fold (\<lambda>x r. Option.bind r (bst_put x)) [3, 1, 2] (Some (None, empty_bst)) = Some (root, h')
    \<and> bst_ok h' root t \<and> inorder t = [1, 2, 3]"
  using bstree_sorts [OF empty_bst_ok(1), of "[3, 1, 2]"] by (simp add: empty_bst_ok(2))

text \<open>In a well-formed tree \<^verbatim>\<open>dl_bstree_find_by_key\<close> returns, and what it returns is the node with the
  key, or \<^verbatim>\<open>NULL\<close> when there is none.\<close>

theorem bstree_find:
  assumes "bst_ok h root t"
  shows "dl_bstree_find_by_key root k h = Some (find (\<lambda>a. t_key h a = k) (inorder t))"
  using assms find_loop_spec [of h t k] by (simp add: bst_ok_def dl_bstree_find_by_key_def)

lemma single_bst: "bst_ok (empty_bst\<lparr>t_height := \<lambda>_. 1\<rparr>) (Some 5) (Node Leaf 5 Leaf)"
  by (simp add: bst_ok_def empty_bst_def)

theorem bstree_find_witness: "dl_bstree_find_by_key (Some 5) 5 (empty_bst\<lparr>t_height := \<lambda>_. 1\<rparr>) = Some (Some 5)"
  using bstree_find [OF single_bst, of 5] by (simp add: empty_bst_def)

text \<open>C15: \<^verbatim>\<open>dl_bstree_next\<close> walks a well-formed tree in the order of the keys: from every node it returns
  the next one of the inorder sequence, from the last one \<^verbatim>\<open>NULL\<close>, and the walk starts at the node
  \<^verbatim>\<open>dl_bstree_min\<close> returns for the root.\<close>

theorem bstree_iterate:
  assumes "bst_ok h root t" "i < length (inorder t)"
  shows "dl_bstree_next root (inorder t ! i) h
      = Some (if i + 1 < length (inorder t) then Some (inorder t ! (i + 1)) else None)
    \<and> dl_bstree_min h root = Some (Some (inorder t ! 0))"
  using assms by (rule next_nth)

theorem bstree_iterate_witness: "dl_bstree_next (Some 5) 5 (empty_bst\<lparr>t_height := \<lambda>_. 1\<rparr>) = Some None"
  using bstree_iterate [OF single_bst, of 0] by simp

text \<open>Inserting a duplicate key destroys the tree: the recursion stores the \<^verbatim>\<open>NULL\<close> of the refused
  insertion in every child pointer on the way back, so that the root loses the whole subtree that
  holds the key.\<close>

theorem bstree_duplicate_loses_subtree:
  assumes "bst_ok h (Some a) (Node l a r)" "x \<notin> set_tree (Node l a r)" "t_key h x \<in> t_key h ` set_tree l"
  shows "\<exists>h'. dl_bstree_insert (Some a) x h = Some (Some a, None, h') \<and> t_left h a \<noteq> None \<and> t_left h' a = None"
proof -
  define h0 where "h0 = set_parent x None (set_right x None (set_left x None (set_height x 1 h)))"
  have f0: "frame h h0 {x}" by (simp add: frame_def h0_def)
  have k0: "t_key h0 = t_key h" by (simp add: h0_def)
  have "tree_ok h (Node l a r)" "distinct (inorder (Node l a r))" and ord: "ordered (t_key h) (Node l a r)"
    using assms(1) by (simp_all add: bst_ok_def)
  then have ok0: "tree_ok h0 (Node l a r)" using frame_tree_ok [OF f0, of "Node l a r"] assms(2) by simp
  have l: "l \<noteq> Leaf" "t_left h a = rt l" using assms(1,3) by (auto simp: bst_ok_def)
  then obtain c where c: "rt l = Some c" by (cases l) auto
  have lt: "t_key h x < t_key h a" using ord assms(3) by auto
  obtain h1 where h1: "dl_bstree_insert_value c x h0 = Some (None, h1)"
    using insert_value_dup [of h0 l x c] ok0 ord assms(3) c k0 by auto
  have "dl_bstree_insert_value a x h0 = Some (None, set_left a None h1)"
    using ok0 lt h1 c k0 by (subst dl_bstree_insert_value.simps) (simp add: Let_def)
  then have "dl_bstree_insert (Some a) x h = Some (Some a, None, set_left a None h1)"
    by (simp add: dl_bstree_insert_def Let_def h0_def [symmetric])
  then show ?thesis using l c by auto
qed

definition pair_bst :: bst where
  "pair_bst = \<lparr>t_key = (\<lambda>a. if a = 9 then 1 else int a), t_height = (\<lambda>a. if a = 2 then 2 else 1),
     t_left = (\<lambda>a. if a = 2 then Some 1 else None), t_right = \<lambda>_. None, t_parent = \<lambda>a. if a = 1 then Some 2 else None\<rparr>"

theorem bstree_duplicate_loses_subtree_witness:
  "\<exists>h'. dl_bstree_insert (Some 2) 9 pair_bst = Some (Some 2, None, h') \<and> t_left h' 2 = None"
  using bstree_duplicate_loses_subtree [of pair_bst 2 "Node Leaf 1 Leaf" Leaf 9]
  by (auto simp: bst_ok_def pair_bst_def)

text \<open>Deleting a key that is not in a well-formed tree returns the root and changes nothing at all.\<close>

theorem bstree_delete_absent:
  assumes "bst_ok h root t" "size t < 2 ^ 64" "k \<notin> t_key h ` set_tree t"
  shows "dl_bstree_delete_by_key root k h = Some (root, h)"
proof (cases root)
  case (Some a)
  have "height t < 130" using assms(1,2) by (intro avl_height_bound) (simp_all add: bst_ok_def)
  then show ?thesis
    using delete_absent [of h t k] assms Some by (simp add: bst_ok_def dl_bstree_delete_by_key_def)
qed (simp add: dl_bstree_delete_by_key_def)

theorem bstree_delete_absent_witness:
  "dl_bstree_delete_by_key (Some 5) 7 (empty_bst\<lparr>t_height := \<lambda>_. 1\<rparr>)
   = Some (Some 5, empty_bst\<lparr>t_height := \<lambda>_. 1\<rparr>)"
  using bstree_delete_absent [OF single_bst, of 7] by (simp add: empty_bst_def)

text \<open>C34: the balance of the right child is compared as an unsigned number, so a right child that leans
  to the right is taken for one that leans to the left: deleting the left child of a well-formed
  four-node tree rotates a node without left child and dereferences \<^verbatim>\<open>NULL\<close>.\<close>

theorem bstree_delete_crash:
  assumes "bst_ok h (Some b) (Node (Node Leaf a Leaf) b (Node Leaf c (Node Leaf d Leaf)))"
  shows "dl_bstree_delete_by_key (Some b) (t_key h a) h = None"
proof -
  have t: "t_left h b = Some a" "t_right h b = Some c" "t_left h a = None" "t_right h a = None"
    "t_parent h a = Some b" "t_left h c = None" "t_right h c = Some d" "t_height h c = 2" "t_height h d = 1"
    "t_key h a < t_key h b" "a \<noteq> b" "b \<noteq> c" "b \<noteq> d" "c \<noteq> d"
    using assms by (auto simp: bst_ok_def)
  have d1: "dl_bstree_delete (Some a) (t_key h a) h = Some (None, set_left b None h)"
    using t by (subst dl_bstree_delete.simps) (simp add: unlink_leaf_def)
  define h1 where "h1 = set_height b 3 (set_left b None (set_left b None h))"
  have nh: "new_height b (set_left b None (set_left b None h)) = 3"
    using t by (simp add: new_height_def dl_bst_height_def)
  have bal: "int_of (dl_bst_get_balance (Some b) h1) = -2"
    using t by (simp add: h1_def dl_bst_get_balance_def dl_bst_height_def int_of_def)
  have br: "dl_bst_get_balance (t_right h1 b) h1 = - 1"
    using t by (simp add: h1_def dl_bst_get_balance_def dl_bst_height_def)
  have rot: "dl_bstree_right_rotate (t_right h1 b) h1 = None"
    using t by (simp add: h1_def dl_bstree_right_rotate_def)
  have "delete_repair b (set_left b None (set_left b None h)) = None"
    unfolding delete_repair_def nh Let_def h1_def [symmetric] bal br rot
    by (simp add: word_gt_0)
  then show ?thesis
    using t d1 by (simp add: dl_bstree_delete_by_key_def) (subst dl_bstree_delete.simps, simp)
qed

definition quad_bst :: bst where
  "quad_bst = \<lparr>t_key = int, t_height = (\<lambda>a. if a = 2 then 3 else if a = 3 then 2 else 1),
     t_left = (\<lambda>a. if a = 2 then Some 1 else None),
     t_right = (\<lambda>a. if a = 2 then Some 3 else if a = 3 then Some 4 else None),
     t_parent = (\<lambda>a. if a = 1 \<or> a = 3 then Some 2 else if a = 4 then Some 3 else None)\<rparr>"

theorem bstree_delete_crash_witness: "dl_bstree_delete_by_key (Some 2) 1 quad_bst = None"
  using bstree_delete_crash [of quad_bst 2 1 3 4] by (simp add: bst_ok_def quad_bst_def)

end
