(* ===== verification/Dl_Rbtree.thy ===== *)
theory Dl_Rbtree
  imports Dl_Prelude
begin

text \<open>
  The red-black tree of \<^verbatim>\<open>dl_rbtree.h\<close> and \<^verbatim>\<open>dl_rbtree.c\<close> on an explicit heap: the record holds the
  fields of every node and the root and sentinel of the tree (\<^verbatim>\<open>tree->insert\<close> is
  \<^verbatim>\<open>dl_rbtree_insert_value\<close>, the only one provided). A dereference of \<^verbatim>\<open>NULL\<close> and an endless loop make
  the call \<open>None\<close>. The sentinel is a node like any other: the code reads and writes its fields.
\<close>

section \<open>The heap\<close>

record rbt =
  r_key :: "addr \<Rightarrow> int"
  r_left :: "addr \<Rightarrow> ptr"
  r_right :: "addr \<Rightarrow> ptr"
  r_parent :: "addr \<Rightarrow> ptr"
  r_color :: "addr \<Rightarrow> byte"
  rb_root :: ptr
  sentinel :: addr

definition set_rkey :: "addr \<Rightarrow> int \<Rightarrow> rbt \<Rightarrow> rbt" where
  "set_rkey a v h = h\<lparr>r_key := (r_key h)(a := v)\<rparr>"

definition set_rleft :: "addr \<Rightarrow> ptr \<Rightarrow> rbt \<Rightarrow> rbt" where
  "set_rleft a v h = h\<lparr>r_left := (r_left h)(a := v)\<rparr>"

definition set_rright :: "addr \<Rightarrow> ptr \<Rightarrow> rbt \<Rightarrow> rbt" where
  "set_rright a v h = h\<lparr>r_right := (r_right h)(a := v)\<rparr>"

definition set_rparent :: "addr \<Rightarrow> ptr \<Rightarrow> rbt \<Rightarrow> rbt" where
  "set_rparent a v h = h\<lparr>r_parent := (r_parent h)(a := v)\<rparr>"

definition set_rcolor :: "addr \<Rightarrow> byte \<Rightarrow> rbt \<Rightarrow> rbt" where
  "set_rcolor a v h = h\<lparr>r_color := (r_color h)(a := v)\<rparr>"

definition set_root :: "ptr \<Rightarrow> rbt \<Rightarrow> rbt" where
  "set_root p h = h\<lparr>rb_root := p\<rparr>"

definition dl_rbt_red :: "addr \<Rightarrow> rbt \<Rightarrow> rbt" where
  "dl_rbt_red a h = set_rcolor a 1 h"

definition dl_rbt_black :: "addr \<Rightarrow> rbt \<Rightarrow> rbt" where
  "dl_rbt_black a h = set_rcolor a 0 h"

definition dl_rbt_is_red :: "addr \<Rightarrow> rbt \<Rightarrow> bool" where
  "dl_rbt_is_red a h \<longleftrightarrow> r_color h a \<noteq> 0"

text \<open>The tree over the sentinel \<open>n\<close>; the fields of \<open>n\<close> other than its colour keep what they hold.\<close>

definition dl_rbtree_init :: "addr \<Rightarrow> rbt \<Rightarrow> rbt" where
  "dl_rbtree_init n h = (dl_rbt_black n h)\<lparr>rb_root := Some n, sentinel := n\<rparr>"

section \<open>Relatives\<close>

partial_function (option) rb_min_loop :: "rbt \<Rightarrow> addr \<Rightarrow> addr option" where
  "rb_min_loop h a =
     (if r_left h a \<noteq> Some (sentinel h) then Option.bind (r_left h a) (rb_min_loop h) else Some a)"

definition dl_rbtree_min :: "addr \<Rightarrow> rbt \<Rightarrow> addr option" where
  "dl_rbtree_min a h = rb_min_loop h a"

definition dl_rbtree_grandparent :: "addr \<Rightarrow> rbt \<Rightarrow> ptr" where
  "dl_rbtree_grandparent a h = (case r_parent h a of None \<Rightarrow> None | Some p \<Rightarrow> r_parent h p)"

definition dl_rbtree_sibling :: "addr \<Rightarrow> rbt \<Rightarrow> ptr" where
  "dl_rbtree_sibling a h =
     (case r_parent h a of None \<Rightarrow> None
      | Some p \<Rightarrow> if r_left h p = Some a then r_right h p else r_left h p)"

definition dl_rbtree_uncle :: "addr \<Rightarrow> rbt \<Rightarrow> ptr" where
  "dl_rbtree_uncle a h =
     (case dl_rbtree_grandparent a h of None \<Rightarrow> None
      | Some g \<Rightarrow> (case r_parent h a of None \<Rightarrow> None | Some p \<Rightarrow> dl_rbtree_sibling p h))"

partial_function (option) rb_next_loop :: "rbt \<Rightarrow> addr \<Rightarrow> ptr option" where
  "rb_next_loop h node =
     (if Some node = rb_root h then Some None
      else Option.bind (r_parent h node) (\<lambda>p.
             if r_left h p = Some node then Some (Some p) else rb_next_loop h p))"

definition dl_rbtree_next :: "addr \<Rightarrow> rbt \<Rightarrow> ptr option" where
  "dl_rbtree_next node h =
     (if r_right h node \<noteq> Some (sentinel h)
      then Option.bind (r_right h node) (\<lambda>r. map_option Some (dl_rbtree_min r h))
      else rb_next_loop h node)"

section \<open>Rotations\<close>

text \<open>The child that changes sides gets its new parent, unless it is the sentinel.\<close>

definition adopt :: "ptr \<Rightarrow> addr \<Rightarrow> rbt \<Rightarrow> rbt option" where
  "adopt c node h =
     (if c \<noteq> Some (sentinel h) then Option.bind c (\<lambda>c. Some (set_rparent c (Some node) h)) else Some h)"

text \<open>\<open>new\<close> takes the place of \<open>node\<close> below its former parent \<open>p\<close>.\<close>

definition relink :: "ptr \<Rightarrow> addr \<Rightarrow> addr \<Rightarrow> rbt \<Rightarrow> rbt" where
  "relink p node new h =
     (case p of
        Some p \<Rightarrow> if r_left h p = Some node then set_rleft p (Some new) h else set_rright p (Some new) h
      | None \<Rightarrow> set_root (Some new) h)"

definition dl_rbtree_left_rotate :: "addr \<Rightarrow> rbt \<Rightarrow> rbt option" where
  "dl_rbtree_left_rotate node h =
     do { rn \<leftarrow> r_right h node;
          let p = r_parent h node;
          let h = set_rright node (r_left h rn) h;
          let h = set_rleft rn (Some node) h;
          let h = set_rparent node (Some rn) h;
          h \<leftarrow> adopt (r_right h node) node h;
          let h = relink p node rn h;
          Some (set_rparent rn p h) }"

definition dl_rbtree_right_rotate :: "addr \<Rightarrow> rbt \<Rightarrow> rbt option" where
  "dl_rbtree_right_rotate node h =
     do { ln \<leftarrow> r_left h node;
          let p = r_parent h node;
          let h = set_rleft node (r_right h ln) h;
          let h = set_rright ln (Some node) h;
          let h = set_rparent node (Some ln) h;
          h \<leftarrow> adopt (r_left h node) node h;
          let h = relink p node ln h;
          Some (set_rparent ln p h) }"

section \<open>Insertion\<close>

text \<open>The parent of the new node and whether it becomes the left child.\<close>

partial_function (option) rb_insert_loop :: "rbt \<Rightarrow> int \<Rightarrow> addr \<Rightarrow> (addr \<times> bool) option" where
  "rb_insert_loop h k temp =
     (let p = (if k < r_key h temp then r_left h temp else r_right h temp)
      in if p = Some (sentinel h) then Some (temp, k < r_key h temp)
         else Option.bind p (rb_insert_loop h k))"

definition dl_rbtree_insert_value :: "addr \<Rightarrow> addr \<Rightarrow> rbt \<Rightarrow> rbt option" where
  "dl_rbtree_insert_value temp node h =
     do { (temp, is_left) \<leftarrow> rb_insert_loop h (r_key h node) temp;
          let h = (if is_left then set_rleft temp (Some node) h else set_rright temp (Some node) h);
          let h = set_rparent node (Some temp) h;
          let h = set_rleft node (Some (sentinel h)) h;
          let h = set_rright node (Some (sentinel h)) h;
          Some (dl_rbt_red node h) }"

text \<open>
  The four cases of \<^verbatim>\<open>dl_rbtree_repair\<close>. \<open>repair_inner\<close> is the first step of the last one, for a node
  on the inner side of its grandparent: the left rotation is called on the node, the right rotation
  on its parent.
\<close>

definition repair_inner :: "addr \<Rightarrow> addr \<Rightarrow> addr \<Rightarrow> rbt \<Rightarrow> (addr \<times> rbt) option" where
  "repair_inner node p g h =
     do { gl \<leftarrow> r_left h g;
          if r_right h gl = Some node then
            do { h \<leftarrow> dl_rbtree_left_rotate node h;
                 node \<leftarrow> r_left h node;
                 Some (node, h) }
          else
            do { gr \<leftarrow> r_right h g;
                 if r_left h gr = Some node then
                   do { h \<leftarrow> dl_rbtree_right_rotate p h;
                        node \<leftarrow> r_right h node;
                        Some (node, h) }
                 else Some (node, h) } }"

definition repair_outer :: "addr \<Rightarrow> rbt \<Rightarrow> rbt option" where
  "repair_outer node h =
     do { p \<leftarrow> r_parent h node;
          g \<leftarrow> r_parent h p;
          h \<leftarrow> (if r_left h p = Some node then dl_rbtree_right_rotate g h else dl_rbtree_left_rotate g h);
          let h = dl_rbt_black p h;
          Some (dl_rbt_red g h) }"

partial_function (option) dl_rbtree_repair :: "addr \<Rightarrow> rbt \<Rightarrow> rbt option" where
  "dl_rbtree_repair node h =
     (case r_parent h node of
        None \<Rightarrow> Some (dl_rbt_black node h)
      | Some p \<Rightarrow>
          if \<not> dl_rbt_is_red p h then Some h
          else Option.bind (dl_rbtree_uncle node h) (\<lambda>u.
            if dl_rbt_is_red u h then
              let h = dl_rbt_black p h
              in Option.bind (dl_rbtree_uncle node h) (\<lambda>u.
                   let h = dl_rbt_black u h
                   in Option.bind (r_parent h p) (\<lambda>g. dl_rbtree_repair g (dl_rbt_red g h)))
            else
              Option.bind (r_parent h p) (\<lambda>g.
                Option.bind (repair_inner node p g h) (\<lambda>(node, h). repair_outer node h))))"

definition dl_rbtree_insert :: "addr \<Rightarrow> rbt \<Rightarrow> rbt option" where
  "dl_rbtree_insert node h =
     (if rb_root h = Some (sentinel h) then
        let h = set_rparent node None h;
            h = set_rleft node (Some (sentinel h)) h;
            h = set_rright node (Some (sentinel h)) h;
            h = dl_rbt_black node h
        in Some (set_root (Some node) h)
      else
        do { r \<leftarrow> rb_root h;
             h \<leftarrow> dl_rbtree_insert_value r node h;
             dl_rbtree_repair node h })"

section \<open>Deletion\<close>

definition dl_rbtree_del_repair_done :: "addr \<Rightarrow> rbt \<Rightarrow> rbt option" where
  "dl_rbtree_del_repair_done node h =
     (let child = (if r_left h node \<noteq> Some (sentinel h) then r_left h node else r_right h node)
      in do { h \<leftarrow> (if child \<noteq> Some (sentinel h)
                     then Option.bind child (\<lambda>c. Some (set_rparent c (r_parent h node) h)) else Some h);
              p \<leftarrow> r_parent h node;
              Some (if r_left h p = Some node then set_rleft p child h else set_rright p child h) })"

text \<open>Both children of \<open>s\<close> are black; the right one is only looked at when the left one is.\<close>

definition black_children :: "addr \<Rightarrow> rbt \<Rightarrow> bool option" where
  "black_children s h =
     do { l \<leftarrow> r_left h s;
          if dl_rbt_is_red l h then Some False
          else do { r \<leftarrow> r_right h s; Some (\<not> dl_rbt_is_red r h) } }"

definition delete_case2 :: "addr \<Rightarrow> addr \<Rightarrow> addr \<Rightarrow> rbt \<Rightarrow> rbt option" where
  "delete_case2 n p s h =
     (if dl_rbt_is_red s h then
        let h = dl_rbt_red p h;
            h = dl_rbt_black s h
        in if r_left h p = Some n then dl_rbtree_left_rotate p h else dl_rbtree_right_rotate p h
      else Some h)"

definition delete_case5 :: "addr \<Rightarrow> addr \<Rightarrow> addr \<Rightarrow> rbt \<Rightarrow> rbt option" where
  "delete_case5 n p s h =
     (if dl_rbt_is_red s h then Some h
      else
        do { c1 \<leftarrow> (if r_left h p \<noteq> Some n then Some False
                     else do { r \<leftarrow> r_right h s;
                               if dl_rbt_is_red r h then Some False
                               else do { l \<leftarrow> r_left h s; Some (dl_rbt_is_red l h) } });
             if c1 then
               let h = dl_rbt_red s h
               in do { l \<leftarrow> r_left h s; dl_rbtree_right_rotate s (dl_rbt_black l h) }
             else
               do { c2 \<leftarrow> (if r_right h p \<noteq> Some n then Some False
                            else do { l \<leftarrow> r_left h s;
                                      if dl_rbt_is_red l h then Some False
                                      else do { r \<leftarrow> r_right h s; Some (dl_rbt_is_red r h) } });
                    if c2 then
                      let h = dl_rbt_red s h
                      in do { r \<leftarrow> r_right h s; dl_rbtree_left_rotate s (dl_rbt_black r h) }
                    else Some h } })"

definition delete_case6 :: "addr \<Rightarrow> addr \<Rightarrow> addr \<Rightarrow> rbt \<Rightarrow> rbt option" where
  "delete_case6 n p s h =
     (let h = set_rcolor s (r_color h p) h;
          h = dl_rbt_black p h
      in if r_left h p = Some n then
           do { r \<leftarrow> r_right h s; dl_rbtree_left_rotate p (dl_rbt_black r h) }
         else
           do { l \<leftarrow> r_left h s; dl_rbtree_right_rotate p (dl_rbt_black l h) })"

text \<open>
  \<^verbatim>\<open>dl_rbtree_delete_repair\<close>: \<open>n->parent\<close> is read again after every rotation. The \<^verbatim>\<open>nest == 0\<close> call
  removes the node at the end, whichever case it took.
\<close>

definition del_finish :: "int \<Rightarrow> addr \<Rightarrow> rbt \<Rightarrow> rbt option" where
  "del_finish nest n h = (if nest = 0 then dl_rbtree_del_repair_done n h else Some h)"

partial_function (option) dl_rbtree_delete_repair :: "addr \<Rightarrow> int \<Rightarrow> rbt \<Rightarrow> rbt option" where
  "dl_rbtree_delete_repair n nest h =
     (case r_parent h n of
        None \<Rightarrow> Some (set_root (Some n) h)
      | Some p \<Rightarrow>
          Option.bind (dl_rbtree_sibling n h) (\<lambda>s.
          Option.bind (delete_case2 n p s h) (\<lambda>h.
          Option.bind (dl_rbtree_sibling n h) (\<lambda>s.
          Option.bind (r_parent h n) (\<lambda>p.
          Option.bind (if dl_rbt_is_red s h then Some False else black_children s h) (\<lambda>bb.
            if \<not> dl_rbt_is_red p h \<and> bb then
              Option.bind (dl_rbtree_delete_repair p 1 (dl_rbt_red s h)) (del_finish nest n)
            else if dl_rbt_is_red p h \<and> bb then
              del_finish nest n (dl_rbt_black p (dl_rbt_red s h))
            else
              Option.bind (delete_case5 n p s h) (\<lambda>h.
              Option.bind (dl_rbtree_sibling n h) (\<lambda>s.
              Option.bind (r_parent h n) (\<lambda>p.
              Option.bind (delete_case6 n p s h) (del_finish nest n)))))))))) "

text \<open>
  \<^verbatim>\<open>dl_rbtree_delete\<close>. \<open>bak\<close> is the address of the local \<^verbatim>\<open>d_node_bak\<close>, a copy that takes the place of
  the removed node while the tree is repaired.
\<close>

definition copy_node :: "addr \<Rightarrow> addr \<Rightarrow> rbt \<Rightarrow> rbt" where
  "copy_node dst src h =
     (let h' = set_rkey dst (r_key h src) h;
          h' = set_rleft dst (r_left h src) h';
          h' = set_rright dst (r_right h src) h';
          h' = set_rparent dst (r_parent h src) h'
      in set_rcolor dst (r_color h src) h')"

definition wipe :: "addr \<Rightarrow> rbt \<Rightarrow> rbt" where
  "wipe node h = set_rkey node 0 (set_rparent node None (set_rright node None (set_rleft node None h)))"

text \<open>The node to unlink and the child that takes its place.\<close>

definition delete_choice :: "addr \<Rightarrow> rbt \<Rightarrow> (addr \<times> ptr) option" where
  "delete_choice node h =
     (if r_left h node = Some (sentinel h) then Some (node, r_right h node)
      else if r_right h node = Some (sentinel h) then Some (node, r_left h node)
      else do { r \<leftarrow> r_right h node;
                d \<leftarrow> dl_rbtree_min r h;
                Some (d, if r_left h d \<noteq> Some (sentinel h) then r_left h d else r_right h d) })"

definition move_up :: "addr \<Rightarrow> addr \<Rightarrow> addr \<Rightarrow> rbt \<Rightarrow> rbt option" where
  "move_up node d bak h =
     (let h = set_rleft d (r_left h node) h;
          h = set_rright d (r_right h node) h;
          h = set_rparent d (r_parent h node) h;
          h = set_rcolor d (r_color h node) h;
          h = (if r_right h d = Some bak then set_rparent bak (Some d) h else h)
      in do { h \<leftarrow> (if rb_root h = Some node then Some (set_root (Some d) h)
                     else do { p \<leftarrow> r_parent h node;
                               Some (if r_left h p = Some node then set_rleft p (Some d) h
                                     else set_rright p (Some d) h) });
              h \<leftarrow> adopt (r_left h d) d h;
              adopt (r_right h d) d h })"

definition dl_rbtree_delete :: "addr \<Rightarrow> addr \<Rightarrow> rbt \<Rightarrow> rbt option" where
  "dl_rbtree_delete bak node h =
     do { (d, child) \<leftarrow> delete_choice node h;
          let red = dl_rbt_is_red d h;
          if rb_root h = Some d then
            let h = set_root child h
            in do { c \<leftarrow> child; Some (wipe node (dl_rbt_black c h)) }
          else
            let h = copy_node bak d h
            in do { dp \<leftarrow> r_parent h d;
                    let h = (if r_left h dp = Some d then set_rleft dp (Some bak) h
                             else set_rright dp (Some bak) h);
                    h \<leftarrow> (if d \<noteq> node then move_up node d bak h else Some h);
                    let h = wipe node h;
                    if red then dl_rbtree_del_repair_done bak h
                    else if child \<noteq> Some (sentinel h) then
                      do { c \<leftarrow> child; dl_rbtree_del_repair_done bak (dl_rbt_black c h) }
                    else dl_rbtree_delete_repair bak 0 h } }"

end
