(* ===== verification/Dl_Rbtree_Refine.thy ===== *)
theory Dl_Rbtree_Refine
  imports Dl_Rbtree "HOL-Library.Tree" "HOL-Library.Multiset"
begin

text \<open>
  The red-black tree against trees of addresses. The code climbs from a node through parent
  pointers, so a tree is taken apart at a node: the subtree below it and the path above it, a list
  of steps from the inside out. Insertion keeps the red-black invariants unless its repair meets a
  left-right case; the failure in that case and the order of iteration follow.
\<close>

section \<open>Trees and paths on the heap\<close>

lemma rupd_simps [simp]:
  "r_key (set_rkey a k h) = (r_key h)(a := k)" "r_key (set_rleft a p h) = r_key h" "r_key (set_rright a p h) = r_key h"
  "r_key (set_rparent a p h) = r_key h" "r_key (set_rcolor a v h) = r_key h" "r_key (set_root p h) = r_key h"
  "r_left (set_rkey a k h) = r_left h" "r_left (set_rleft a p h) = (r_left h)(a := p)" "r_left (set_rright a p h) = r_left h"
  "r_left (set_rparent a p h) = r_left h" "r_left (set_rcolor a v h) = r_left h" "r_left (set_root p h) = r_left h"
  "r_right (set_rkey a k h) = r_right h" "r_right (set_rleft a p h) = r_right h" "r_right (set_rright a p h) = (r_right h)(a := p)"
  "r_right (set_rparent a p h) = r_right h" "r_right (set_rcolor a v h) = r_right h" "r_right (set_root p h) = r_right h"
  "r_parent (set_rkey a k h) = r_parent h" "r_parent (set_rleft a p h) = r_parent h" "r_parent (set_rright a p h) = r_parent h"
  "r_parent (set_rparent a p h) = (r_parent h)(a := p)" "r_parent (set_rcolor a v h) = r_parent h" "r_parent (set_root p h) = r_parent h"
  "r_color (set_rkey a k h) = r_color h" "r_color (set_rleft a p h) = r_color h" "r_color (set_rright a p h) = r_color h"
  "r_color (set_rparent a p h) = r_color h" "r_color (set_rcolor a v h) = (r_color h)(a := v)" "r_color (set_root p h) = r_color h"
  "rb_root (set_rkey a k h) = rb_root h" "rb_root (set_rleft a p h) = rb_root h" "rb_root (set_rright a p h) = rb_root h"
  "rb_root (set_rparent a p h) = rb_root h" "rb_root (set_rcolor a v h) = rb_root h" "rb_root (set_root p h) = p"
  "sentinel (set_rkey a k h) = sentinel h" "sentinel (set_rleft a p h) = sentinel h" "sentinel (set_rright a p h) = sentinel h"
  "sentinel (set_rparent a p h) = sentinel h" "sentinel (set_rcolor a v h) = sentinel h" "sentinel (set_root p h) = sentinel h"
  by (simp_all add: set_rkey_def set_rleft_def set_rright_def set_rparent_def set_rcolor_def set_root_def)

fun rbr :: "addr \<Rightarrow> addr tree \<Rightarrow> ptr" where
  "rbr s Leaf = Some s"
| "rbr s (Node l a r) = Some a"

fun rt_ok :: "rbt \<Rightarrow> ptr \<Rightarrow> addr tree \<Rightarrow> bool" where
  "rt_ok h p Leaf \<longleftrightarrow> True"
| "rt_ok h p (Node l a r) \<longleftrightarrow> r_parent h a = p \<and> r_left h a = rbr (sentinel h) l
     \<and> r_right h a = rbr (sentinel h) r \<and> rt_ok h (Some a) l \<and> rt_ok h (Some a) r"

text \<open>\<open>Below_left p r\<close>: the way up from a left child of \<open>p\<close> whose right subtree is \<open>r\<close>.\<close>

datatype step = Below_left addr "addr tree" | Below_right addr "addr tree"

fun up :: "step list \<Rightarrow> ptr" where
  "up [] = None"
| "up (Below_left p t # c) = Some p"
| "up (Below_right p t # c) = Some p"

fun plug :: "step list \<Rightarrow> addr tree \<Rightarrow> addr tree" where
  "plug [] t = t"
| "plug (Below_left p r # c) t = plug c (Node t p r)"
| "plug (Below_right p l # c) t = plug c (Node l p t)"

fun c_ok :: "rbt \<Rightarrow> ptr \<Rightarrow> step list \<Rightarrow> bool" where
  "c_ok h x [] \<longleftrightarrow> rb_root h = x"
| "c_ok h x (Below_left p r # c) \<longleftrightarrow> r_left h p = x \<and> r_right h p = rbr (sentinel h) r
     \<and> r_parent h p = up c \<and> rt_ok h (Some p) r \<and> c_ok h (Some p) c"
| "c_ok h x (Below_right p l # c) \<longleftrightarrow> r_right h p = x \<and> r_left h p = rbr (sentinel h) l
     \<and> r_parent h p = up c \<and> rt_ok h (Some p) l \<and> c_ok h (Some p) c"

fun c_nodes :: "step list \<Rightarrow> addr set" where
  "c_nodes [] = {}"
| "c_nodes (Below_left p t # c) = insert p (set_tree t \<union> c_nodes c)"
| "c_nodes (Below_right p t # c) = insert p (set_tree t \<union> c_nodes c)"

fun c_left :: "step list \<Rightarrow> addr list" where
  "c_left [] = []"
| "c_left (Below_left p r # c) = c_left c"
| "c_left (Below_right p l # c) = c_left c @ inorder l @ [p]"

fun c_right :: "step list \<Rightarrow> addr list" where
  "c_right [] = []"
| "c_right (Below_left p r # c) = p # inorder r @ c_right c"
| "c_right (Below_right p l # c) = c_right c"

lemma plug_ok:
  "rt_ok h None (plug c t) \<and> rb_root h = rbr (sentinel h) (plug c t)
   \<longleftrightarrow> rt_ok h (up c) t \<and> c_ok h (rbr (sentinel h) t) c"
  by (induction c t rule: plug.induct) auto

lemma inorder_plug: "inorder (plug c t) = c_left c @ inorder t @ c_right c"
  by (induction c t rule: plug.induct) auto

lemma set_c: "c_nodes c = set (c_left c) \<union> set (c_right c)"
  by (induction c rule: c_left.induct) auto

lemma up_in: "up c = Some p \<Longrightarrow> p \<in> c_nodes c"
  by (cases c rule: up.cases) auto

lemma rbr_in: "rbr s t = Some a \<Longrightarrow> a \<noteq> s \<Longrightarrow> a \<in> set_tree t"
  by (cases t) auto

text \<open>What the tree at a node and the path above it must keep apart.\<close>

definition apart :: "addr \<Rightarrow> step list \<Rightarrow> addr tree \<Rightarrow> bool" where
  "apart s c t \<longleftrightarrow> distinct (inorder (plug c t)) \<and> s \<notin> set (inorder (plug c t))"

fun steps_distinct :: "step list \<Rightarrow> bool" where
  "steps_distinct [] \<longleftrightarrow> True"
| "steps_distinct (Below_left p t # c) \<longleftrightarrow> p \<notin> set_tree t \<and> p \<notin> c_nodes c \<and> set_tree t \<inter> c_nodes c = {}
     \<and> distinct (inorder t) \<and> steps_distinct c"
| "steps_distinct (Below_right p t # c) \<longleftrightarrow> p \<notin> set_tree t \<and> p \<notin> c_nodes c \<and> set_tree t \<inter> c_nodes c = {}
     \<and> distinct (inorder t) \<and> steps_distinct c"

lemma apart_iff:
  "apart s c t \<longleftrightarrow> distinct (inorder t) \<and> set_tree t \<inter> c_nodes c = {} \<and> steps_distinct c
     \<and> s \<notin> set_tree t \<and> s \<notin> c_nodes c"
proof -
  have "distinct (c_left c @ c_right c) = steps_distinct c"
    by (induction c rule: c_left.induct) (auto simp: set_c)
  then show ?thesis by (auto simp: apart_def inorder_plug set_c)
qed

definition same :: "rbt \<Rightarrow> rbt \<Rightarrow> addr set \<Rightarrow> bool" where
  "same h h' S \<longleftrightarrow> sentinel h' = sentinel h \<and> (\<forall>a\<in>S. r_left h' a = r_left h a \<and> r_right h' a = r_right h a
     \<and> r_parent h' a = r_parent h a)"

lemma rt_ok_same: "rt_ok h p t \<Longrightarrow> same h h' (set_tree t) \<Longrightarrow> rt_ok h' p t"
  by (induction t arbitrary: p) (auto simp: same_def)

text \<open>A subtree changes its parent when the field of its root is written.\<close>

lemma rt_ok_reparent:
  assumes "rt_ok h p t" "distinct (inorder t)" "sentinel h' = sentinel h"
    "\<forall>a\<in>set_tree t. r_left h' a = r_left h a \<and> r_right h' a = r_right h a
       \<and> r_parent h' a = (if rbr (sentinel h) t = Some a then q else r_parent h a)"
  shows "rt_ok h' q t"
proof (cases t)
  case (Node l a r)
  have n: "a \<notin> set_tree l" "a \<notin> set_tree r" using assms(2) by (simp_all add: Node)
  have "same h h' (set_tree l)" "same h h' (set_tree r)"
    using assms(3,4) n unfolding same_def Node by auto
  then have "rt_ok h' (Some a) l" "rt_ok h' (Some a) r"
    using assms(1) by (auto simp: Node intro: rt_ok_same)
  then show ?thesis using assms(1,3,4) by (simp add: Node)
qed simp

lemma same_mono: "same h h' T \<Longrightarrow> S \<subseteq> T \<Longrightarrow> same h h' S"
  unfolding same_def by blast

lemma same_field:
  "same h h' S \<Longrightarrow> a \<in> S \<Longrightarrow> r_left h' a = r_left h a \<and> r_right h' a = r_right h a
   \<and> r_parent h' a = r_parent h a \<and> sentinel h' = sentinel h"
  unfolding same_def by blast

lemma c_ok_same:
  "c_ok h x c \<Longrightarrow> same h h' (c_nodes c) \<Longrightarrow> rb_root h' = rb_root h \<Longrightarrow> c_ok h' x c"
proof (induction c arbitrary: x rule: c_left.induct)
  case (2 p r c)
  have s: "same h h' (set_tree r)" "same h h' (c_nodes c)" using 2(3) by (auto elim: same_mono)
  have "rt_ok h' (Some p) r" using 2(2) by (intro rt_ok_same [OF _ s(1)]) simp
  moreover have "c_ok h' (Some p) c" using 2(2) by (intro 2(1) [OF _ s(2) 2(4)]) simp
  ultimately show ?case using 2(2) same_field [OF 2(3), of p] by simp
next
  case (3 p l c)
  have s: "same h h' (set_tree l)" "same h h' (c_nodes c)" using 3(3) by (auto elim: same_mono)
  have "rt_ok h' (Some p) l" using 3(2) by (intro rt_ok_same [OF _ s(1)]) simp
  moreover have "c_ok h' (Some p) c" using 3(2) by (intro 3(1) [OF _ s(2) 3(4)]) simp
  ultimately show ?case using 3(2) same_field [OF 3(3), of p] by simp
qed simp

lemma relink_simps [simp]:
  "r_key (relink p y x h) = r_key h" "r_color (relink p y x h) = r_color h"
  "sentinel (relink p y x h) = sentinel h" "r_parent (relink p y x h) = r_parent h"
  by (auto simp: relink_def split: option.splits)

lemma relink_fields:
  "p \<noteq> Some a \<Longrightarrow> r_left (relink p y x h) a = r_left h a \<and> r_right (relink p y x h) a = r_right h a"
  by (auto simp: relink_def split: option.splits)

lemma relink_c_ok:
  assumes "c_ok h (Some y) c" "steps_distinct c" "y \<notin> c_nodes c" "y \<noteq> sentinel h"
  shows "c_ok (relink (up c) y x h) (Some x) c"
proof (cases c rule: up.cases)
  case 1
  then show ?thesis by (simp add: relink_def)
next
  case (2 p r c')
  note C = assms [unfolded 2, simplified]
  define h1 where "h1 = set_rleft p (Some x) h"
  have s1: "same h h1 (set_tree r)" "same h h1 (c_nodes c')" using C by (auto simp: same_def h1_def)
  have "rt_ok h1 (Some p) r" using C by (intro rt_ok_same [OF _ s1(1)]) simp
  moreover have "c_ok h1 (Some p) c'" using C by (intro c_ok_same [OF _ s1(2)]) (simp_all add: h1_def)
  moreover have "relink (up c) y x h = h1" using C by (simp add: relink_def 2 h1_def)
  ultimately show ?thesis using C unfolding 2 by (simp add: h1_def)
next
  case (3 p l c')
  note C = assms [unfolded 3, simplified]
  define h1 where "h1 = set_rright p (Some x) h"
  have s1: "same h h1 (set_tree l)" "same h h1 (c_nodes c')" using C by (auto simp: same_def h1_def)
  have "rt_ok h1 (Some p) l" using C by (intro rt_ok_same [OF _ s1(1)]) simp
  moreover have "c_ok h1 (Some p) c'" using C by (intro c_ok_same [OF _ s1(2)]) (simp_all add: h1_def)
  moreover have "rbr (sentinel h) l \<noteq> Some y" using C rbr_in [of "sentinel h" l y] by auto
  then have "relink (up c) y x h = h1" using C by (simp add: relink_def 3 h1_def)
  ultimately show ?thesis using C unfolding 3 by (simp add: h1_def)
qed

section \<open>Rotations\<close>

text \<open>The last two stores of a rotation hang \<open>x\<close> where \<open>y\<close> was.\<close>

lemma hang_spec:
  assumes "c_ok h (Some y) c" "same h h2 (c_nodes c)" "rb_root h2 = rb_root h" "steps_distinct c"
    "y \<notin> c_nodes c" "y \<noteq> sentinel h" "x \<notin> c_nodes c" "h4 = set_rparent x (up c) (relink (up c) y x h2)"
    "sentinel h2 = sentinel h"
  shows "c_ok h4 (Some x) c" "r_key h4 = r_key h2" "r_color h4 = r_color h2" "sentinel h4 = sentinel h2"
    "r_parent h4 = (r_parent h2)(x := up c)"
    "a \<notin> c_nodes c \<Longrightarrow> r_left h4 a = r_left h2 a \<and> r_right h4 a = r_right h2 a"
proof -
  let ?h3 = "relink (up c) y x h2"
  have "c_ok h2 (Some y) c" by (rule c_ok_same [OF assms(1-3)])
  then have "c_ok ?h3 (Some x) c" using assms(4-6,9) by (intro relink_c_ok) simp_all
  moreover have "same ?h3 h4 (c_nodes c)" using assms(7,8) by (auto simp: same_def)
  ultimately show "c_ok h4 (Some x) c" by (rule c_ok_same) (simp add: assms(8))
  show "r_key h4 = r_key h2" "r_color h4 = r_color h2" "sentinel h4 = sentinel h2"
    "r_parent h4 = (r_parent h2)(x := up c)" by (simp_all add: assms(8))
  assume "a \<notin> c_nodes c"
  then have "up c \<noteq> Some a" using up_in by blast
  then show "r_left h4 a = r_left h2 a \<and> r_right h4 a = r_right h2 a"
    using relink_fields by (simp add: assms(8))
qed

lemma adopt_spec:
  assumes "sentinel h \<notin> set_tree B" "sentinel h1 = sentinel h"
  obtains h2 where "adopt (rbr (sentinel h) B) y h1 = Some h2" "r_left h2 = r_left h1" "r_right h2 = r_right h1"
    "r_key h2 = r_key h1" "r_color h2 = r_color h1" "rb_root h2 = rb_root h1" "sentinel h2 = sentinel h1"
    "\<forall>a. r_parent h2 a = (if B \<noteq> Leaf \<and> rbr (sentinel h) B = Some a then Some y else r_parent h1 a)"
proof (cases B)
  case Leaf
  then show ?thesis using assms that [of h1] by (simp add: adopt_def)
next
  case (Node l b r)
  then show ?thesis using assms that [of "set_rparent b (Some y) h1"] by (simp add: adopt_def)
qed

lemma rb_right_rotate_spec:
  assumes "rt_ok h (up c) (Node (Node A x B) y C)" "c_ok h (Some y) c"
    and ap: "apart (sentinel h) c (Node (Node A x B) y C)"
  shows "\<exists>h'. dl_rbtree_right_rotate y h = Some h' \<and> rt_ok h' (up c) (Node A x (Node B y C))
    \<and> c_ok h' (Some x) c \<and> r_key h' = r_key h \<and> sentinel h' = sentinel h \<and> r_color h' = r_color h
    \<and> r_left h' (sentinel h) = r_left h (sentinel h) \<and> r_right h' (sentinel h) = r_right h (sentinel h)"
proof -
  let ?s = "sentinel h"
  note T = assms(1) [simplified]
  note D = ap [unfolded apart_iff, simplified]
  define h1 where "h1 = set_rparent y (Some x) (set_rright x (Some y) (set_rleft y (rbr ?s B) h))"
  have "?s \<notin> set_tree B" "sentinel h1 = ?s" using D by (auto simp: h1_def)
  then obtain h2 where h2: "adopt (rbr ?s B) y h1 = Some h2" "r_left h2 = r_left h1" "r_right h2 = r_right h1"
    "r_key h2 = r_key h1" "r_color h2 = r_color h1" "rb_root h2 = rb_root h1" "sentinel h2 = sentinel h1"
    "\<forall>a. r_parent h2 a = (if B \<noteq> Leaf \<and> rbr ?s B = Some a then Some y else r_parent h1 a)"
    by (rule adopt_spec)
  define h4 where "h4 = set_rparent x (up c) (relink (up c) y x h2)"
  have B: "\<And>b. B \<noteq> Leaf \<Longrightarrow> rbr ?s B = Some b \<Longrightarrow> b \<in> set_tree B" by (cases B) auto
  have run: "dl_rbtree_right_rotate y h = Some h4"
    using T D h2(1) by (simp add: dl_rbtree_right_rotate_def Let_def h1_def h4_def)
  have out: "a \<notin> set_tree B \<Longrightarrow> a \<noteq> y \<Longrightarrow> r_parent h2 a = r_parent h a" for a
    using B [of a] h2(8) by (auto simp: h1_def)
  have sc: "same h h2 (c_nodes c)"
    unfolding same_def
  proof (intro conjI ballI)
    fix a assume "a \<in> c_nodes c"
    then have "a \<noteq> x" "a \<noteq> y" "a \<notin> set_tree B" using D by auto
    then show "r_left h2 a = r_left h a" "r_right h2 a = r_right h a" "r_parent h2 a = r_parent h a"
      using out [of a] h2(2,3) by (simp_all add: h1_def)
  qed (simp add: h2(7) h1_def)
  have prem: "rb_root h2 = rb_root h" "steps_distinct c" "y \<notin> c_nodes c" "y \<noteq> ?s" "x \<notin> c_nodes c" "sentinel h2 = ?s"
    using D h2(6,7) by (simp_all add: h1_def)
  note H = hang_spec [OF assms(2) sc prem(1-5) h4_def prem(6)]
  have f: "r_left h4 a = r_left h1 a \<and> r_right h4 a = r_right h1 a" if "a \<notin> c_nodes c" for a
    using H(6) [OF that] h2(2,3) by simp
  have g: "r_left h4 a = r_left h a \<and> r_right h4 a = r_right h a \<and> r_parent h4 a = r_parent h a"
    if "a \<notin> c_nodes c" "a \<noteq> x" "a \<noteq> y" "a \<notin> set_tree B" for a
    using f [OF that(1)] out [OF that(4,3)] that(2,3) H(5) by (simp add: h1_def)
  have A: "same h h4 (set_tree A)" and C: "same h h4 (set_tree C)"
    using D H(4) prem(6) g by (auto simp: same_def)
  have "rt_ok h4 (Some x) A" using T by (intro rt_ok_same [OF _ A]) simp
  moreover have "rt_ok h4 (Some y) C" using T by (intro rt_ok_same [OF _ C]) simp
  moreover have "rt_ok h4 (Some y) B"
  proof (rule rt_ok_reparent [of h "Some x"])
    show "\<forall>a\<in>set_tree B. r_left h4 a = r_left h a \<and> r_right h4 a = r_right h a
        \<and> r_parent h4 a = (if rbr ?s B = Some a then Some y else r_parent h a)"
    proof
      fix a assume a: "a \<in> set_tree B"
      then have n: "a \<notin> c_nodes c" "a \<noteq> x" "a \<noteq> y" "B \<noteq> Leaf" using D by auto
      show "r_left h4 a = r_left h a \<and> r_right h4 a = r_right h a
          \<and> r_parent h4 a = (if rbr ?s B = Some a then Some y else r_parent h a)"
        using f [OF n(1)] n(2-4) H(5) h2(8) by (simp add: h1_def)
    qed
  qed (use T D H(4) prem(6) in simp_all)
  moreover have "y \<notin> set_tree B" "x \<noteq> y" "y \<notin> c_nodes c" "x \<notin> c_nodes c" using D by auto
  then have "r_parent h4 y = Some x" using B [of y] h2(8) H(5) by (auto simp: h1_def)
  ultimately have "rt_ok h4 (up c) (Node A x (Node B y C))"
    using T D f [of x] f [of y] H(4,5) prem(6) by (simp add: h1_def)
  moreover have "r_left h4 ?s = r_left h ?s \<and> r_right h4 ?s = r_right h ?s" using D f [of ?s] by (simp add: h1_def)
  ultimately show ?thesis using run H(1-4) h2(4,5) prem(6) by (simp add: h1_def)
qed

lemma rb_left_rotate_spec:
  assumes "rt_ok h (up c) (Node A y (Node B x C))" "c_ok h (Some y) c"
    and ap: "apart (sentinel h) c (Node A y (Node B x C))"
  shows "\<exists>h'. dl_rbtree_left_rotate y h = Some h' \<and> rt_ok h' (up c) (Node (Node A y B) x C)
    \<and> c_ok h' (Some x) c \<and> r_key h' = r_key h \<and> sentinel h' = sentinel h \<and> r_color h' = r_color h
    \<and> r_left h' (sentinel h) = r_left h (sentinel h) \<and> r_right h' (sentinel h) = r_right h (sentinel h)"
proof -
  let ?s = "sentinel h"
  note T = assms(1) [simplified]
  note D = ap [unfolded apart_iff, simplified]
  define h1 where "h1 = set_rparent y (Some x) (set_rleft x (Some y) (set_rright y (rbr ?s B) h))"
  have "?s \<notin> set_tree B" "sentinel h1 = ?s" using D by (auto simp: h1_def)
  then obtain h2 where h2: "adopt (rbr ?s B) y h1 = Some h2" "r_left h2 = r_left h1" "r_right h2 = r_right h1"
    "r_key h2 = r_key h1" "r_color h2 = r_color h1" "rb_root h2 = rb_root h1" "sentinel h2 = sentinel h1"
    "\<forall>a. r_parent h2 a = (if B \<noteq> Leaf \<and> rbr ?s B = Some a then Some y else r_parent h1 a)"
    by (rule adopt_spec)
  define h4 where "h4 = set_rparent x (up c) (relink (up c) y x h2)"
  have B: "\<And>b. B \<noteq> Leaf \<Longrightarrow> rbr ?s B = Some b \<Longrightarrow> b \<in> set_tree B" by (cases B) auto
  have run: "dl_rbtree_left_rotate y h = Some h4"
    using T D h2(1) by (simp add: dl_rbtree_left_rotate_def Let_def h1_def h4_def)
  have out: "a \<notin> set_tree B \<Longrightarrow> a \<noteq> y \<Longrightarrow> r_parent h2 a = r_parent h a" for a
    using B [of a] h2(8) by (auto simp: h1_def)
  have sc: "same h h2 (c_nodes c)"
    unfolding same_def
  proof (intro conjI ballI)
    fix a assume "a \<in> c_nodes c"
    then have "a \<noteq> x" "a \<noteq> y" "a \<notin> set_tree B" using D by auto
    then show "r_left h2 a = r_left h a" "r_right h2 a = r_right h a" "r_parent h2 a = r_parent h a"
      using out [of a] h2(2,3) by (simp_all add: h1_def)
  qed (simp add: h2(7) h1_def)
  have prem: "rb_root h2 = rb_root h" "steps_distinct c" "y \<notin> c_nodes c" "y \<noteq> ?s" "x \<notin> c_nodes c" "sentinel h2 = ?s"
    using D h2(6,7) by (simp_all add: h1_def)
  note H = hang_spec [OF assms(2) sc prem(1-5) h4_def prem(6)]
  have f: "r_left h4 a = r_left h1 a \<and> r_right h4 a = r_right h1 a" if "a \<notin> c_nodes c" for a
    using H(6) [OF that] h2(2,3) by simp
  have g: "r_left h4 a = r_left h a \<and> r_right h4 a = r_right h a \<and> r_parent h4 a = r_parent h a"
    if "a \<notin> c_nodes c" "a \<noteq> x" "a \<noteq> y" "a \<notin> set_tree B" for a
    using f [OF that(1)] out [OF that(4,3)] that(2,3) H(5) by (simp add: h1_def)
  have A: "same h h4 (set_tree A)" and C: "same h h4 (set_tree C)"
    using D H(4) prem(6) g by (auto simp: same_def)
  have "rt_ok h4 (Some y) A" using T by (intro rt_ok_same [OF _ A]) simp
  moreover have "rt_ok h4 (Some x) C" using T by (intro rt_ok_same [OF _ C]) simp
  moreover have "rt_ok h4 (Some y) B"
  proof (rule rt_ok_reparent [of h "Some x"])
    show "\<forall>a\<in>set_tree B. r_left h4 a = r_left h a \<and> r_right h4 a = r_right h a
        \<and> r_parent h4 a = (if rbr ?s B = Some a then Some y else r_parent h a)"
    proof
      fix a assume a: "a \<in> set_tree B"
      then have n: "a \<notin> c_nodes c" "a \<noteq> x" "a \<noteq> y" "B \<noteq> Leaf" using D by auto
      show "r_left h4 a = r_left h a \<and> r_right h4 a = r_right h a
          \<and> r_parent h4 a = (if rbr ?s B = Some a then Some y else r_parent h a)"
        using f [OF n(1)] n(2-4) H(5) h2(8) by (simp add: h1_def)
    qed
  qed (use T D H(4) prem(6) in simp_all)
  moreover have "y \<notin> set_tree B" "x \<noteq> y" "y \<notin> c_nodes c" "x \<notin> c_nodes c" using D by auto
  then have "r_parent h4 y = Some x" using B [of y] h2(8) H(5) by (auto simp: h1_def)
  ultimately have "rt_ok h4 (up c) (Node (Node A y B) x C)"
    using T D f [of x] f [of y] H(4,5) prem(6) by (simp add: h1_def)
  moreover have "r_left h4 ?s = r_left h ?s \<and> r_right h4 ?s = r_right h ?s" using D f [of ?s] by (simp add: h1_def)
  ultimately show ?thesis using run H(1-4) h2(4,5) prem(6) by (simp add: h1_def)
qed

section \<open>Colours and black heights\<close>

fun rr :: "(addr \<Rightarrow> byte) \<Rightarrow> addr tree \<Rightarrow> bool" where
  "rr col Leaf \<longleftrightarrow> False"
| "rr col (Node l a r) \<longleftrightarrow> col a \<noteq> 0"

fun bh :: "(addr \<Rightarrow> byte) \<Rightarrow> addr tree \<Rightarrow> nat" where
  "bh col Leaf = 0"
| "bh col (Node l a r) = bh col l + of_bool (col a = 0)"

fun rbi :: "(addr \<Rightarrow> byte) \<Rightarrow> addr tree \<Rightarrow> bool" where
  "rbi col Leaf \<longleftrightarrow> True"
| "rbi col (Node l a r) \<longleftrightarrow> rbi col l \<and> rbi col r \<and> bh col l = bh col r
     \<and> (col a \<noteq> 0 \<longrightarrow> \<not> rr col l \<and> \<not> rr col r)"

definition up_red :: "(addr \<Rightarrow> byte) \<Rightarrow> step list \<Rightarrow> bool" where
  "up_red col c \<longleftrightarrow> (case up c of None \<Rightarrow> False | Some p \<Rightarrow> col p \<noteq> 0)"

lemma up_red_simps [simp]:
  "\<not> up_red col []" "up_red col (Below_left p t # c) \<longleftrightarrow> col p \<noteq> 0" "up_red col (Below_right p t # c) \<longleftrightarrow> col p \<noteq> 0"
  by (simp_all add: up_red_def)

text \<open>The path is fit for a subtree of black height \<open>n\<close>.\<close>

fun cbi :: "(addr \<Rightarrow> byte) \<Rightarrow> step list \<Rightarrow> nat \<Rightarrow> bool" where
  "cbi col [] n \<longleftrightarrow> True"
| "cbi col (Below_left p t # c) n \<longleftrightarrow> rbi col t \<and> bh col t = n
     \<and> (col p \<noteq> 0 \<longrightarrow> \<not> rr col t \<and> c \<noteq> [] \<and> \<not> up_red col c) \<and> cbi col c (n + of_bool (col p = 0))"
| "cbi col (Below_right p t # c) n \<longleftrightarrow> rbi col t \<and> bh col t = n
     \<and> (col p \<noteq> 0 \<longrightarrow> \<not> rr col t \<and> c \<noteq> [] \<and> \<not> up_red col c) \<and> cbi col c (n + of_bool (col p = 0))"

lemma plug_rbi:
  "rbi col (plug c t) \<and> \<not> rr col (plug c t)
   \<longleftrightarrow> rbi col t \<and> cbi col c (bh col t) \<and> (c = [] \<or> up_red col c \<longrightarrow> \<not> rr col t)"
  by (induction c t rule: plug.induct) auto

lemma rbi_cong:
  "(\<And>a. a \<in> set_tree t \<Longrightarrow> col' a = col a) \<Longrightarrow> rbi col' t = rbi col t \<and> bh col' t = bh col t \<and> rr col' t = rr col t"
  by (induction t) simp_all

lemma rbi_upd [simp]:
  "a \<notin> set_tree t \<Longrightarrow> rbi (col(a := v)) t = rbi col t" "a \<notin> set_tree t \<Longrightarrow> bh (col(a := v)) t = bh col t"
  "a \<notin> set_tree t \<Longrightarrow> rr (col(a := v)) t = rr col t"
  by (rule rbi_cong [of t "col(a := v)" col, THEN conjunct1] rbi_cong [of t "col(a := v)" col, THEN conjunct2, THEN conjunct1]
      rbi_cong [of t "col(a := v)" col, THEN conjunct2, THEN conjunct2]; fastforce)+

lemma up_red_upd [simp]: "a \<notin> c_nodes c \<Longrightarrow> up_red (col(a := v)) c = up_red col c"
  by (cases c rule: up.cases) auto

lemma cbi_upd [simp]: "a \<notin> c_nodes c \<Longrightarrow> cbi (col(a := v)) c n = cbi col c n"
  by (induction c arbitrary: n rule: c_left.induct) auto

text \<open>
  A left-right case is met on the way up: the node is red below a red parent, its uncle black, and
  it is a right child of a left child.
\<close>

fun node_of :: "step \<Rightarrow> addr" where
  "node_of (Below_left p t) = p"
| "node_of (Below_right p t) = p"

fun sib_of :: "step \<Rightarrow> addr tree" where
  "sib_of (Below_left p t) = t"
| "sib_of (Below_right p t) = t"

fun is_left :: "step \<Rightarrow> bool" where
  "is_left (Below_left p t) = True"
| "is_left (Below_right p t) = False"

fun meets_lr :: "(addr \<Rightarrow> byte) \<Rightarrow> step list \<Rightarrow> bool" where
  "meets_lr col (s1 # s2 # c) \<longleftrightarrow> col (node_of s1) \<noteq> 0
     \<and> (if rr col (sib_of s2) then meets_lr col c else \<not> is_left s1 \<and> is_left s2)"
| "meets_lr col _ \<longleftrightarrow> False"

lemma meets_lr_upd [simp]: "a \<notin> c_nodes c \<Longrightarrow> meets_lr (col(a := v)) c = meets_lr col c"
proof (induction col c rule: meets_lr.induct)
  case (1 col s1 s2 c)
  have "node_of s1 \<noteq> a" using 1(2) by (cases s1) auto
  moreover have "a \<notin> set_tree (sib_of s2)" "a \<notin> c_nodes c" using 1(2) by (cases s1; cases s2; auto)+
  ultimately show ?case
    unfolding meets_lr.simps using 1(1) by (metis fun_upd_other rbi_upd(3))
qed simp_all

text \<open>The fields of the sentinel are \<^verbatim>\<open>NULL\<close> or point to the sentinel, as the caller set them up.\<close>

definition quiet :: "rbt \<Rightarrow> bool" where
  "quiet h \<longleftrightarrow> r_left h (sentinel h) \<in> {None, Some (sentinel h)} \<and> r_right h (sentinel h) \<in> {None, Some (sentinel h)}"

definition rb_heap :: "rbt \<Rightarrow> addr tree \<Rightarrow> bool" where
  "rb_heap h t \<longleftrightarrow> rb_root h = rbr (sentinel h) t \<and> rt_ok h None t \<and> distinct (inorder t) \<and> sentinel h \<notin> set_tree t
     \<and> quiet h \<and> r_color h (sentinel h) = 0 \<and> rbi (r_color h) t \<and> \<not> rr (r_color h) t"

lemma rb_heap_plug:
  "rb_heap h (plug c t) \<longleftrightarrow> rt_ok h (up c) t \<and> c_ok h (rbr (sentinel h) t) c \<and> apart (sentinel h) c t
     \<and> quiet h \<and> r_color h (sentinel h) = 0 \<and> rbi (r_color h) t \<and> cbi (r_color h) c (bh (r_color h) t)
     \<and> (c = [] \<or> up_red (r_color h) c \<longrightarrow> \<not> rr (r_color h) t)"
  using plug_ok [of h c t] plug_rbi [of "r_color h" c t] by (auto simp: rb_heap_def apart_def)

section \<open>The repair after an insertion\<close>

lemma col_upd [simp]:
  "r_left (dl_rbt_red a h) = r_left h" "r_right (dl_rbt_red a h) = r_right h" "r_parent (dl_rbt_red a h) = r_parent h"
  "r_key (dl_rbt_red a h) = r_key h" "rb_root (dl_rbt_red a h) = rb_root h" "sentinel (dl_rbt_red a h) = sentinel h"
  "r_color (dl_rbt_red a h) = (r_color h)(a := 1)"
  "r_left (dl_rbt_black a h) = r_left h" "r_right (dl_rbt_black a h) = r_right h" "r_parent (dl_rbt_black a h) = r_parent h"
  "r_key (dl_rbt_black a h) = r_key h" "rb_root (dl_rbt_black a h) = rb_root h" "sentinel (dl_rbt_black a h) = sentinel h"
  "r_color (dl_rbt_black a h) = (r_color h)(a := 0)"
  by (simp_all add: dl_rbt_red_def dl_rbt_black_def)

lemma same_fields:
  "r_left h' = r_left h \<Longrightarrow> r_right h' = r_right h \<Longrightarrow> r_parent h' = r_parent h \<Longrightarrow> sentinel h' = sentinel h \<Longrightarrow>
   same h h' S"
  by (simp add: same_def)

lemma rt_ok_col [simp]:
  "rt_ok (dl_rbt_red a h) p t = rt_ok h p t" "rt_ok (dl_rbt_black a h) p t = rt_ok h p t"
  by (rule iffI; erule rt_ok_same; simp add: same_fields)+

lemma c_ok_col [simp]:
  "c_ok (dl_rbt_red a h) x c = c_ok h x c" "c_ok (dl_rbt_black a h) x c = c_ok h x c"
  by (rule iffI; erule c_ok_same; simp add: same_fields)+

lemma uncle_col [simp]: "dl_rbtree_uncle a (dl_rbt_black b h) = dl_rbtree_uncle a h"
  by (simp add: dl_rbtree_uncle_def dl_rbtree_grandparent_def dl_rbtree_sibling_def split: option.split)

lemma uncle_spec:
  assumes "rt_ok h (up (s1 # s2 # c)) (Node l a r)" "c_ok h (Some a) (s1 # s2 # c)"
    "apart (sentinel h) (s1 # s2 # c) (Node l a r)"
  shows "r_parent h a = Some (node_of s1)" "r_parent h (node_of s1) = Some (node_of s2)"
    "dl_rbtree_uncle a h = rbr (sentinel h) (sib_of s2)"
proof -
  show p: "r_parent h a = Some (node_of s1)" using assms(1) by (cases s1) auto
  show g: "r_parent h (node_of s1) = Some (node_of s2)" using assms(2) by (cases s1; cases s2) auto
  have "rbr (sentinel h) (sib_of s2) \<noteq> Some (node_of s1)"
    using assms(3) rbr_in [of "sentinel h" "sib_of s2" "node_of s1"]
    by (cases s1; cases s2) (auto simp: apart_iff)
  then show "dl_rbtree_uncle a h = rbr (sentinel h) (sib_of s2)"
    using assms(2) p g by (cases s1; cases s2)
      (auto simp: dl_rbtree_uncle_def dl_rbtree_grandparent_def dl_rbtree_sibling_def)
qed

text \<open>The two outer cases: the node is on the same side of its parent as the parent of its own.\<close>

lemma repair_outer_left:
  assumes "rt_ok h (up c) (Node (Node (Node l a r) p t) g u)" "c_ok h (Some g) c"
    and ap: "apart (sentinel h) c (Node (Node (Node l a r) p t) g u)"
  shows "\<exists>h'. repair_outer a h = Some h' \<and> rt_ok h' (up c) (Node (Node l a r) p (Node t g u)) \<and> c_ok h' (Some p) c
    \<and> r_key h' = r_key h \<and> sentinel h' = sentinel h \<and> r_color h' = (r_color h)(p := 0, g := 1)
    \<and> r_left h' (sentinel h) = r_left h (sentinel h) \<and> r_right h' (sentinel h) = r_right h (sentinel h)"
proof -
  from rb_right_rotate_spec [OF assms] obtain h1 where h1: "dl_rbtree_right_rotate g h = Some h1"
    "rt_ok h1 (up c) (Node (Node l a r) p (Node t g u))" "c_ok h1 (Some p) c" "r_key h1 = r_key h"
    "sentinel h1 = sentinel h" "r_color h1 = r_color h" "r_left h1 (sentinel h) = r_left h (sentinel h)"
    "r_right h1 (sentinel h) = r_right h (sentinel h)"
    by blast
  have "repair_outer a h = Some (dl_rbt_red g (dl_rbt_black p h1))"
    using assms(1) h1(1) by (simp add: repair_outer_def Let_def)
  then show ?thesis using h1 by (simp del: rt_ok.simps)
qed

lemma repair_outer_right:
  assumes "rt_ok h (up c) (Node u g (Node t p (Node l a r)))" "c_ok h (Some g) c"
    and ap: "apart (sentinel h) c (Node u g (Node t p (Node l a r)))"
  shows "\<exists>h'. repair_outer a h = Some h' \<and> rt_ok h' (up c) (Node (Node u g t) p (Node l a r)) \<and> c_ok h' (Some p) c
    \<and> r_key h' = r_key h \<and> sentinel h' = sentinel h \<and> r_color h' = (r_color h)(p := 0, g := 1)
    \<and> r_left h' (sentinel h) = r_left h (sentinel h) \<and> r_right h' (sentinel h) = r_right h (sentinel h)"
proof -
  from rb_left_rotate_spec [OF assms] obtain h1 where h1: "dl_rbtree_left_rotate g h = Some h1"
    "rt_ok h1 (up c) (Node (Node u g t) p (Node l a r))" "c_ok h1 (Some p) c" "r_key h1 = r_key h"
    "sentinel h1 = sentinel h" "r_color h1 = r_color h" "r_left h1 (sentinel h) = r_left h (sentinel h)"
    "r_right h1 (sentinel h) = r_right h (sentinel h)"
    by blast
  have "rbr (sentinel h) t \<noteq> Some a"
    using ap rbr_in [of "sentinel h" t a] by (auto simp: apart_iff)
  then have "repair_outer a h = Some (dl_rbt_red g (dl_rbt_black p h1))"
    using assms(1) h1(1) by (simp add: repair_outer_def Let_def)
  then show ?thesis using h1 by (simp del: rt_ok.simps)
qed

text \<open>A child of a subtree, or of the sentinel in its place, is no node outside the subtree.\<close>

lemma child_outside:
  assumes "rt_ok h p u" "quiet h" "a \<notin> set_tree u" "a \<noteq> sentinel h" "rbr (sentinel h) u = Some x"
  shows "r_left h x \<noteq> Some a" "r_right h x \<noteq> Some a"
proof -
  have "r_left h x \<noteq> Some a \<and> r_right h x \<noteq> Some a"
  proof (cases u)
    case Leaf
    then show ?thesis using assms by (auto simp: quiet_def)
  next
    case (Node l b r)
    then show ?thesis using assms rbr_in [of "sentinel h" l a] rbr_in [of "sentinel h" r a] by auto
  qed
  then show "r_left h x \<noteq> Some a" "r_right h x \<noteq> Some a" by simp_all
qed

lemma rbr_Some: "\<exists>x. rbr s t = Some x"
  by (cases t) auto

lemma repair_inner_left_left:
  assumes "rt_ok h q (Node (Node (Node l a r) p t) g u)" "quiet h"
    and ap: "apart (sentinel h) c (Node (Node (Node l a r) p t) g u)"
  shows "repair_inner a p g h = Some (a, h)"
proof -
  note D = ap [unfolded apart_iff, simplified]
  obtain x where x: "rbr (sentinel h) u = Some x" using rbr_Some by blast
  have t: "rbr (sentinel h) t \<noteq> Some a" using D rbr_in [of "sentinel h" t a] by auto
  have u: "r_left h x \<noteq> Some a"
    using assms(1) D by (intro child_outside [OF _ assms(2) _ _ x, of "Some g"]) auto
  show ?thesis using assms(1) t u x by (simp add: repair_inner_def)
qed

lemma repair_inner_right_right:
  assumes "rt_ok h q (Node u g (Node t p (Node l a r)))" "quiet h"
    and ap: "apart (sentinel h) c (Node u g (Node t p (Node l a r)))"
  shows "repair_inner a p g h = Some (a, h)"
proof -
  note D = ap [unfolded apart_iff, simplified]
  obtain x where x: "rbr (sentinel h) u = Some x" using rbr_Some by blast
  have t: "rbr (sentinel h) t \<noteq> Some a" using D rbr_in [of "sentinel h" t a] by auto
  have u: "r_right h x \<noteq> Some a"
    using assms(1) D by (intro child_outside [OF _ assms(2) _ _ x, of "Some g"]) auto
  show ?thesis using assms(1) t u x by (simp add: repair_inner_def)
qed

lemma repair_inner_right_left:
  assumes "rt_ok h (up c) (Node u g (Node (Node l a r) p t))" "c_ok h (Some g) c" "quiet h"
    and ap: "apart (sentinel h) c (Node u g (Node (Node l a r) p t))"
  shows "\<exists>h'. repair_inner a p g h = Some (p, h') \<and> rt_ok h' (up c) (Node u g (Node l a (Node r p t)))
    \<and> c_ok h' (Some g) c \<and> r_key h' = r_key h \<and> sentinel h' = sentinel h \<and> r_color h' = r_color h
    \<and> r_left h' (sentinel h) = r_left h (sentinel h) \<and> r_right h' (sentinel h) = r_right h (sentinel h)"
proof -
  note D = ap [unfolded apart_iff, simplified]
  obtain x where x: "rbr (sentinel h) u = Some x" using rbr_Some by blast
  have u: "r_right h x \<noteq> Some a"
    using assms(1) D by (intro child_outside [OF _ assms(3) _ _ x, of "Some g"]) auto
  have "rt_ok h (up (Below_right g u # c)) (Node (Node l a r) p t)" "c_ok h (Some p) (Below_right g u # c)"
    "apart (sentinel h) (Below_right g u # c) (Node (Node l a r) p t)"
    using assms by (simp_all add: apart_def)
  from rb_right_rotate_spec [OF this] obtain h1 where h1: "dl_rbtree_right_rotate p h = Some h1"
    "rt_ok h1 (Some g) (Node l a (Node r p t))" "c_ok h1 (Some a) (Below_right g u # c)" "r_key h1 = r_key h"
    "sentinel h1 = sentinel h" "r_color h1 = r_color h" "r_left h1 (sentinel h) = r_left h (sentinel h)"
    "r_right h1 (sentinel h) = r_right h (sentinel h)"
    by auto
  have "repair_inner a p g h = Some (p, h1)"
    using assms(1) x u h1(1,2) by (simp add: repair_inner_def)
  then show ?thesis using h1 by auto
qed

text \<open>The state in which the repair is entered: a red node over black subtrees, all else in order.\<close>

definition red_hole :: "rbt \<Rightarrow> step list \<Rightarrow> addr tree \<Rightarrow> addr \<Rightarrow> addr tree \<Rightarrow> bool" where
  "red_hole h c l a r \<longleftrightarrow> rt_ok h (up c) (Node l a r) \<and> c_ok h (Some a) c \<and> apart (sentinel h) c (Node l a r)
     \<and> quiet h \<and> r_color h (sentinel h) = 0 \<and> r_color h a \<noteq> 0 \<and> rbi (r_color h) l \<and> rbi (r_color h) r
     \<and> \<not> rr (r_color h) l \<and> \<not> rr (r_color h) r \<and> bh (r_color h) l = bh (r_color h) r
     \<and> cbi (r_color h) c (bh (r_color h) l)"

definition keeps :: "rbt \<Rightarrow> rbt \<Rightarrow> bool" where
  "keeps h h' \<longleftrightarrow> r_key h' = r_key h \<and> sentinel h' = sentinel h \<and> r_left h' (sentinel h) = r_left h (sentinel h)
     \<and> r_right h' (sentinel h) = r_right h (sentinel h)"

lemma keeps_quiet: "keeps h h' \<Longrightarrow> quiet h \<Longrightarrow> quiet h'"
  by (simp add: keeps_def quiet_def)

lemma keeps_trans: "keeps h h1 \<Longrightarrow> keeps h1 h2 \<Longrightarrow> keeps h h2"
  by (simp add: keeps_def)

definition repaired :: "rbt \<Rightarrow> addr list \<Rightarrow> rbt option \<Rightarrow> bool" where
  "repaired h xs res \<longleftrightarrow> (\<exists>h' t. res = Some h' \<and> rb_heap h' t \<and> inorder t = xs \<and> keeps h h')"

lemma repair_root:
  assumes "red_hole h [] l a r" shows "repaired h (inorder (Node l a r)) (dl_rbtree_repair a h)"
proof -
  have "dl_rbtree_repair a h = Some (dl_rbt_black a h)"
    using assms by (subst dl_rbtree_repair.simps) (simp add: red_hole_def)
  moreover have "rb_heap (dl_rbt_black a h) (Node l a r)"
    using assms by (simp add: red_hole_def rb_heap_def apart_def quiet_def)
  ultimately show ?thesis unfolding repaired_def keeps_def
    by (intro exI [of _ "dl_rbt_black a h"] exI [of _ "Node l a r"]) simp
qed

lemma repair_black:
  assumes "red_hole h (s1 # c) l a r" "r_color h (node_of s1) = 0"
  shows "repaired h (inorder (plug (s1 # c) (Node l a r))) (dl_rbtree_repair a h)"
proof -
  have "r_parent h a = Some (node_of s1)" using assms(1) by (cases s1) (auto simp: red_hole_def)
  then have "dl_rbtree_repair a h = Some h"
    using assms(2) by (subst dl_rbtree_repair.simps) (simp add: dl_rbt_is_red_def)
  moreover have "\<not> up_red (r_color h) (s1 # c)" using assms(2) by (cases s1) auto
  then have "rb_heap h (plug (s1 # c) (Node l a r))"
    using assms(1) unfolding rb_heap_plug by (auto simp: red_hole_def)
  ultimately show ?thesis unfolding repaired_def keeps_def by blast
qed

lemma red_hole_left_left:
  assumes "red_hole h (Below_left p t # Below_left g (Node ul u ur) # c) l a r" "r_color h p \<noteq> 0" "r_color h u \<noteq> 0"
  shows "red_hole (dl_rbt_red g (dl_rbt_black u (dl_rbt_black p h))) c (Node (Node l a r) p t) g (Node ul u ur)"
proof -
  note H = assms(1) [unfolded red_hole_def]
  have ap: "apart (sentinel h) c (Node (Node (Node l a r) p t) g (Node ul u ur))" using H by (simp add: apart_def)
  note D = ap [unfolded apart_iff, simplified]
  have ne: "u \<noteq> g" "g \<noteq> u" "u \<noteq> p" "p \<noteq> u" "g \<noteq> p" "p \<noteq> g" "a \<noteq> p" "a \<noteq> g" "a \<noteq> u" using D by blast+
  have e: "bh (r_color h) l = bh (r_color h) r" "bh (r_color h) t = bh (r_color h) r"
    "bh (r_color h) ul = bh (r_color h) r" "bh (r_color h) ur = bh (r_color h) r" "r_color h g = 0"
    "cbi (r_color h) c (Suc (bh (r_color h) r))"
    using H assms(2,3) by auto
  show ?thesis
    unfolding red_hole_def using H assms(2,3) D ap ne e by (simp add: quiet_def)
qed

lemma red_hole_left_right:
  assumes "red_hole h (Below_left p t # Below_right g (Node ul u ur) # c) l a r" "r_color h p \<noteq> 0" "r_color h u \<noteq> 0"
  shows "red_hole (dl_rbt_red g (dl_rbt_black u (dl_rbt_black p h))) c (Node ul u ur) g (Node (Node l a r) p t)"
proof -
  note H = assms(1) [unfolded red_hole_def]
  have ap: "apart (sentinel h) c (Node (Node ul u ur) g (Node (Node l a r) p t))" using H by (simp add: apart_def)
  note D = ap [unfolded apart_iff, simplified]
  have ne: "u \<noteq> g" "g \<noteq> u" "u \<noteq> p" "p \<noteq> u" "g \<noteq> p" "p \<noteq> g" "a \<noteq> p" "a \<noteq> g" "a \<noteq> u" using D by blast+
  have e: "bh (r_color h) l = bh (r_color h) r" "bh (r_color h) t = bh (r_color h) r"
    "bh (r_color h) ul = bh (r_color h) r" "bh (r_color h) ur = bh (r_color h) r" "r_color h g = 0"
    "cbi (r_color h) c (Suc (bh (r_color h) r))"
    using H assms(2,3) by auto
  show ?thesis
    unfolding red_hole_def using H assms(2,3) D ap ne e by (simp add: quiet_def)
qed

lemma red_hole_right_left:
  assumes "red_hole h (Below_right p t # Below_left g (Node ul u ur) # c) l a r" "r_color h p \<noteq> 0" "r_color h u \<noteq> 0"
  shows "red_hole (dl_rbt_red g (dl_rbt_black u (dl_rbt_black p h))) c (Node t p (Node l a r)) g (Node ul u ur)"
proof -
  note H = assms(1) [unfolded red_hole_def]
  have ap: "apart (sentinel h) c (Node (Node t p (Node l a r)) g (Node ul u ur))" using H by (simp add: apart_def)
  note D = ap [unfolded apart_iff, simplified]
  have ne: "u \<noteq> g" "g \<noteq> u" "u \<noteq> p" "p \<noteq> u" "g \<noteq> p" "p \<noteq> g" "a \<noteq> p" "a \<noteq> g" "a \<noteq> u" using D by blast+
  have e: "bh (r_color h) l = bh (r_color h) r" "bh (r_color h) t = bh (r_color h) r"
    "bh (r_color h) ul = bh (r_color h) r" "bh (r_color h) ur = bh (r_color h) r" "r_color h g = 0"
    "cbi (r_color h) c (Suc (bh (r_color h) r))"
    using H assms(2,3) by auto
  show ?thesis
    unfolding red_hole_def using H assms(2,3) D ap ne e by (simp add: quiet_def)
qed

lemma red_hole_right_right:
  assumes "red_hole h (Below_right p t # Below_right g (Node ul u ur) # c) l a r" "r_color h p \<noteq> 0" "r_color h u \<noteq> 0"
  shows "red_hole (dl_rbt_red g (dl_rbt_black u (dl_rbt_black p h))) c (Node ul u ur) g (Node t p (Node l a r))"
proof -
  note H = assms(1) [unfolded red_hole_def]
  have ap: "apart (sentinel h) c (Node (Node ul u ur) g (Node t p (Node l a r)))" using H by (simp add: apart_def)
  note D = ap [unfolded apart_iff, simplified]
  have ne: "u \<noteq> g" "g \<noteq> u" "u \<noteq> p" "p \<noteq> u" "g \<noteq> p" "p \<noteq> g" "a \<noteq> p" "a \<noteq> g" "a \<noteq> u" using D by blast+
  have e: "bh (r_color h) l = bh (r_color h) r" "bh (r_color h) t = bh (r_color h) r"
    "bh (r_color h) ul = bh (r_color h) r" "bh (r_color h) ur = bh (r_color h) r" "r_color h g = 0"
    "cbi (r_color h) c (Suc (bh (r_color h) r))"
    using H assms(2,3) by auto
  show ?thesis
    unfolding red_hole_def using H assms(2,3) D ap ne e by (simp add: quiet_def)
qed

lemma repair_uncle:
  assumes "red_hole h (s1 # s2 # c) l a r" "r_color h (node_of s1) \<noteq> 0" "rr (r_color h) (sib_of s2)"
  obtains h1 l' r' where "dl_rbtree_repair a h = dl_rbtree_repair (node_of s2) h1" "red_hole h1 c l' (node_of s2) r'"
    "plug [s1, s2] (Node l a r) = Node l' (node_of s2) r'" "keeps h h1"
    "meets_lr (r_color h1) c = meets_lr (r_color h) c"
proof -
  obtain ul u ur where u: "sib_of s2 = Node ul u ur" using assms(3) by (cases "sib_of s2") auto
  let ?p = "node_of s1" and ?g = "node_of s2"
  define h1 where "h1 = dl_rbt_red ?g (dl_rbt_black u (dl_rbt_black ?p h))"
  note H = assms(1) [unfolded red_hole_def]
  have unc: "r_parent h a = Some ?p" "r_parent h ?p = Some ?g" "dl_rbtree_uncle a h = Some u"
    using uncle_spec [of h s1 s2 c l a r] H u by auto
  have "dl_rbtree_uncle a (dl_rbt_black ?p h) = Some u"
    using unc(3) by simp
  then have run: "dl_rbtree_repair a h = dl_rbtree_repair ?g h1"
    using unc assms(2,3) by (subst dl_rbtree_repair.simps) (simp add: dl_rbt_is_red_def u h1_def Let_def)
  have col: "r_color h1 = (r_color h)(?p := 0, u := 0, ?g := 1)" by (simp add: h1_def)
  obtain l' r' where pl: "plug [s1, s2] (Node l a r) = Node l' ?g r'" by (cases s1; cases s2; auto)
  have hole: "red_hole h1 c l' ?g r'"
  proof (cases s1)
    case s1: (Below_left p t)
    show ?thesis
    proof (cases s2)
      case s2: (Below_left g v)
      show ?thesis using red_hole_left_left [of h p t g ul u ur c l a r] assms pl u by (simp add: s1 s2 h1_def)
    next
      case s2: (Below_right g v)
      show ?thesis using red_hole_left_right [of h p t g ul u ur c l a r] assms pl u by (simp add: s1 s2 h1_def)
    qed
  next
    case s1: (Below_right p t)
    show ?thesis
    proof (cases s2)
      case s2: (Below_left g v)
      show ?thesis using red_hole_right_left [of h p t g ul u ur c l a r] assms pl u by (simp add: s1 s2 h1_def)
    next
      case s2: (Below_right g v)
      show ?thesis using red_hole_right_right [of h p t g ul u ur c l a r] assms pl u by (simp add: s1 s2 h1_def)
    qed
  qed
  have "?p \<notin> c_nodes c" "u \<notin> c_nodes c" "?g \<notin> c_nodes c"
  proof -
    have "apart (sentinel h) (s1 # s2 # c) (Node l a r)" using H by simp
    then show "?p \<notin> c_nodes c" "u \<notin> c_nodes c" "?g \<notin> c_nodes c"
      using u unfolding apart_iff by (cases s1; cases s2; simp; blast)+
  qed
  then have "meets_lr (r_color h1) c = meets_lr (r_color h) c" by (simp add: col)
  moreover have "keeps h h1" by (simp add: keeps_def h1_def)
  ultimately show ?thesis using that [OF run hole pl] by blast
qed

text \<open>The last case: the rotated subtree is black on top, with the black height its position needs.\<close>

lemma repair_done:
  assumes "rt_ok h (up c) (Node L p R)" "c_ok h (Some p) c" "apart (sentinel h) c (Node L p R)" "quiet h"
    "r_color h (sentinel h) = 0" "r_color h p = 0" "rbi (r_color h) L" "rbi (r_color h) R"
    "bh (r_color h) L = bh (r_color h) R" "cbi (r_color h) c (Suc (bh (r_color h) R))"
  shows "rb_heap h (plug c (Node L p R))"
  unfolding rb_heap_plug using assms by simp

lemma repair_rotate_ll:
  assumes H: "red_hole h (Below_left p t # Below_left g u # c) l a r" and red: "r_color h p \<noteq> 0"
    and black: "\<not> rr (r_color h) u"
    and run: "dl_rbtree_repair a h = Option.bind (repair_inner a p g h) (\<lambda>(node, h). repair_outer node h)"
  shows "repaired h (inorder (plug (Below_left p t # Below_left g u # c) (Node l a r))) (dl_rbtree_repair a h)"
proof -
  note H' = H [unfolded red_hole_def]
  have T: "rt_ok h (up c) (Node (Node (Node l a r) p t) g u)" "c_ok h (Some g) c"
    "apart (sentinel h) c (Node (Node (Node l a r) p t) g u)"
    using H' by (simp_all add: apart_def)
  obtain h1 where h1: "repair_outer a h = Some h1" "rt_ok h1 (up c) (Node (Node l a r) p (Node t g u))"
    "c_ok h1 (Some p) c" "keeps h h1" "r_color h1 = (r_color h)(p := 0, g := 1)"
    using repair_outer_left [OF T] by (auto simp: keeps_def)
  have res: "dl_rbtree_repair a h = Some h1"
    using run repair_inner_left_left [OF T(1) _ T(3)] H' h1(1) by simp
  note D = T(3) [unfolded apart_iff, simplified]
  have k: "sentinel h1 = sentinel h" "quiet h1" using h1(4) H' keeps_quiet [OF h1(4)] by (simp_all add: keeps_def)
  have e: "cbi (r_color h) c (Suc (bh (r_color h) r))" "bh (r_color h) t = bh (r_color h) r" "rbi (r_color h) t"
    "bh (r_color h) u = bh (r_color h) r" "rbi (r_color h) u" "\<not> rr (r_color h) t"
    using H' red by auto
  have d: "p \<notin> set_tree l" "g \<notin> set_tree l" "p \<notin> set_tree r" "g \<notin> set_tree r" "p \<notin> set_tree t" "g \<notin> set_tree t" "p \<notin> set_tree u" "g \<notin> set_tree u"
    "p \<notin> c_nodes c" "g \<notin> c_nodes c" "p \<noteq> g" "sentinel h \<noteq> p" "sentinel h \<noteq> g"
    using D by simp_all
  have f: "r_color h (sentinel h) = 0" "rbi (r_color h) l" "rbi (r_color h) r" "\<not> rr (r_color h) l" "\<not> rr (r_color h) r"
    "bh (r_color h) l = bh (r_color h) r" "r_color h a \<noteq> 0"
    using H' by simp_all
  have nap: "a \<noteq> p" "p \<noteq> a" "a \<noteq> g" using D by blast+
  have "rb_heap h1 (plug c (Node (Node l a r) p (Node t g u)))"
  proof (rule repair_done [OF h1(2,3)])
    show "apart (sentinel h1) c (Node (Node l a r) p (Node t g u))" using T(3) k by (simp add: apart_def inorder_plug)
  qed (use h1(5) k e d f nap red black  in \<open>simp_all\<close>)
  then show ?thesis unfolding repaired_def using res h1(4) by (auto simp: inorder_plug)
qed

lemma repair_rotate_rr:
  assumes H: "red_hole h (Below_right p t # Below_right g u # c) l a r" and red: "r_color h p \<noteq> 0"
    and black: "\<not> rr (r_color h) u"
    and run: "dl_rbtree_repair a h = Option.bind (repair_inner a p g h) (\<lambda>(node, h). repair_outer node h)"
  shows "repaired h (inorder (plug (Below_right p t # Below_right g u # c) (Node l a r))) (dl_rbtree_repair a h)"
proof -
  note H' = H [unfolded red_hole_def]
  have T: "rt_ok h (up c) (Node u g (Node t p (Node l a r)))" "c_ok h (Some g) c"
    "apart (sentinel h) c (Node u g (Node t p (Node l a r)))"
    using H' by (simp_all add: apart_def)
  obtain h1 where h1: "repair_outer a h = Some h1" "rt_ok h1 (up c) (Node (Node u g t) p (Node l a r))"
    "c_ok h1 (Some p) c" "keeps h h1" "r_color h1 = (r_color h)(p := 0, g := 1)"
    using repair_outer_right [OF T] by (auto simp: keeps_def)
  have res: "dl_rbtree_repair a h = Some h1"
    using run repair_inner_right_right [OF T(1) _ T(3)] H' h1(1) by simp
  note D = T(3) [unfolded apart_iff, simplified]
  have k: "sentinel h1 = sentinel h" "quiet h1" using h1(4) H' keeps_quiet [OF h1(4)] by (simp_all add: keeps_def)
  have e: "cbi (r_color h) c (Suc (bh (r_color h) r))" "bh (r_color h) t = bh (r_color h) r" "rbi (r_color h) t"
    "bh (r_color h) u = bh (r_color h) r" "rbi (r_color h) u" "\<not> rr (r_color h) t"
    using H' red by auto
  have ne: "p \<noteq> g" "g \<noteq> p" using D by blast+
  have d: "p \<notin> set_tree l" "g \<notin> set_tree l" "p \<notin> set_tree r" "g \<notin> set_tree r" "p \<notin> set_tree t" "g \<notin> set_tree t" "p \<notin> set_tree u" "g \<notin> set_tree u"
    "p \<notin> c_nodes c" "g \<notin> c_nodes c" "p \<noteq> g" "sentinel h \<noteq> p" "sentinel h \<noteq> g"
    using D by simp_all
  have f: "r_color h (sentinel h) = 0" "rbi (r_color h) l" "rbi (r_color h) r" "\<not> rr (r_color h) l" "\<not> rr (r_color h) r"
    "bh (r_color h) l = bh (r_color h) r" "r_color h a \<noteq> 0"
    using H' by simp_all
  have nap: "a \<noteq> p" "p \<noteq> a" "a \<noteq> g" using D by blast+
  have "rb_heap h1 (plug c (Node (Node u g t) p (Node l a r)))"
  proof (rule repair_done [OF h1(2,3)])
    show "apart (sentinel h1) c (Node (Node u g t) p (Node l a r))" using T(3) k by (simp add: apart_def inorder_plug)
  qed (use h1(5) k e d f nap red black ne in \<open>simp_all\<close>)
  then show ?thesis unfolding repaired_def using res h1(4) by (auto simp: inorder_plug)
qed

lemma repair_rotate_rl:
  assumes H: "red_hole h (Below_left p t # Below_right g u # c) l a r" and red: "r_color h p \<noteq> 0"
    and black: "\<not> rr (r_color h) u"
    and run: "dl_rbtree_repair a h = Option.bind (repair_inner a p g h) (\<lambda>(node, h). repair_outer node h)"
  shows "repaired h (inorder (plug (Below_left p t # Below_right g u # c) (Node l a r))) (dl_rbtree_repair a h)"
proof -
  note H' = H [unfolded red_hole_def]
  have T: "rt_ok h (up c) (Node u g (Node (Node l a r) p t))" "c_ok h (Some g) c"
    "apart (sentinel h) c (Node u g (Node (Node l a r) p t))"
    using H' by (simp_all add: apart_def)
  obtain h1 where h1: "repair_inner a p g h = Some (p, h1)" "rt_ok h1 (up c) (Node u g (Node l a (Node r p t)))"
    "c_ok h1 (Some g) c" "keeps h h1" "r_color h1 = r_color h"
    using repair_inner_right_left [OF T(1,2) _ T(3)] H' by (auto simp: keeps_def)
  have T1: "apart (sentinel h1) c (Node u g (Node l a (Node r p t)))"
    using T(3) h1(4) by (simp add: apart_def inorder_plug keeps_def)
  obtain h2 where h2: "repair_outer p h1 = Some h2" "rt_ok h2 (up c) (Node (Node u g l) a (Node r p t))"
    "c_ok h2 (Some a) c" "keeps h1 h2" "r_color h2 = (r_color h)(a := 0, g := 1)"
    using repair_outer_right [OF h1(2,3) T1] h1(5) by (auto simp: keeps_def)
  have res: "dl_rbtree_repair a h = Some h2"
    using run h1(1) h2(1) by simp
  have k: "keeps h h2" by (rule keeps_trans [OF h1(4) h2(4)])
  note D = T(3) [unfolded apart_iff, simplified]
  have q: "sentinel h2 = sentinel h" "quiet h2" using k H' keeps_quiet [OF k] by (simp_all add: keeps_def)
  have e: "cbi (r_color h) c (Suc (bh (r_color h) r))" "bh (r_color h) t = bh (r_color h) r" "rbi (r_color h) t"
    "bh (r_color h) u = bh (r_color h) r" "rbi (r_color h) u" "\<not> rr (r_color h) t"
    using H' red by auto
  have ne: "a \<noteq> g" "g \<noteq> a" "a \<noteq> p" "p \<noteq> a" "g \<noteq> p" "p \<noteq> g" using D by blast+
  have d: "a \<notin> set_tree l" "g \<notin> set_tree l" "a \<notin> set_tree r" "g \<notin> set_tree r" "a \<notin> set_tree t" "g \<notin> set_tree t" "a \<notin> set_tree u" "g \<notin> set_tree u"
    "a \<notin> c_nodes c" "g \<notin> c_nodes c" "a \<noteq> g" "sentinel h \<noteq> a" "sentinel h \<noteq> g"
    using D by simp_all
  have f: "r_color h (sentinel h) = 0" "rbi (r_color h) l" "rbi (r_color h) r" "\<not> rr (r_color h) l" "\<not> rr (r_color h) r"
    "bh (r_color h) l = bh (r_color h) r" "r_color h a \<noteq> 0"
    using H' by simp_all
  have "rb_heap h2 (plug c (Node (Node u g l) a (Node r p t)))"
  proof (rule repair_done [OF h2(2,3)])
    show "apart (sentinel h2) c (Node (Node u g l) a (Node r p t))" using T(3) q by (simp add: apart_def inorder_plug)
  qed (use h2(5) q e d f red black ne in \<open>simp_all\<close>)
  then show ?thesis unfolding repaired_def using res k by (auto simp: inorder_plug)
qed

lemma repair_rotate:
  assumes H: "red_hole h (s1 # s2 # c) l a r" and red: "r_color h (node_of s1) \<noteq> 0"
    and black: "\<not> rr (r_color h) (sib_of s2)" and lr: "\<not> (\<not> is_left s1 \<and> is_left s2)"
  shows "repaired h (inorder (plug (s1 # s2 # c) (Node l a r))) (dl_rbtree_repair a h)"
proof -
  note H' = H [unfolded red_hole_def]
  obtain x where x: "rbr (sentinel h) (sib_of s2) = Some x" using rbr_Some by blast
  have unc: "r_parent h a = Some (node_of s1)" "r_parent h (node_of s1) = Some (node_of s2)"
    "dl_rbtree_uncle a h = Some x"
    using uncle_spec [of h s1 s2 c l a r] H' x by auto
  have "r_color h x = 0" using x black H' by (cases "sib_of s2") auto
  then have run: "dl_rbtree_repair a h = Option.bind (repair_inner a (node_of s1) (node_of s2) h)
      (\<lambda>(node, h). repair_outer node h)"
    using unc red by (subst dl_rbtree_repair.simps) (simp add: dl_rbt_is_red_def)
  consider (ll) p t g u where "s1 = Below_left p t" "s2 = Below_left g u"
    | (rr) p t g u where "s1 = Below_right p t" "s2 = Below_right g u"
    | (rl) p t g u where "s1 = Below_left p t" "s2 = Below_right g u"
    using lr by (cases s1; cases s2) auto
  then show ?thesis
    using H run red black repair_rotate_ll repair_rotate_rr repair_rotate_rl
    by cases (simp_all del: plug.simps)
qed

lemma repair_spec:
  "red_hole h c l a r \<Longrightarrow> \<not> meets_lr (r_color h) c \<Longrightarrow>
   repaired h (inorder (plug c (Node l a r))) (dl_rbtree_repair a h)"
proof (induction "length c" arbitrary: h c l a r rule: less_induct)
  case less
  show ?case
  proof (cases c)
    case Nil
    then show ?thesis using repair_root less.prems by simp
  next
    case c1: (Cons s1 c1)
    show ?thesis
    proof (cases "r_color h (node_of s1) = 0")
      case True
      then show ?thesis using repair_black less.prems c1 by blast
    next
      case red: False
      have "c1 \<noteq> []" using less.prems(1) red by (cases s1) (auto simp: red_hole_def c1)
      then obtain s2 c2 where c: "c = s1 # s2 # c2" using c1 by (cases c1) auto
      show ?thesis
      proof (cases "rr (r_color h) (sib_of s2)")
        case True
        obtain h1 l' r' where h1: "dl_rbtree_repair a h = dl_rbtree_repair (node_of s2) h1"
          "red_hole h1 c2 l' (node_of s2) r'" "plug [s1, s2] (Node l a r) = Node l' (node_of s2) r'" "keeps h h1"
          "meets_lr (r_color h1) c2 = meets_lr (r_color h) c2"
          using repair_uncle [of h s1 s2 c2 l a r] less.prems(1) red True c by metis
        have "\<not> meets_lr (r_color h1) c2" using less.prems(2) h1(5) red True c by simp
        then have "repaired h1 (inorder (plug c2 (Node l' (node_of s2) r'))) (dl_rbtree_repair (node_of s2) h1)"
          using h1(2) by (intro less.hyps) (simp_all add: c)
        moreover have "plug c2 (Node l' (node_of s2) r') = plug c (Node l a r)"
          using h1(3) by (cases s1; cases s2; simp add: c)
        ultimately show ?thesis
          using h1(1,4) unfolding repaired_def by (metis keeps_trans)
      next
        case False
        then show ?thesis using repair_rotate [of h s1 s2 c2 l a r] less.prems red by (simp add: c)
      qed
    qed
  qed
qed

section \<open>Insertion\<close>

text \<open>The path the insertion takes from the root: left below greater keys, right below the others.\<close>

fun ins_path :: "(addr \<Rightarrow> int) \<Rightarrow> int \<Rightarrow> step list \<Rightarrow> addr tree \<Rightarrow> step list" where
  "ins_path key k c Leaf = c"
| "ins_path key k c (Node l a r) =
     (if k < key a then ins_path key k (Below_left a r # c) l else ins_path key k (Below_right a l # c) r)"

definition rb_ok :: "rbt \<Rightarrow> addr tree \<Rightarrow> bool" where
  "rb_ok h t \<longleftrightarrow> rb_heap h t \<and> sorted (map (r_key h) (inorder t))"

definition insert_meets_lr :: "rbt \<Rightarrow> int \<Rightarrow> addr tree \<Rightarrow> bool" where
  "insert_meets_lr h k t \<longleftrightarrow> meets_lr (r_color h) (ins_path (r_key h) k [] t)"

lemma plug_ins_path: "plug (ins_path key k c t) Leaf = plug c t"
  by (induction t arbitrary: c) simp_all

lemma ins_path_sides:
  "sorted (map key (inorder t)) \<Longrightarrow>
   c_left (ins_path key k c t) = c_left c @ takeWhile (\<lambda>x. key x \<le> k) (inorder t)
   \<and> c_right (ins_path key k c t) = dropWhile (\<lambda>x. key x \<le> k) (inorder t) @ c_right c"
proof (induction t arbitrary: c)
  case (Node l a r)
  show ?case
  proof (cases "k < key a")
    case True
    then show ?thesis using Node by (simp add: sorted_append takeWhile_tail dropWhile_append)
  next
    case False
    then have "\<forall>x\<in>set (inorder l). key x \<le> k" using Node.prems by (fastforce simp: sorted_append)
    then have "takeWhile (\<lambda>x. key x \<le> k) (inorder l @ a # inorder r) = inorder l @ a # takeWhile (\<lambda>x. key x \<le> k) (inorder r)"
      "dropWhile (\<lambda>x. key x \<le> k) (inorder l @ a # inorder r) = dropWhile (\<lambda>x. key x \<le> k) (inorder r)"
      using False by (subst takeWhile_append2 dropWhile_append2; simp)+
    then show ?thesis using Node False by (simp add: sorted_append)
  qed
qed simp

lemma insert_loop_spec:
  "rt_ok h q t \<Longrightarrow> sentinel h \<notin> set_tree t \<Longrightarrow> t \<noteq> Leaf \<Longrightarrow>
   \<exists>s1 c'. ins_path (r_key h) k c t = s1 # c'
     \<and> Option.bind (rbr (sentinel h) t) (rb_insert_loop h k) = Some (node_of s1, is_left s1)"
proof (induction t arbitrary: q c)
  case (Node l a r)
  show ?case
  proof (cases "k < r_key h a")
    case True
    show ?thesis
    proof (cases "l = Leaf")
      case False
      then have "rb_insert_loop h k a = Option.bind (rbr (sentinel h) l) (rb_insert_loop h k)"
        using Node.prems True by (subst rb_insert_loop.simps) (cases l; auto)
      then show ?thesis
        using Node.IH(1) [of "Some a" "Below_left a r # c"] Node.prems True False by simp
    qed (use Node.prems True in \<open>subst rb_insert_loop.simps, simp\<close>)
  next
    case False
    show ?thesis
    proof (cases "r = Leaf")
      case r: False
      then have "rb_insert_loop h k a = Option.bind (rbr (sentinel h) r) (rb_insert_loop h k)"
        using Node.prems False by (subst rb_insert_loop.simps) (cases r; auto)
      then show ?thesis
        using Node.IH(2) [of "Some a" "Below_right a l # c"] Node.prems False r by simp
    qed (use Node.prems False in \<open>subst rb_insert_loop.simps, simp\<close>)
  qed
qed simp

definition link_node :: "step \<Rightarrow> addr \<Rightarrow> rbt \<Rightarrow> rbt" where
  "link_node s1 node h =
     (let h = (if is_left s1 then set_rleft (node_of s1) (Some node) h else set_rright (node_of s1) (Some node) h)
      in dl_rbt_red node (set_rright node (Some (sentinel h)) (set_rleft node (Some (sentinel h))
           (set_rparent node (Some (node_of s1)) h))))"

lemma link_spec:
  assumes "c_ok h (Some (sentinel h)) (s1 # c)" "steps_distinct (s1 # c)" "sentinel h \<notin> c_nodes (s1 # c)"
    "node \<notin> c_nodes (s1 # c)" "node \<noteq> sentinel h"
  shows "c_ok (link_node s1 node h) (Some node) (s1 # c)"
    "rt_ok (link_node s1 node h) (up (s1 # c)) (Node Leaf node Leaf)"
    "keeps h (link_node s1 node h)" "r_color (link_node s1 node h) = (r_color h)(node := 1)"
proof -
  let ?h = "link_node s1 node h"
  have "node_of s1 \<in> c_nodes (s1 # c)" by (cases s1) auto
  then have n: "node_of s1 \<noteq> node" "node_of s1 \<noteq> sentinel h" using assms(3,4) by auto
  show k: "keeps h ?h" using n assms(5) by (simp add: keeps_def link_node_def Let_def)
  show "r_color ?h = (r_color h)(node := 1)" by (simp add: link_node_def Let_def)
  show "rt_ok ?h (up (s1 # c)) (Node Leaf node Leaf)" using n by (cases s1) (simp_all add: link_node_def Let_def)
  have "same h ?h (set_tree (sib_of s1))" "same h ?h (c_nodes c)"
    using assms(2,4) by (cases s1; auto simp: same_def link_node_def Let_def)+
  note S = this
  have "rt_ok ?h (Some (node_of s1)) (sib_of s1)" using assms(1) by (intro rt_ok_same [OF _ S(1)]) (cases s1; simp)
  moreover have "c_ok ?h (Some (node_of s1)) c"
    using assms(1) by (intro c_ok_same [OF _ S(2)]) (cases s1; simp add: link_node_def Let_def)+
  ultimately show "c_ok ?h (Some node) (s1 # c)"
    using assms(1) n k by (cases s1) (simp_all add: link_node_def Let_def keeps_def)
qed

lemma insert_value_path:
  assumes "rb_heap h t" "t \<noteq> Leaf" "node \<noteq> sentinel h"
  obtains s1 c where "ins_path (r_key h) (r_key h node) [] t = s1 # c"
    "dl_rbtree_insert node h = dl_rbtree_repair node (link_node s1 node h)"
proof -
  obtain l a r where t: "t = Node l a r" using assms(2) by (cases t) auto
  have R: "rb_root h = Some a" "rt_ok h None t" "sentinel h \<notin> set_tree t"
    using assms(1) by (auto simp: rb_heap_def t)
  obtain s1 c where p: "ins_path (r_key h) (r_key h node) [] t = s1 # c"
    "rb_insert_loop h (r_key h node) a = Some (node_of s1, is_left s1)"
    using insert_loop_spec [OF R(2,3) assms(2), of "r_key h node" "[]"] by (auto simp: t)
  have "dl_rbtree_insert node h = dl_rbtree_repair node (link_node s1 node h)"
    using R p(2) by (simp add: t dl_rbtree_insert_def dl_rbtree_insert_value_def link_node_def Let_def)
  with p(1) show ?thesis using that by blast
qed

lemma insert_empty:
  assumes "rb_heap h Leaf" "node \<noteq> sentinel h"
  shows "\<exists>h'. dl_rbtree_insert node h = Some h' \<and> rb_heap h' (Node Leaf node Leaf) \<and> keeps h h'"
  using assms by (auto simp: dl_rbtree_insert_def rb_heap_def keeps_def quiet_def Let_def)

text \<open>The order of the nodes after an insertion: behind every node whose key is not greater.\<close>

definition place :: "(addr \<Rightarrow> int) \<Rightarrow> addr \<Rightarrow> addr list \<Rightarrow> addr list" where
  "place key y xs = takeWhile (\<lambda>x. key x \<le> key y) xs @ y # dropWhile (\<lambda>x. key x \<le> key y) xs"

lemma sorted_place: "sorted (map key xs) \<Longrightarrow> sorted (map key (place key y xs))"
proof (induction xs)
  case (Cons x xs)
  have "set (place key y xs) = insert y (set xs)"
    unfolding place_def by (metis append_Cons insert_iff set_append list.simps(15) takeWhile_dropWhile_id Un_insert_right)
  then show ?case using Cons by (auto simp: place_def)
qed (simp add: place_def)

lemma place_last: "\<forall>x\<in>set xs. key x \<le> key y \<Longrightarrow> place key y xs = xs @ [y]"
  by (simp add: place_def takeWhile_eq_all_conv [THEN iffD2] dropWhile_eq_Nil_conv [THEN iffD2])

lemma rb_insert_spec:
  assumes "rb_ok h t" "node \<notin> set_tree t" "node \<noteq> sentinel h" "\<not> insert_meets_lr h (r_key h node) t"
  shows "\<exists>h' t'. dl_rbtree_insert node h = Some h' \<and> rb_ok h' t' \<and> keeps h h'
    \<and> inorder t' = place (r_key h) node (inorder t)"
proof -
  let ?c = "ins_path (r_key h) (r_key h node) [] t"
  have H: "rb_heap h t" and so: "sorted (map (r_key h) (inorder t))" using assms(1) by (simp_all add: rb_ok_def)
  have xs: "inorder (plug ?c (Node Leaf node Leaf)) = place (r_key h) node (inorder t)"
    using ins_path_sides [OF so, of "r_key h node" "[]"] by (simp add: inorder_plug place_def)
  have "\<exists>h' t'. dl_rbtree_insert node h = Some h' \<and> rb_heap h' t' \<and> keeps h h'
    \<and> inorder t' = place (r_key h) node (inorder t)"
  proof (cases "t = Leaf")
    case True
    then obtain h' where "dl_rbtree_insert node h = Some h'" "rb_heap h' (Node Leaf node Leaf)" "keeps h h'"
      using insert_empty [OF _ assms(3)] H by blast
    then show ?thesis using True by (intro exI [of _ h'] exI [of _ "Node Leaf node Leaf"]) (simp add: place_def)
  next
    case False
    obtain s1 c where p: "?c = s1 # c" "dl_rbtree_insert node h = dl_rbtree_repair node (link_node s1 node h)"
      using insert_value_path [OF H False assms(3)] by blast
    have pl: "plug (s1 # c) Leaf = t" using plug_ins_path [of "r_key h" "r_key h node" "[]" t] by (simp add: p(1))
    then have Z: "rb_heap h (plug (s1 # c) Leaf)" using H by simp
    note Z' = Z [unfolded rb_heap_plug apart_iff]
    have nn: "node \<notin> c_nodes (s1 # c)"
      using assms(2) pl inorder_plug [of "s1 # c" Leaf] set_c [of "s1 # c"] by (metis Un_iff append_Nil inorder.simps(1) set_append set_inorder)
    note L = link_spec [OF _ _ _ nn assms(3)]
    have "red_hole (link_node s1 node h) (s1 # c) Leaf node Leaf"
      using L Z' nn assms(3) keeps_quiet [of h "link_node s1 node h"]
      by (auto simp: red_hole_def apart_iff keeps_def simp del: c_ok.simps rt_ok.simps)
    moreover have "\<not> meets_lr (r_color (link_node s1 node h)) (s1 # c)"
      using L(4) Z' nn assms(4) by (simp add: insert_meets_lr_def p(1))
    ultimately have "repaired (link_node s1 node h) (inorder (plug (s1 # c) (Node Leaf node Leaf)))
        (dl_rbtree_repair node (link_node s1 node h))"
      by (rule repair_spec)
    moreover have "keeps h (link_node s1 node h)" using L(3) Z' by simp
    ultimately show ?thesis
      using xs p by (auto simp: repaired_def intro: keeps_trans)
  qed
  then obtain h' t' where "dl_rbtree_insert node h = Some h'" "rb_heap h' t'" "keeps h h'"
    "inorder t' = place (r_key h) node (inorder t)" by blast
  moreover have "sorted (map (r_key h) (place (r_key h) node (inorder t)))" by (rule sorted_place [OF so])
  ultimately show ?thesis by (auto simp: rb_ok_def keeps_def)
qed

lemma lr_has_left: "meets_lr col c \<Longrightarrow> \<exists>st\<in>set c. is_left st"
  by (induction col c rule: meets_lr.induct) (auto split: if_splits)

lemma ins_path_right:
  "\<forall>x\<in>set_tree t. key x \<le> k \<Longrightarrow> \<forall>st\<in>set c. \<not> is_left st \<Longrightarrow> \<forall>st\<in>set (ins_path key k c t). \<not> is_left st"
proof (induction t arbitrary: c)
  case (Node l a r)
  have "\<not> k < key a" using Node.prems(1) by (simp add: not_less)
  then show ?case using Node.IH(2) [of "Below_right a l # c"] Node.prems by simp
qed simp

lemma greatest_no_lr:
  assumes "\<forall>x\<in>set_tree t. r_key h x \<le> k" shows "\<not> insert_meets_lr h k t"
proof -
  have "\<forall>st\<in>set (ins_path (r_key h) k [] t). \<not> is_left st" by (rule ins_path_right [OF assms]) simp
  then show ?thesis unfolding insert_meets_lr_def using lr_has_left by blast
qed

fun rb_insert_all :: "addr list \<Rightarrow> rbt \<Rightarrow> rbt option" where
  "rb_insert_all [] h = Some h"
| "rb_insert_all (a # xs) h = Option.bind (dl_rbtree_insert a h) (rb_insert_all xs)"

lemma insert_all_spec:
  "rb_ok h t \<Longrightarrow> distinct (inorder t @ xs) \<Longrightarrow> sentinel h \<notin> set xs \<Longrightarrow> sorted (map (r_key h) (inorder t @ xs)) \<Longrightarrow>
   \<exists>h' t'. rb_insert_all xs h = Some h' \<and> rb_ok h' t' \<and> inorder t' = inorder t @ xs"
proof (induction xs arbitrary: h t)
  case (Cons a xs)
  have le: "\<forall>x\<in>set_tree t. r_key h x \<le> r_key h a" using Cons.prems(4) by (auto simp: sorted_append)
  have "a \<notin> set_tree t" "a \<noteq> sentinel h" using Cons.prems(2,3) by auto
  from rb_insert_spec [OF Cons.prems(1) this greatest_no_lr [OF le]] obtain h1 t1
    where 1: "dl_rbtree_insert a h = Some h1" "rb_ok h1 t1" "keeps h h1" "inorder t1 = place (r_key h) a (inorder t)"
    by blast
  have t1: "inorder t1 = inorder t @ [a]" unfolding 1(4) by (rule place_last) (use le in simp)
  have k: "r_key h1 = r_key h" "sentinel h1 = sentinel h" using 1(3) by (simp_all add: keeps_def)
  have "distinct (inorder t1 @ xs)" "sentinel h1 \<notin> set xs" "sorted (map (r_key h1) (inorder t1 @ xs))"
    unfolding t1 k using Cons.prems(2-4) by simp_all
  from Cons.IH [OF 1(2) this] show ?case using 1(1) t1 by simp
qed auto

section \<open>The left-right case\<close>

text \<open>The new node is the right child of a red left child whose sibling is black.\<close>

definition lr_at_node :: "rbt \<Rightarrow> int \<Rightarrow> addr tree \<Rightarrow> bool" where
  "lr_at_node h k t \<longleftrightarrow>
     (case ins_path (r_key h) k [] t of
        Below_right p v # Below_left g u # c \<Rightarrow> r_color h p \<noteq> 0 \<and> \<not> rr (r_color h) u
      | _ \<Rightarrow> False)"

lemma lr_at_node_cases:
  assumes "lr_at_node h k t"
  obtains p v g u c where "ins_path (r_key h) k [] t = Below_right p v # Below_left g u # c"
    "r_color h p \<noteq> 0" "\<not> rr (r_color h) u"
  using assms unfolding lr_at_node_def by (auto split: list.splits step.splits)

lemma left_rotate_sentinel:
  "r_right h node = Some (sentinel h) \<Longrightarrow> r_left h (sentinel h) = None \<Longrightarrow> node \<noteq> sentinel h \<Longrightarrow>
   dl_rbtree_left_rotate node h = None"
  by (simp add: dl_rbtree_left_rotate_def adopt_def Let_def)

lemma insert_lr_None:
  assumes "rb_heap h t" "node \<notin> set_tree t" "node \<noteq> sentinel h" "lr_at_node h (r_key h node) t"
    "r_left h (sentinel h) = None"
  shows "dl_rbtree_insert node h = None"
proof -
  obtain p v g u c where P: "ins_path (r_key h) (r_key h node) [] t = Below_right p v # Below_left g u # c"
    "r_color h p \<noteq> 0" "\<not> rr (r_color h) u" using lr_at_node_cases [OF assms(4)] by blast
  let ?c = "Below_right p v # Below_left g u # c"
  let ?h = "link_node (Below_right p v) node h"
  have "t \<noteq> Leaf" using P(1) by auto
  then have run: "dl_rbtree_insert node h = dl_rbtree_repair node ?h"
    using insert_value_path [OF assms(1) _ assms(3)] P(1) by (metis list.inject)
  have pl: "plug ?c Leaf = t" using plug_ins_path [of "r_key h" "r_key h node" "[]" t] by (simp add: P(1))
  then have "rb_heap h (plug ?c Leaf)" using assms(1) by simp
  note Z = this [unfolded rb_heap_plug apart_iff]
  have nn: "node \<notin> c_nodes ?c"
    using assms(2) pl inorder_plug [of ?c Leaf] set_c [of ?c] by (metis Un_iff append_Nil inorder.simps(1) set_append set_inorder)
  note L = link_spec [OF _ _ _ nn assms(3)]
  have C: "c_ok ?h (Some node) ?c" "rt_ok ?h (up ?c) (Node Leaf node Leaf)" "keeps h ?h"
    "r_color ?h = (r_color h)(node := 1)"
    using L Z by (simp_all del: c_ok.simps rt_ok.simps)
  have ap: "apart (sentinel ?h) ?c (Node Leaf node Leaf)"
    using Z nn assms(3) C(3) by (simp add: apart_iff keeps_def del: c_nodes.simps)
  obtain x where x: "rbr (sentinel ?h) u = Some x" using rbr_Some by blast
  have un: "r_parent ?h node = Some p" "r_parent ?h p = Some g" "dl_rbtree_uncle node ?h = Some x"
    using uncle_spec [OF C(2,1) ap] x by simp_all
  have "x \<noteq> node" "r_color h x = 0" "p \<noteq> node"
    using x nn P(3) Z C(3) assms(3) by (cases u; auto simp: keeps_def)+
  then have nred: "\<not> dl_rbt_is_red x ?h" "dl_rbt_is_red p ?h" using C(4) P(2) by (simp_all add: dl_rbt_is_red_def)
  have "dl_rbtree_left_rotate node ?h = None"
    using C(2,3) assms(3,5) by (intro left_rotate_sentinel) (auto simp: keeps_def)
  then have "repair_inner node p g ?h = None"
    using C(1) by (simp add: repair_inner_def)
  then show ?thesis
    unfolding run using un nred by (subst dl_rbtree_repair.simps) simp
qed

section \<open>Iteration\<close>

lemma find_node: "a \<in> set_tree t \<Longrightarrow> \<exists>c l r. plug c (Node l a r) = plug c0 t"
proof (induction t arbitrary: c0)
  case (Node l b r)
  consider "a = b" | "a \<in> set_tree l" | "a \<in> set_tree r" using Node.prems by auto
  then show ?case
  proof cases
    case 1
    then show ?thesis by blast
  next
    case 2
    then show ?thesis using Node.IH(1) [of "Below_left b r # c0"] by simp
  next
    case 3
    then show ?thesis using Node.IH(2) [of "Below_right b l # c0"] by simp
  qed
qed simp

lemma rb_min_spec:
  "rt_ok h p (Node l a r) \<Longrightarrow> sentinel h \<notin> set_tree l \<Longrightarrow> rb_min_loop h a = Some (hd (inorder (Node l a r)))"
proof (induction l arbitrary: p a r)
  case (Node l1 b l2)
  have "rb_min_loop h a = rb_min_loop h b"
    using Node.prems by (subst rb_min_loop.simps) auto
  moreover have "rb_min_loop h b = Some (hd (inorder (Node l1 b l2)))"
    using Node.prems by (intro Node.IH(1)) auto
  moreover have "hd (inorder l1 @ b # inorder l2) = hd (inorder l1 @ b # inorder l2 @ a # inorder r)"
    by (cases "inorder l1") simp_all
  ultimately show ?case by simp
qed (subst rb_min_loop.simps, simp)

lemma c_ok_root: "c_ok h x c \<Longrightarrow> c \<noteq> [] \<Longrightarrow> \<exists>r. rb_root h = Some r \<and> r \<in> c_nodes c"
proof (induction c arbitrary: x rule: c_left.induct)
  case (2 p t c)
  then show ?case by (cases "c = []") auto
next
  case (3 p t c)
  then show ?case by (cases "c = []") auto
qed simp

lemma rb_next_spec:
  "c_ok h (Some x) c \<Longrightarrow> r_parent h x = up c \<Longrightarrow> x \<noteq> sentinel h \<Longrightarrow> x \<notin> c_nodes c \<Longrightarrow> steps_distinct c \<Longrightarrow>
   sentinel h \<notin> c_nodes c \<Longrightarrow> rb_next_loop h x = Some (case c_right c of [] \<Rightarrow> None | y # ys \<Rightarrow> Some y)"
proof (induction c arbitrary: x rule: c_left.induct)
  case 1
  then show ?case by (subst rb_next_loop.simps) simp
next
  case (2 p t c)
  have "rb_root h \<noteq> Some x" using c_ok_root [OF 2(2)] 2(5) by auto
  then show ?case using 2 by (subst rb_next_loop.simps) simp
next
  case (3 p t c)
  have "rb_root h \<noteq> Some x" using c_ok_root [OF 3(2)] 3(5) by auto
  moreover have "r_left h p \<noteq> Some x"
    using 3(2,4,5) rbr_in [of "sentinel h" t x] by auto
  ultimately have "rb_next_loop h x = rb_next_loop h p" using 3(3) by (subst rb_next_loop.simps) simp
  moreover have "rb_next_loop h p = Some (case c_right c of [] \<Rightarrow> None | y # ys \<Rightarrow> Some y)"
    using 3(2-7) by (intro 3(1)) auto
  ultimately show ?case by simp
qed

lemma nth_split:
  assumes "xs = as @ a # bs" "distinct xs" "i < length xs" "xs ! i = a"
  shows "i = length as" "Suc i < length xs \<longleftrightarrow> bs \<noteq> []" "bs \<noteq> [] \<Longrightarrow> xs ! Suc i = hd bs"
proof -
  have "xs ! length as = a" "length as < length xs" by (simp_all add: assms(1))
  then show i: "i = length as" using assms(2-4) nth_eq_iff_index_eq by blast
  show "Suc i < length xs \<longleftrightarrow> bs \<noteq> []" by (simp add: i assms(1))
  show "bs \<noteq> [] \<Longrightarrow> xs ! Suc i = hd bs" by (simp add: i assms(1) nth_append hd_conv_nth)
qed

lemma rb_next_nth:
  assumes "rb_heap h t" "i < length (inorder t)"
  shows "dl_rbtree_next (inorder t ! i) h = Some (if Suc i < length (inorder t) then Some (inorder t ! Suc i) else None)"
proof -
  let ?a = "inorder t ! i"
  have "?a \<in> set_tree t" using assms(2) by (metis nth_mem set_inorder)
  then obtain c l r where p: "plug c (Node l ?a r) = t" using find_node [of ?a t "[]"] by auto
  have H: "rb_heap h (plug c (Node l ?a r))" using assms(1) p by simp
  note Z = this [unfolded rb_heap_plug apart_iff]
  have t: "inorder t = (c_left c @ inorder l) @ ?a # (inorder r @ c_right c)"
    using inorder_plug [of c "Node l ?a r"] p by simp
  have d: "distinct (inorder t)" using assms(1) by (simp add: rb_heap_def)
  note N = nth_split [OF t d assms(2) refl]
  have nxt: "dl_rbtree_next ?a h = Some (case inorder r @ c_right c of [] \<Rightarrow> None | y # ys \<Rightarrow> Some y)"
  proof (cases r)
    case Leaf
    then show ?thesis using Z rb_next_spec [of h ?a c] by (simp add: dl_rbtree_next_def)
  next
    case (Node r1 b r2)
    have m: "rb_min_loop h b = Some (hd (inorder r))"
      using Z unfolding Node by (intro rb_min_spec [of h "Some ?a"]) auto
    have "r_right h ?a = Some b" "b \<noteq> sentinel h" using Z by (auto simp: Node)
    then have "dl_rbtree_next ?a h = Some (Some (hd (inorder r)))"
      using m by (simp add: dl_rbtree_next_def dl_rbtree_min_def)
    moreover obtain y ys where "inorder r = y # ys" by (cases "inorder r") (simp_all add: Node)
    ultimately show ?thesis by simp
  qed
  show ?thesis using nxt N(2,3) by (cases "inorder r @ c_right c") simp_all
qed

definition rb_repr :: "rbt \<Rightarrow> addr list \<Rightarrow> bool" where
  "rb_repr h xs \<longleftrightarrow> (\<exists>t. rb_ok h t \<and> inorder t = xs)"

interpretation rc: cursor rb_repr "\<lambda>h x. dl_rbtree_next x h"
  by unfold_locales (auto simp: rb_repr_def rb_ok_def rb_next_nth)

section \<open>Height\<close>

lemma rb_bounds:
  "rbi col t \<Longrightarrow> height t \<le> 2 * bh col t + of_bool (rr col t) \<and> 2 ^ bh col t \<le> size t + 1"
proof (induction t)
  case (Node l a r)
  then have "height l \<le> 2 * bh col l + of_bool (rr col l)" "height r \<le> 2 * bh col l + of_bool (rr col r)"
    "2 ^ bh col l \<le> size l + 1" "2 ^ bh col l \<le> size r + 1" by auto
  moreover have "col a \<noteq> 0 \<longrightarrow> \<not> rr col l \<and> \<not> rr col r" using Node.prems by simp
  moreover have "(of_bool (rr col l) :: nat) \<le> 1" "(of_bool (rr col r) :: nat) \<le> 1" by simp_all
  ultimately show ?case by (cases "col a = 0") auto
qed simp

section \<open>Deleting the root\<close>

lemma insert_below_black:
  assumes "rb_root h = Some b" "sentinel h = s" "r_right h b = Some s" "r_color h b = 0" "\<not> r_key h c < r_key h b"
    "b \<noteq> s" "c \<noteq> s" "c \<noteq> b"
  shows "dl_rbtree_insert c h = Some (link_node (Below_right b Leaf) c h)"
proof -
  have "rb_insert_loop h (r_key h c) b = Some (b, False)"
    using assms by (subst rb_insert_loop.simps) simp
  then have "dl_rbtree_insert c h = dl_rbtree_repair c (link_node (Below_right b Leaf) c h)"
    using assms by (simp add: dl_rbtree_insert_def dl_rbtree_insert_value_def link_node_def Let_def)
  moreover have "dl_rbtree_repair c (link_node (Below_right b Leaf) c h) = Some (link_node (Below_right b Leaf) c h)"
    using assms by (subst dl_rbtree_repair.simps) (simp add: link_node_def Let_def dl_rbt_is_red_def)
  ultimately show ?thesis by simp
qed

text \<open>The stale parent pointer of the new root sends the next rotation to the removed node.\<close>

lemma rotate_stale:
  assumes "rb_root h = Some b" "sentinel h = s" "r_right h b = Some c" "r_left h b = Some s" "r_parent h b = Some a"
    "r_left h a \<noteq> Some b" "r_parent h c = Some b" "r_left h c = Some s" "r_right h c = Some s" "r_color h c \<noteq> 0"
    "r_color h s = 0" "\<not> r_key h d < r_key h b" "\<not> r_key h d < r_key h c" "quiet h"
    "distinct [a, b, c, d, s]"
  shows "\<exists>h'. dl_rbtree_insert d h = Some h' \<and> rb_root h' = Some b \<and> r_left h' b = Some s \<and> r_right h' b = Some s
    \<and> r_right h' a = Some c"
proof -
  have l: "rb_insert_loop h (r_key h d) b = Some (c, False)"
    using assms by (subst rb_insert_loop.simps, simp, subst rb_insert_loop.simps, simp)
  define h1 where "h1 = link_node (Below_right c Leaf) d h"
  have f: "r_left h1 = (r_left h)(d := Some s)" "r_right h1 = (r_right h)(c := Some d, d := Some s)"
    "r_parent h1 = (r_parent h)(d := Some c)" "r_color h1 = (r_color h)(d := 1)" "rb_root h1 = Some b" "sentinel h1 = s"
    using assms(1,2) by (simp_all add: h1_def link_node_def Let_def)
  have run: "dl_rbtree_insert d h = dl_rbtree_repair d h1"
    using assms l by (simp add: dl_rbtree_insert_def dl_rbtree_insert_value_def h1_def link_node_def Let_def)
  have u: "dl_rbtree_uncle d h1 = Some s"
    using f assms by (simp add: dl_rbtree_uncle_def dl_rbtree_grandparent_def dl_rbtree_sibling_def)
  have ne: "b \<noteq> a" "a \<noteq> b" "a \<noteq> c" "c \<noteq> a" "a \<noteq> d" "a \<noteq> s" "b \<noteq> c" "c \<noteq> b" "b \<noteq> d" "d \<noteq> b" "b \<noteq> s" "c \<noteq> d"
    "d \<noteq> c" "c \<noteq> s" "d \<noteq> s" "s \<noteq> d" "s \<noteq> c" "s \<noteq> b" using assms(15) by auto
  have inner: "repair_inner d c b h1 = Some (d, h1)"
    using f assms by (auto simp: repair_inner_def quiet_def)
  obtain h2 where h2: "dl_rbtree_left_rotate b h1 = Some h2" "rb_root h2 = Some b" "r_left h2 b = Some s"
    "r_right h2 b = Some s" "r_right h2 a = Some c" "r_parent h2 = (r_parent h1)(b := Some c, c := Some a)"
    using f assms(1-14) ne by (simp add: dl_rbtree_left_rotate_def adopt_def relink_def Let_def)
  have "repair_outer d h1 = Some (dl_rbt_red b (dl_rbt_black c h2))"
    using f assms(1-14) ne h2 by (simp add: repair_outer_def Let_def)
  then have "dl_rbtree_repair d h1 = Some (dl_rbt_red b (dl_rbt_black c h2))"
    using f assms(1-14) ne u inner by (subst dl_rbtree_repair.simps) (simp add: dl_rbt_is_red_def)
  then show ?thesis using run h2 by simp
qed

lemma delete_root_spec:
  assumes "rb_heap h (Node Leaf a (Node Leaf b Leaf))" "bak \<notin> {a, b, sentinel h}"
  obtains h1 where "dl_rbtree_delete bak a h = Some h1" "rb_root h1 = Some b" "r_parent h1 b = Some a" "r_color h1 = (r_color h)(b := 0)"
    "sentinel h1 = sentinel h" "r_left h1 = (r_left h)(a := None)" "r_right h1 = (r_right h)(a := None)"
    "r_key h1 = (r_key h)(a := 0)"
proof -
  have f: "rb_root h = Some a" "r_left h a = Some (sentinel h)" "r_right h a = Some b" "r_parent h b = Some a" "a \<noteq> b"
    using assms(1) by (auto simp: rb_heap_def)
  have "delete_choice a h = Some (a, Some b)" using f by (simp add: delete_choice_def)
  then have "dl_rbtree_delete bak a h = Some (wipe a (dl_rbt_black b (set_root (Some b) h)))"
    using f by (simp add: dl_rbtree_delete_def Let_def)
  then show ?thesis by (rule that) (use f in \<open>simp_all add: wipe_def\<close>)
qed

section \<open>Properties\<close>

text \<open>C5: inserting a node into a well-formed red-black tree (child, parent and sentinel pointers, keys in
  order, no red node below a red one, equal black heights, black root) ends and gives a well-formed
  tree again, with the new node behind the nodes of lesser or equal key and the other nodes in
  their order, provided the repair meets no left-right case.\<close>

theorem rbtree_insert:
  assumes "rb_ok h t" "node \<notin> set_tree t" "node \<noteq> sentinel h" "\<not> insert_meets_lr h (r_key h node) t"
  shows "\<exists>h' t'. dl_rbtree_insert node h = Some h' \<and> rb_ok h' t' \<and> r_key h' = r_key h
    \<and> inorder t' = place (r_key h) node (inorder t)"
  using rb_insert_spec [OF assms] by (auto simp: keeps_def)

definition empty_rb :: rbt where
  "empty_rb = dl_rbtree_init 0 \<lparr>r_key = (\<lambda>a. int a), r_left = (\<lambda>_. None), r_right = (\<lambda>_. None),
     r_parent = (\<lambda>_. None), r_color = (\<lambda>_. 0), rb_root = None, sentinel = 0\<rparr>"

lemma empty_rb_ok: "rb_ok empty_rb Leaf" "sentinel empty_rb = 0" "r_key empty_rb = int"
  by (simp_all add: empty_rb_def dl_rbtree_init_def rb_ok_def rb_heap_def quiet_def dl_rbt_black_def set_rcolor_def)

theorem rbtree_insert_witness:
  "\<exists>h' t'. dl_rbtree_insert 7 empty_rb = Some h' \<and> rb_ok h' t' \<and> inorder t' = [7]"
  using rbtree_insert [OF empty_rb_ok(1), of 7] empty_rb_ok(2)
  by (auto simp: place_def insert_meets_lr_def)

text \<open>C13: inserting nodes in the order of their keys, none below a key that is in the tree, never meets
  a left-right case: the tree is well-formed and holds the old nodes followed by the new ones.\<close>

theorem rbtree_ascending:
  assumes "rb_ok h t" "distinct (inorder t @ xs)" "sentinel h \<notin> set xs" "sorted (map (r_key h) (inorder t @ xs))"
  shows "\<exists>h' t'. rb_insert_all xs h = Some h' \<and> rb_ok h' t' \<and> inorder t' = inorder t @ xs"
  using insert_all_spec [OF assms] .

theorem rbtree_ascending_witness:
  "\<exists>h' t'. rb_insert_all [1, 2, 3, 4, 5] empty_rb = Some h' \<and> rb_ok h' t' \<and> inorder t' = [1, 2, 3, 4, 5]"
  using rbtree_ascending [OF empty_rb_ok(1), of "[1, 2, 3, 4, 5]"] empty_rb_ok(2,3) by simp

text \<open>C35: in the left-right case at the new node, with a sentinel whose left field is \<^verbatim>\<open>NULL\<close>, the code
  rotates the new node instead of its parent and dereferences the \<^verbatim>\<open>NULL\<close> of the sentinel.\<close>

theorem rbtree_left_right_crash:
  assumes "rb_ok h t" "node \<notin> set_tree t" "node \<noteq> sentinel h" "lr_at_node h (r_key h node) t"
    "r_left h (sentinel h) = None"
  shows "dl_rbtree_insert node h = None"
  using assms by (intro insert_lr_None) (simp_all add: rb_ok_def)

definition pair_rb :: rbt where
  "pair_rb = \<lparr>r_key = (\<lambda>a. int a), r_left = (\<lambda>a. if a = 3 then Some 1 else if a = 1 then Some 0 else None),
     r_right = (\<lambda>a. if a \<in> {1, 3} then Some 0 else None), r_parent = (\<lambda>a. if a = 1 then Some 3 else None),
     r_color = (\<lambda>a. if a = 1 then 1 else 0), rb_root = Some 3, sentinel = 0\<rparr>"

lemma pair_rb_ok: "rb_ok pair_rb (Node (Node Leaf 1 Leaf) 3 Leaf)"
  by (simp add: pair_rb_def rb_ok_def rb_heap_def quiet_def)

theorem rbtree_left_right_crash_witness: "dl_rbtree_insert 2 pair_rb = None"
  using rbtree_left_right_crash [OF pair_rb_ok, of 2] by (simp add: pair_rb_def lr_at_node_def)

text \<open>C16: a client that starts at the least node of a well-formed tree and follows \<^verbatim>\<open>dl_rbtree_next\<close> sees
  every node once, in the order of the keys, and then gets \<^verbatim>\<open>NULL\<close>.\<close>

theorem rbtree_iterate:
  assumes "rb_ok h (Node l a r)"
  shows "\<exists>m. dl_rbtree_min a h = Some m
    \<and> walk (\<lambda>x. dl_rbtree_next x h) (size (Node l a r)) m = Some (inorder (Node l a r))"
proof -
  have "rt_ok h None (Node l a r)" "sentinel h \<notin> set_tree l" using assms by (simp_all add: rb_ok_def rb_heap_def)
  then have "dl_rbtree_min a h = Some (hd (inorder (Node l a r)))"
    using rb_min_spec by (simp add: dl_rbtree_min_def)
  moreover have "walk (\<lambda>x. dl_rbtree_next x h) (length (inorder (Node l a r))) (hd (inorder (Node l a r)))
      = Some (inorder (Node l a r))"
    using assms by (intro rc.walk_all) (auto simp: rb_repr_def)
  ultimately show ?thesis by (metis length_inorder)
qed

theorem rbtree_iterate_witness:
  "\<exists>m. dl_rbtree_min 3 pair_rb = Some m \<and> walk (\<lambda>x. dl_rbtree_next x pair_rb) 2 m = Some [1, 3]"
  using rbtree_iterate [OF pair_rb_ok] by (simp add: numeral_2_eq_2)

text \<open>The height of a well-formed red-black tree is logarithmic: a tree of height \<open>k\<close> holds at least
  \<open>2 ^ (k div 2) - 1\<close> nodes.\<close>

theorem rbtree_height:
  assumes "rb_ok h t" shows "2 ^ (height t div 2) \<le> size t + 1"
proof -
  have b: "height t \<le> 2 * bh (r_color h) t" "2 ^ bh (r_color h) t \<le> size t + 1"
    using rb_bounds [of "r_color h" t] assms by (auto simp: rb_ok_def rb_heap_def)
  then have "(2::nat) ^ (height t div 2) \<le> 2 ^ bh (r_color h) t" by (intro power_increasing) auto
  also note b(2)
  finally show ?thesis .
qed

theorem rbtree_height_witness: "(2::nat) ^ (2 div 2) \<le> 2 + 1"
  using rbtree_height [OF pair_rb_ok] by simp

text \<open>Deleting the root of a tree that has one more node leaves the parent field of the new root
  pointing to the removed node. Two more insertions behind it then lose both nodes: the rotation
  writes to the removed node and the root of the tree stays a node without children.\<close>

theorem rbtree_delete_root_stale:
  assumes "rb_ok h (Node Leaf a (Node Leaf b Leaf))" "distinct [a, b, c, d, sentinel h, bak]"
    "r_key h b \<le> r_key h c" "r_key h c \<le> r_key h d"
  shows "\<exists>h1 h2 h3. dl_rbtree_delete bak a h = Some h1 \<and> r_parent h1 b = Some a
    \<and> dl_rbtree_insert c h1 = Some h2 \<and> dl_rbtree_insert d h2 = Some h3
    \<and> rb_root h3 = Some b \<and> r_left h3 b = Some (sentinel h) \<and> r_right h3 b = Some (sentinel h)"
proof -
  have H: "rb_heap h (Node Leaf a (Node Leaf b Leaf))" using assms(1) by (simp add: rb_ok_def)
  have ne: "b \<noteq> a" "c \<noteq> a" "c \<noteq> b" "d \<noteq> a" "d \<noteq> b" "d \<noteq> c" "a \<noteq> b" "a \<noteq> c" "b \<noteq> c" "b \<noteq> d"
    "sentinel h \<noteq> a" "sentinel h \<noteq> b" "sentinel h \<noteq> c" "sentinel h \<noteq> d" "b \<noteq> sentinel h" "c \<noteq> sentinel h"
    "bak \<notin> {a, b, sentinel h}" using assms(2) by auto
  obtain h1 where h1: "dl_rbtree_delete bak a h = Some h1" "rb_root h1 = Some b" "r_parent h1 b = Some a"
    "r_color h1 = (r_color h)(b := 0)" "sentinel h1 = sentinel h" "r_left h1 = (r_left h)(a := None)"
    "r_right h1 = (r_right h)(a := None)" "r_key h1 = (r_key h)(a := 0)"
    using delete_root_spec [OF H ne(17)] by blast
  have f: "r_left h b = Some (sentinel h)" "r_right h b = Some (sentinel h)" "quiet h" "r_color h (sentinel h) = 0"
    using H by (simp_all add: rb_heap_def)
  define h2 where "h2 = link_node (Below_right b Leaf) c h1"
  have i1: "dl_rbtree_insert c h1 = Some h2"
    unfolding h2_def using h1 f ne assms(3) by (intro insert_below_black) simp_all
  have "\<exists>h3. dl_rbtree_insert d h2 = Some h3 \<and> rb_root h3 = Some b \<and> r_left h3 b = Some (sentinel h)
      \<and> r_right h3 b = Some (sentinel h) \<and> r_right h3 a = Some c"
    using h1 f ne assms(2-4) by (intro rotate_stale) (auto simp: h2_def link_node_def Let_def quiet_def)
  then show ?thesis using h1 i1 by blast
qed

definition two_rb :: rbt where
  "two_rb = \<lparr>r_key = (\<lambda>a. int a), r_left = (\<lambda>a. if a \<in> {1, 2} then Some 0 else None),
     r_right = (\<lambda>a. if a = 1 then Some 2 else if a = 2 then Some 0 else None), r_parent = (\<lambda>a. if a = 2 then Some 1 else None),
     r_color = (\<lambda>a. if a = 2 then 1 else 0), rb_root = Some 1, sentinel = 0\<rparr>"

theorem rbtree_delete_root_stale_witness:
  "\<exists>h1 h2 h3. dl_rbtree_delete 9 1 two_rb = Some h1 \<and> r_parent h1 2 = Some 1
    \<and> dl_rbtree_insert 3 h1 = Some h2 \<and> dl_rbtree_insert 4 h2 = Some h3
    \<and> rb_root h3 = Some 2 \<and> r_left h3 2 = Some 0 \<and> r_right h3 2 = Some 0"
  using rbtree_delete_root_stale [of two_rb 1 2 3 4 9]
  by (simp add: two_rb_def rb_ok_def rb_heap_def quiet_def)

end
