(* ===== verification/Dl_Pool.thy ===== *)
theory Dl_Pool
  imports Dl_Prelude
begin

text \<open>
  The memory pool of \<^verbatim>\<open>dl_pool.h\<close> and \<^verbatim>\<open>dl_pool.c\<close>. Addresses and sizes are 64-bit words, the pointer
  arithmetic of the code wraps. \<^verbatim>\<open>malloc\<close> is a parameter: a function of the live blocks and the
  requested size, \<open>None\<close> for a failure. A pool record holds the chain of blocks (the first one
  carries the pool header), the lists that hang off the header and the live blocks of the C heap.
  A write outside the live blocks and a \<^verbatim>\<open>free\<close> of anything but the start of one are undefined:
  \<open>None\<close>.
\<close>

section \<open>The C heap\<close>

type_synonym region = "u64 \<times> u64"
type_synonym malloc = "region list \<Rightarrow> u64 \<Rightarrow> u64 option"

definition inside :: "region \<Rightarrow> region \<Rightarrow> bool" where
  "inside r s \<longleftrightarrow> unat (fst s) \<le> unat (fst r) \<and> unat (fst r) + unat (snd r) \<le> unat (fst s) + unat (snd s)"

definition writable :: "region list \<Rightarrow> u64 \<Rightarrow> u64 \<Rightarrow> bool" where
  "writable live a n \<longleftrightarrow> list_ex (inside (a, n)) live"

definition dl_alloc :: "malloc \<Rightarrow> u64 \<Rightarrow> region list \<Rightarrow> u64 option \<times> region list" where
  "dl_alloc mal sz live =
     (case mal live sz of None \<Rightarrow> (None, live) | Some a \<Rightarrow> (Some a, (a, sz) # live))"

definition dl_calloc :: "malloc \<Rightarrow> u64 \<Rightarrow> region list \<Rightarrow> (u64 option \<times> region list) option" where
  "dl_calloc mal sz live =
     (case dl_alloc mal sz live of
        (None, live) \<Rightarrow> Some (None, live)
      | (Some a, live) \<Rightarrow> if writable live a sz then Some (Some a, live) else None)"

definition dl_free :: "u64 \<Rightarrow> region list \<Rightarrow> region list option" where
  "dl_free a live = (if a \<in> fst ` set live then Some (filter (\<lambda>r. fst r \<noteq> a) live) else None)"

section \<open>The pool\<close>

record pblock =
  b_addr :: u64
  b_last :: u64
  b_end :: u64
  b_failed :: int

record plarge =
  l_addr :: u64
  l_alloc :: "u64 option"

record pcleanup =
  cl_addr :: u64
  cl_handler :: "nat option"
  cl_data :: "u64 option"

text \<open>\<open>current\<close> is the position of the block \<^verbatim>\<open>pool->current\<close> points to.\<close>

record pool =
  chain :: "pblock list"
  pmax :: u64
  current :: nat
  large :: "plarge list"
  cleanups :: "pcleanup list"
  heap :: "region list"

abbreviation sizeof_pool :: u64 where "sizeof_pool \<equiv> 72"
abbreviation sizeof_large :: u64 where "sizeof_large \<equiv> 16"
abbreviation sizeof_cleanup :: u64 where "sizeof_cleanup \<equiv> 24"
abbreviation DL_MAX_ALLOC_FROM_POOL :: u64 where "DL_MAX_ALLOC_FROM_POOL \<equiv> 4095"

definition dl_align_ptr :: "u64 \<Rightarrow> u64" where
  "dl_align_ptr p = (p + (8 - 1)) AND NOT (8 - 1)"

definition dl_create_pool :: "malloc \<Rightarrow> u64 \<Rightarrow> region list \<Rightarrow> pool option option" where
  "dl_create_pool mal sz live =
     (case dl_alloc mal sz live of
        (None, _) \<Rightarrow> Some None
      | (Some p, live) \<Rightarrow>
          if \<not> writable live p sizeof_pool then None
          else let max = sz - sizeof_pool in
            Some (Some \<lparr>chain = [\<lparr>b_addr = p, b_last = p + sizeof_pool, b_end = p + sz, b_failed = 0\<rparr>],
              pmax = (if max < DL_MAX_ALLOC_FROM_POOL then max else DL_MAX_ALLOC_FROM_POOL),
              current = 0, large = [], cleanups = [], heap = live\<rparr>))"

section \<open>Allocation\<close>

text \<open>The \<^verbatim>\<open>do\<close> loop over the blocks from \<^verbatim>\<open>current\<close> on; \<open>None\<close>: no block has room.\<close>

fun small_loop :: "u64 \<Rightarrow> bool \<Rightarrow> pblock list \<Rightarrow> (u64 \<times> pblock list) option" where
  "small_loop sz align [] = None"
| "small_loop sz align (b # bs) =
     (let m = (if align then dl_align_ptr (b_last b) else b_last b)
      in if sz \<le> b_end b - m then Some (m, b\<lparr>b_last := m + sz\<rparr> # bs)
         else map_option (\<lambda>(m, bs). (m, b # bs)) (small_loop sz align bs))"

text \<open>Every block but the last one has failed once more; \<open>i\<close> is the position of the head, \<open>cur\<close> the
  current one.\<close>

fun fail_loop :: "nat \<Rightarrow> nat \<Rightarrow> pblock list \<Rightarrow> nat \<times> pblock list" where
  "fail_loop i cur (b # c # bs) =
     (let cur = (if 4 < b_failed b then Suc i else cur);
          (cur, bs) = fail_loop (Suc i) cur (c # bs)
      in (cur, b\<lparr>b_failed := b_failed b + 1\<rparr> # bs))"
| "fail_loop i cur bs = (cur, bs)"

definition dl_palloc_block :: "malloc \<Rightarrow> u64 \<Rightarrow> pool \<Rightarrow> (u64 option \<times> pool) option" where
  "dl_palloc_block mal sz p =
     (let psize = b_end (hd (chain p)) - b_addr (hd (chain p))
      in case dl_alloc mal psize (heap p) of
           (None, _) \<Rightarrow> Some (None, p)
         | (Some a, live) \<Rightarrow>
             if \<not> writable live a 32 then None
             else let m = dl_align_ptr (a + sizeof_pool);
                      new = \<lparr>b_addr = a, b_last = m + sz, b_end = a + psize, b_failed = 0\<rparr>;
                      (cur, bs) = fail_loop (current p) (current p) (drop (current p) (chain p))
                  in Some (Some m, p\<lparr>chain := take (current p) (chain p) @ bs @ [new], current := cur, heap := live\<rparr>))"

definition dl_palloc_small :: "malloc \<Rightarrow> u64 \<Rightarrow> bool \<Rightarrow> pool \<Rightarrow> (u64 option \<times> pool) option" where
  "dl_palloc_small mal sz align p =
     (case small_loop sz align (drop (current p) (chain p)) of
        Some (m, bs) \<Rightarrow> Some (Some m, p\<lparr>chain := take (current p) (chain p) @ bs\<rparr>)
      | None \<Rightarrow> dl_palloc_block mal sz p)"

text \<open>The search for a free entry gives up after five; \<open>n\<close> counts.\<close>

fun large_loop :: "nat \<Rightarrow> u64 \<Rightarrow> plarge list \<Rightarrow> plarge list option" where
  "large_loop n a [] = None"
| "large_loop n a (l # ls) =
     (if l_alloc l = None then Some (l\<lparr>l_alloc := Some a\<rparr> # ls)
      else if 3 < n then None
      else map_option ((#) l) (large_loop (Suc n) a ls))"

definition dl_palloc_large :: "malloc \<Rightarrow> u64 \<Rightarrow> pool \<Rightarrow> (u64 option \<times> pool) option" where
  "dl_palloc_large mal sz p =
     (case dl_alloc mal sz (heap p) of
        (None, _) \<Rightarrow> Some (None, p)
      | (Some a, live1) \<Rightarrow>
          let p = p\<lparr>heap := live1\<rparr>
          in case large_loop 0 a (large p) of
               Some ls \<Rightarrow> Some (Some a, p\<lparr>large := ls\<rparr>)
             | None \<Rightarrow>
                 do { (l, p) \<leftarrow> dl_palloc_small mal sizeof_large True p;
                      case l of
                        None \<Rightarrow> do { live2 \<leftarrow> dl_free a (heap p); Some (None, p\<lparr>heap := live2\<rparr>) }
                      | Some l \<Rightarrow>
                          if \<not> writable (heap p) l sizeof_large then None
                          else Some (Some a, p\<lparr>large := \<lparr>l_addr = l, l_alloc = Some a\<rparr> # large p\<rparr>) })"

definition dl_palloc :: "malloc \<Rightarrow> u64 \<Rightarrow> pool \<Rightarrow> (u64 option \<times> pool) option" where
  "dl_palloc mal sz p =
     (if sz \<le> pmax p then dl_palloc_small mal sz True p else dl_palloc_large mal sz p)"

definition dl_pnalloc :: "malloc \<Rightarrow> u64 \<Rightarrow> pool \<Rightarrow> (u64 option \<times> pool) option" where
  "dl_pnalloc mal sz p =
     (if sz \<le> pmax p then dl_palloc_small mal sz False p else dl_palloc_large mal sz p)"

definition dl_pcalloc :: "malloc \<Rightarrow> u64 \<Rightarrow> pool \<Rightarrow> (u64 option \<times> pool) option" where
  "dl_pcalloc mal sz p =
     do { (a, p) \<leftarrow> dl_palloc mal sz p;
          case a of None \<Rightarrow> Some (None, p)
          | Some a \<Rightarrow> if writable (heap p) a sz then Some (Some a, p) else None }"

section \<open>Cleanup, reset and destruction\<close>

definition dl_pool_cleanup_add :: "malloc \<Rightarrow> u64 \<Rightarrow> pool \<Rightarrow> (u64 option \<times> pool) option" where
  "dl_pool_cleanup_add mal sz p =
     do { (c, p) \<leftarrow> dl_palloc mal sizeof_cleanup p;
          case c of
            None \<Rightarrow> Some (None, p)
          | Some c \<Rightarrow>
              do { (d, p) \<leftarrow> (if sz \<noteq> 0 then dl_palloc mal sz p else Some (None, p));
                   if \<not> writable (heap p) c sizeof_cleanup then None
                   else if sz \<noteq> 0 \<and> d = None then Some (None, p)
                   else Some (Some c, p\<lparr>cleanups := \<lparr>cl_addr = c, cl_handler = None, cl_data = d\<rparr> # cleanups p\<rparr>) } }"

fun free_all :: "u64 list \<Rightarrow> region list \<Rightarrow> region list option" where
  "free_all [] live = Some live"
| "free_all (a # as) live = Option.bind (dl_free a live) (free_all as)"

definition large_allocs :: "plarge list \<Rightarrow> u64 list" where
  "large_allocs ls = List.map_filter l_alloc ls"

text \<open>The handlers that are called with their data, in order, and the C heap that is left.\<close>

definition dl_destroy_pool :: "pool \<Rightarrow> ((nat \<times> u64 option) list \<times> region list) option" where
  "dl_destroy_pool p =
     (let calls = List.map_filter (\<lambda>c. map_option (\<lambda>f. (f, cl_data c)) (cl_handler c)) (cleanups p)
      in do { live \<leftarrow> free_all (large_allocs (large p)) (heap p);
              live \<leftarrow> free_all (map b_addr (chain p)) live;
              Some (calls, live) })"

definition dl_reset_pool :: "pool \<Rightarrow> pool option" where
  "dl_reset_pool p =
     do { live \<leftarrow> free_all (large_allocs (large p)) (heap p);
          Some (p\<lparr>chain := map (\<lambda>b. b\<lparr>b_last := b_addr b + sizeof_pool, b_failed := 0\<rparr>) (chain p),
                  current := 0, large := [], heap := live\<rparr>) }"

end
