(* ===== verification/Dl_Pool_Safety.thy ===== *)
theory Dl_Pool_Safety
  imports Dl_Pool
begin

text \<open>
  What the pool promises its clients: the memory it hands out lies in live blocks, no two pieces of
  it overlap, and destruction frees every block exactly once. \<open>malloc\<close> is only assumed to do what
  the C standard says of it (\<open>malloc_ok\<close>). The interface \<open>arena\<close> states the contract; the pool's
  allocation functions are its interpretations.
\<close>

section \<open>Regions\<close>

definition disj :: "region \<Rightarrow> region \<Rightarrow> bool" where
  "disj r s \<longleftrightarrow> unat (fst r) + unat (snd r) \<le> unat (fst s) \<or> unat (fst s) + unat (snd s) \<le> unat (fst r)"

definition nowrap :: "region \<Rightarrow> bool" where
  "nowrap r \<longleftrightarrow> unat (fst r) + unat (snd r) < 2 ^ 64"

lemma disj_sym: "disj r s \<Longrightarrow> disj s r"
  by (auto simp: disj_def)

lemma disj_inside: "disj r s \<Longrightarrow> inside r' r \<Longrightarrow> disj r' s"
  by (auto simp: disj_def inside_def)

lemma inside_refl [simp]: "inside r r"
  by (simp add: inside_def)

lemma inside_trans: "inside r s \<Longrightarrow> inside s t \<Longrightarrow> inside r t"
  by (auto simp: inside_def)

lemma writableI: "r \<in> set live \<Longrightarrow> inside (a, n) r \<Longrightarrow> writable live a n"
  by (auto simp: writable_def list_ex_iff)

text \<open>
  What the C standard says of \<^verbatim>\<open>malloc\<close>: a block that fits the address space, does not overlap any
  live block, has an address of its own and is aligned for every type.
\<close>

definition malloc_ok :: "malloc \<Rightarrow> bool" where
  "malloc_ok mal \<longleftrightarrow> (\<forall>live n a. mal live n = Some a \<longrightarrow> nowrap (a, n) \<and> unat a mod 16 = 0 \<and> a \<noteq> 0
     \<and> a \<notin> fst ` set live \<and> (\<forall>r\<in>set live. disj (a, n) r))"

definition heap_ok :: "region list \<Rightarrow> bool" where
  "heap_ok live \<longleftrightarrow> sorted_wrt disj live \<and> distinct (map fst live) \<and> list_all nowrap live"

lemma alloc_heap_ok:
  "malloc_ok mal \<Longrightarrow> heap_ok live \<Longrightarrow> dl_alloc mal n live = (Some a, live') \<Longrightarrow>
   live' = (a, n) # live \<and> heap_ok live' \<and> nowrap (a, n) \<and> unat a mod 16 = 0 \<and> a \<notin> fst ` set live"
  unfolding dl_alloc_def malloc_ok_def heap_ok_def by (fastforce split: option.splits)

section \<open>Alignment\<close>

lemma and_not_mask: "x AND NOT (mask 3) = push_bit 3 (drop_bit 3 (x :: u64))"
  by (rule bit_word_eqI) (auto simp: bit_simps)

lemma align_push: "dl_align_ptr p = push_bit 3 (drop_bit 3 (p + 7))"
proof -
  have "dl_align_ptr p = (p + 7) AND NOT (mask 3)" by (simp add: dl_align_ptr_def mask_eq_exp_minus_1)
  then show ?thesis by (simp only: and_not_mask)
qed

lemma unat_align:
  assumes "unat p + 7 < 2 ^ 64" shows "unat (dl_align_ptr p) = (unat p + 7) div 8 * 8"
proof -
  have s: "unat (p + 7) = unat p + 7" using assms by (subst unat_add_lem [THEN iffD1]) simp_all
  have d: "unat (drop_bit 3 (p + 7)) = (unat p + 7) div 8" by (simp add: unat_drop_bit_div s)
  have "(unat p + 7) div 8 * 8 \<le> unat p + 7" by simp
  then have l: "(unat p + 7) div 8 * 8 < 2 ^ 64" using assms by (rule le_less_trans)
  have "unat (push_bit 3 (drop_bit 3 (p + 7))) = unat (drop_bit 3 (p + 7)) * 8 mod 2 ^ 64"
    by (simp add: push_bit_eq_mult unat_word_ariths)
  also have "\<dots> = (unat p + 7) div 8 * 8" unfolding d using l by (rule mod_less)
  finally show ?thesis unfolding align_push .
qed

lemma align_bounds:
  assumes "unat p \<le> unat (e :: u64)" "unat e mod 8 = 0"
  shows "unat p \<le> unat (dl_align_ptr p)" "unat (dl_align_ptr p) \<le> unat e" "unat (dl_align_ptr p) mod 8 = 0"
proof -
  obtain k where k: "unat e = 8 * k" using assms(2) by (metis dvdE mod_0_imp_dvd)
  have "unat e < 2 ^ 64" by (rule less_le_trans [OF unsigned_less]) simp
  then have "k < 2 ^ 61" unfolding k by simp
  then have "8 * k + 8 \<le> 2 ^ 64" by simp
  then have "unat p + 7 < 2 ^ 64" using assms(1) k by linarith
  then have a: "unat (dl_align_ptr p) = (unat p + 7) div 8 * 8" by (rule unat_align)
  show "unat p \<le> unat (dl_align_ptr p)" unfolding a by linarith
  show "unat (dl_align_ptr p) mod 8 = 0" unfolding a by simp
  have "(unat p + 7) div 8 \<le> (8 * k + 7) div 8" using assms(1) k by (intro div_le_mono) simp
  then show "unat (dl_align_ptr p) \<le> unat e" unfolding a k by simp
qed

section \<open>The invariant\<close>

definition block_ok :: "nat \<Rightarrow> region list \<Rightarrow> pblock \<Rightarrow> bool" where
  "block_ok n live b \<longleftrightarrow> (b_addr b, of_nat n) \<in> set live \<and> unat (b_addr b) mod 8 = 0
     \<and> unat (b_addr b) + 72 \<le> unat (b_last b) \<and> unat (b_last b) \<le> unat (b_end b)
     \<and> unat (b_end b) = unat (b_addr b) + n"

text \<open>A piece of memory that was handed out: below \<^verbatim>\<open>last\<close> in a block, or a block of its own.\<close>

definition held :: "pool \<Rightarrow> region \<Rightarrow> bool" where
  "held p r \<longleftrightarrow> nowrap r \<and> ((\<exists>b\<in>set (chain p). unat (b_addr b) + 72 \<le> unat (fst r) \<and> unat (fst r) + unat (snd r) \<le> unat (b_last b))
     \<or> r \<in> set (heap p) \<and> fst r \<in> set (large_allocs (large p)) - b_addr ` set (chain p))"

text \<open>The records of the pool itself that lie in its memory.\<close>

definition meta :: "pool \<Rightarrow> region list" where
  "meta p = map (\<lambda>l. (l_addr l, 16)) (large p) @ map (\<lambda>c. (cl_addr c, 24)) (cleanups p)"

text \<open>
  \<open>n\<close> is the size of a block, \<open>foreign\<close> are the live blocks that are not the pool's, \<open>gs\<close> the memory the
  clients hold.
\<close>

definition pool_inv :: "nat \<Rightarrow> region list \<Rightarrow> pool \<Rightarrow> region list \<Rightarrow> bool" where
  "pool_inv n foreign p gs \<longleftrightarrow> heap_ok (heap p) \<and> current p < length (chain p)
     \<and> (\<forall>b\<in>set (chain p). block_ok n (heap p) b) \<and> n mod 8 = 0 \<and> 88 \<le> n \<and> n < 2 ^ 64
     \<and> 16 \<le> unat (pmax p) \<and> unat (pmax p) \<le> n - 72
     \<and> distinct (map b_addr (chain p) @ large_allocs (large p) @ map fst foreign)
     \<and> set (map b_addr (chain p) @ large_allocs (large p) @ map fst foreign) = fst ` set (heap p)
     \<and> set foreign \<subseteq> set (heap p) \<and> (\<forall>r\<in>set (gs @ meta p). held p r) \<and> sorted_wrt disj (gs @ meta p)"

lemma small_loop_Some:
  "small_loop sz al bs = Some (m, bs') \<Longrightarrow> (\<forall>b\<in>set bs. block_ok n live b) \<Longrightarrow> n mod 8 = 0 \<Longrightarrow>
   \<exists>pre b post. bs = pre @ b # post \<and> bs' = pre @ b\<lparr>b_last := m + sz\<rparr> # post
     \<and> unat (b_last b) \<le> unat m \<and> unat m + unat sz \<le> unat (b_end b) \<and> unat (m + sz) = unat m + unat sz
     \<and> (al \<longrightarrow> unat m mod 8 = 0)"
proof (induction bs arbitrary: bs')
  case (Cons b bs)
  define m0 where "m0 = (if al then dl_align_ptr (b_last b) else b_last b)"
  have B: "unat (b_last b) \<le> unat (b_end b)" "unat (b_end b) mod 8 = 0"
    using Cons.prems(2,3) by (auto simp: block_ok_def mod_add_eq [symmetric])
  have m0: "unat (b_last b) \<le> unat m0" "unat m0 \<le> unat (b_end b)" "al \<longrightarrow> unat m0 mod 8 = 0"
    using align_bounds [OF B] B by (auto simp: m0_def)
  show ?case
  proof (cases "sz \<le> b_end b - m0")
    case True
    have "unat (b_end b - m0) = unat (b_end b) - unat m0" using m0(2) by (simp add: unat_sub word_le_nat_alt)
    then have le: "unat m0 + unat sz \<le> unat (b_end b)" using True m0(2) by (simp add: word_le_nat_alt)
    then have "unat m0 + unat sz < 2 ^ LENGTH(64)" using unsigned_less [of "b_end b"] by (rule le_less_trans)
    then have "unat (m0 + sz) = unat m0 + unat sz" by (rule unat_add_lem [THEN iffD1])
    moreover have "m = m0" "bs' = b\<lparr>b_last := m + sz\<rparr> # bs"
      using Cons.prems(1) True by (auto simp: m0_def Let_def)
    ultimately show ?thesis using m0 le by (intro exI [of _ "[]"] exI [of _ b] exI [of _ bs]) simp
  next
    case False
    then obtain bs1 where "small_loop sz al bs = Some (m, bs1)" "bs' = b # bs1"
      using Cons.prems(1) by (auto simp: m0_def Let_def)
    then show ?thesis using Cons.IH [of bs1] Cons.prems(2,3) by (metis append_Cons list.set_intros(2))
  qed
qed simp

text \<open>The fields of a block that the count of failures does not touch.\<close>

definition ends :: "pblock \<Rightarrow> u64 \<times> u64 \<times> u64" where
  "ends b = (b_addr b, b_last b, b_end b)"

lemma fail_loop_spec:
  "fail_loop i cur bs = (cur', bs') \<Longrightarrow>
   map ends bs' = map ends bs \<and> (cur' = cur \<or> i < cur' \<and> cur' < i + length bs)"
proof (induction i cur bs arbitrary: cur' bs' rule: fail_loop.induct)
  case (1 i cur b c bs)
  obtain cur1 bs1 where r: "fail_loop (Suc i) (if 4 < b_failed b then Suc i else cur) (c # bs) = (cur1, bs1)"
    by fastforce
  from 1(1) [OF refl r] 1(2) r show ?case by (auto simp: Let_def ends_def split: if_splits)
qed auto

section \<open>Small pieces\<close>

definition got :: "u64 option \<Rightarrow> u64 \<Rightarrow> region list" where
  "got r sz = (case r of None \<Rightarrow> [] | Some a \<Rightarrow> [(a, sz)])"

lemma got_simps [simp]: "got None sz = []" "got (Some a) sz = [(a, sz)]"
  by (simp_all add: got_def)

lemma heap_disj: "heap_ok live \<Longrightarrow> r \<in> set live \<Longrightarrow> s \<in> set live \<Longrightarrow> fst r \<noteq> fst s \<Longrightarrow> disj r s"
  unfolding heap_ok_def by (induction live) (auto intro: disj_sym)

lemma heap_unique: "heap_ok live \<Longrightarrow> (a, m) \<in> set live \<Longrightarrow> (a, n) \<in> set live \<Longrightarrow> m = n"
  unfolding heap_ok_def by (meson eq_key_imp_eq_value)

lemma unat_of_nat64: "n < 2 ^ 64 \<Longrightarrow> unat (of_nat n :: u64) = n"
  by (rule unat_of_nat_len) simp

text \<open>A held piece lies in a live block; in one block of the chain it lies below \<^verbatim>\<open>last\<close>.\<close>

lemma held_inside:
  assumes "held p g" "\<forall>b\<in>set (chain p). block_ok n (heap p) b" "n < 2 ^ 64"
  shows "\<exists>q\<in>set (heap p). inside g q \<and> fst q \<in> b_addr ` set (chain p) \<union> set (large_allocs (large p)) \<and> (\<forall>b\<in>set (chain p). fst q = b_addr b \<longrightarrow>
    distinct (map b_addr (chain p)) \<longrightarrow> unat (fst g) + unat (snd g) \<le> unat (b_last b))"
proof -
  consider b where "b \<in> set (chain p)" "unat (b_addr b) + 72 \<le> unat (fst g)"
      "unat (fst g) + unat (snd g) \<le> unat (b_last b)"
    | "g \<in> set (heap p)" "fst g \<in> set (large_allocs (large p))" "fst g \<notin> b_addr ` set (chain p)"
    using assms(1) unfolding held_def by blast
  then show ?thesis
  proof cases
    case 1
    have B: "block_ok n (heap p) b" using assms(2) 1(1) by blast
    then have "inside g (b_addr b, of_nat n)" "(b_addr b, of_nat n) \<in> set (heap p)"
      using 1(2,3) unat_of_nat64 [OF assms(3)] by (auto simp: inside_def block_ok_def)
    moreover have "\<forall>b'\<in>set (chain p). b_addr b = b_addr b' \<longrightarrow> distinct (map b_addr (chain p)) \<longrightarrow> b' = b"
      using 1(1) by (metis distinct_map inj_on_def)
    ultimately show ?thesis using 1(1,3) by (intro bexI [of _ "(b_addr b, of_nat n)"]) auto
  next
    case 2
    then show ?thesis by (intro bexI [of _ g]) auto
  qed
qed

lemma held_disj:
  assumes "held p g" "\<forall>b\<in>set (chain p). block_ok n (heap p) b" "n < 2 ^ 64" "heap_ok (heap p)"
    "distinct (map b_addr (chain p))" "b \<in> set (chain p)" "unat (b_last b) \<le> unat (fst r)"
    "unat (fst r) + unat (snd r) \<le> unat (b_end b)"
  shows "disj r g"
proof -
  obtain q where q: "q \<in> set (heap p)" "inside g q"
    "\<forall>b\<in>set (chain p). fst q = b_addr b \<longrightarrow> unat (fst g) + unat (snd g) \<le> unat (b_last b)"
    using held_inside [OF assms(1-3)] assms(5) by blast
  have B: "block_ok n (heap p) b" using assms(2,6) by blast
  show ?thesis
  proof (cases "fst q = b_addr b")
    case True
    then show ?thesis using q(3) assms(6,7) by (auto simp: disj_def)
  next
    case False
    have "(b_addr b, of_nat n) \<in> set (heap p)" using B by (simp add: block_ok_def)
    then have "disj q (b_addr b, of_nat n)" using heap_disj [OF assms(4) q(1)] False by simp
    moreover have "inside r (b_addr b, of_nat n)"
      using B assms(7,8) unat_of_nat64 [OF assms(3)] by (auto simp: inside_def block_ok_def)
    ultimately have "disj r q" by (metis disj_inside disj_sym)
    then show ?thesis using q(2) disj_inside disj_sym by blast
  qed
qed

lemma inv_fields:
  assumes "pool_inv n F p gs"
  shows "heap_ok (heap p)" "current p < length (chain p)" "\<forall>b\<in>set (chain p). block_ok n (heap p) b" "n mod 8 = 0"
    "88 \<le> n" "n < 2 ^ 64" "16 \<le> unat (pmax p)" "unat (pmax p) \<le> n - 72" "distinct (map b_addr (chain p))"
    "\<forall>r\<in>set (gs @ meta p). held p r" "sorted_wrt disj (gs @ meta p)"
  using assms by (simp_all add: pool_inv_def)

text \<open>Moving \<^verbatim>\<open>last\<close> of one block hands out the memory in between.\<close>

lemma bump_inv:
  assumes I: "pool_inv n F p gs" and c: "chain p = A @ b # B" and m: "unat (b_last b) \<le> unat m"
    "unat m + unat sz \<le> unat (b_end b)" "unat (m + sz) = unat m + unat sz"
    and p': "p' = p\<lparr>chain := A @ b\<lparr>b_last := m + sz\<rparr> # B\<rparr>"
  shows "pool_inv n F p' ((m, sz) # gs)" "nowrap (m, sz)" "writable (heap p') m sz"
proof -
  note f = inv_fields [OF I]
  have B: "block_ok n (heap p) b" "b \<in> set (chain p)" using f(3) by (simp_all add: c)
  have meta: "meta p' = meta p" by (simp add: p' meta_def)
  have e: "unat (b_end b) < 2 ^ 64" by (rule less_le_trans [OF unsigned_less]) simp
  then show nw: "nowrap (m, sz)" using m(2) by (simp add: nowrap_def)
  have d: "\<forall>g\<in>set (gs @ meta p). disj (m, sz) g"
    using f(10) held_disj [OF _ f(3,6,1,9) B(2), of _ "(m, sz)"] m by simp
  have old: "held p' g" if "held p g" for g
    using that m unfolding held_def p' c by fastforce
  have new: "held p' (m, sz)"
    using nw B m unfolding held_def p' by (auto simp: block_ok_def)
  have addrs: "map b_addr (chain p') = map b_addr (chain p)" by (simp add: p' c)
  have "\<forall>b\<in>set (chain p'). block_ok n (heap p') b"
  proof -
    have "block_ok n (heap p) (b\<lparr>b_last := m + sz\<rparr>)" using B(1) m by (simp add: block_ok_def)
    then show ?thesis using f(3) by (simp add: p' c)
  qed
  moreover have "length (chain p') = length (chain p)" by (simp add: p' c)
  moreover have "\<forall>r\<in>set (((m, sz) # gs) @ meta p'). held p' r" using f(10) old new by (auto simp: meta)
  moreover have "sorted_wrt disj (((m, sz) # gs) @ meta p')" using d f(11) by (simp add: meta)
  moreover have "large p' = large p" "heap p' = heap p" "current p' = current p" "pmax p' = pmax p" by (simp_all add: p')
  ultimately show "pool_inv n F p' ((m, sz) # gs)"
    using I unfolding pool_inv_def addrs by simp
  have "inside (m, sz) (b_addr b, of_nat n)"
    using B m unat_of_nat64 [OF f(6)] by (auto simp: inside_def block_ok_def)
  then show "writable (heap p') m sz" using B(1) by (auto simp: p' block_ok_def intro: writableI)
qed

lemma ends_ex: "ends b \<in> ends ` set bs \<Longrightarrow> \<exists>c\<in>set bs. b_addr c = b_addr b \<and> b_last c = b_last b \<and> b_end c = b_end b"
  by (auto simp: ends_def)

lemma addr_ends: "b_addr ` set bs = fst ` ends ` set bs"
  by (auto simp: ends_def image_image)

lemma map_addr_ends: "map b_addr bs = map fst (map ends bs)"
  by (simp add: ends_def)

lemma held_new_block:
  assumes "held p g" "set (heap p) \<subseteq> set (heap p')" "a \<notin> fst ` set (heap p)"
    "ends ` set (chain p') = insert (a, l, e) (ends ` set (chain p))" "large p' = large p"
  shows "held p' g"
proof -
  have ex: "\<exists>b'\<in>set (chain p'). b_addr b' = b_addr b \<and> b_last b' = b_last b" if "b \<in> set (chain p)" for b
    using that assms(4) ends_ex [of b "chain p'"] by auto
  have own: "r \<notin> b_addr ` set (chain p')" if "r \<in> fst ` set (heap p)" "r \<notin> b_addr ` set (chain p)" for r
    using that assms(3) unfolding addr_ends assms(4) by auto
  show ?thesis using assms(1) unfolding held_def
  proof (elim conjE disjE bexE)
    fix b assume "nowrap g" "b \<in> set (chain p)" "unat (b_addr b) + 72 \<le> unat (fst g)"
      "unat (fst g) + unat (snd g) \<le> unat (b_last b)"
    with ex [of b] show "nowrap g \<and> ((\<exists>b\<in>set (chain p'). unat (b_addr b) + 72 \<le> unat (fst g)
        \<and> unat (fst g) + unat (snd g) \<le> unat (b_last b))
        \<or> g \<in> set (heap p') \<and> fst g \<in> set (large_allocs (large p')) - b_addr ` set (chain p'))"
      by metis
  next
    assume "nowrap g" "g \<in> set (heap p)" "fst g \<in> set (large_allocs (large p)) - b_addr ` set (chain p)"
    with own [of "fst g"] assms(2,5) show "nowrap g \<and> ((\<exists>b\<in>set (chain p'). unat (b_addr b) + 72 \<le> unat (fst g)
        \<and> unat (fst g) + unat (snd g) \<le> unat (b_last b))
        \<or> g \<in> set (heap p') \<and> fst g \<in> set (large_allocs (large p')) - b_addr ` set (chain p'))"
      by auto
  qed
qed

lemma block_inv:
  assumes M: "malloc_ok mal" and I: "pool_inv n F p gs" and sz: "unat sz \<le> unat (pmax p)"
  shows "\<exists>r p'. dl_palloc_block mal sz p = Some (r, p') \<and> pool_inv n F p' (got r sz @ gs)
    \<and> (\<forall>a. r = Some a \<longrightarrow> nowrap (a, sz) \<and> unat a mod 8 = 0 \<and> writable (heap p') a sz)
    \<and> large p' = large p \<and> cleanups p' = cleanups p \<and> pmax p' = pmax p \<and> set (heap p) \<subseteq> set (heap p')"
proof -
  note f = inv_fields [OF I]
  have "chain p \<noteq> []" using f(2) by auto
  then have h: "block_ok n (heap p) (hd (chain p))" using f(3) by simp
  let ?n = "of_nat n :: u64"
  have un: "unat ?n = n" by (rule unat_of_nat64 [OF f(6)])
  have ps: "b_end (hd (chain p)) - b_addr (hd (chain p)) = ?n"
    using h un by (simp add: word_unat_eq_iff unat_sub word_le_nat_alt block_ok_def)
  show ?thesis
  proof (cases "mal (heap p) ?n")
    case None
    then show ?thesis using I ps by (simp add: dl_palloc_block_def dl_alloc_def Let_def)
  next
    case (Some a)
    then have al: "dl_alloc mal ?n (heap p) = (Some a, (a, ?n) # heap p)" by (simp add: dl_alloc_def)
    have A: "heap_ok ((a, ?n) # heap p)" "nowrap (a, ?n)" "unat a mod 16 = 0" "a \<notin> fst ` set (heap p)"
      using alloc_heap_ok [OF M f(1) al] by auto
    have w: "writable ((a, ?n) # heap p) a 32"
      using f(5) un by (intro writableI [of "(a, ?n)"]) (auto simp: inside_def)
    obtain cur bs where fl: "fail_loop (current p) (current p) (drop (current p) (chain p)) = (cur, bs)" by fastforce
    note FL = fail_loop_spec [OF fl]
    have len: "length bs = length (chain p) - current p" using FL by (metis length_map length_drop)
    define m where "m = dl_align_ptr (a + 72)"
    have nw: "unat a + n < 2 ^ 64" using A(2) un by (simp add: nowrap_def)
    have a72: "unat (a + 72) = unat a + 72" using nw f(5) by (subst unat_add_lem [THEN iffD1]) simp_all
    have m: "unat m = unat a + 72"
    proof -
      have "unat m = (unat a + 72 + 7) div 8 * 8"
        unfolding m_def using nw f(5) a72 by (subst unat_align) simp_all
      also have "\<dots> = unat a + 72" using A(3) by presburger
      finally show ?thesis .
    qed
    have szn: "72 + unat sz \<le> n" using sz f(5,8) by simp
    have last: "unat (m + sz) = unat a + 72 + unat sz"
      using m szn nw by (subst unat_add_lem [THEN iffD1]) simp_all
    have fin: "unat (a + ?n) = unat a + n" using nw un by (subst unat_add_lem [THEN iffD1]) simp_all
    define new where "new = \<lparr>b_addr = a, b_last = m + sz, b_end = a + ?n, b_failed = 0\<rparr>"
    define p' where "p' = p\<lparr>chain := take (current p) (chain p) @ bs @ [new], current := cur, heap := (a, ?n) # heap p\<rparr>"
    have run: "dl_palloc_block mal sz p = Some (Some m, p')"
      using w al by (simp add: dl_palloc_block_def Let_def ps fl p'_def new_def m_def)
    have "map ends (chain p') = map ends (take (current p) (chain p)) @ map ends (drop (current p) (chain p)) @ [ends new]"
      using FL by (simp add: p'_def)
    then have ch: "map ends (chain p') = map ends (chain p) @ [ends new]"
      by (simp only: append_assoc [symmetric] map_append [symmetric] append_take_drop_id)
    have chs: "ends ` set (chain p') = insert (a, m + sz, a + ?n) (ends ` set (chain p))"
      using arg_cong [OF ch, of set] by (simp add: ends_def new_def)
    have ok: "\<forall>b\<in>set (chain p'). block_ok n (heap p') b"
    proof
      fix b assume "b \<in> set (chain p')"
      then have "ends b \<in> insert (a, m + sz, a + ?n) (ends ` set (chain p))" using chs by blast
      then show "block_ok n (heap p') b"
      proof
        assume "ends b = (a, m + sz, a + ?n)"
        moreover have "unat a mod 8 = 0" using A(3) by presburger
        ultimately show ?thesis using szn last fin by (simp add: ends_def block_ok_def p'_def)
      next
        assume "ends b \<in> ends ` set (chain p)"
        then obtain c where "c \<in> set (chain p)" "b_addr c = b_addr b" "b_last c = b_last b" "b_end c = b_end b"
          using ends_ex by blast
        then show ?thesis using f(3) by (fastforce simp: block_ok_def p'_def)
      qed
    qed
    have old: "held p' g" if "held p g" for g
      by (rule held_new_block [OF that _ A(4) chs]) (auto simp: p'_def)
    have nb: "new \<in> set (chain p')" by (simp add: p'_def)
    have new: "held p' (m, sz)"
      using nb m last szn nw unfolding held_def nowrap_def
      by (intro conjI disjI1 bexI [of _ new]) (simp_all add: new_def)
    have mt: "meta p' = meta p" by (simp add: p'_def meta_def)
    have d: "\<forall>g\<in>set (gs @ meta p). disj (m, sz) g"
    proof
      fix g assume "g \<in> set (gs @ meta p)"
      then have "held p g" using f(10) by blast
      then obtain q where q: "q \<in> set (heap p)" "inside g q" using held_inside [OF _ f(3,6)] by blast
      have "disj (a, ?n) q"
        using q(1) A(1) by (auto simp: heap_ok_def)
      moreover have "inside (m, sz) (a, ?n)" using m szn un by (simp add: inside_def)
      ultimately show "disj (m, sz) g" using q(2) by (metis disj_inside disj_sym)
    qed
    have addrs: "map b_addr (chain p') = map b_addr (chain p) @ [a]" using ch by (simp add: map_addr_ends ends_def new_def)
    have cur: "current p' < length (chain p')"
      using FL f(2) len by (auto simp: p'_def)
    have "pool_inv n F p' ((m, sz) # gs)"
    proof -
      have "\<forall>r\<in>set (((m, sz) # gs) @ meta p'). held p' r" using f(10) old new by (auto simp: mt)
      moreover have "sorted_wrt disj (((m, sz) # gs) @ meta p')" using d f(11) by (simp add: mt)
      moreover have "large p' = large p" "pmax p' = pmax p" "heap p' = (a, ?n) # heap p" by (simp_all add: p'_def)
      ultimately show ?thesis using I A(1,4) ok cur unfolding pool_inv_def addrs by auto
    qed
    moreover have "writable (heap p') m sz"
      using m szn un by (intro writableI [of "(a, ?n)"]) (simp_all add: p'_def inside_def)
    moreover have "nowrap (m, sz)" using new by (simp add: held_def)
    moreover have "unat m mod 8 = 0" unfolding m using A(3) by presburger
    ultimately show ?thesis using run by (intro exI [of _ "Some m"] exI [of _ p']) (auto simp: p'_def)
  qed
qed

text \<open>What an allocation function does to a pool in order; \<open>al\<close>: the result is aligned.\<close>

definition serves :: "nat \<Rightarrow> region list \<Rightarrow> pool \<Rightarrow> region list \<Rightarrow> u64 \<Rightarrow> bool \<Rightarrow> (u64 option \<times> pool) option \<Rightarrow> bool" where
  "serves n F p gs sz al res \<longleftrightarrow> (\<exists>r p'. res = Some (r, p') \<and> pool_inv n F p' (got r sz @ gs)
    \<and> (\<forall>a. r = Some a \<longrightarrow> nowrap (a, sz) \<and> (al \<longrightarrow> unat a mod 8 = 0) \<and> writable (heap p') a sz)
    \<and> cleanups p' = cleanups p \<and> pmax p' = pmax p)"

lemma small_spec:
  assumes M: "malloc_ok mal" and I: "pool_inv n F p gs" and sz: "unat sz \<le> unat (pmax p)"
  shows "\<exists>r p'. dl_palloc_small mal sz al p = Some (r, p') \<and> pool_inv n F p' (got r sz @ gs)
    \<and> (\<forall>a. r = Some a \<longrightarrow> nowrap (a, sz) \<and> (al \<longrightarrow> unat a mod 8 = 0) \<and> writable (heap p') a sz)
    \<and> large p' = large p \<and> cleanups p' = cleanups p \<and> pmax p' = pmax p \<and> set (heap p) \<subseteq> set (heap p')"
proof (cases "small_loop sz al (drop (current p) (chain p))")
  case None
  then have "dl_palloc_small mal sz al p = dl_palloc_block mal sz p" by (simp add: dl_palloc_small_def)
  with block_inv [OF M I sz] show ?thesis by (metis (no_types))
next
  case (Some mb)
  obtain m bs where mb: "mb = (m, bs)" by fastforce
  note f = inv_fields [OF I]
  have ok: "\<forall>b\<in>set (drop (current p) (chain p)). block_ok n (heap p) b"
    using f(3) by (meson in_set_dropD)
  obtain pre b post where L: "drop (current p) (chain p) = pre @ b # post" "bs = pre @ b\<lparr>b_last := m + sz\<rparr> # post"
    "unat (b_last b) \<le> unat m" "unat m + unat sz \<le> unat (b_end b)" "unat (m + sz) = unat m + unat sz"
    "al \<longrightarrow> unat m mod 8 = 0"
    using small_loop_Some [OF Some [unfolded mb] ok f(4)] by (elim exE conjE) (rule that)
  define p' where "p' = p\<lparr>chain := (take (current p) (chain p) @ pre) @ b\<lparr>b_last := m + sz\<rparr> # post\<rparr>"
  have ch: "chain p = (take (current p) (chain p) @ pre) @ b # post" using L(1) by (metis append_assoc append_take_drop_id)
  note B = bump_inv [OF I ch L(3-5) p'_def]
  have "dl_palloc_small mal sz al p = Some (Some m, p')"
    using Some by (simp add: dl_palloc_small_def mb L(2) p'_def)
  then show ?thesis using B L(6) by (intro exI [of _ "Some m"] exI [of _ p']) (simp add: p'_def)
qed

section \<open>Large pieces\<close>

lemma large_loop_Some:
  "large_loop i a ls = Some ls' \<Longrightarrow> \<exists>pre l post. ls = pre @ l # post \<and> l_alloc l = None \<and> ls' = pre @ l\<lparr>l_alloc := Some a\<rparr> # post"
proof (induction ls arbitrary: i ls')
  case (Cons l ls)
  show ?case
  proof (cases "l_alloc l = None")
    case True
    then show ?thesis using Cons.prems by (intro exI [of _ "[]"]) auto
  next
    case False
    then obtain ls1 where "large_loop (Suc i) a ls = Some ls1" "ls' = l # ls1"
      using Cons.prems by (auto split: if_splits)
    then show ?thesis using Cons.IH by (metis append_Cons)
  qed
qed simp

lemma large_allocs_simps [simp]:
  "large_allocs [] = []" "large_allocs (l # ls) = (case l_alloc l of None \<Rightarrow> [] | Some a \<Rightarrow> [a]) @ large_allocs ls"
  "large_allocs (xs @ ys) = large_allocs xs @ large_allocs ys"
  by (simp_all add: large_allocs_def List.map_filter_def split: option.split)

lemma held_heap:
  "held p g \<Longrightarrow> chain p' = chain p \<Longrightarrow> set (heap p) \<subseteq> set (heap p') \<Longrightarrow>
   set (large_allocs (large p)) \<subseteq> set (large_allocs (large p')) \<Longrightarrow> held p' g"
  unfolding held_def by auto

lemma block_ok_mono: "block_ok n live b \<Longrightarrow> set live \<subseteq> set live' \<Longrightarrow> block_ok n live' b"
  by (auto simp: block_ok_def)

text \<open>A block fresh from \<^verbatim>\<open>malloc\<close> is foreign until the pool enters it into its list.\<close>

lemma foreign_inv:
  assumes I: "pool_inv n F p gs" and H: "heap_ok ((a, sz) # heap p)" "a \<notin> fst ` set (heap p)"
  shows "pool_inv n ((a, sz) # F) (p\<lparr>heap := (a, sz) # heap p\<rparr>) gs"
proof -
  let ?p = "p\<lparr>heap := (a, sz) # heap p\<rparr>"
  note f = inv_fields [OF I]
  have "\<forall>b\<in>set (chain ?p). block_ok n (heap ?p) b"
    using f(3) block_ok_mono [of n "heap p" _ "heap ?p"] by auto
  moreover have "\<forall>r\<in>set (gs @ meta ?p). held ?p r" using f(10) held_heap [of p _ ?p] by (auto simp: meta_def)
  moreover have "set (map b_addr (chain p) @ large_allocs (large p) @ map fst F) = fst ` set (heap p)"
    "distinct (map b_addr (chain p) @ large_allocs (large p) @ map fst F)" "set F \<subseteq> set (heap p)"
    using I by (simp_all add: pool_inv_def)
  ultimately show ?thesis using I H unfolding pool_inv_def by (auto simp: meta_def)
qed

lemma sorted_disj_move: "sorted_wrt disj (as @ x # bs) \<longleftrightarrow> sorted_wrt disj (x # as @ bs)"
  by (auto simp: sorted_wrt_append intro: disj_sym)

text \<open>A foreign block that is entered into the list of large blocks.\<close>

lemma enter_inv:
  assumes I: "pool_inv n ((a, sz) # F) p gs"
    and ls: "large_allocs ls = as @ a # bs" "large_allocs (large p) = as @ bs"
    and mt: "sorted_wrt disj (gs @ meta p')" "\<forall>r\<in>set (gs @ meta p'). held p r"
    and p': "p' = p\<lparr>large := ls\<rparr>"
  shows "pool_inv n F p' ((a, sz) # gs)" "nowrap (a, sz)" "writable (heap p') a sz"
proof -
  note f = inv_fields [OF I]
  have H: "(a, sz) \<in> set (heap p)" "a \<notin> b_addr ` set (chain p)"
    using I by (auto simp: pool_inv_def)
  then show nw: "nowrap (a, sz)" using f(1) by (auto simp: heap_ok_def list_all_iff)
  show "writable (heap p') a sz" using H by (auto simp: p' intro: writableI)
  have ha: "held p' (a, sz)" using H nw ls(1) by (simp add: held_def p')
  have d: "disj (a, sz) g" if g: "g \<in> set (gs @ meta p')" for g
  proof -
    obtain q where q: "q \<in> set (heap p)" "inside g q" "fst q \<in> b_addr ` set (chain p) \<union> set (large_allocs (large p))"
      using held_inside [OF _ f(3,6), of g] mt(2) g by blast
    have "a \<notin> set (large_allocs (large p))" using I by (auto simp: pool_inv_def)
    then have "fst q \<noteq> a" using q(3) H(2) by auto
    then have "disj q (a, sz)" using heap_disj [OF f(1) q(1) H(1)] by simp
    then show ?thesis using q(2) disj_inside disj_sym by blast
  qed
  have hp: "held p' g" if "held p g" for g using that by (rule held_heap) (auto simp: p' ls)
  have "sorted_wrt disj (((a, sz) # gs) @ meta p')" using mt(1) d by simp
  moreover have "\<forall>r\<in>set (((a, sz) # gs) @ meta p'). held p' r" using mt(2) ha hp by auto
  moreover have "distinct (map b_addr (chain p') @ large_allocs (large p') @ map fst F)"
    "set (map b_addr (chain p') @ large_allocs (large p') @ map fst F) = fst ` set (heap p')"
    using I ls by (auto simp: pool_inv_def p')
  ultimately show "pool_inv n F p' ((a, sz) # gs)"
    using I unfolding pool_inv_def by (simp add: p')
qed

lemma sorted_disj_sub: "sorted_wrt disj (as @ x # bs) \<Longrightarrow> sorted_wrt disj (as @ bs)"
  by (auto simp: sorted_wrt_append)

lemma foreign_free:
  assumes I: "pool_inv n ((a, sz) # F) p gs"
  shows "\<exists>l. dl_free a (heap p) = Some l \<and> pool_inv n F (p\<lparr>heap := l\<rparr>) gs"
proof -
  let ?l = "filter (\<lambda>r. fst r \<noteq> a) (heap p)" 
  let ?p = "p\<lparr>heap := ?l\<rparr>"
  note f = inv_fields [OF I]
  have d: "distinct (map b_addr (chain p) @ large_allocs (large p) @ a # map fst F)"
    "set (map b_addr (chain p) @ large_allocs (large p) @ a # map fst F) = fst ` set (heap p)"
    "set F \<subseteq> set (heap p)"
    using I by (simp_all add: pool_inv_def)
  then have na: "a \<notin> b_addr ` set (chain p)" "a \<notin> set (large_allocs (large p))" "a \<notin> fst ` set F" by auto
  have "heap_ok ?l" using f(1)
    by (auto simp: heap_ok_def sorted_wrt_filter list_all_iff distinct_map_filter)
  moreover have "\<forall>b\<in>set (chain p). block_ok n ?l b" using f(3) na(1) by (auto simp: block_ok_def)
  moreover have "held ?p g" if "held p g" for g
    using that na(2) unfolding held_def by auto
  moreover have "fst ` set ?l = fst ` set (heap p) - {a}" by auto
  moreover have "dl_free a (heap p) = Some ?l" using d(2) by (auto simp: dl_free_def)
  moreover have "meta ?p = meta p" by (simp add: meta_def)
  moreover have "set F \<subseteq> set ?l" using d(3) na(3) by auto
  moreover have "set (map b_addr (chain p) @ large_allocs (large p) @ map fst F) = fst ` set (heap p) - {a}"
    using d(1,2) by auto
  ultimately show ?thesis using I unfolding pool_inv_def by auto
qed

lemma inv_drop: "pool_inv n F p (r # gs) \<Longrightarrow> pool_inv n F p gs"
  by (simp add: pool_inv_def)

lemma large_spec:
  assumes M: "malloc_ok mal" and I: "pool_inv n F p gs"
  shows "serves n F p gs sz True (dl_palloc_large mal sz p)"
proof -
  note f = inv_fields [OF I]
  show ?thesis
  proof (cases "mal (heap p) sz")
    case None
    then show ?thesis using I by (simp add: serves_def dl_palloc_large_def dl_alloc_def)
  next
    case (Some a)
    then have al: "dl_alloc mal sz (heap p) = (Some a, (a, sz) # heap p)" by (simp add: dl_alloc_def)
    have A: "heap_ok ((a, sz) # heap p)" "unat a mod 16 = 0" "a \<notin> fst ` set (heap p)"
      using alloc_heap_ok [OF M f(1) al] by auto
    let ?p = "p\<lparr>heap := (a, sz) # heap p\<rparr>"
    have I1: "pool_inv n ((a, sz) # F) ?p gs" by (rule foreign_inv [OF I A(1,3)])
    note f1 = inv_fields [OF I1]
    have a8: "unat a mod 8 = 0" using A(2) by presburger
    show ?thesis
    proof (cases "large_loop 0 a (large p)")
      case (Some ls)
      obtain pre l post where L: "large p = pre @ l # post" "l_alloc l = None" "ls = pre @ l\<lparr>l_alloc := Some a\<rparr> # post"
        using large_loop_Some [OF Some] by blast
      let ?q = "?p\<lparr>large := ls\<rparr>"
      have "meta ?q = meta ?p" by (simp add: meta_def L)
      then have "pool_inv n F ?q ((a, sz) # gs)" "nowrap (a, sz)" "writable (heap ?q) a sz"
        using enter_inv [OF I1, of ls "large_allocs pre" "large_allocs post" ?q] L f1(10,11) by simp_all
      then show ?thesis
        unfolding serves_def using al Some a8
        by (intro exI [of _ "Some a"] exI [of _ ?q]) (simp add: dl_palloc_large_def Let_def)
    next
      case None
      obtain r p2 where S: "dl_palloc_small mal 16 True ?p = Some (r, p2)" "pool_inv n ((a, sz) # F) p2 (got r 16 @ gs)"
        "\<forall>l. r = Some l \<longrightarrow> nowrap (l, 16) \<and> (True \<longrightarrow> unat l mod 8 = 0) \<and> writable (heap p2) l 16"
        "large p2 = large ?p" "cleanups p2 = cleanups ?p" "pmax p2 = pmax ?p"
        using small_spec [OF M I1, of 16 True] f(7) by auto
      show ?thesis
      proof (cases r)
        case None': None
        obtain l where "dl_free a (heap p2) = Some l" "pool_inv n F (p2\<lparr>heap := l\<rparr>) gs"
          using foreign_free [of n a sz F p2 gs] S(2) None' by auto
        then show ?thesis
          unfolding serves_def using al None None' S
          by (intro exI [of _ None] exI [of _ "p2\<lparr>heap := l\<rparr>"]) (simp add: dl_palloc_large_def Let_def)
      next
        case (Some l)
        let ?ls = "\<lparr>l_addr = l, l_alloc = Some a\<rparr> # large p2"
        let ?q = "p2\<lparr>large := ?ls\<rparr>"
        have I2: "pool_inv n ((a, sz) # F) p2 ((l, 16) # gs)" using S(2) Some by simp
        note f2 = inv_fields [OF I2]
        have mt: "meta ?q = (l, 16) # meta p2" by (simp add: meta_def)
        have "sorted_wrt disj (gs @ meta ?q)" unfolding mt sorted_disj_move using f2(11) by simp
        moreover have "\<forall>r\<in>set (gs @ meta ?q). held p2 r" using f2(10) by (auto simp: mt)
        ultimately have "pool_inv n F ?q ((a, sz) # gs)" "nowrap (a, sz)" "writable (heap ?q) a sz"
          using enter_inv [OF inv_drop [OF I2], of ?ls "[]" "large_allocs (large p2)" ?q] by simp_all
        then show ?thesis
          unfolding serves_def using al None Some S a8
          by (intro exI [of _ "Some a"] exI [of _ ?q]) (simp add: dl_palloc_large_def Let_def)
      qed
    qed
  qed
qed

section \<open>The allocation functions\<close>

lemma serves_small:
  "malloc_ok mal \<Longrightarrow> pool_inv n F p gs \<Longrightarrow> unat sz \<le> unat (pmax p) \<Longrightarrow> serves n F p gs sz al (dl_palloc_small mal sz al p)"
  unfolding serves_def using small_spec by blast

lemma serves_unaligned: "serves n F p gs sz True res \<Longrightarrow> serves n F p gs sz al res"
  unfolding serves_def by auto

lemma palloc_spec: "malloc_ok mal \<Longrightarrow> pool_inv n F p gs \<Longrightarrow> serves n F p gs sz True (dl_palloc mal sz p)"
  by (simp add: dl_palloc_def large_spec serves_small word_le_nat_alt)

lemma pnalloc_spec: "malloc_ok mal \<Longrightarrow> pool_inv n F p gs \<Longrightarrow> serves n F p gs sz False (dl_pnalloc mal sz p)"
  by (simp add: dl_pnalloc_def large_spec serves_small word_le_nat_alt serves_unaligned)

lemma pcalloc_spec:
  assumes "malloc_ok mal" "pool_inv n F p gs" shows "serves n F p gs sz True (dl_pcalloc mal sz p)"
proof -
  obtain r p' where R: "dl_palloc mal sz p = Some (r, p')" "pool_inv n F p' (got r sz @ gs)"
    "\<forall>a. r = Some a \<longrightarrow> nowrap (a, sz) \<and> (True \<longrightarrow> unat a mod 8 = 0) \<and> writable (heap p') a sz"
    "cleanups p' = cleanups p \<and> pmax p' = pmax p"
    using palloc_spec [OF assms] unfolding serves_def by blast
  have "dl_pcalloc mal sz p = Some (r, p')"
    using R(1,3) by (cases r) (simp_all add: dl_pcalloc_def)
  then show ?thesis unfolding serves_def using R by blast
qed

text \<open>
  The contract of an allocator towards its clients. \<open>inv s gs\<close>: the state is in order and the clients
  hold the pieces \<open>gs\<close>.
\<close>

locale arena =
  fixes inv :: "'s \<Rightarrow> region list \<Rightarrow> bool" and alloc :: "u64 \<Rightarrow> 's \<Rightarrow> (u64 option \<times> 's) option"
  assumes alloc_law: "inv s gs \<Longrightarrow> \<exists>r s'. alloc n s = Some (r, s') \<and> inv s' (got r n @ gs)"
    and inv_disj: "inv s gs \<Longrightarrow> sorted_wrt disj gs"
    and inv_nowrap: "inv s gs \<Longrightarrow> \<forall>r\<in>set gs. nowrap r"
begin

text \<open>A client that asks for several pieces in a row.\<close>

fun alloc_list :: "u64 list \<Rightarrow> 's \<Rightarrow> (u64 option list \<times> 's) option" where
  "alloc_list [] s = Some ([], s)"
| "alloc_list (n # ns) s =
     do { (r, s) \<leftarrow> alloc n s;
          (rs, s) \<leftarrow> alloc_list ns s;
          Some (r # rs, s) }"

lemma alloc_list_spec:
  "inv s gs \<Longrightarrow> \<exists>rs s'. alloc_list ns s = Some (rs, s') \<and> length rs = length ns
    \<and> inv s' (concat (rev (map (\<lambda>(r, n). got r n) (zip rs ns))) @ gs)"
proof (induction ns arbitrary: s gs)
  case (Cons n ns)
  obtain r s1 where 1: "alloc n s = Some (r, s1)" "inv s1 (got r n @ gs)" using alloc_law [OF Cons.prems] by blast
  obtain rs s2 where "alloc_list ns s1 = Some (rs, s2)" "length rs = length ns"
    "inv s2 (concat (rev (map (\<lambda>(r, n). got r n) (zip rs ns))) @ got r n @ gs)"
    using Cons.IH [OF 1(2)] by blast
  then show ?case using 1 by (intro exI [of _ "r # rs"] exI [of _ s2]) simp
qed simp

lemma alloc_list_disjoint:
  assumes "inv s gs" "alloc_list ns s = Some (rs, s')"
  shows "sorted_wrt disj (concat (rev (map (\<lambda>(r, n). got r n) (zip rs ns))) @ gs)"
  using alloc_list_spec [OF assms(1), of ns] assms(2) inv_disj by auto

end

definition pool_serving :: "malloc \<Rightarrow> nat \<Rightarrow> region list \<Rightarrow> pool \<Rightarrow> region list \<Rightarrow> bool" where
  "pool_serving mal n F p gs \<longleftrightarrow> malloc_ok mal \<and> pool_inv n F p gs"

lemma inv_nowrap: "pool_inv n F p gs \<Longrightarrow> \<forall>r\<in>set gs. nowrap r"
  by (auto simp: pool_inv_def held_def)

lemma inv_disj: "pool_inv n F p gs \<Longrightarrow> sorted_wrt disj gs"
  by (simp add: pool_inv_def sorted_wrt_append)

interpretation pa: arena "pool_serving mal n F" "dl_palloc mal"
  by unfold_locales (use palloc_spec in \<open>fastforce simp: pool_serving_def serves_def inv_nowrap inv_disj\<close>)+

interpretation pn: arena "pool_serving mal n F" "dl_pnalloc mal"
  by unfold_locales (use pnalloc_spec in \<open>fastforce simp: pool_serving_def serves_def inv_nowrap inv_disj\<close>)+

interpretation pc: arena "pool_serving mal n F" "dl_pcalloc mal"
  by unfold_locales (use pcalloc_spec in \<open>fastforce simp: pool_serving_def serves_def inv_nowrap inv_disj\<close>)+

section \<open>Creation, cleanup records, reset and destruction\<close>

lemma create_inv:
  assumes M: "malloc_ok mal" and H: "heap_ok F" and sz: "unat sz mod 8 = 0" "88 \<le> unat sz"
    and r: "dl_create_pool mal sz F = Some (Some p)"
  shows "pool_inv (unat sz) F p [] \<and> cleanups p = [] \<and> large p = []"
proof -
  obtain a where al: "dl_alloc mal sz F = (Some a, (a, sz) # F)" and w: "writable ((a, sz) # F) a 72"
    and p: "p = \<lparr>chain = [\<lparr>b_addr = a, b_last = a + 72, b_end = a + sz, b_failed = 0\<rparr>],
      pmax = (if sz - 72 < 4095 then sz - 72 else 4095), current = 0, large = [], cleanups = [], heap = (a, sz) # F\<rparr>"
    using r by (auto simp: dl_create_pool_def dl_alloc_def Let_def split: option.splits if_splits)
  have A: "heap_ok ((a, sz) # F)" "nowrap (a, sz)" "unat a mod 16 = 0" "a \<notin> fst ` set F"
    using alloc_heap_ok [OF M H al] by auto
  have nw: "unat a + unat sz < 2 ^ 64" using A(2) by (simp add: nowrap_def)
  have e: "unat (a + sz) = unat a + unat sz" using nw by (subst unat_add_lem [THEN iffD1]) simp_all
  have l: "unat (a + 72) = unat a + 72" using nw sz(2) by (subst unat_add_lem [THEN iffD1]) simp_all
  have m: "unat (sz - 72) = unat sz - 72" using sz(2) by (simp add: unat_sub word_le_nat_alt)
  have "unat sz < 2 ^ 64" by (rule less_le_trans [OF unsigned_less]) simp
  moreover have "unat a mod 8 = 0" using A(3) by presburger
  moreover have "unat (pmax p) \<le> unat sz - 72" "16 \<le> unat (pmax p)"
    using m sz(2) by (auto simp: p word_less_nat_alt)
  ultimately show ?thesis
    using A(1,4) sz e l H unfolding pool_inv_def p
    by (auto simp: block_ok_def meta_def heap_ok_def)
qed

lemma cleanup_inv:
  assumes I: "pool_inv n F p ((c, 24) # gs)"
  shows "pool_inv n F (p\<lparr>cleanups := \<lparr>cl_addr = c, cl_handler = None, cl_data = d\<rparr> # cleanups p\<rparr>) gs"
proof -
  let ?p = "p\<lparr>cleanups := \<lparr>cl_addr = c, cl_handler = None, cl_data = d\<rparr> # cleanups p\<rparr>"
  let ?l = "map (\<lambda>l. (l_addr l, 16 :: u64)) (large p)" and ?k = "map (\<lambda>c. (cl_addr c, 24 :: u64)) (cleanups p)"
  have mt: "meta p = ?l @ ?k" "meta ?p = ?l @ (c, 24) # ?k" by (simp_all add: meta_def)
  note f = inv_fields [OF I]
  have "sorted_wrt disj (gs @ meta ?p)"
    using f(11) sorted_disj_move [of "gs @ ?l" "(c, 24)" ?k] by (simp add: mt)
  moreover have "\<forall>r\<in>set (gs @ meta ?p). held ?p r"
    using f(10) by (auto simp: mt intro!: held_heap [of p _ ?p])
  ultimately show ?thesis using I unfolding pool_inv_def by simp
qed

lemma held_writable:
  assumes "pool_inv n F p ((c, sz) # gs)" shows "writable (heap p) c sz"
proof -
  have "\<exists>q\<in>set (heap p). inside (c, sz) q"
    using held_inside [OF _ inv_fields(3,6) [OF assms], of "(c, sz)"] inv_fields(10) [OF assms] by auto
  then show ?thesis using writableI by blast
qed

lemma cleanup_add_spec:
  assumes M: "malloc_ok mal" and I: "pool_inv n F p gs"
  shows "\<exists>r p'. dl_pool_cleanup_add mal sz p = Some (r, p') \<and> pool_inv n F p' gs
    \<and> (\<forall>c. r = Some c \<longrightarrow> cl_addr (hd (cleanups p')) = c \<and> (sz \<noteq> 0 \<longrightarrow>
          (\<exists>d. cl_data (hd (cleanups p')) = Some d \<and> pool_inv n F p' ((d, sz) # gs))))"
proof -
  obtain r p1 where R: "dl_palloc mal 24 p = Some (r, p1)" "pool_inv n F p1 (got r 24 @ gs)"
    "\<forall>a. r = Some a \<longrightarrow> nowrap (a, 24) \<and> (True \<longrightarrow> unat a mod 8 = 0) \<and> writable (heap p1) a 24"
    using palloc_spec [OF M I, of 24] unfolding serves_def by blast
  show ?thesis
  proof (cases r)
    case None
    then show ?thesis using R by (simp add: dl_pool_cleanup_add_def)
  next
    case (Some c)
    have I1: "pool_inv n F p1 ((c, 24) # gs)" using R(2) Some by simp
    show ?thesis
    proof (cases "sz = 0")
      case True
      then show ?thesis
        using R(1,3) Some cleanup_inv [OF I1] by (simp add: dl_pool_cleanup_add_def)
    next
      case False
      obtain d p2 where D: "dl_palloc mal sz p1 = Some (d, p2)" "pool_inv n F p2 (got d sz @ (c, 24) # gs)"
        using palloc_spec [OF M I1, of sz] unfolding serves_def by blast
      show ?thesis
      proof (cases d)
        case None
        then have I2: "pool_inv n F p2 ((c, 24) # gs)" using D(2) by simp
        then have "writable (heap p2) c 24" by (rule held_writable)
        then show ?thesis
          using R(1) D(1) I2 Some False None inv_drop by (auto simp: dl_pool_cleanup_add_def)
      next
        case d: (Some b)
        have I2: "pool_inv n F p2 ((b, sz) # (c, 24) # gs)" using D(2) d by simp
        have I3: "pool_inv n F p2 ((c, 24) # (b, sz) # gs)"
          using I2 unfolding pool_inv_def by (auto intro: disj_sym)
        have w: "writable (heap p2) c 24" by (rule held_writable [OF I3])
        note J = cleanup_inv [OF I3, of "Some b"]
        show ?thesis
          using R(1) D(1) Some False d w J inv_drop [OF J] by (simp add: dl_pool_cleanup_add_def)
      qed
    qed
  qed
qed

lemma free_all_spec:
  "distinct as \<Longrightarrow> set as \<subseteq> fst ` set live \<Longrightarrow> free_all as live = Some (filter (\<lambda>r. fst r \<notin> set as) live)"
proof (induction as arbitrary: live)
  case (Cons a as)
  have "dl_free a live = Some (filter (\<lambda>r. fst r \<noteq> a) live)" using Cons.prems(2) by (simp add: dl_free_def)
  moreover have "fst ` set (filter (\<lambda>r. fst r \<noteq> a) live) = fst ` set live - {a}" by auto
  then have "set as \<subseteq> fst ` set (filter (\<lambda>r. fst r \<noteq> a) live)" using Cons.prems by auto
  ultimately show ?case using Cons by (simp add: conj_commute)
qed simp

lemma free_all_append: "free_all (as @ bs) live = Option.bind (free_all as live) (free_all bs)"
proof (induction as arbitrary: live)
  case (Cons a as)
  then show ?case by (cases "dl_free a live") simp_all
qed simp

lemma destroy_spec:
  assumes "pool_inv n F p gs"
  shows "\<exists>calls live. dl_destroy_pool p = Some (calls, live) \<and> set live = set F"
proof -
  let ?as = "large_allocs (large p) @ map b_addr (chain p)"
  have D: "distinct (map b_addr (chain p) @ large_allocs (large p) @ map fst F)"
    "set (map b_addr (chain p) @ large_allocs (large p) @ map fst F) = fst ` set (heap p)"
    "set F \<subseteq> set (heap p)" "heap_ok (heap p)"
    using assms by (simp_all only: pool_inv_def)
  have "distinct ?as" "set ?as \<inter> fst ` set F = {}" using D(1) by auto
  moreover have e: "fst ` set (heap p) = set ?as \<union> fst ` set F" unfolding D(2) [symmetric] by auto
  ultimately have d: "distinct ?as" "set ?as \<subseteq> fst ` set (heap p)" "set ?as \<inter> fst ` set F = {}"
    "fst ` set (heap p) = set ?as \<union> fst ` set F" "set F \<subseteq> set (heap p)" "heap_ok (heap p)"
    using D(3,4) by (simp_all del: set_append)
  let ?l = "filter (\<lambda>r. fst r \<notin> set ?as) (heap p)"
  have fr: "free_all ?as (heap p) = Some ?l" by (rule free_all_spec [OF d(1,2)])
  obtain l1 where l1: "free_all (large_allocs (large p)) (heap p) = Some l1" "free_all (map b_addr (chain p)) l1 = Some ?l"
    using fr unfolding free_all_append by (cases "free_all (large_allocs (large p)) (heap p)") simp_all
  then have "\<exists>calls. dl_destroy_pool p = Some (calls, ?l)"
    by (simp add: dl_destroy_pool_def Let_def del: set_append)
  moreover have "set ?l = set F"
  proof
    show "set F \<subseteq> set ?l"
    proof
      fix r assume r: "r \<in> set F"
      then have "fst r \<notin> set ?as" using d(3) by blast
      then show "r \<in> set ?l" using r d(5) by auto
    qed
    show "set ?l \<subseteq> set F"
    proof
      fix r assume r: "r \<in> set ?l"
      then have "fst r \<in> fst ` set (heap p)" "fst r \<notin> set ?as" by simp_all
      then have "fst r \<in> fst ` set F" unfolding d(4) by blast
      then obtain q where q: "q \<in> set F" "fst q = fst r" by auto
      have "r \<in> set (heap p)" "q \<in> set (heap p)" using r q(1) d(5) by auto
      then have "(fst r, snd r) \<in> set (heap p)" "(fst r, snd q) \<in> set (heap p)" using q(2) by (metis prod.collapse)+
      then have "snd q = snd r" using heap_unique [OF d(6)] by blast
      then have "q = r" using q(2) by (simp add: prod_eq_iff)
      then show "r \<in> set F" using q by simp
    qed
  qed
  ultimately show ?thesis by blast
qed

lemma reset_spec:
  assumes I: "pool_inv n F p gs" and c: "cleanups p = []"
  shows "\<exists>p'. dl_reset_pool p = Some p' \<and> pool_inv n F p' [] \<and> map b_addr (chain p') = map b_addr (chain p)
    \<and> cleanups p' = [] \<and> large p' = []"
proof -
  note f = inv_fields [OF I]
  let ?as = "large_allocs (large p)"
  have d: "distinct (map b_addr (chain p) @ ?as @ map fst F)"
    "set (map b_addr (chain p) @ ?as @ map fst F) = fst ` set (heap p)" "set F \<subseteq> set (heap p)"
    using I by (simp_all add: pool_inv_def)
  let ?l = "filter (\<lambda>r. fst r \<notin> set ?as) (heap p)"
  have fr: "free_all ?as (heap p) = Some ?l" using d by (intro free_all_spec) auto
  let ?p = "p\<lparr>chain := map (\<lambda>b. b\<lparr>b_last := b_addr b + 72, b_failed := 0\<rparr>) (chain p), current := 0, large := [], heap := ?l\<rparr>"
  have run: "dl_reset_pool p = Some ?p" using fr by (simp add: dl_reset_pool_def)
  have "heap_ok ?l" using f(1) by (auto simp: heap_ok_def sorted_wrt_filter list_all_iff distinct_map_filter)
  moreover have "block_ok n ?l (b\<lparr>b_last := b_addr b + 72, b_failed := 0\<rparr>)" if b: "b \<in> set (chain p)" for b
  proof -
    have B: "block_ok n (heap p) b" using f(3) b by blast
    have "unat (b_end b) < 2 ^ 64" by (rule less_le_trans [OF unsigned_less]) simp
    then have "unat (b_addr b) + n < 2 ^ 64" using B by (simp add: block_ok_def)
    then have "unat (b_addr b + 72) = unat (b_addr b) + 72" using f(5) by (subst unat_add_lem [THEN iffD1]) simp_all
    moreover have "b_addr b \<notin> set ?as" using d(1) b by auto
    ultimately show ?thesis using B f(5) by (simp add: block_ok_def)
  qed
  moreover have "fst ` set ?l = fst ` set (heap p) - set ?as" by auto
  moreover have "fst ` set (heap p) - set ?as = set (map b_addr (chain p) @ map fst F)" using d(1,2) by auto
  moreover have "set F \<subseteq> set ?l" using d(1,3) by auto
  moreover have "chain p \<noteq> []" using f(2) by auto
  ultimately have "pool_inv n F ?p []"
    using I d(1) c unfolding pool_inv_def by (auto simp: meta_def comp_def)
  then show ?thesis using run c by (intro exI [of _ ?p]) (simp add: comp_def)
qed

section \<open>A malloc\<close>

text \<open>A concrete \<^verbatim>\<open>malloc\<close>: the next multiple of 16 behind everything that is live.\<close>

definition bump :: malloc where
  "bump live n =
     (let t = foldr (\<lambda>r. max (unat (fst r) + unat (snd r) + 1)) live 1;
          a = 16 * ((t + 15) div 16)
      in if a + unat n < 2 ^ 64 then Some (of_nat a) else None)"

lemma foldr_max_ge: "r \<in> set live \<Longrightarrow> f r \<le> foldr (\<lambda>r. max (f r)) live (k :: nat)"
  by (induction live) auto

lemma foldr_max_init: "k \<le> foldr (\<lambda>r. max (f r)) live (k :: nat)"
  by (induction live) auto

lemma bump_ok: "malloc_ok bump"
  unfolding malloc_ok_def
proof (intro allI impI)
  fix live n a assume r: "bump live n = Some a"
  let ?f = "\<lambda>r :: region. unat (fst r) + unat (snd r) + 1"
  let ?t = "foldr (\<lambda>r. max (?f r)) live 1"
  let ?a = "16 * ((?t + 15) div 16)"
  have a: "?a + unat n < 2 ^ 64" "a = of_nat ?a" using r by (auto simp: bump_def Let_def split: if_splits)
  then have u: "unat a = ?a" using unat_of_nat64 [of ?a] by simp
  have t: "?t \<le> ?a" by linarith
  have g: "?f r \<le> ?a" if "r \<in> set live" for r
    using foldr_max_ge [of r live ?f 1] that t by simp
  have "1 \<le> ?a" using foldr_max_init [of 1 ?f live] t by simp
  then have "a \<noteq> 0" using u by auto
  moreover have "nowrap (a, n)" using a(1) u by (simp add: nowrap_def)
  moreover have "unat a mod 16 = 0" unfolding u by simp
  moreover have "a \<notin> fst ` set live"
  proof
    assume "a \<in> fst ` set live"
    then obtain r where "r \<in> set live" "fst r = a" by auto
    then show False using g [of r] u by simp
  qed
  moreover have "disj (a, n) r" if "r \<in> set live" for r using g [OF that] u by (simp add: disj_def)
  ultimately show "nowrap (a, n) \<and> unat a mod 16 = 0 \<and> a \<noteq> 0 \<and> a \<notin> fst ` set live \<and> (\<forall>r\<in>set live. disj (a, n) r)"
    by blast
qed

section \<open>Properties\<close>

text \<open>The calls of a client; \<open>serve\<close> returns the memory it may use.\<close>

datatype request = Palloc u64 | Pnalloc u64 | Pcalloc u64 | Cleanup u64

fun serve :: "malloc \<Rightarrow> request \<Rightarrow> pool \<Rightarrow> (region list \<times> pool) option" where
  "serve mal (Palloc sz) p = map_option (\<lambda>(r, p). (got r sz, p)) (dl_palloc mal sz p)"
| "serve mal (Pnalloc sz) p = map_option (\<lambda>(r, p). (got r sz, p)) (dl_pnalloc mal sz p)"
| "serve mal (Pcalloc sz) p = map_option (\<lambda>(r, p). (got r sz, p)) (dl_pcalloc mal sz p)"
| "serve mal (Cleanup sz) p =
     map_option (\<lambda>(c, p). (if c = None \<or> sz = 0 then [] else got (cl_data (hd (cleanups p))) sz, p))
       (dl_pool_cleanup_add mal sz p)"

fun serve_all :: "malloc \<Rightarrow> request list \<Rightarrow> pool \<Rightarrow> (region list \<times> pool) option" where
  "serve_all mal [] p = Some ([], p)"
| "serve_all mal (q # qs) p =
     do { (g, p) \<leftarrow> serve mal q p;
          (gs, p) \<leftarrow> serve_all mal qs p;
          Some (gs @ g, p) }"

lemma serve_spec:
  assumes "malloc_ok mal" "pool_inv n F p gs"
  shows "\<exists>g p'. serve mal q p = Some (g, p') \<and> pool_inv n F p' (g @ gs)"
proof (cases q)
  case (Palloc sz)
  then show ?thesis using palloc_spec [OF assms, of sz] by (auto simp: serves_def)
next
  case (Pnalloc sz)
  then show ?thesis using pnalloc_spec [OF assms, of sz] by (auto simp: serves_def)
next
  case (Pcalloc sz)
  then show ?thesis using pcalloc_spec [OF assms, of sz] by (auto simp: serves_def)
next
  case (Cleanup sz)
  obtain r p' where "dl_pool_cleanup_add mal sz p = Some (r, p')" "pool_inv n F p' gs"
    "\<forall>c. r = Some c \<longrightarrow> cl_addr (hd (cleanups p')) = c \<and> (sz \<noteq> 0 \<longrightarrow>
      (\<exists>d. cl_data (hd (cleanups p')) = Some d \<and> pool_inv n F p' ((d, sz) # gs)))"
    using cleanup_add_spec [OF assms, of sz] by blast
  then show ?thesis by (cases r) (auto simp: Cleanup)
qed

lemma serve_all_spec:
  assumes "malloc_ok mal"
  shows "pool_inv n F p gs \<Longrightarrow> \<exists>g p'. serve_all mal qs p = Some (g, p') \<and> pool_inv n F p' (g @ gs)"
proof (induction qs arbitrary: p gs)
  case (Cons q qs)
  obtain g p1 where 1: "serve mal q p = Some (g, p1)" "pool_inv n F p1 (g @ gs)"
    using serve_spec [OF assms Cons.prems] by blast
  obtain g2 p2 where "serve_all mal qs p1 = Some (g2, p2)" "pool_inv n F p2 (g2 @ g @ gs)"
    using Cons.IH [OF 1(2)] by blast
  then show ?case using 1 by simp
qed simp

lemma inv_writable:
  assumes "pool_inv n F p gs" "g \<in> set gs" shows "writable (heap p) (fst g) (snd g)"
proof -
  have "held p g" using inv_fields(10) [OF assms(1)] assms(2) by auto
  then obtain q where "q \<in> set (heap p)" "inside g q" using held_inside [OF _ inv_fields(3,6) [OF assms(1)]] by blast
  then show ?thesis using writableI [of q "heap p" "fst g" "snd g"] by simp
qed

text \<open>C1: whatever a client asks of a fresh pool (whose size is a multiple of 8 and at least 88), the pool
  runs into no undefined behaviour, all the memory it handed out lies in live blocks and no two
  pieces overlap, and destroying the pool then frees each of its blocks exactly once: of the C heap
  just the blocks that were live before are left.\<close>

theorem pool_memory_safe:
  assumes "malloc_ok mal" "heap_ok F" "unat sz mod 8 = 0" "88 \<le> unat sz"
    and "dl_create_pool mal sz F = Some (Some p)"
  shows "\<exists>gs p' calls live. serve_all mal qs p = Some (gs, p') \<and> sorted_wrt disj gs
    \<and> (\<forall>(a, n)\<in>set gs. writable (heap p') a n) \<and> dl_destroy_pool p' = Some (calls, live) \<and> set live = set F"
proof -
  have "pool_inv (unat sz) F p []" using create_inv [OF assms] by simp
  from serve_all_spec [OF assms(1) this, of qs] obtain gs p'
    where R: "serve_all mal qs p = Some (gs, p')" "pool_inv (unat sz) F p' gs" by auto
  have "\<forall>(a, n)\<in>set gs. writable (heap p') a n" using inv_writable [OF R(2)] by fastforce
  then show ?thesis using R(1) inv_disj [OF R(2)] destroy_spec [OF R(2)] by blast
qed

definition small_pool :: pool where
  "small_pool = \<lparr>chain = [\<lparr>b_addr = 16, b_last = 88, b_end = 176, b_failed = 0\<rparr>], pmax = 88, current = 0,
     large = [], cleanups = [], heap = [(16, 160)]\<rparr>"

lemma small_pool_created: "dl_create_pool bump 160 [] = Some (Some small_pool)"
  by (simp add: dl_create_pool_def dl_alloc_def bump_def writable_def inside_def small_pool_def Let_def)

theorem pool_memory_safe_witness:
  "\<exists>gs p' calls live. serve_all bump [Palloc 8, Pnalloc 3, Palloc 500, Cleanup 40] small_pool = Some (gs, p')
    \<and> sorted_wrt disj gs \<and> (\<forall>(a, n)\<in>set gs. writable (heap p') a n)
    \<and> dl_destroy_pool p' = Some (calls, live) \<and> set live = set []"
  by (rule pool_memory_safe [OF bump_ok _ _ _ small_pool_created]) (simp_all add: heap_ok_def)

text \<open>When the pool returns \<^verbatim>\<open>NULL\<close>, \<^verbatim>\<open>malloc\<close> has failed.\<close>

definition starved :: "malloc \<Rightarrow> nat \<Rightarrow> u64 \<Rightarrow> region list \<Rightarrow> bool" where
  "starved mal n sz live \<longleftrightarrow> mal live (of_nat n) = None \<or> mal live sz = None
     \<or> (\<exists>a. mal live sz = Some a \<and> mal ((a, sz) # live) (of_nat n) = None)"

lemma inv_psize:
  assumes "pool_inv n F p gs" shows "b_end (hd (chain p)) - b_addr (hd (chain p)) = of_nat n"
proof -
  have "chain p \<noteq> []" using inv_fields(2) [OF assms] by auto
  then have "block_ok n (heap p) (hd (chain p))" using inv_fields(3) [OF assms] by simp
  then have "unat (b_end (hd (chain p))) = unat (b_addr (hd (chain p))) + n" by (simp add: block_ok_def)
  then have "(of_nat (unat (b_end (hd (chain p)))) :: u64) = of_nat (unat (b_addr (hd (chain p))) + n)" by simp
  then show ?thesis by simp
qed

lemma small_NULL:
  "dl_palloc_small mal sz al p = Some (None, p') \<Longrightarrow> mal (heap p) (b_end (hd (chain p)) - b_addr (hd (chain p))) = None"
  by (auto simp: dl_palloc_small_def dl_palloc_block_def dl_alloc_def Let_def split: option.splits if_splits prod.splits)

lemma palloc_NULL:
  assumes I: "pool_inv n F p gs" and r: "dl_palloc mal sz p = Some (None, p')"
  shows "starved mal n sz (heap p)"
proof (cases "sz \<le> pmax p")
  case True
  then show ?thesis using r small_NULL [of mal sz True p p'] by (simp add: dl_palloc_def inv_psize [OF I] starved_def)
next
  case False
  show ?thesis
  proof (cases "mal (heap p) sz")
    case (Some a)
    let ?p = "p\<lparr>heap := (a, sz) # heap p\<rparr>"
    have "large_loop 0 a (large p) = None" "\<exists>p2. dl_palloc_small mal 16 True ?p = Some (None, p2)"
      using r False Some by (auto simp: dl_palloc_def dl_palloc_large_def dl_alloc_def Let_def
        split: option.splits if_splits bind_splits)
    then show ?thesis using small_NULL [of mal 16 True ?p] Some by (auto simp: starved_def inv_psize [OF I])
  qed (simp add: starved_def)
qed

text \<open>C12: \<^verbatim>\<open>dl_palloc\<close> on a pool in order, large or small request, recycled entry or new block, runs into
  nothing undefined. It returns \<^verbatim>\<open>NULL\<close> only when \<^verbatim>\<open>malloc\<close> has refused the request or a new block;
  otherwise the address is a multiple of 8, the requested room behind it lies in live memory and apart
  from everything handed out before, and the pool is in order again.\<close>

theorem pool_palloc:
  assumes "malloc_ok mal" "pool_inv n F p gs"
  shows "\<exists>r p'. dl_palloc mal sz p = Some (r, p') \<and> (case r of
      None \<Rightarrow> starved mal n sz (heap p) \<and> pool_inv n F p' gs
    | Some a \<Rightarrow> unat a mod 8 = 0 \<and> writable (heap p') a sz \<and> (\<forall>g\<in>set gs. disj (a, sz) g)
        \<and> pool_inv n F p' ((a, sz) # gs))"
proof -
  obtain r p' where R: "dl_palloc mal sz p = Some (r, p')" "pool_inv n F p' (got r sz @ gs)"
    "\<forall>a. r = Some a \<longrightarrow> nowrap (a, sz) \<and> (True \<longrightarrow> unat a mod 8 = 0) \<and> writable (heap p') a sz"
    using palloc_spec [OF assms, of sz] unfolding serves_def by blast
  show ?thesis
  proof (cases r)
    case None
    then show ?thesis using R palloc_NULL [OF assms(2), of mal sz p'] by simp
  next
    case (Some a)
    then have "pool_inv n F p' ((a, sz) # gs)" using R(2) by simp
    then show ?thesis using R Some inv_disj [of n F p' "(a, sz) # gs"] by simp
  qed
qed

lemma small_pool_inv: "pool_inv 160 [] small_pool []"
  using create_inv [OF bump_ok _ _ _ small_pool_created] by (simp add: heap_ok_def)

theorem pool_palloc_witness:
  "\<exists>r p'. dl_palloc bump 100 small_pool = Some (r, p') \<and> (case r of
      None \<Rightarrow> starved bump 160 100 (heap small_pool) \<and> pool_inv 160 [] p' []
    | Some a \<Rightarrow> unat a mod 8 = 0 \<and> writable (heap p') a 100 \<and> (\<forall>g\<in>set []. disj (a, 100) g)
        \<and> pool_inv 160 [] p' [(a, 100)])"
  by (rule pool_palloc [OF bump_ok small_pool_inv])

lemma wrapped_room: "(1 :: u64) \<le> - 5"
  by (simp add: word_le_def)

lemmas pool_defs = wrapped_room dl_create_pool_def dl_alloc_def bump_def writable_def inside_def dl_pnalloc_def dl_palloc_def
  dl_palloc_small_def dl_palloc_block_def dl_palloc_large_def dl_pool_cleanup_add_def dl_reset_pool_def
  large_allocs_def dl_align_ptr_def Let_def

text \<open>The preconditions on the size are needed. With a size that is no multiple of 8, the aligned
  address can lie behind the end of the block, the room \<^verbatim>\<open>(size_t) (end - m)\<close> wraps to a huge number,
  and \<^verbatim>\<open>dl_palloc\<close> hands out memory that is not the pool's. With a size of 80 the entry of a large
  allocation does not fit a fresh block, and writing it is undefined.\<close>

theorem pool_size_preconditions:
  "(\<exists>p1 p2 a p3. dl_create_pool bump 75 [] = Some (Some p1) \<and> dl_pnalloc bump 3 p1 = Some (Some 88, p2)
      \<and> dl_palloc bump 1 p2 = Some (Some a, p3) \<and> \<not> writable (heap p3) a 1)
   \<and> (\<exists>p1. dl_create_pool bump 80 [] = Some (Some p1) \<and> dl_palloc bump 100 p1 = None)"
proof -
  have "\<exists>p1 p2 a p3. dl_create_pool bump 75 [] = Some (Some p1) \<and> dl_pnalloc bump 3 p1 = Some (Some 88, p2)
      \<and> dl_palloc bump 1 p2 = Some (Some a, p3) \<and> \<not> writable (heap p3) a 1"
    by (simp add: pool_defs)
  moreover have "\<exists>p1. dl_create_pool bump 80 [] = Some (Some p1) \<and> dl_palloc bump 100 p1 = None"
    by (simp add: pool_defs)
  ultimately show ?thesis by blast
qed

text \<open>\<^verbatim>\<open>dl_reset_pool\<close> recycles the memory of the blocks but keeps the list of the cleanup records, which
  lie in it: the next allocation returns the memory of a record that is still on the list.\<close>

theorem pool_reset_stale_cleanup:
  "\<exists>c p1 p2 p3. dl_pool_cleanup_add bump 0 small_pool = Some (Some c, p1) \<and> dl_reset_pool p1 = Some p2
    \<and> map cl_addr (cleanups p2) = [c] \<and> dl_palloc bump 24 p2 = Some (Some c, p3)"
  by (simp add: pool_defs small_pool_def)

end
