(* ===== verification/Dl_Array.thy ===== *)
theory Dl_Array
  imports Dl_Pool_Safety
begin

text \<open>
  The growable array of \<^verbatim>\<open>dl_array.h\<close> and \<^verbatim>\<open>dl_array.c\<close> and the list of arrays of \<^verbatim>\<open>dl_list.h\<close> and
  \<^verbatim>\<open>dl_list.c\<close>, both clients of the pool. The contents of the C heap are a function from addresses to
  bytes. \<^verbatim>\<open>int\<close> fields are integers, an overflow of one is undefined (\<open>None\<close>), and the conversion to
  \<^verbatim>\<open>size_t\<close> is \<open>of_int\<close>.
\<close>

section \<open>Memory\<close>

type_synonym mem = "u64 \<Rightarrow> byte"

definition bytes_at :: "mem \<Rightarrow> u64 \<Rightarrow> nat \<Rightarrow> bytes" where
  "bytes_at m a k = map (\<lambda>i. m (a + of_nat i)) [0..<k]"

definition store :: "u64 \<Rightarrow> bytes \<Rightarrow> mem \<Rightarrow> mem" where
  "store a bs m = (\<lambda>x. if unat (x - a) < length bs then bs ! unat (x - a) else m x)"

definition memcpy :: "region list \<Rightarrow> u64 \<Rightarrow> u64 \<Rightarrow> u64 \<Rightarrow> mem \<Rightarrow> mem option" where
  "memcpy live dst src n m =
     (if writable live dst n \<and> writable live src n \<and> disj (dst, n) (src, n)
      then Some (store dst (bytes_at m src (unat n)) m) else None)"

definition c_int :: "int \<Rightarrow> int option" where
  "c_int v = (if - (2 ^ 31) \<le> v \<and> v < 2 ^ 31 then Some v else None)"

section \<open>The array\<close>

record darray =
  a_at :: u64
  elts :: u64
  nelts :: int
  esize :: u64
  nalloc :: int

abbreviation sizeof_array :: u64 where "sizeof_array \<equiv> 40"

text \<open>\<^verbatim>\<open>d.last\<close> of the pool itself, that is of its first block.\<close>

definition pool_last :: "pool \<Rightarrow> u64" where
  "pool_last p = b_last (hd (chain p))"

definition pool_end :: "pool \<Rightarrow> u64" where
  "pool_end p = b_end (hd (chain p))"

definition set_pool_last :: "u64 \<Rightarrow> pool \<Rightarrow> pool" where
  "set_pool_last l p = p\<lparr>chain := (hd (chain p))\<lparr>b_last := l\<rparr> # tl (chain p)\<rparr>"

text \<open>A \<^verbatim>\<open>NULL\<close> in \<^verbatim>\<open>elts\<close> is the address 0.\<close>

definition dl_array_init :: "malloc \<Rightarrow> u64 \<Rightarrow> int \<Rightarrow> u64 \<Rightarrow> pool \<Rightarrow> (rc \<times> darray \<times> pool) option" where
  "dl_array_init mal at n sz p =
     (let a = \<lparr>a_at = at, elts = 0, nelts = 0, esize = sz, nalloc = n\<rparr>
      in do { (e, p) \<leftarrow> dl_palloc mal (of_int n * sz) p;
              case e of
                None \<Rightarrow> Some (DL_ERROR, a, p)
              | Some e \<Rightarrow> Some (DL_OK, a\<lparr>elts := e\<rparr>, p) })"

definition dl_array_create :: "malloc \<Rightarrow> int \<Rightarrow> u64 \<Rightarrow> pool \<Rightarrow> (darray option \<times> pool) option" where
  "dl_array_create mal n sz p =
     do { (at, p) \<leftarrow> dl_palloc mal sizeof_array p;
          case at of
            None \<Rightarrow> Some (None, p)
          | Some at \<Rightarrow>
              if \<not> writable (heap p) at sizeof_array then None
              else do { (rc, a, p) \<leftarrow> dl_array_init mal at n sz p;
                        Some (if rc \<noteq> DL_OK then None else Some a, p) } }"

definition dl_array_destroy :: "darray \<Rightarrow> pool \<Rightarrow> pool" where
  "dl_array_destroy a p =
     (let p = (if elts a + esize a * of_int (nalloc a) = pool_last p
               then set_pool_last (pool_last p - esize a * of_int (nalloc a)) p else p)
      in if a_at a + sizeof_array = pool_last p then set_pool_last (a_at a) p else p)"

text \<open>A full array grows in place by one element or moves to twice the room; \<open>False\<close> is \<^verbatim>\<open>NULL\<close>.\<close>

definition array_grow :: "malloc \<Rightarrow> darray \<Rightarrow> pool \<Rightarrow> mem \<Rightarrow> (bool \<times> darray \<times> pool \<times> mem) option" where
  "array_grow mal a p m =
     (let sz = esize a * of_int (nalloc a)
      in if elts a + sz = pool_last p \<and> pool_last p + esize a \<le> pool_end p then
           do { na \<leftarrow> c_int (nalloc a + 1);
                Some (True, a\<lparr>nalloc := na\<rparr>, set_pool_last (pool_last p + esize a) p, m) }
         else
           do { (new, p) \<leftarrow> dl_palloc mal (2 * sz) p;
                case new of
                  None \<Rightarrow> Some (False, a, p, m)
                | Some new \<Rightarrow>
                    do { m \<leftarrow> memcpy (heap p) new (elts a) sz m;
                         na \<leftarrow> c_int (nalloc a * 2);
                         Some (True, a\<lparr>elts := new, nalloc := na\<rparr>, p, m) } })"

definition dl_array_push :: "malloc \<Rightarrow> darray \<Rightarrow> pool \<Rightarrow> mem \<Rightarrow> (u64 option \<times> darray \<times> pool \<times> mem) option" where
  "dl_array_push mal a p m =
     do { (ok, a, p, m) \<leftarrow> (if nelts a = nalloc a then array_grow mal a p m else Some (True, a, p, m));
          if \<not> ok then Some (None, a, p, m)
          else do { ne \<leftarrow> c_int (nelts a + 1);
                    Some (Some (elts a + esize a * of_int (nelts a)), a\<lparr>nelts := ne\<rparr>, p, m) } }"

definition array_grow_n :: "malloc \<Rightarrow> int \<Rightarrow> darray \<Rightarrow> pool \<Rightarrow> mem \<Rightarrow> (bool \<times> darray \<times> pool \<times> mem) option" where
  "array_grow_n mal n a p m =
     (let sz = of_int n * esize a
      in if elts a + esize a * of_int (nalloc a) = pool_last p \<and> pool_last p + sz \<le> pool_end p then
           do { na \<leftarrow> c_int (nalloc a + n);
                Some (True, a\<lparr>nalloc := na\<rparr>, set_pool_last (pool_last p + sz) p, m) }
         else
           do { na \<leftarrow> c_int (2 * (if n \<ge> nalloc a then n else nalloc a));
                (new, p) \<leftarrow> dl_palloc mal (of_int na * esize a) p;
                case new of
                  None \<Rightarrow> Some (False, a, p, m)
                | Some new \<Rightarrow>
                    do { m \<leftarrow> memcpy (heap p) new (elts a) (of_int (nelts a) * esize a) m;
                         Some (True, a\<lparr>elts := new, nalloc := na\<rparr>, p, m) } })"

definition dl_array_push_n :: "malloc \<Rightarrow> int \<Rightarrow> darray \<Rightarrow> pool \<Rightarrow> mem \<Rightarrow> (u64 option \<times> darray \<times> pool \<times> mem) option" where
  "dl_array_push_n mal n a p m =
     do { ne \<leftarrow> c_int (nelts a + n);
          (ok, a, p, m) \<leftarrow> (if ne > nalloc a then array_grow_n mal n a p m else Some (True, a, p, m));
          if \<not> ok then Some (None, a, p, m)
          else Some (Some (elts a + esize a * of_int (nelts a)), a\<lparr>nelts := ne\<rparr>, p, m) }"

section \<open>The list of arrays\<close>

text \<open>The parts in the order of the chain: the first one is embedded in the list, \<^verbatim>\<open>last\<close> points to the
  last one.\<close>

record lpart =
  p_elts :: u64
  p_nelts :: int

record dlist =
  parts :: "lpart list"
  lsize :: u64
  lnalloc :: int
  lnelts :: int

abbreviation sizeof_list :: u64 where "sizeof_list \<equiv> 56"
abbreviation sizeof_part :: u64 where "sizeof_part \<equiv> 24"

definition dl_list_init :: "malloc \<Rightarrow> int \<Rightarrow> u64 \<Rightarrow> pool \<Rightarrow> (dlist option \<times> pool) option" where
  "dl_list_init mal n sz p =
     do { (e, p) \<leftarrow> dl_palloc mal (of_int n * sz) p;
          case e of
            None \<Rightarrow> Some (None, p)
          | Some e \<Rightarrow> Some (Some \<lparr>parts = [\<lparr>p_elts = e, p_nelts = 0\<rparr>], lsize = sz, lnalloc = n, lnelts = 0\<rparr>, p) }"

definition dl_list_create :: "malloc \<Rightarrow> int \<Rightarrow> u64 \<Rightarrow> pool \<Rightarrow> (dlist option \<times> pool) option" where
  "dl_list_create mal n sz p =
     do { (l, p) \<leftarrow> dl_palloc mal sizeof_list p;
          case l of
            None \<Rightarrow> Some (None, p)
          | Some l \<Rightarrow> if \<not> writable (heap p) l sizeof_list then None else dl_list_init mal n sz p }"

text \<open>A new part behind a full one; \<open>None\<close> in the first component is \<^verbatim>\<open>NULL\<close>.\<close>

definition list_new_part :: "malloc \<Rightarrow> dlist \<Rightarrow> pool \<Rightarrow> (lpart option \<times> pool) option" where
  "list_new_part mal l p =
     do { (a, p) \<leftarrow> dl_palloc mal sizeof_part p;
          case a of
            None \<Rightarrow> Some (None, p)
          | Some a \<Rightarrow>
              do { (e, p) \<leftarrow> dl_palloc mal (of_int (lnalloc l) * lsize l) p;
                   if \<not> writable (heap p) a sizeof_part then None
                   else case e of
                          None \<Rightarrow> Some (None, p)
                        | Some e \<Rightarrow> Some (Some \<lparr>p_elts = e, p_nelts = 0\<rparr>, p) } }"

definition dl_list_push :: "malloc \<Rightarrow> dlist \<Rightarrow> pool \<Rightarrow> (u64 option \<times> dlist \<times> pool) option" where
  "dl_list_push mal l p =
     do { (ps, p) \<leftarrow> (if p_nelts (last (parts l)) = lnalloc l
                      then map_option (\<lambda>(r, p). (map_option (\<lambda>pt. parts l @ [pt]) r, p)) (list_new_part mal l p)
                      else Some (Some (parts l), p));
          case ps of
            None \<Rightarrow> Some (None, l, p)
          | Some ps \<Rightarrow>
              do { k \<leftarrow> c_int (p_nelts (last ps) + 1);
                   ne \<leftarrow> c_int (lnelts l + 1);
                   Some (Some (p_elts (last ps) + lsize l * of_int (p_nelts (last ps))),
                         l\<lparr>parts := butlast ps @ [(last ps)\<lparr>p_nelts := k\<rparr>], lnelts := ne\<rparr>, p) } }"

end
