(* ===== verification/Dl_Array_Refine.thy ===== *)
theory Dl_Array_Refine
  imports Dl_Array
begin

text \<open>
  The array and the list against their specification: a sequence of elements of a fixed size that
  grows at its end. The interface \<open>sequence\<close> states it; both containers, on top of the pool, are
  interpretations. The other memory of the pool's clients keeps its contents.
\<close>

section \<open>Memory\<close>

lemma length_bytes_at [simp]: "length (bytes_at m a k) = k"
  by (simp add: bytes_at_def)

lemma bytes_at_0 [simp]: "bytes_at m a 0 = []"
  by (simp add: bytes_at_def)

lemma bytes_at_add: "bytes_at m a (j + k) = bytes_at m a j @ bytes_at m (a + of_nat j) k"
proof (induction k)
  case (Suc k)
  have "bytes_at m b (Suc i) = bytes_at m b i @ [m (b + of_nat i)]" for b i by (simp add: bytes_at_def)
  then show ?case using Suc by (simp add: algebra_simps)
qed simp

lemma unat_at:
  assumes "unat a + k \<le> 2 ^ 64" "i < k" shows "unat ((a :: u64) + of_nat i) = unat a + i"
  using assms by (subst unat_add_lem [THEN iffD1]) (simp_all add: unat_of_nat64)

lemma bytes_store_same: "unat a + length bs \<le> 2 ^ 64 \<Longrightarrow> bytes_at (store a bs m) a (length bs) = bs"
  by (rule nth_equalityI) (simp_all add: bytes_at_def store_def unat_of_nat64)

lemma store_apart:
  assumes "unat a + length bs \<le> 2 ^ 64" "unat x < unat a \<or> unat a + length bs \<le> unat x"
  shows "store a bs m x = m x"
proof -
  have "\<not> unat (x - a) < length bs"
  proof
    assume l: "unat (x - a) < length bs"
    then have "unat (a + (x - a)) = unat a + unat (x - a)" using assms(1) by (subst unat_add_lem [THEN iffD1]) simp_all
    then have "unat x = unat a + unat (x - a)" by simp
    then show False using l assms(2) by linarith
  qed
  then show ?thesis by (simp add: store_def)
qed

lemma bytes_store_apart:
  assumes "unat a + length bs \<le> 2 ^ 64" "unat c + k \<le> 2 ^ 64" "unat c + k \<le> unat a \<or> unat a + length bs \<le> unat c"
  shows "bytes_at (store a bs m) c k = bytes_at m c k"
proof (rule nth_equalityI)
  fix i assume "i < length (bytes_at (store a bs m) c k)"
  then have i: "i < k" by simp
  have "unat (c + of_nat i) = unat c + i" by (rule unat_at [OF assms(2) i])
  then have "store a bs m (c + of_nat i) = m (c + of_nat i)"
    using assms i by (intro store_apart) auto
  then show "bytes_at (store a bs m) c k ! i = bytes_at m c k ! i" using i by (simp add: bytes_at_def)
qed simp

abbreviation piece :: "mem \<Rightarrow> region \<Rightarrow> bytes" where
  "piece m r \<equiv> bytes_at m (fst r) (unat (snd r))"

text \<open>A store inside a piece leaves the pieces apart from it alone.\<close>

lemma piece_store:
  assumes "nowrap r" "nowrap g" "disj r g" "unat (fst r) \<le> unat a" "unat a + length bs \<le> unat (fst r) + unat (snd r)"
  shows "piece (store a bs m) g = piece m g"
  using assms by (intro bytes_store_apart) (auto simp: nowrap_def disj_def)

section \<open>The first block of the pool\<close>

definition nonempty :: "region list \<Rightarrow> bool" where
  "nonempty gs \<longleftrightarrow> (\<forall>g\<in>set gs. snd g \<noteq> 0)"

lemma nonempty_simps [simp]: "nonempty []" "nonempty (g # gs) \<longleftrightarrow> snd g \<noteq> 0 \<and> nonempty gs"
  "nonempty (gs @ hs) \<longleftrightarrow> nonempty gs \<and> nonempty hs"
  by (auto simp: nonempty_def)

lemma nonempty_meta [simp]: "nonempty (meta p)"
  by (auto simp: nonempty_def meta_def)

lemma inv_head:
  assumes "pool_inv n F p gs" obtains b B where "chain p = b # B"
  using inv_fields(2) [OF assms] by (cases "chain p") auto

text \<open>A piece that ends at \<^verbatim>\<open>last\<close> of a block lies in this block.\<close>

lemma top_piece:
  assumes I: "pool_inv n F p gs" and h: "held p (a, s)" "s \<noteq> 0" and b: "b \<in> set (chain p)"
    and e: "unat a + unat s = unat (b_last b)"
  shows "unat (b_addr b) + 72 \<le> unat a"
proof -
  note f = inv_fields [OF I]
  have s: "0 < unat s" using h(2) by (simp add: unat_gt_0)
  have B: "block_ok n (heap p) b" using f(3) b by blast
  have un: "unat (of_nat n :: u64) = n" by (rule unat_of_nat64 [OF f(6)])
  have bl: "(b_addr b, of_nat n) \<in> set (heap p)" "unat (b_addr b) + 72 \<le> unat (b_last b)"
    "unat (b_last b) \<le> unat (b_addr b) + n" using B by (simp_all add: block_ok_def)
  consider c where "c \<in> set (chain p)" "unat (b_addr c) + 72 \<le> unat a" "unat a + unat s \<le> unat (b_last c)"
    | "(a, s) \<in> set (heap p)" "a \<notin> b_addr ` set (chain p)"
    using h(1) unfolding held_def by auto
  then show ?thesis
  proof cases
    case 1
    have C: "block_ok n (heap p) c" using f(3) 1(1) by blast
    show ?thesis
    proof (cases "b_addr c = b_addr b")
      case False
      have "(b_addr c, of_nat n) \<in> set (heap p)" "unat (b_last c) \<le> unat (b_addr c) + n"
        using C by (simp_all add: block_ok_def)
      then have "disj (b_addr c, of_nat n) (b_addr b, of_nat n)" using heap_disj [OF f(1) _ bl(1)] False by simp
      then have "unat (b_addr c) + n \<le> unat (b_addr b) \<or> unat (b_addr b) + n \<le> unat (b_addr c)"
        using un by (simp add: disj_def)
      then show ?thesis using 1 bl e s \<open>unat (b_last c) \<le> unat (b_addr c) + n\<close> by linarith
    qed (use 1(2) in simp)
  next
    case 2
    have "a \<noteq> b_addr b" using 2(2) b by blast
    then have "disj (a, s) (b_addr b, of_nat n)" using heap_disj [OF f(1) 2(1) bl(1)] by simp
    then have "unat a + unat s \<le> unat (b_addr b) \<or> unat (b_addr b) + n \<le> unat a"
      using un by (simp add: disj_def)
    then show ?thesis using bl e s by linarith
  qed
qed

lemma disj_merge:
  assumes "disj (a, s) g" "disj (b, t) g" "unat b = unat a + unat s" "unat (s + t) = unat s + unat t" "snd g \<noteq> 0"
  shows "disj (a, s + t) g"
proof -
  have "0 < unat (snd g)" using assms(5) by (simp add: unat_gt_0)
  then show ?thesis using assms(1-4) unfolding disj_def by auto
qed

text \<open>The piece on top of the first block grows in place.\<close>

lemma extend_inv:
  assumes I: "pool_inv n F p ((a, s) # gs)" and s: "s \<noteq> 0" "nonempty gs"
    and e: "a + s = pool_last p" and r: "unat (pool_last p) + unat t \<le> unat (pool_end p)"
  shows "pool_inv n F (set_pool_last (pool_last p + t) p) ((a, s + t) # gs)"
    "unat (s + t) = unat s + unat t" "unat a + unat s + unat t < 2 ^ 64"
proof -
  note f = inv_fields [OF I]
  obtain b B where ch: "chain p = b # B" by (rule inv_head [OF I])
  have h: "held p (a, s)" using f(10) by simp
  have nw: "unat a + unat s < 2 ^ 64" using h by (simp add: held_def nowrap_def)
  have ue: "unat (pool_last p) = unat a + unat s"
    unfolding e [symmetric] using nw by (subst unat_add_lem [THEN iffD1]) simp_all
  have be: "unat (pool_end p) < 2 ^ 64" by (rule less_le_trans [OF unsigned_less]) simp
  show nw2: "unat a + unat s + unat t < 2 ^ 64" using r ue be by linarith
  then show st: "unat (s + t) = unat s + unat t" by (subst unat_add_lem [THEN iffD1]) simp_all
  have ul: "unat (pool_last p + t) = unat (pool_last p) + unat t"
    using nw2 ue by (subst unat_add_lem [THEN iffD1]) simp_all
  define p' where "p' = set_pool_last (pool_last p + t) p"
  have p': "p' = p\<lparr>chain := [] @ b\<lparr>b_last := pool_last p + t\<rparr> # B\<rparr>" by (simp add: p'_def set_pool_last_def ch)
  have bl: "b_last b = pool_last p" "b_end b = pool_end p" by (simp_all add: pool_last_def pool_end_def ch)
  have J: "pool_inv n F p' ((pool_last p, t) # (a, s) # gs)"
    by (rule bump_inv(1) [OF I _ _ _ _ p']) (use bl r ul ch in simp_all)
  note j = inv_fields [OF J]
  have "unat (b_addr b) + 72 \<le> unat a"
    by (rule top_piece [OF I h s(1)]) (simp_all add: ch bl ue)
  then have "held p' (a, s + t)"
    unfolding held_def using nw2 st ul ue by (auto simp: p' nowrap_def)
  moreover have "disj (a, s + t) g" if g: "g \<in> set (gs @ meta p')" for g
  proof (rule disj_merge [OF _ _ ue st])
    show "disj (a, s) g" "disj (pool_last p, t) g" using j(11) g by auto
    have "nonempty (gs @ meta p')" using s(2) by simp
    then show "snd g \<noteq> 0" using g unfolding nonempty_def by blast
  qed
  ultimately show "pool_inv n F p' ((a, s + t) # gs)"
    using J unfolding pool_inv_def by (auto simp del: set_append)
qed

text \<open>The piece on top of the first block is given back.\<close>

lemma shrink_inv:
  assumes I: "pool_inv n F p ((a, s) # gs)" and s: "s \<noteq> 0" "nonempty gs" and e: "a + s = pool_last p"
  shows "pool_inv n F (set_pool_last a p) gs"
proof -
  note f = inv_fields [OF I]
  obtain b B where ch: "chain p = b # B" by (rule inv_head [OF I])
  have h: "held p (a, s)" using f(10) by simp
  have nw: "unat a + unat s < 2 ^ 64" using h by (simp add: held_def nowrap_def)
  have ue: "unat (pool_last p) = unat a + unat s"
    unfolding e [symmetric] using nw by (subst unat_add_lem [THEN iffD1]) simp_all
  define p' where "p' = set_pool_last a p"
  have p': "p' = p\<lparr>chain := b\<lparr>b_last := a\<rparr> # B\<rparr>" by (simp add: p'_def set_pool_last_def ch)
  have bl: "b_last b = pool_last p" by (simp add: pool_last_def ch)
  have lo: "unat (b_addr b) + 72 \<le> unat a"
    by (rule top_piece [OF I h s(1)]) (simp_all add: ch bl ue)
  have mt: "meta p' = meta p" by (simp add: p' meta_def)
  have "held p' g" if g: "g \<in> set (gs @ meta p)" for g
  proof -
    have hg: "held p g" using f(10) g by auto
    have "disj (a, s) g" using f(11) g by auto
    moreover have "nonempty (gs @ meta p)" using s(2) by simp
    then have "0 < unat (snd g)" using g unfolding nonempty_def unat_gt_0 by blast
    ultimately have "unat (fst g) + unat (snd g) \<le> unat a" if "unat (fst g) + unat (snd g) \<le> unat (b_last b)"
      using that ue bl by (auto simp: disj_def)
    then show ?thesis using hg unfolding held_def p' by (auto simp: ch)
  qed
  then have "\<forall>r\<in>set (gs @ meta p'). held p' r" unfolding mt by blast
  moreover have "sorted_wrt disj (gs @ meta p')" using f(11) by (simp add: mt)
  moreover have "\<forall>b\<in>set (chain p'). block_ok n (heap p') b"
    using f(3) lo ue bl by (auto simp: p' ch block_ok_def)
  moreover have "map b_addr (chain p') = map b_addr (chain p)" "length (chain p') = length (chain p)"
    by (simp_all add: p' ch)
  moreover have "large p' = large p" "heap p' = heap p" "current p' = current p" "pmax p' = pmax p" by (simp_all add: p')
  ultimately show "pool_inv n F p' gs" using I unfolding pool_inv_def by simp
qed

section \<open>Allocation keeps the places of the blocks\<close>

definition frames :: "pblock list \<Rightarrow> (u64 \<times> u64) list" where
  "frames bs = map (\<lambda>b. (b_addr b, b_end b)) bs"

lemma frames_ends:
  assumes "map ends bs' = map ends bs" shows "frames bs' = frames bs"
proof -
  have "frames cs = map (\<lambda>(a, l, e). (a, e)) (map ends cs)" for cs by (simp add: frames_def ends_def)
  then show ?thesis by (simp only: assms)
qed

lemma small_loop_frames: "small_loop sz al bs = Some (m, bs') \<Longrightarrow> frames bs' = frames bs"
  by (induction bs arbitrary: bs') (auto simp: frames_def Let_def split: if_splits)

lemma frames_append [simp]: "frames (as @ bs) = frames as @ frames bs"
  by (simp add: frames_def)

lemma frames_take_drop: "frames (take k bs) @ frames (drop k bs) = frames bs"
  by (simp only: frames_append [symmetric] append_take_drop_id)

lemma block_frames:
  assumes "dl_palloc_block mal sz p = Some (r, p')" shows "\<exists>fs. frames (chain p') = frames (chain p) @ fs"
proof (cases "mal (heap p) (b_end (hd (chain p)) - b_addr (hd (chain p)))")
  case None
  then show ?thesis using assms by (simp add: dl_palloc_block_def dl_alloc_def)
next
  case (Some a)
  obtain cur bs where fl: "fail_loop (current p) (current p) (drop (current p) (chain p)) = (cur, bs)" by fastforce
  have "frames bs = frames (drop (current p) (chain p))" using fail_loop_spec [OF fl] by (intro frames_ends) simp
  then have e: "frames (take (current p) (chain p)) @ frames bs = frames (chain p)" by (simp add: frames_take_drop)
  have "chain p' = (take (current p) (chain p) @ bs) @ [\<lparr>b_addr = a, b_last = dl_align_ptr (a + 72) + sz,
      b_end = a + (b_end (hd (chain p)) - b_addr (hd (chain p))), b_failed = 0\<rparr>]"
    using assms Some fl by (auto simp: dl_palloc_block_def dl_alloc_def Let_def split: if_splits)
  then show ?thesis using e by (simp only: frames_append) blast
qed

lemma small_frames:
  assumes "dl_palloc_small mal sz al p = Some (r, p')" shows "\<exists>fs. frames (chain p') = frames (chain p) @ fs"
proof (cases "small_loop sz al (drop (current p) (chain p))")
  case None
  then show ?thesis using assms block_frames by (auto simp: dl_palloc_small_def)
next
  case (Some mb)
  then obtain m bs where mb: "small_loop sz al (drop (current p) (chain p)) = Some (m, bs)" by fastforce
  have "chain p' = take (current p) (chain p) @ bs" using assms mb by (auto simp: dl_palloc_small_def)
  then have "frames (chain p') = frames (chain p)"
    using small_loop_frames [OF mb] frames_take_drop [of "current p" "chain p"] by simp
  then show ?thesis by simp
qed

lemma palloc_frames:
  assumes "dl_palloc mal sz p = Some (r, p')" shows "\<exists>fs. frames (chain p') = frames (chain p) @ fs"
proof (cases "sz \<le> pmax p")
  case True
  then show ?thesis using assms small_frames by (simp add: dl_palloc_def)
next
  case False
  then have L: "dl_palloc_large mal sz p = Some (r, p')" using assms by (simp add: dl_palloc_def)
  show ?thesis
  proof (cases "mal (heap p) sz")
    case None
    then show ?thesis using L by (simp add: dl_palloc_large_def dl_alloc_def)
  next
    case (Some a)
    let ?p = "p\<lparr>heap := (a, sz) # heap p\<rparr>"
    show ?thesis
    proof (cases "large_loop 0 a (large p)")
      case None
      then obtain l p2 where S: "dl_palloc_small mal 16 True ?p = Some (l, p2)" and "chain p' = chain p2"
        using L Some by (auto simp: dl_palloc_large_def dl_alloc_def Let_def split: option.splits if_splits bind_splits)
      then show ?thesis using small_frames [OF S] by simp
    qed (use L Some in \<open>auto simp: dl_palloc_large_def dl_alloc_def Let_def\<close>)
  qed
qed

lemma palloc_pool_end:
  assumes I: "pool_inv n F p gs" and r: "dl_palloc mal sz p = Some (r, p')"
  shows "pool_end p' = pool_end p"
proof -
  obtain b B where ch: "chain p = b # B" by (rule inv_head [OF I])
  obtain fs where "frames (chain p') = frames (chain p) @ fs" using palloc_frames [OF r] by blast
  then have "frames (chain p') = (b_addr b, b_end b) # frames B @ fs" by (simp add: ch frames_def)
  then show ?thesis by (cases "chain p'") (simp_all add: frames_def pool_end_def ch)
qed

section \<open>The array\<close>

definition asize :: "darray \<Rightarrow> u64" where
  "asize a = esize a * of_int (nalloc a)"

definition slot :: "darray \<Rightarrow> nat \<Rightarrow> u64" where
  "slot a i = elts a + esize a * of_nat i"

definition elems :: "mem \<Rightarrow> darray \<Rightarrow> bytes list" where
  "elems m a = map (\<lambda>i. bytes_at m (slot a i) (unat (esize a))) [0..<nat (nelts a)]"

text \<open>An array for at most \<open>lim\<close> elements in the pool \<open>p\<close>; \<open>gs\<close> is what the other clients hold.\<close>

definition array_ok :: "nat \<Rightarrow> region list \<Rightarrow> nat \<Rightarrow> region list \<Rightarrow> darray \<Rightarrow> pool \<Rightarrow> bool" where
  "array_ok n F lim gs a p \<longleftrightarrow> pool_inv n F p ((elts a, asize a) # gs) \<and> nonempty gs
     \<and> 0 \<le> nelts a \<and> nelts a \<le> nalloc a \<and> 0 < nalloc a \<and> nalloc a \<le> int (2 * lim) \<and> esize a \<noteq> 0
     \<and> 2 * lim < 2 ^ 31 \<and> unat (pool_end p) + 2 * lim * unat (esize a) < 2 ^ 64"

lemma unat_scale:
  assumes "0 \<le> k" "unat e * nat k < 2 ^ 64" shows "unat ((e :: u64) * of_int k) = unat e * nat k"
proof (cases "unat e = 0")
  case False
  have k: "(of_int k :: u64) = of_nat (nat k)" using assms(1) by simp
  have "nat k \<le> unat e * nat k" using False by simp
  then have "unat (of_nat (nat k) :: u64) = nat k" using assms(2) by (intro unat_of_nat64) linarith
  then show ?thesis unfolding k using assms(2) by (subst unat_mult_lem [THEN iffD1]) simp_all
qed (simp add: unat_eq_zero)

lemma scale_less:
  assumes "unat b + 2 * lim * unat (e :: u64) < 2 ^ 64" "k \<le> 2 * lim" shows "unat e * k < 2 ^ 64"
proof -
  have "unat e * k \<le> 2 * lim * unat e" using assms(2) by simp
  then show ?thesis using assms(1) by linarith
qed

lemma array_sizes:
  assumes "array_ok n F lim gs a p"
  shows "unat (asize a) = unat (esize a) * nat (nalloc a)" "asize a \<noteq> 0" "0 < unat (esize a)"
proof -
  have b: "0 < nalloc a" "unat (pool_end p) + 2 * lim * unat (esize a) < 2 ^ 64" "nat (nalloc a) \<le> 2 * lim" "esize a \<noteq> 0"
    using assms by (auto simp: array_ok_def)
  show u: "unat (asize a) = unat (esize a) * nat (nalloc a)"
    unfolding asize_def using b scale_less [OF b(2,3)] by (intro unat_scale) simp_all
  show e: "0 < unat (esize a)" using b(4) by (simp add: unat_gt_0)
  show "asize a \<noteq> 0" using u b(1) e by (metis mult_eq_0_iff nat_0_iff not_le unat_0 less_numeral_extra(3))
qed

lemma slot_offset: "slot a i = elts a + of_nat (i * unat (esize a))"
  by (simp add: slot_def mult.commute)

lemma bytes_at_slice: "i + l \<le> k \<Longrightarrow> take l (drop i (bytes_at m a k)) = bytes_at m (a + of_nat i) l"
  using bytes_at_add [of m a i "k - i"] bytes_at_add [of m "a + of_nat i" l "k - i - l"] by simp

text \<open>The elements depend on the bytes from \<^verbatim>\<open>elts\<close> on only.\<close>

lemma elems_cong:
  assumes "bytes_at m' (elts a') (nat (nelts a) * unat (esize a)) = bytes_at m (elts a) (nat (nelts a) * unat (esize a))"
    "nelts a' = nelts a" "esize a' = esize a"
  shows "elems m' a' = elems m a"
proof -
  let ?w = "unat (esize a)" and ?k = "nat (nelts a) * unat (esize a)"
  have "bytes_at m' (slot a' i) ?w = bytes_at m (slot a i) ?w" if i: "i < nat (nelts a)" for i
  proof -
    have "Suc i * ?w \<le> ?k" using i by (intro mult_le_mono1) simp
    then have "i * ?w + ?w \<le> ?k" by simp
    from bytes_at_slice [OF this] show ?thesis using assms by (metis slot_offset)
  qed
  then show ?thesis using assms(2,3) by (simp add: elems_def)
qed

lemma grow_in_place:
  assumes A: "array_ok n F lim gs a p" and k: "0 < k" "nalloc a + k \<le> int (2 * lim)"
    and e: "elts a + asize a = pool_last p" "pool_last p + esize a * of_int k \<le> pool_end p"
  shows "array_ok n F lim gs (a\<lparr>nalloc := nalloc a + k\<rparr>) (set_pool_last (pool_last p + esize a * of_int k) p)"
proof -
  have I: "pool_inv n F p ((elts a, asize a) # gs)" and b: "nonempty gs" "0 \<le> nelts a" "nelts a \<le> nalloc a" "0 < nalloc a" "esize a \<noteq> 0"
    "2 * lim < 2 ^ 31" "unat (pool_end p) + 2 * lim * unat (esize a) < 2 ^ 64"
    using A by (simp_all add: array_ok_def)
  obtain c B where ch: "chain p = c # B" by (rule inv_head [OF I])
  have "block_ok n (heap p) c" using inv_fields(3) [OF I] by (simp add: ch)
  then have le: "unat (pool_last p) \<le> unat (pool_end p)" by (simp add: block_ok_def pool_last_def pool_end_def ch)
  have nk: "nat k \<le> 2 * lim" using k b(4) by linarith
  have t: "unat (esize a * of_int k) = unat (esize a) * nat k"
    using k(1) scale_less [OF b(7) nk] by (intro unat_scale) simp_all
  have "unat (esize a) * nat k \<le> 2 * lim * unat (esize a)" using nk by simp
  then have "unat (pool_last p) + unat (esize a * of_int k) < 2 ^ 64" using le b(7) t by linarith
  then have "unat (pool_last p + esize a * of_int k) = unat (pool_last p) + unat (esize a * of_int k)"
    by (subst unat_add_lem [THEN iffD1]) simp_all
  then have r: "unat (pool_last p) + unat (esize a * of_int k) \<le> unat (pool_end p)"
    using e(2) by (simp add: word_le_nat_alt)
  have s: "asize (a\<lparr>nalloc := nalloc a + k\<rparr>) = asize a + esize a * of_int k"
    by (simp add: asize_def algebra_simps)
  have "pool_end (set_pool_last l p) = pool_end p" for l by (simp add: pool_end_def set_pool_last_def ch)
  then show ?thesis
    using extend_inv(1) [OF I array_sizes(2) [OF A] b(1) e(1) r] b k unfolding array_ok_def s by simp
qed

lemma grow_move:
  assumes A: "array_ok n F lim gs a p" and M: "malloc_ok mal"
    and na: "nelts a \<le> na" "0 < na" "na \<le> int (2 * lim)"
    and r: "dl_palloc mal (esize a * of_int na) p = Some (Some new, p1)"
    and c: "unat (esize a) * nat (nelts a) \<le> unat c" "unat c \<le> unat (asize a)" "unat c \<le> unat (esize a) * nat na"
  shows "\<exists>m'. memcpy (heap p1) new (elts a) c m = Some m' \<and> array_ok n F lim gs (a\<lparr>elts := new, nalloc := na\<rparr>) p1
    \<and> elems m' (a\<lparr>elts := new, nalloc := na\<rparr>) = elems m a \<and> (\<forall>g\<in>set gs. piece m' g = piece m g)"
proof -
  let ?a = "a\<lparr>elts := new, nalloc := na\<rparr>" and ?r = "(new, esize a * of_int na)"
  have I: "pool_inv n F p ((elts a, asize a) # gs)" and b: "nonempty gs" "0 \<le> nelts a" "esize a \<noteq> 0"
    "2 * lim < 2 ^ 31" "unat (pool_end p) + 2 * lim * unat (esize a) < 2 ^ 64"
    using A by (simp_all add: array_ok_def)
  have J: "pool_inv n F p1 (?r # (elts a, asize a) # gs)" and w: "writable (heap p1) new (esize a * of_int na)"
    using palloc_spec [OF M I, of "esize a * of_int na"] r by (auto simp: serves_def)
  note j = inv_fields [OF J]
  have K: "pool_inv n F p1 (?r # gs)" using J by (auto simp: pool_inv_def)
  have u: "unat (esize a * of_int na) = unat (esize a) * nat na"
    using na scale_less [OF b(5), of "nat na"] by (intro unat_scale) auto
  have nw: "nowrap ?r" "nowrap (elts a, asize a)" "\<forall>g\<in>set gs. nowrap g" using inv_nowrap [OF J] by simp_all
  have dj: "disj ?r (elts a, asize a)" "\<forall>g\<in>set gs. disj ?r g" using inv_disj [OF J] by simp_all
  have i1: "inside (new, c) ?r" and i2: "inside (elts a, c) (elts a, asize a)"
    using c u by (simp_all add: inside_def)
  have "writable (heap p1) new c" using w i1 by (auto simp: writable_def list_ex_iff intro: inside_trans)
  moreover have "writable (heap p1) (elts a) c"
    using inv_writable [OF J, of "(elts a, asize a)"] i2 by (auto simp: writable_def list_ex_iff intro: inside_trans)
  moreover have "disj (new, c) (elts a, c)" using dj(1) i1 i2 by (meson disj_inside disj_sym)
  ultimately have m: "memcpy (heap p1) new (elts a) c m = Some (store new (bytes_at m (elts a) (unat c)) m)"
    by (simp add: memcpy_def)
  let ?m = "store new (bytes_at m (elts a) (unat c)) m"
  have pc: "piece ?m g = piece m g" if "g \<in> set gs" for g
    using nw dj(2) that c(3) u by (intro piece_store [of ?r]) auto
  have "unat new + unat c \<le> 2 ^ 64" using nw(1) c(3) u by (simp add: nowrap_def)
  then have "bytes_at ?m new (unat c) = bytes_at m (elts a) (unat c)"
    using bytes_store_same [of new "bytes_at m (elts a) (unat c)" m] by simp
  then have "take k (bytes_at ?m new (unat c)) = take k (bytes_at m (elts a) (unat c))" for k by simp
  from this [of "nat (nelts a) * unat (esize a)"]
  have "bytes_at ?m new (nat (nelts a) * unat (esize a)) = bytes_at m (elts a) (nat (nelts a) * unat (esize a))"
    using bytes_at_slice [of 0 "nat (nelts a) * unat (esize a)" "unat c"] c(1) by (simp add: mult.commute)
  then have el: "elems ?m ?a = elems m a" by (intro elems_cong) simp_all
  have "asize ?a = esize a * of_int na" by (simp add: asize_def)
  then have "array_ok n F lim gs ?a p1"
    using K b na palloc_pool_end [OF I r] unfolding array_ok_def by simp
  then show ?thesis using m el pc by blast
qed

text \<open>What growing means for the client.\<close>

definition grown :: "nat \<Rightarrow> region list \<Rightarrow> nat \<Rightarrow> region list \<Rightarrow> nat \<Rightarrow> darray \<Rightarrow> mem \<Rightarrow> (bool \<times> darray \<times> pool \<times> mem) option \<Rightarrow> bool" where
  "grown n F lim gs k a m res \<longleftrightarrow> (\<exists>ok a' p' m'. res = Some (ok, a', p', m') \<and> array_ok n F lim gs a' p'
     \<and> nelts a' = nelts a \<and> esize a' = esize a \<and> a_at a' = a_at a \<and> elems m' a' = elems m a
     \<and> (\<forall>g\<in>set gs. piece m' g = piece m g) \<and> (ok \<longrightarrow> nelts a + int k \<le> nalloc a') \<and> (\<not> ok \<longrightarrow> a' = a \<and> m' = m))"

lemma grownI:
  assumes "res = Some (True, a', p', m')" "array_ok n F lim gs a' p'" "nelts a' = nelts a" "esize a' = esize a" "a_at a' = a_at a"
    "elems m' a' = elems m a" "\<forall>g\<in>set gs. piece m' g = piece m g" "nelts a + int k \<le> nalloc a'"
  shows "grown n F lim gs k a m res"
  unfolding grown_def using assms by (intro exI [of _ True] exI [of _ a'] exI [of _ p'] exI [of _ m']) simp

lemma palloc_array_ok:
  assumes A: "array_ok n F lim gs a p" and M: "malloc_ok mal" and r: "dl_palloc mal sz p = Some (None, p')"
  shows "array_ok n F lim gs a p'"
proof -
  have I: "pool_inv n F p ((elts a, asize a) # gs)" using A by (simp add: array_ok_def)
  have "pool_inv n F p' ((elts a, asize a) # gs)" using palloc_spec [OF M I, of sz] r by (auto simp: serves_def)
  then show ?thesis using A palloc_pool_end [OF I r] by (simp add: array_ok_def)
qed

lemma c_int_small: "- (2 ^ 31) \<le> v \<Longrightarrow> v < 2 ^ 31 \<Longrightarrow> c_int v = Some v"
  by (simp add: c_int_def)

lemma array_grow_spec:
  assumes A: "array_ok n F lim gs a p" and M: "malloc_ok mal" and f: "nelts a = nalloc a" "nelts a < int lim"
  shows "grown n F lim gs 1 a m (array_grow mal a p m)"
proof (cases "elts a + asize a = pool_last p \<and> pool_last p + esize a \<le> pool_end p")
  case True
  have l: "2 * lim < 2 ^ 31" "0 < nalloc a" using A by (simp_all add: array_ok_def)
  then have c: "c_int (nalloc a + 1) = Some (nalloc a + 1)" using f by (intro c_int_small) auto
  have "array_ok n F lim gs (a\<lparr>nalloc := nalloc a + 1\<rparr>) (set_pool_last (pool_last p + esize a) p)"
    using grow_in_place [OF A, of 1] True f by simp
  moreover have "elems m (a\<lparr>nalloc := nalloc a + 1\<rparr>) = elems m a" by (intro elems_cong) simp_all
  ultimately show ?thesis
    using True c f(1) by (intro grownI [of _ "a\<lparr>nalloc := nalloc a + 1\<rparr>" "set_pool_last (pool_last p + esize a) p" m])
      (simp_all add: array_grow_def asize_def [symmetric])
next
  case False
  have l: "2 * lim < 2 ^ 31" "0 < nalloc a" using A by (simp_all add: array_ok_def)
  then have c: "c_int (nalloc a * 2) = Some (nalloc a * 2)" using f by (intro c_int_small) auto
  have sz: "2 * asize a = esize a * of_int (nalloc a * 2)" by (simp add: asize_def)
  have I: "pool_inv n F p ((elts a, asize a) # gs)" using A by (simp add: array_ok_def)
  obtain new p1 where r: "dl_palloc mal (2 * asize a) p = Some (new, p1)"
    using palloc_spec [OF M I, of "2 * asize a"] by (auto simp: serves_def)
  show ?thesis
  proof (cases new)
    case None
    then show ?thesis
      using r False palloc_array_ok [OF A M r [unfolded None]] unfolding grown_def
      by (auto simp: array_grow_def asize_def [symmetric])
  next
    case (Some e)
    have "nat (nalloc a) \<le> nat (nalloc a * 2)" using l(2) by simp
    then have le: "unat (asize a) \<le> unat (esize a) * nat (nalloc a * 2)" using array_sizes(1) [OF A] by simp
    obtain m' where m': "memcpy (heap p1) e (elts a) (asize a) m = Some m'"
      "array_ok n F lim gs (a\<lparr>elts := e, nalloc := nalloc a * 2\<rparr>) p1"
      "elems m' (a\<lparr>elts := e, nalloc := nalloc a * 2\<rparr>) = elems m a" "\<forall>g\<in>set gs. piece m' g = piece m g"
      using grow_move [OF A M _ _ _ r [unfolded Some sz] _ _ le, of m] array_sizes(1) [OF A] f l(2) by auto
    show ?thesis
      by (rule grownI [OF _ m'(2) _ _ _ m'(3,4)])
        (use r False Some m'(1) c f(1) l(2) in \<open>auto simp: array_grow_def asize_def [symmetric]\<close>)
  qed
qed

lemma push_n_bounds:
  assumes "0 < k" "nelts a + k \<le> int lim" "nalloc a < nelts a + k" "0 \<le> nelts a" "nelts a \<le> nalloc a" "0 < nalloc a"
  defines "na \<equiv> 2 * (if k \<ge> nalloc a then k else nalloc a)"
  shows "nalloc a + k \<le> int (2 * lim)" "na \<le> int (2 * lim)" "nelts a + k \<le> na" "0 < na" "nelts a \<le> na"
  using assms by (auto simp: na_def)

lemma array_grow_n_spec:
  assumes A: "array_ok n F lim gs a p" and M: "malloc_ok mal"
    and k: "0 < k" "nelts a + int k \<le> int lim" "nalloc a < nelts a + int k"
  shows "grown n F lim gs k a m (array_grow_n mal (int k) a p m)"
proof -
  have l: "2 * lim < 2 ^ 31" "0 < nalloc a" "0 \<le> nelts a" "nelts a \<le> nalloc a" using A by (simp_all add: array_ok_def)
  define na where "na = 2 * (if int k \<ge> nalloc a then int k else nalloc a)"
  note b = push_n_bounds [of "int k" a lim, OF _ k(2,3) l(3,4,2), folded na_def]
  have sz: "of_int (int k) * esize a = esize a * of_int (int k)" "of_int na * esize a = esize a * of_int na"
    by (simp_all add: mult.commute)
  show ?thesis
  proof (cases "elts a + asize a = pool_last p \<and> pool_last p + esize a * of_int (int k) \<le> pool_end p")
    case True
    have c: "c_int (nalloc a + int k) = Some (nalloc a + int k)" using b(1) k(1) l by (intro c_int_small) auto
    have "array_ok n F lim gs (a\<lparr>nalloc := nalloc a + int k\<rparr>) (set_pool_last (pool_last p + esize a * of_int (int k)) p)"
      using grow_in_place [OF A _ b(1)] True k(1) by simp
    moreover have "elems m (a\<lparr>nalloc := nalloc a + int k\<rparr>) = elems m a" by (intro elems_cong) simp_all
    moreover have "array_grow_n mal (int k) a p m = Some (True, a\<lparr>nalloc := nalloc a + int k\<rparr>,
        set_pool_last (pool_last p + esize a * of_int (int k)) p, m)"
      using True c unfolding array_grow_n_def Let_def asize_def [symmetric] sz by simp
    ultimately show ?thesis
      using l(4) by (intro grownI [of _ "a\<lparr>nalloc := nalloc a + int k\<rparr>"
        "set_pool_last (pool_last p + esize a * of_int (int k)) p" m]) simp_all
  next
    case False
    have c: "c_int na = Some na" using b(2,4) k(1) l by (intro c_int_small) auto
    have I: "pool_inv n F p ((elts a, asize a) # gs)" using A by (simp add: array_ok_def)
    obtain new p1 where r: "dl_palloc mal (esize a * of_int na) p = Some (new, p1)"
      using palloc_spec [OF M I, of "esize a * of_int na"] by (auto simp: serves_def)
    have run: "array_grow_n mal (int k) a p m = (case new of None \<Rightarrow> Some (False, a, p1, m)
        | Some e \<Rightarrow> do { m \<leftarrow> memcpy (heap p1) e (elts a) (of_int (nelts a) * esize a) m;
                         Some (True, a\<lparr>elts := e, nalloc := na\<rparr>, p1, m) })"
      unfolding array_grow_n_def Let_def asize_def [symmetric] na_def [symmetric] sz(1) if_not_P [OF False]
      using r [folded sz(2)] c by simp
    show ?thesis
    proof (cases new)
      case None
      then show ?thesis using run palloc_array_ok [OF A M r [unfolded None]] by (auto simp: grown_def)
    next
      case (Some e)
      have "nat (nelts a) \<le> nat (nalloc a)" using l(4) by simp
      then have "unat (esize a) * nat (nelts a) \<le> unat (asize a)" using array_sizes(1) [OF A] by simp
      moreover have "nat (nelts a) \<le> nat na" using b(5) k(1) by simp
      ultimately have le: "unat (esize a) * nat (nelts a) \<le> unat (asize a)"
        "unat (esize a) * nat (nelts a) \<le> unat (esize a) * nat na" by simp_all
      have "unat (asize a) < 2 ^ 64" by (rule less_le_trans [OF unsigned_less]) simp
      then have u: "unat (of_int (nelts a) * esize a) = unat (esize a) * nat (nelts a)"
        using l(3) le(1) by (subst mult.commute, intro unat_scale) simp_all
      obtain m' where m': "memcpy (heap p1) e (elts a) (of_int (nelts a) * esize a) m = Some m'"
        "array_ok n F lim gs (a\<lparr>elts := e, nalloc := na\<rparr>) p1"
        "elems m' (a\<lparr>elts := e, nalloc := na\<rparr>) = elems m a" "\<forall>g\<in>set gs. piece m' g = piece m g"
        using grow_move [OF A M _ _ b(2) r [unfolded Some], of "of_int (nelts a) * esize a" m] u le b(4,5) k(1) by auto
      show ?thesis
        using run Some m' b(3) k(1) by (intro grownI [of _ "a\<lparr>elts := e, nalloc := na\<rparr>" p1 m']) simp_all
    qed
  qed
qed

lemma concat_chunk:
  "\<forall>e\<in>set es. length e = w \<Longrightarrow> i < length es \<Longrightarrow> take w (drop (i * w) (concat es)) = es ! i"
proof (induction es arbitrary: i)
  case (Cons e es)
  then show ?case by (cases i) simp_all
qed simp

lemma length_chunks: "\<forall>e\<in>set es. length e = w \<Longrightarrow> length (concat es) = length es * w"
  by (induction es) simp_all

text \<open>The client writes the elements \<open>es\<close> to the address a push returned.\<close>

lemma elems_append:
  assumes A: "array_ok n F lim gs a p" and k: "nelts a + int (length es) \<le> nalloc a" "nelts a' = nelts a + int (length es)"
    and same: "elts a' = elts a" "esize a' = esize a" and e: "\<forall>e\<in>set es. length e = unat (esize a)"
  shows "elems (store (slot a (nat (nelts a))) (concat es) m) a' = elems m a @ es"
    "\<forall>g\<in>set gs. piece (store (slot a (nat (nelts a))) (concat es) m) g = piece m g"
proof -
  have I: "pool_inv n F p ((elts a, asize a) # gs)" and l: "0 \<le> nelts a" using A by (simp_all add: array_ok_def)
  have nw: "nowrap (elts a, asize a)" "\<forall>g\<in>set gs. nowrap g" "\<forall>g\<in>set gs. disj (elts a, asize a) g"
    using inv_nowrap [OF I] inv_disj [OF I] by simp_all
  let ?w = "unat (esize a)" and ?k = "nat (nelts a)" and ?l = "length es"
  have "?k + ?l \<le> nat (nalloc a)" using k(1) l by simp
  then have "(?k + ?l) * ?w \<le> nat (nalloc a) * ?w" by (rule mult_le_mono1)
  also have "\<dots> = unat (asize a)" using array_sizes(1) [OF A] by simp
  finally have fit: "?k * ?w + ?l * ?w \<le> unat (asize a)" by (simp add: add_mult_distrib)
  have lim: "unat (elts a) + unat (asize a) < 2 ^ 64" using nw(1) by (simp add: nowrap_def)
  have at: "unat (slot a i) = unat (elts a) + i * ?w" if i: "i \<le> ?k" for i
  proof -
    have "i * ?w \<le> ?k * ?w" using i by (rule mult_le_mono1)
    then have "i * ?w < Suc (unat (asize a))" using fit by linarith
    moreover have "unat (elts a) + Suc (unat (asize a)) \<le> 2 ^ 64" using lim by simp
    ultimately show ?thesis unfolding slot_offset by (intro unat_at)
  qed
  let ?m = "store (slot a ?k) (concat es) m"
  have len: "length (concat es) = ?l * ?w" using e by (rule length_chunks)
  have bot: "unat (slot a ?k) = unat (elts a) + ?k * ?w" by (rule at) simp
  have top: "unat (slot a ?k) + ?l * ?w \<le> unat (elts a) + unat (asize a)" using bot fit by simp
  show "\<forall>g\<in>set gs. piece ?m g = piece m g"
  proof
    fix g assume g: "g \<in> set gs"
    show "piece ?m g = piece m g"
      by (rule piece_store [of "(elts a, asize a)"]) (use nw g top bot len in auto)
  qed
  have old: "bytes_at ?m (slot a i) ?w = bytes_at m (slot a i) ?w" if i: "i < ?k" for i
  proof (rule bytes_store_apart)
    have "Suc i * ?w \<le> ?k * ?w" using i by (intro mult_le_mono1) simp
    then have "unat (slot a i) + ?w \<le> unat (slot a ?k)" using at [of i] bot i by simp
    then show "unat (slot a i) + ?w \<le> 2 ^ 64" "unat (slot a i) + ?w \<le> unat (slot a ?k)
        \<or> unat (slot a ?k) + length (concat es) \<le> unat (slot a i)" using top lim by simp_all
  qed (use top lim len in simp)
  have all: "bytes_at ?m (slot a ?k) (?l * ?w) = concat es"
    using bytes_store_same [of "slot a ?k" "concat es" m] top lim len by simp
  have new: "bytes_at ?m (slot a (?k + i)) ?w = es ! i" if i: "i < ?l" for i
  proof -
    have "Suc i * ?w \<le> ?l * ?w" using i by (intro mult_le_mono1) simp
    then have "i * ?w + ?w \<le> ?l * ?w" by simp
    from bytes_at_slice [OF this, of ?m "slot a ?k"]
    have "bytes_at ?m (slot a ?k + of_nat (i * ?w)) ?w = es ! i" using concat_chunk [OF e i] all by simp
    moreover have "slot a ?k + of_nat (i * ?w) = slot a (?k + i)" by (simp add: slot_def algebra_simps)
    ultimately show ?thesis by simp
  qed
  have sl: "slot a' i = slot a i" for i using same by (simp add: slot_def)
  let ?f = "\<lambda>i. bytes_at ?m (slot a i) ?w"
  have m2: "map ?f [?k..<?k + ?l] = es"
  proof (rule nth_equalityI)
    fix i assume "i < length (map ?f [?k..<?k + ?l])"
    then have i: "i < ?l" by simp
    then have "map ?f [?k..<?k + ?l] ! i = ?f (?k + i)" by simp
    then show "map ?f [?k..<?k + ?l] ! i = es ! i" using new [OF i] by (rule trans)
  qed simp
  have m1: "map ?f [0..<?k] = elems m a" unfolding elems_def by (rule map_cong) (simp_all only: old set_upt atLeastLessThan_iff)
  have "nat (nelts a') = ?k + ?l" using k(2) l by simp
  then have "elems ?m a' = map ?f ([0..<?k] @ [?k..<?k + ?l])"
    unfolding elems_def sl same by (simp only: upt_add_eq_append [OF le0])
  then show "elems ?m a' = elems m a @ es" by (simp only: map_append m1 m2)
qed

lemma array_push_spec:
  assumes A: "array_ok n F lim gs a p" and M: "malloc_ok mal" and f: "nelts a < int lim"
  shows "\<exists>r a' p' m'. dl_array_push mal a p m = Some (r, a', p', m') \<and> array_ok n F lim gs a' p'
    \<and> esize a' = esize a \<and> a_at a' = a_at a \<and> (\<forall>g\<in>set gs. piece m' g = piece m g)
    \<and> (case r of None \<Rightarrow> a' = a \<and> m' = m
       | Some s \<Rightarrow> nelts a' = nelts a + 1 \<and> s = slot a' (nat (nelts a))
           \<and> (\<forall>e. length e = unat (esize a) \<longrightarrow> elems (store s e m') a' = elems m a @ [e]
               \<and> (\<forall>g\<in>set gs. piece (store s e m') g = piece m g)))"
proof -
  have l: "0 \<le> nelts a" "nelts a \<le> nalloc a" "2 * lim < 2 ^ 31" using A by (simp_all add: array_ok_def)
  have "grown n F lim gs 1 a m (if nelts a = nalloc a then array_grow mal a p m else Some (True, a, p, m))"
  proof (cases "nelts a = nalloc a")
    case True
    then show ?thesis using array_grow_spec [OF A M True f] by simp
  next
    case False
    then show ?thesis using A l by (auto intro: grownI)
  qed
  then obtain ok b p1 m1 where g: "(if nelts a = nalloc a then array_grow mal a p m else Some (True, a, p, m)) = Some (ok, b, p1, m1)"
    "array_ok n F lim gs b p1" "nelts b = nelts a" "esize b = esize a" "elems m1 b = elems m a" "a_at b = a_at a"
    "\<forall>g\<in>set gs. piece m1 g = piece m g" "ok \<longrightarrow> nelts a + 1 \<le> nalloc b" "\<not> ok \<longrightarrow> b = a \<and> m1 = m"
    unfolding grown_def by auto
  show ?thesis
  proof (cases ok)
    case False
    then show ?thesis using g by (simp add: dl_array_push_def)
  next
    case True
    let ?b = "b\<lparr>nelts := nelts a + 1\<rparr>"
    have c: "c_int (nelts a + 1) = Some (nelts a + 1)" using l f by (intro c_int_small) auto
    have ok: "array_ok n F lim gs ?b p1" using g(2,3,8) True l by (simp add: array_ok_def asize_def)
    have s: "elts b + esize b * of_int (nelts a) = slot ?b (nat (nelts a))" using l by (simp add: slot_def)
    have "dl_array_push mal a p m = Some (Some (slot ?b (nat (nelts a))), ?b, p1, m1)"
      using g(1,3) True c by (simp add: dl_array_push_def s)
    moreover have "slot ?b (nat (nelts a)) = slot b (nat (nelts b))" using g(3) by (simp add: slot_def)
    then have "\<forall>e. length e = unat (esize a) \<longrightarrow> elems (store (slot ?b (nat (nelts a))) e m1) ?b = elems m a @ [e]
      \<and> (\<forall>g\<in>set gs. piece (store (slot ?b (nat (nelts a))) e m1) g = piece m g)"
      using elems_append [OF g(2), of "[e]" ?b m1 for e] g(3-8) True by simp
    ultimately show ?thesis using ok g by simp
  qed
qed

lemma array_push_n_spec:
  assumes A: "array_ok n F lim gs a p" and M: "malloc_ok mal" and k: "0 < k" "nelts a + int k \<le> int lim"
  shows "\<exists>r a' p' m'. dl_array_push_n mal (int k) a p m = Some (r, a', p', m') \<and> array_ok n F lim gs a' p'
    \<and> esize a' = esize a \<and> a_at a' = a_at a \<and> (\<forall>g\<in>set gs. piece m' g = piece m g)
    \<and> (case r of None \<Rightarrow> a' = a \<and> m' = m
       | Some s \<Rightarrow> nelts a' = nelts a + int k \<and> s = slot a' (nat (nelts a))
           \<and> (\<forall>es. length es = k \<longrightarrow> (\<forall>e\<in>set es. length e = unat (esize a)) \<longrightarrow>
                elems (store s (concat es) m') a' = elems m a @ es
                \<and> (\<forall>g\<in>set gs. piece (store s (concat es) m') g = piece m g)))"
proof -
  have l: "0 \<le> nelts a" "nelts a \<le> nalloc a" "2 * lim < 2 ^ 31" using A by (simp_all add: array_ok_def)
  let ?g = "if nelts a + int k > nalloc a then array_grow_n mal (int k) a p m else Some (True, a, p, m)"
  have "grown n F lim gs k a m ?g"
  proof (cases "nalloc a < nelts a + int k")
    case True
    then show ?thesis using array_grow_n_spec [OF A M k True] by simp
  next
    case False
    then show ?thesis using A l by (auto intro: grownI)
  qed
  then obtain ok b p1 m1 where g: "?g = Some (ok, b, p1, m1)"
    "array_ok n F lim gs b p1" "nelts b = nelts a" "esize b = esize a" "elems m1 b = elems m a" "a_at b = a_at a"
    "\<forall>g\<in>set gs. piece m1 g = piece m g" "ok \<longrightarrow> nelts a + int k \<le> nalloc b" "\<not> ok \<longrightarrow> b = a \<and> m1 = m"
    unfolding grown_def by auto
  have c: "c_int (nelts a + int k) = Some (nelts a + int k)" using l k by (intro c_int_small) auto
  show ?thesis
  proof (cases ok)
    case False
    then show ?thesis using g c by (simp add: dl_array_push_n_def)
  next
    case True
    let ?b = "b\<lparr>nelts := nelts a + int k\<rparr>"
    have ok: "array_ok n F lim gs ?b p1" using g(2,3,8) True l by (simp add: array_ok_def asize_def)
    have s: "elts b + esize b * of_int (nelts a) = slot ?b (nat (nelts a))" using l by (simp add: slot_def)
    have "dl_array_push_n mal (int k) a p m = Some (Some (slot ?b (nat (nelts a))), ?b, p1, m1)"
      using g(1,3) True c by (simp add: dl_array_push_n_def s)
    moreover have "elems (store (slot ?b (nat (nelts a))) (concat es) m1) ?b = elems m a @ es
      \<and> (\<forall>g\<in>set gs. piece (store (slot ?b (nat (nelts a))) (concat es) m1) g = piece m g)"
      if "length es = k" "\<forall>e\<in>set es. length e = unat (esize a)" for es
      using elems_append [OF g(2), of es ?b m1] g(3-8) True that by (simp add: slot_def)
    ultimately show ?thesis using ok g by simp
  qed
qed

text \<open>The array and its own record, on top of the first block or not, are given back.\<close>

lemma array_destroy_spec:
  assumes A: "array_ok n F lim ((a_at a, sizeof_array) # gs) a p"
  shows "pool_inv n F (dl_array_destroy a p) gs"
proof -
  have I: "pool_inv n F p ((elts a, asize a) # (a_at a, sizeof_array) # gs)" and ne: "nonempty gs"
    using A by (simp_all add: array_ok_def)
  define q where "q = (if elts a + asize a = pool_last p then set_pool_last (pool_last p - asize a) p else p)"
  have q: "pool_inv n F q ((a_at a, sizeof_array) # gs)"
  proof (cases "elts a + asize a = pool_last p")
    case True
    then have "pool_last p - asize a = elts a" by (simp add: algebra_simps flip: True)
    then show ?thesis using shrink_inv [OF I array_sizes(2) [OF A] _ True] ne True by (simp add: q_def)
  next
    case False
    then show ?thesis using inv_drop [OF I] by (simp add: q_def)
  qed
  have "dl_array_destroy a p = (if a_at a + sizeof_array = pool_last q then set_pool_last (a_at a) q else q)"
    by (simp only: dl_array_destroy_def q_def asize_def Let_def)
  then show ?thesis using shrink_inv [OF q _ ne] inv_drop [OF q] by simp
qed

section \<open>The interface\<close>

text \<open>
  Adding elements one after another. The result of \<open>add\<close>: \<open>None\<close> is undefined behaviour, \<open>Some None\<close>
  is out of memory.
\<close>

fun add_all :: "(bytes \<Rightarrow> 's \<Rightarrow> 's option option) \<Rightarrow> bytes list \<Rightarrow> 's \<Rightarrow> 's option option" where
  "add_all add [] s = Some (Some s)"
| "add_all add (e # es) s =
     (case add e s of None \<Rightarrow> None | Some None \<Rightarrow> Some None | Some (Some s) \<Rightarrow> add_all add es s)"

text \<open>A sequence of elements of one width that grows at its end up to \<open>lim\<close> elements.\<close>

locale sequence =
  fixes ok :: "'s \<Rightarrow> bool" and seq :: "'s \<Rightarrow> bytes list" and width :: "'s \<Rightarrow> nat" and lim :: nat
    and add :: "bytes \<Rightarrow> 's \<Rightarrow> 's option option"
  assumes add_law: "ok s \<Longrightarrow> length e = width s \<Longrightarrow> length (seq s) < lim \<Longrightarrow>
    \<exists>r. add e s = Some r \<and> (\<forall>s'. r = Some s' \<longrightarrow> ok s' \<and> seq s' = seq s @ [e] \<and> width s' = width s)"
begin

lemma add_all_spec:
  "ok s \<Longrightarrow> \<forall>e\<in>set es. length e = width s \<Longrightarrow> length (seq s) + length es \<le> lim \<Longrightarrow>
   \<exists>r. add_all add es s = Some r \<and> (\<forall>s'. r = Some s' \<longrightarrow> ok s' \<and> seq s' = seq s @ es \<and> width s' = width s)"
proof (induction es arbitrary: s)
  case (Cons e es)
  obtain r where r: "add e s = Some r" "\<forall>s'. r = Some s' \<longrightarrow> ok s' \<and> seq s' = seq s @ [e] \<and> width s' = width s"
    using add_law [OF Cons.prems(1), of e] Cons.prems(2,3) by auto
  show ?case
  proof (cases r)
    case (Some s1)
    then show ?thesis using r Cons.IH [of s1] Cons.prems(2,3) by auto
  qed (use r in simp)
qed simp

end

text \<open>The client of an array pushes and writes the element.\<close>

definition array_add :: "malloc \<Rightarrow> bytes \<Rightarrow> darray \<times> pool \<times> mem \<Rightarrow> (darray \<times> pool \<times> mem) option option" where
  "array_add mal e = (\<lambda>(a, p, m). do {
     (r, a, p, m) \<leftarrow> dl_array_push mal a p m;
     case r of
       None \<Rightarrow> Some None
     | Some s \<Rightarrow> if writable (heap p) s (of_nat (length e)) then Some (Some (a, p, store s e m)) else None })"

text \<open>\<open>cs\<close> is what the other clients' memory \<open>gs\<close> holds.\<close>

definition array_state :: "malloc \<Rightarrow> nat \<Rightarrow> region list \<Rightarrow> nat \<Rightarrow> region list \<Rightarrow> bytes list \<Rightarrow> u64 \<Rightarrow> darray \<times> pool \<times> mem \<Rightarrow> bool" where
  "array_state mal n F lim gs cs at = (\<lambda>(a, p, m). a_at a = at \<and> malloc_ok mal \<and> array_ok n F lim gs a p \<and> map (piece m) gs = cs)"

lemma slot_writable:
  assumes A: "array_ok n F lim gs a p" and i: "int i < nalloc a"
  shows "writable (heap p) (slot a i) (esize a)" "inside (slot a i, esize a) (elts a, asize a)"
proof -
  have I: "pool_inv n F p ((elts a, asize a) # gs)" using A by (simp add: array_ok_def)
  have nw: "unat (elts a) + unat (asize a) < 2 ^ 64" using inv_nowrap [OF I] by (simp add: nowrap_def)
  have "Suc i \<le> nat (nalloc a)" using i by linarith
  then have "Suc i * unat (esize a) \<le> nat (nalloc a) * unat (esize a)" by (rule mult_le_mono1)
  then have le: "i * unat (esize a) + unat (esize a) \<le> unat (asize a)"
    using array_sizes(1) [OF A] by (simp add: mult.commute)
  then have "i * unat (esize a) < unat (asize a)" using array_sizes(3) [OF A] by linarith
  then have "unat (slot a i) = unat (elts a) + i * unat (esize a)"
    unfolding slot_offset using nw by (intro unat_at [of _ "unat (asize a)"]) simp_all
  then show ins: "inside (slot a i, esize a) (elts a, asize a)" using le by (simp add: inside_def)
  show "writable (heap p) (slot a i) (esize a)"
    using inv_writable [OF I, of "(elts a, asize a)"] ins
    by (auto simp: writable_def list_ex_iff intro: inside_trans)
qed

lemma length_elems [simp]: "length (elems m a) = nat (nelts a)"
  by (simp add: elems_def)

lemma array_add_law:
  assumes S: "array_state mal n F lim gs cs at (a, p, m)" and e: "length e = unat (esize a)" and l: "length (elems m a) < lim"
  shows "\<exists>r. array_add mal e (a, p, m) = Some r \<and> (\<forall>a' p' m'. r = Some (a', p', m') \<longrightarrow>
    array_state mal n F lim gs cs at (a', p', m') \<and> elems m' a' = elems m a @ [e] \<and> esize a' = esize a)"
proof -
  have A: "array_ok n F lim gs a p" and M: "malloc_ok mal" and c: "map (piece m) gs = cs" "a_at a = at"
    using S by (simp_all add: array_state_def)
  have l': "nelts a < int lim" using l by simp
  obtain r a' p' m' where P: "dl_array_push mal a p m = Some (r, a', p', m')" "array_ok n F lim gs a' p'" "esize a' = esize a" "a_at a' = a_at a"
    "case r of None \<Rightarrow> a' = a \<and> m' = m
       | Some s \<Rightarrow> nelts a' = nelts a + 1 \<and> s = slot a' (nat (nelts a))
           \<and> (\<forall>e. length e = unat (esize a) \<longrightarrow> elems (store s e m') a' = elems m a @ [e]
               \<and> (\<forall>g\<in>set gs. piece (store s e m') g = piece m g))"
    using array_push_spec [OF A M l', of m] by blast
  show ?thesis
  proof (cases r)
    case None
    then show ?thesis using P by (simp add: array_add_def)
  next
    case (Some s)
    have s: "nelts a' = nelts a + 1" "s = slot a' (nat (nelts a))" "elems (store s e m') a' = elems m a @ [e]"
      "\<forall>g\<in>set gs. piece (store s e m') g = piece m g" using P(5) e unfolding Some option.case by blast+
    have "0 \<le> nelts a" "nelts a' \<le> nalloc a'" using A P(2) by (simp_all add: array_ok_def)
    then have "writable (heap p') s (esize a')" using slot_writable(1) [OF P(2), of "nat (nelts a)"] s(1,2) by simp
    moreover have "of_nat (length e) = esize a'" using e P(3) by simp
    ultimately have "array_add mal e (a, p, m) = Some (Some (a', p', store s e m'))"
      using P(1) Some by (simp add: array_add_def)
    moreover have "map (piece (store s e m')) gs = cs" using s(4) c by auto
    ultimately show ?thesis using P(2,3,4) s(3) M c(2) by (simp add: array_state_def)
  qed
qed

interpretation ar: sequence "array_state mal n F lim gs cs at" "\<lambda>(a, p, m). elems m a" "\<lambda>(a, p, m). unat (esize a)" lim
  "array_add mal"
  by unfold_locales (use array_add_law in \<open>fastforce split: prod.splits\<close>)

lemma array_create_spec:
  assumes M: "malloc_ok mal" and I: "pool_inv n F p gs" and ne: "nonempty gs" and r: "dl_array_create mal k w p = Some (Some a, p1)"
    and k: "0 < k" "k \<le> int (2 * lim)" "w \<noteq> 0" "2 * lim < 2 ^ 31" "unat (pool_end p) + 2 * lim * unat w < 2 ^ 64"
  shows "array_ok n F lim ((a_at a, sizeof_array) # gs) a p1 \<and> nelts a = 0 \<and> esize a = w"
proof -
  obtain at q where q: "dl_palloc mal sizeof_array p = Some (at, q)" "pool_inv n F q (got at sizeof_array @ gs)"
    using palloc_spec [OF M I, of sizeof_array] by (auto simp: serves_def)
  then obtain t where t: "at = Some t" "pool_inv n F q ((t, sizeof_array) # gs)"
    using r by (cases at) (auto simp: dl_array_create_def)
  obtain e q2 where e: "dl_palloc mal (of_int k * w) q = Some (e, q2)" "pool_inv n F q2 (got e (of_int k * w) @ (t, sizeof_array) # gs)"
    using palloc_spec [OF M t(2), of "of_int k * w"] by (auto simp: serves_def)
  obtain x where x: "e = Some x" "a = \<lparr>a_at = t, elts = x, nelts = 0, esize = w, nalloc = k\<rparr>" "p1 = q2"
    using r q(1) t(1) e(1) by (cases e) (auto simp: dl_array_create_def dl_array_init_def Let_def split: if_splits)
  have "pool_end q2 = pool_end p" using palloc_pool_end [OF I q(1)] palloc_pool_end [OF t(2) e(1)] by simp
  then show ?thesis using e(2) x k ne by (simp add: array_ok_def asize_def mult.commute)
qed

lemma array_create_runs:
  assumes M: "malloc_ok mal" and I: "pool_inv n F p gs"
  shows "\<exists>a p1. dl_array_create mal k w p = Some (a, p1)"
proof -
  obtain at q where q: "dl_palloc mal sizeof_array p = Some (at, q)" "pool_inv n F q (got at sizeof_array @ gs)"
    "\<forall>a. at = Some a \<longrightarrow> writable (heap q) a sizeof_array"
    using palloc_spec [OF M I, of sizeof_array] by (auto simp: serves_def)
  obtain e q2 where e: "dl_palloc mal (of_int k * w) q = Some (e, q2)"
    using palloc_spec [OF M q(2), of "of_int k * w"] by (auto simp: serves_def)
  show ?thesis using q e by (cases at; cases e) (simp_all add: dl_array_create_def dl_array_init_def Let_def)
qed

section \<open>Properties\<close>

lemma array_run:
  assumes "malloc_ok mal" "pool_inv n F p gs" "nonempty gs" "dl_array_create mal k w p = Some (Some a, p1)"
    and "0 < k" "k \<le> int (2 * lim)" "w \<noteq> 0" "2 * lim < 2 ^ 31" "unat (pool_end p) + 2 * lim * unat w < 2 ^ 64"
    and "\<forall>e\<in>set es. length e = unat w" "length es \<le> lim"
  shows "\<exists>r. add_all (array_add mal) es (a, p1, m) = Some r \<and> (\<forall>a' p' m'. r = Some (a', p', m') \<longrightarrow>
    elems m' a' = es \<and> map (piece m') gs = map (piece m) gs
    \<and> pool_inv n F (dl_array_destroy a' p') gs)"
proof -
  let ?gs = "(a_at a, sizeof_array) # gs"
  have A: "array_ok n F lim ?gs a p1" "nelts a = 0" "esize a = w"
    using array_create_spec [OF assms(1-4) assms(5-9)] by auto
  let ?cs = "map (piece m) ?gs"
  have S: "array_state mal n F lim ?gs ?cs (a_at a) (a, p1, m)" using A assms(1) by (simp add: array_state_def)
  have e0: "elems m a = []" using A(2) by (simp add: elems_def)
  obtain r where r: "add_all (array_add mal) es (a, p1, m) = Some r" "\<forall>s'. r = Some s' \<longrightarrow>
      array_state mal n F lim ?gs ?cs (a_at a) s' \<and> (\<lambda>(a, p, m). elems m a) s' = es"
    using ar.add_all_spec [OF S, of es] assms(10,11) A e0 by auto
  have "elems m' a' = es \<and> map (piece m') gs = map (piece m) gs
      \<and> pool_inv n F (dl_array_destroy a' p') gs" if s: "r = Some (a', p', m')" for a' p' m'
  proof -
    have "array_ok n F lim ?gs a' p'" "map (piece m') ?gs = ?cs" "elems m' a' = es" "a_at a' = a_at a"
      using r(2) s by (simp_all add: array_state_def)
    then show ?thesis using array_destroy_spec [of n F lim a' gs p'] by simp
  qed
  then show ?thesis using r(1) by blast
qed

text \<open>C17: an array created in a pool refines a list. Pushing elements and writing them to the addresses
  returned, whether the array grows in place or moves to twice the room, runs into nothing undefined;
  unless memory runs out the array then holds exactly the elements in their order, the memory of the
  pool's other clients has its contents, and destroying the array leaves the pool in order.\<close>

theorem array_refines_list:
  assumes "malloc_ok mal" "pool_inv n F p gs" "nonempty gs" "dl_array_create mal k w p = Some (Some a, p1)"
    and "0 < k" "k \<le> int (2 * lim)" "w \<noteq> 0" "2 * lim < 2 ^ 31" "unat (pool_end p) + 2 * lim * unat w < 2 ^ 64"
    and "\<forall>e\<in>set es. length e = unat w" "length es \<le> lim"
  shows "\<exists>r. add_all (array_add mal) es (a, p1, m) = Some r \<and> (\<forall>a' p' m'. r = Some (a', p', m') \<longrightarrow>
    elems m' a' = es \<and> map (piece m') gs = map (piece m) gs
    \<and> pool_inv n F (dl_array_destroy a' p') gs)"
  using array_run [OF assms] .

lemma small_pool_end: "pool_end small_pool = 176"
  by (simp add: pool_end_def small_pool_def)

definition small_array :: darray where
  "small_array = \<lparr>a_at = 88, elts = 128, nelts = 0, esize = 2, nalloc = 1\<rparr>"

lemma small_array_created: "\<exists>p. dl_array_create bump 1 2 small_pool = Some (Some small_array, p)"
  by (simp add: dl_array_create_def dl_array_init_def small_array_def small_pool_def pool_defs)

theorem array_refines_list_witness:
  "\<exists>p1 r. dl_array_create bump 1 2 small_pool = Some (Some small_array, p1)
    \<and> add_all (array_add bump) [[1, 2], [3, 4], [5, 6]] (small_array, p1, \<lambda>_. 0) = Some r
    \<and> (\<forall>a' p' m'. r = Some (a', p', m') \<longrightarrow> elems m' a' = [[1, 2], [3, 4], [5, 6]])"
proof -
  obtain p1 where c: "dl_array_create bump 1 2 small_pool = Some (Some small_array, p1)" using small_array_created by blast
  from array_refines_list [OF bump_ok small_pool_inv _ c, of 3 "[[1, 2], [3, 4], [5, 6]]" "\<lambda>_. 0"] c
  show ?thesis by (fastforce simp: small_pool_end)
qed

text \<open>\<^verbatim>\<open>dl_array_push_n\<close> on an array in order that has room for it in the address space: unless memory
  runs out the \<open>k\<close> elements the client writes behind the returned address follow the old elements,
  wherever the array has moved to, and the other clients' memory is untouched.\<close>

theorem array_push_n:
  assumes "array_ok n F lim gs a p" "malloc_ok mal" "0 < k" "nelts a + int k \<le> int lim"
  shows "\<exists>r a' p' m'. dl_array_push_n mal (int k) a p m = Some (r, a', p', m') \<and> array_ok n F lim gs a' p'
    \<and> (case r of None \<Rightarrow> a' = a \<and> m' = m
       | Some s \<Rightarrow> \<forall>es. length es = k \<and> (\<forall>e\<in>set es. length e = unat (esize a)) \<longrightarrow>
           elems (store s (concat es) m') a' = elems m a @ es
           \<and> (\<forall>g\<in>set gs. piece (store s (concat es) m') g = piece m g))"
proof -
  obtain r a' p' m' where "dl_array_push_n mal (int k) a p m = Some (r, a', p', m')" "array_ok n F lim gs a' p'"
    "case r of None \<Rightarrow> a' = a \<and> m' = m
       | Some s \<Rightarrow> nelts a' = nelts a + int k \<and> s = slot a' (nat (nelts a))
           \<and> (\<forall>es. length es = k \<longrightarrow> (\<forall>e\<in>set es. length e = unat (esize a)) \<longrightarrow>
                elems (store s (concat es) m') a' = elems m a @ es
                \<and> (\<forall>g\<in>set gs. piece (store s (concat es) m') g = piece m g))"
    using array_push_n_spec [OF assms, of m] by blast
  then show ?thesis by (cases r) auto
qed

lemma small_array_ok: "\<exists>p. array_ok 160 [] 3 [(88, 40)] small_array p"
proof -
  obtain p1 where c: "dl_array_create bump 1 2 small_pool = Some (Some small_array, p1)" using small_array_created by blast
  have "array_ok 160 [] 3 [(a_at small_array, 40)] small_array p1"
    using array_create_spec [OF bump_ok small_pool_inv _ c, of 3] by (simp add: small_pool_end)
  then show ?thesis by (auto simp: small_array_def)
qed

theorem array_push_n_witness:
  "\<exists>p r a' p' m'. dl_array_push_n bump 2 small_array p (\<lambda>_. 0) = Some (r, a', p', m') \<and> array_ok 160 [] 3 [(88, 40)] a' p'"
proof -
  obtain p where p: "array_ok 160 [] 3 [(88, 40)] small_array p" using small_array_ok by blast
  from array_push_n [OF p bump_ok, of 2 "\<lambda>_. 0"] show ?thesis by (fastforce simp: small_array_def)
qed

text \<open>An array created with room for no element never grows once other memory lies behind it: twice
  nothing is nothing. A push then returns an address the array does not own, and the pool hands out the
  same address to the next client.\<close>

theorem array_empty_overwrites:
  "\<exists>a p1 p2 p3 g a' p4 s. dl_array_create bump 0 8 small_pool = Some (Some a, p1) \<and> dl_palloc bump 8 p1 = Some (Some g, p2)
    \<and> dl_array_push bump a p2 m = Some (Some s, a', p3, m) \<and> dl_palloc bump 8 p3 = Some (Some s, p4)"
  by (simp add: dl_array_create_def dl_array_init_def dl_array_push_def array_grow_def c_int_def memcpy_def disj_def
    pool_last_def pool_end_def set_pool_last_def store_def small_pool_def pool_defs)

end
