(* ===== verification/Dl_List_Refine.thy ===== *)
theory Dl_List_Refine
  imports Dl_Array_Refine
begin

text \<open>
  The list of arrays of \<^verbatim>\<open>dl_list.c\<close> against the same specification as the array: a sequence that grows
  at its end. In addition its elements never move. Every part is looked at as an array of fixed
  room, so that the lemmas on slots and elements of the array serve here, too.
\<close>

section \<open>Parts as arrays\<close>

definition part_array :: "dlist \<Rightarrow> lpart \<Rightarrow> darray" where
  "part_array l pt = \<lparr>a_at = 0, elts = p_elts pt, nelts = p_nelts pt, esize = lsize l, nalloc = lnalloc l\<rparr>"

lemma part_array_simps [simp]: "elts (part_array l pt) = p_elts pt" "nelts (part_array l pt) = p_nelts pt"
  "esize (part_array l pt) = lsize l" "nalloc (part_array l pt) = lnalloc l"
  by (simp_all add: part_array_def)

definition part_region :: "dlist \<Rightarrow> lpart \<Rightarrow> region" where
  "part_region l pt = (p_elts pt, lsize l * of_int (lnalloc l))"

lemma part_region_asize: "part_region l pt = (elts (part_array l pt), asize (part_array l pt))"
  by (simp add: part_region_def asize_def)

definition slots :: "dlist \<Rightarrow> u64 list" where
  "slots l = concat (map (\<lambda>pt. map (slot (part_array l pt)) [0..<nat (p_nelts pt)]) (parts l))"

definition list_elems :: "mem \<Rightarrow> dlist \<Rightarrow> bytes list" where
  "list_elems m l = map (\<lambda>s. bytes_at m s (unat (lsize l))) (slots l)"

lemma list_elems_parts: "list_elems m l = concat (map (\<lambda>pt. elems m (part_array l pt)) (parts l))"
  by (simp add: list_elems_def slots_def elems_def map_concat comp_def)

text \<open>\<open>lim\<close> bounds the room of a part; the parts before the last one are full.\<close>

definition list_ok :: "nat \<Rightarrow> region list \<Rightarrow> nat \<Rightarrow> region list \<Rightarrow> dlist \<Rightarrow> pool \<Rightarrow> bool" where
  "list_ok n F lim gs l p \<longleftrightarrow> parts l \<noteq> []
     \<and> array_ok n F lim (map (part_region l) (rev (butlast (parts l))) @ gs) (part_array l (last (parts l))) p
     \<and> (\<forall>pt\<in>set (butlast (parts l)). p_nelts pt = lnalloc l)
     \<and> lnelts l = int (length (slots l)) \<and> lnelts l < 2 ^ 31"

lemma list_parts_split:
  assumes "parts l = ps @ [pt]"
  shows "slots l = concat (map (\<lambda>pt. map (slot (part_array l pt)) [0..<nat (p_nelts pt)]) ps)
      @ map (slot (part_array l pt)) [0..<nat (p_nelts pt)]"
    "list_elems m l = concat (map (\<lambda>pt. elems m (part_array l pt)) ps) @ elems m (part_array l pt)"
  by (simp_all add: slots_def list_elems_parts assms)

lemma elems_part:
  assumes "piece m' (part_region l pt) = piece m (part_region l pt)"
    and "nat (p_nelts pt) * unat (lsize l) \<le> unat (lsize l * of_int (lnalloc l))"
  shows "elems m' (part_array l pt) = elems m (part_array l pt)"
proof (rule elems_cong)
  let ?k = "nat (nelts (part_array l pt)) * unat (esize (part_array l pt))"
  let ?s = "unat (lsize l * of_int (lnalloc l))"
  have "bytes_at m' (p_elts pt) ?s = bytes_at m (p_elts pt) ?s" using assms(1) by (simp add: part_region_def)
  then have "take ?k (drop 0 (bytes_at m' (p_elts pt) ?s)) = take ?k (drop 0 (bytes_at m (p_elts pt) ?s))" by simp
  moreover have "0 + ?k \<le> ?s" using assms(2) by simp
  ultimately show "bytes_at m' (elts (part_array l pt)) ?k = bytes_at m (elts (part_array l pt)) ?k"
    using bytes_at_slice [of 0 ?k ?s m' "p_elts pt"] bytes_at_slice [of 0 ?k ?s m "p_elts pt"] by simp
qed simp_all

section \<open>Push\<close>

text \<open>One more element in the last part.\<close>

definition bump_part :: "dlist \<Rightarrow> lpart list \<Rightarrow> lpart \<Rightarrow> dlist" where
  "bump_part l ps pt = l\<lparr>parts := ps @ [pt\<lparr>p_nelts := p_nelts pt + 1\<rparr>], lnelts := lnelts l + 1\<rparr>"

lemma bump_part_simps [simp]: "lsize (bump_part l ps pt) = lsize l" "lnalloc (bump_part l ps pt) = lnalloc l"
  "parts (bump_part l ps pt) = ps @ [pt\<lparr>p_nelts := p_nelts pt + 1\<rparr>]" "lnelts (bump_part l ps pt) = lnelts l + 1"
  "part_array (bump_part l ps pt) = part_array l" "part_region (bump_part l ps pt) = part_region l"
  by (simp_all add: bump_part_def part_array_def part_region_def fun_eq_iff)

lemma bump_part_ok:
  assumes ok: "list_ok n F lim gs l p" and ps: "parts l = ps @ [pt]" and room: "p_nelts pt < lnalloc l"
    and lim: "lnelts l + 1 < 2 ^ 31"
  defines "s \<equiv> slot (part_array l pt) (nat (p_nelts pt))"
  shows "list_ok n F lim gs (bump_part l ps pt) p" "slots (bump_part l ps pt) = slots l @ [s]"
    "writable (heap p) s (lsize l)"
    "length e = unat (lsize l) \<Longrightarrow> list_elems (store s e m) (bump_part l ps pt) = list_elems m l @ [e]
      \<and> (\<forall>g\<in>set gs. piece (store s e m) g = piece m g)"
proof -
  let ?R = "map (part_region l) (rev ps)" and ?pt = "pt\<lparr>p_nelts := p_nelts pt + 1\<rparr>"
  have A: "array_ok n F lim (?R @ gs) (part_array l pt) p" and full: "\<forall>q\<in>set ps. p_nelts q = lnalloc l"
    and ln: "lnelts l = int (length (slots l))"
    using ok by (simp_all add: list_ok_def ps)
  have k: "0 \<le> p_nelts pt" using A by (simp add: array_ok_def)
  have slp: "slot (part_array l ?pt) = slot (part_array l pt)" by (simp add: slot_def fun_eq_iff)
  have sk: "nat (p_nelts pt + 1) = Suc (nat (p_nelts pt))" using k by simp
  show sl: "slots (bump_part l ps pt) = slots l @ [s]"
    using k by (simp add: list_parts_split(1) [OF ps] list_parts_split(1) [of "bump_part l ps pt" ps ?pt] slp sk s_def)
  have "array_ok n F lim (?R @ gs) (part_array l ?pt) p"
    using A room k by (simp add: array_ok_def asize_def)
  then show "list_ok n F lim gs (bump_part l ps pt) p"
    using ln lim full sl by (simp add: list_ok_def)
  show "writable (heap p) s (lsize l)"
    using slot_writable(1) [OF A, of "nat (p_nelts pt)"] k room by (simp add: s_def)
  assume e: "length e = unat (lsize l)"
  let ?m = "store s e m"
  have E: "elems ?m (part_array l ?pt) = elems m (part_array l pt) @ [e]" "\<forall>g\<in>set (?R @ gs). piece ?m g = piece m g"
    using elems_append [OF A, of "[e]" "part_array l ?pt" m] e room by (simp_all add: s_def)
  have sz: "unat (lsize l * of_int (lnalloc l)) = unat (lsize l) * nat (lnalloc l)"
    using array_sizes(1) [OF A] by (simp add: asize_def)
  have "elems ?m (part_array l q) = elems m (part_array l q)" if q: "q \<in> set ps" for q
    by (rule elems_part) (use E(2) full q sz in auto)
  then have "map (\<lambda>q. elems ?m (part_array l q)) ps = map (\<lambda>q. elems m (part_array l q)) ps" by simp
  then have "list_elems ?m (bump_part l ps pt) = list_elems m l @ [e]"
    using E(1) by (simp add: list_parts_split(2) [OF ps] list_parts_split(2) [of "bump_part l ps pt" ps ?pt] del: map_eq_conv)
  then show "list_elems ?m (bump_part l ps pt) = list_elems m l @ [e] \<and> (\<forall>g\<in>set gs. piece ?m g = piece m g)"
    using E(2) by simp
qed

text \<open>A new, empty part behind a full one.\<close>

lemma new_part_ok:
  assumes ok: "list_ok n F lim gs l p" and M: "malloc_ok mal" and full: "p_nelts (last (parts l)) = lnalloc l"
  shows "\<exists>r p'. list_new_part mal l p = Some (r, p') \<and> (case r of
      None \<Rightarrow> list_ok n F lim gs l p'
    | Some pt \<Rightarrow> p_nelts pt = 0 \<and> list_ok n F lim gs (l\<lparr>parts := parts l @ [pt]\<rparr>) p')"
proof -
  let ?R = "map (part_region l) (rev (butlast (parts l)))" and ?a = "part_array l (last (parts l))"
  have A: "array_ok n F lim (?R @ gs) ?a p" and ne: "parts l \<noteq> []" and fl: "\<forall>q\<in>set (butlast (parts l)). p_nelts q = lnalloc l"
    using ok by (simp_all add: list_ok_def)
  have I: "pool_inv n F p ((elts ?a, asize ?a) # ?R @ gs)" and b: "nonempty (?R @ gs)"
    using A by (simp_all add: array_ok_def)
  obtain a p1 where 1: "dl_palloc mal sizeof_part p = Some (a, p1)"
    "pool_inv n F p1 (got a sizeof_part @ (elts ?a, asize ?a) # ?R @ gs)"
    "\<forall>x. a = Some x \<longrightarrow> writable (heap p1) x sizeof_part"
    using palloc_spec [OF M I, of sizeof_part] by (auto simp: serves_def)
  have I1: "pool_inv n F p1 ((elts ?a, asize ?a) # ?R @ gs)" using 1(2) inv_drop by (cases a) auto
  have e1: "pool_end p1 = pool_end p" by (rule palloc_pool_end [OF I 1(1)])
  have ok1: "list_ok n F lim gs l q" if "pool_inv n F q ((elts ?a, asize ?a) # ?R @ gs)" "pool_end q = pool_end p" for q
    using ok A that by (simp add: list_ok_def array_ok_def)
  show ?thesis
  proof (cases a)
    case None
    then show ?thesis using 1(1) ok1 [OF I1 e1] by (simp add: list_new_part_def)
  next
    case (Some x)
    obtain e p2 where 2: "dl_palloc mal (of_int (lnalloc l) * lsize l) p1 = Some (e, p2)"
      "pool_inv n F p2 (got e (of_int (lnalloc l) * lsize l) @ (x, sizeof_part) # (elts ?a, asize ?a) # ?R @ gs)"
      using palloc_spec [OF M 1(2), of "of_int (lnalloc l) * lsize l"] Some by (auto simp: serves_def)
    have I2: "pool_inv n F p2 ((x, sizeof_part) # (elts ?a, asize ?a) # ?R @ gs)" using 2(2) inv_drop by (cases e) auto
    have e2: "pool_end p2 = pool_end p" using palloc_pool_end [OF 1(2) 2(1)] e1 by simp
    have "writable (heap p2) x sizeof_part" using inv_writable [OF I2, of "(x, sizeof_part)"] by simp
    then have run: "list_new_part mal l p = Some (case e of None \<Rightarrow> (None, p2) | Some e \<Rightarrow> (Some \<lparr>p_elts = e, p_nelts = 0\<rparr>, p2))"
      using 1(1) 2(1) Some by (simp add: list_new_part_def split: option.split)
    show ?thesis
    proof (cases e)
      case None
      then show ?thesis using run ok1 [OF inv_drop [OF I2] e2] by simp
    next
      case e: (Some y)
      let ?l = "l\<lparr>parts := parts l @ [\<lparr>p_elts = y, p_nelts = 0\<rparr>]\<rparr>"
      have pa: "part_array ?l = part_array l" "part_region ?l = part_region l"
        by (simp_all add: part_array_def part_region_def fun_eq_iff)
      have P: "pool_inv n F p2 ((y, of_int (lnalloc l) * lsize l) # (elts ?a, asize ?a) # ?R @ gs)"
        using 2(2) e by (auto simp: pool_inv_def)
      have R: "map (part_region l) (rev (parts l)) = (elts ?a, asize ?a) # ?R"
        using ne by (metis append_butlast_last_id list.simps(9) part_region_asize rev.simps(2) rev_append rev_rev_ident append_Cons append_Nil)
      have "asize ?a \<noteq> 0" by (rule array_sizes(2) [OF A])
      then have "array_ok n F lim (map (part_region l) (rev (parts l)) @ gs) (part_array l \<lparr>p_elts = y, p_nelts = 0\<rparr>) p2"
        using A P b e2 unfolding R by (simp add: array_ok_def asize_def mult.commute)
      moreover have "\<forall>q\<in>set (parts l). p_nelts q = lnalloc l"
        using fl full ne by (metis Un_iff append_butlast_last_id empty_iff empty_set list.set(2) set_append insertE)
      moreover have "slots ?l = slots l" by (simp add: slots_def pa)
      ultimately have "list_ok n F lim gs ?l p2" using ok by (simp add: list_ok_def pa)
      then show ?thesis using run e by simp
    qed
  qed
qed

text \<open>What a successful push means: one more slot behind the others, which have not moved.\<close>

definition pushed :: "nat \<Rightarrow> region list \<Rightarrow> nat \<Rightarrow> region list \<Rightarrow> dlist \<Rightarrow> u64 \<Rightarrow> dlist \<Rightarrow> pool \<Rightarrow> bool" where
  "pushed n F lim gs l s l' p' \<longleftrightarrow> list_ok n F lim gs l' p' \<and> lsize l' = lsize l \<and> slots l' = slots l @ [s]
     \<and> writable (heap p') s (lsize l)
     \<and> (\<forall>e m. length e = unat (lsize l) \<longrightarrow> list_elems (store s e m) l' = list_elems m l @ [e]
          \<and> (\<forall>g\<in>set gs. piece (store s e m) g = piece m g))"

lemma list_ok_last:
  assumes "list_ok n F lim gs l p"
  shows "parts l = butlast (parts l) @ [last (parts l)]" "0 \<le> p_nelts (last (parts l))"
    "p_nelts (last (parts l)) \<le> lnalloc l" "0 < lnalloc l" "lnalloc l < 2 ^ 31" "0 \<le> lnelts l"
  using assms by (auto simp: list_ok_def array_ok_def)

text \<open>A push into a last part that has room.\<close>

lemma push_room:
  assumes ok: "list_ok n F lim gs l p" and room: "p_nelts (last (parts l)) < lnalloc l" and lim: "lnelts l + 1 < 2 ^ 31"
  shows "\<exists>s l'. pushed n F lim gs l s l' p \<and> dl_list_push mal l p = Some (Some s, l', p)
    \<and> do { k \<leftarrow> c_int (p_nelts (last (parts l)) + 1);
           ne \<leftarrow> c_int (lnelts l + 1);
           Some (Some (p_elts (last (parts l)) + lsize l * of_int (p_nelts (last (parts l)))),
                 l\<lparr>parts := butlast (parts l) @ [(last (parts l))\<lparr>p_nelts := k\<rparr>], lnelts := ne\<rparr>, p) }
       = Some (Some s, l', p)"
proof -
  let ?pt = "last (parts l)" and ?ps = "butlast (parts l)"
  note L = list_ok_last [OF ok]
  let ?s = "slot (part_array l ?pt) (nat (p_nelts ?pt))" and ?l = "bump_part l ?ps ?pt"
  have c: "c_int (p_nelts ?pt + 1) = Some (p_nelts ?pt + 1)" "c_int (lnelts l + 1) = Some (lnelts l + 1)"
    using L room lim by (simp_all add: c_int_def)
  have s: "p_elts ?pt + lsize l * of_int (p_nelts ?pt) = ?s" using L(2) by (simp add: slot_def)
  note B = bump_part_ok [OF ok L(1) room lim]
  have "pushed n F lim gs l ?s ?l p" unfolding pushed_def using B by simp
  moreover have run: "do { k \<leftarrow> c_int (p_nelts ?pt + 1);
           ne \<leftarrow> c_int (lnelts l + 1);
           Some (Some (p_elts ?pt + lsize l * of_int (p_nelts ?pt)),
                 l\<lparr>parts := ?ps @ [?pt\<lparr>p_nelts := k\<rparr>], lnelts := ne\<rparr>, p) } = Some (Some ?s, ?l, p)"
    unfolding s by (simp add: c bump_part_def)
  moreover have "p_nelts ?pt \<noteq> lnalloc l" using room by simp
  then have "dl_list_push mal l p = Some (Some ?s, ?l, p)" using run by (simp add: dl_list_push_def)
  ultimately show ?thesis by blast
qed

lemma list_push_spec:
  assumes ok: "list_ok n F lim gs l p" and M: "malloc_ok mal" and lim: "lnelts l + 1 < 2 ^ 31"
  shows "\<exists>r l' p'. dl_list_push mal l p = Some (r, l', p') \<and> (case r of
      None \<Rightarrow> l' = l \<and> list_ok n F lim gs l p'
    | Some s \<Rightarrow> pushed n F lim gs l s l' p')"
proof (cases "p_nelts (last (parts l)) = lnalloc l")
  case False
  then have "p_nelts (last (parts l)) < lnalloc l" using list_ok_last(3) [OF ok] by simp
  from push_room [OF ok this lim, of mal] obtain s l' where "pushed n F lim gs l s l' p" "dl_list_push mal l p = Some (Some s, l', p)"
    by blast
  then show ?thesis by (intro exI [of _ "Some s"] exI [of _ l'] exI [of _ p]) simp
next
  case True
  obtain r p1 where N: "list_new_part mal l p = Some (r, p1)" "case r of
    None \<Rightarrow> list_ok n F lim gs l p1
  | Some pt \<Rightarrow> p_nelts pt = 0 \<and> list_ok n F lim gs (l\<lparr>parts := parts l @ [pt]\<rparr>) p1"
    using new_part_ok [OF ok M True] by blast
  show ?thesis
  proof (cases r)
    case None
    then show ?thesis using N True by (simp add: dl_list_push_def)
  next
    case (Some pt)
    let ?l = "l\<lparr>parts := parts l @ [pt]\<rparr>"
    have K: "p_nelts pt = 0" "list_ok n F lim gs ?l p1" using N(2) Some by simp_all
    have pa: "part_array ?l = part_array l" by (simp add: part_array_def fun_eq_iff)
    have same: "slots ?l = slots l" "list_elems m ?l = list_elems m l" for m
      using K(1) by (simp_all add: slots_def list_elems_def pa)
    have "p_nelts (last (parts ?l)) < lnalloc ?l" "lnelts ?l + 1 < 2 ^ 31" using K(1) list_ok_last(4) [OF ok] lim by simp_all
    from push_room [OF K(2) this, of mal] obtain s l' where P: "pushed n F lim gs ?l s l' p1"
      "do { k \<leftarrow> c_int (p_nelts (last (parts ?l)) + 1);
           ne \<leftarrow> c_int (lnelts ?l + 1);
           Some (Some (p_elts (last (parts ?l)) + lsize ?l * of_int (p_nelts (last (parts ?l)))),
                 ?l\<lparr>parts := butlast (parts ?l) @ [(last (parts ?l))\<lparr>p_nelts := k\<rparr>], lnelts := ne\<rparr>, p1) }
       = Some (Some s, l', p1)" by blast
    have "dl_list_push mal l p = Some (Some s, l', p1)"
      using N(1) P(2) by (simp add: dl_list_push_def True Some)
    moreover have "pushed n F lim gs l s l' p1" using P(1) by (simp add: pushed_def same)
    ultimately show ?thesis by (intro exI [of _ "Some s"] exI [of _ l'] exI [of _ p1]) simp
  qed
qed

section \<open>The interface\<close>

definition list_add :: "malloc \<Rightarrow> bytes \<Rightarrow> dlist \<times> pool \<times> mem \<Rightarrow> (dlist \<times> pool \<times> mem) option option" where
  "list_add mal e = (\<lambda>(l, p, m). do {
     (r, l, p) \<leftarrow> dl_list_push mal l p;
     case r of
       None \<Rightarrow> Some None
     | Some s \<Rightarrow> if writable (heap p) s (of_nat (length e)) then Some (Some (l, p, store s e m)) else None })"

definition list_state :: "malloc \<Rightarrow> nat \<Rightarrow> region list \<Rightarrow> nat \<Rightarrow> region list \<Rightarrow> bytes list \<Rightarrow> dlist \<times> pool \<times> mem \<Rightarrow> bool" where
  "list_state mal n F lim gs cs = (\<lambda>(l, p, m). malloc_ok mal \<and> list_ok n F lim gs l p \<and> map (piece m) gs = cs)"

lemma length_list_elems [simp]: "length (list_elems m l) = length (slots l)"
  by (simp add: list_elems_def)

lemma list_add_law:
  assumes S: "list_state mal n F lim gs cs (l, p, m)" and e: "length e = unat (lsize l)" and b: "length (list_elems m l) < 2 ^ 31 - 1"
  shows "\<exists>r. list_add mal e (l, p, m) = Some r \<and> (\<forall>l' p' m'. r = Some (l', p', m') \<longrightarrow>
    list_state mal n F lim gs cs (l', p', m') \<and> list_elems m' l' = list_elems m l @ [e] \<and> lsize l' = lsize l)"
proof -
  have ok: "list_ok n F lim gs l p" and M: "malloc_ok mal" and c: "map (piece m) gs = cs"
    using S by (simp_all add: list_state_def)
  have "lnelts l + 1 < 2 ^ 31" using ok b by (simp add: list_ok_def)
  from list_push_spec [OF ok M this] obtain r l' p' where P: "dl_list_push mal l p = Some (r, l', p')"
    "case r of None \<Rightarrow> l' = l \<and> list_ok n F lim gs l p' | Some s \<Rightarrow> pushed n F lim gs l s l' p'" by blast
  show ?thesis
  proof (cases r)
    case None
    then show ?thesis using P by (simp add: list_add_def)
  next
    case (Some s)
    have Q: "pushed n F lim gs l s l' p'" using P(2) Some by simp
    then have w: "writable (heap p') s (of_nat (length e))" using e by (simp add: pushed_def)
    have E: "list_elems (store s e m) l' = list_elems m l @ [e]" "\<forall>g\<in>set gs. piece (store s e m) g = piece m g"
      using Q e unfolding pushed_def by blast+
    have "map (piece (store s e m)) gs = cs" using E(2) c by auto
    then show ?thesis using P(1) Some w E(1) Q M by (simp add: list_add_def list_state_def pushed_def)
  qed
qed

interpretation li: sequence "list_state mal n F lim gs cs" "\<lambda>(l, p, m). list_elems m l" "\<lambda>(l, p, m). unat (lsize l)" "2 ^ 31 - 1"
  "list_add mal"
  by unfold_locales (use list_add_law in \<open>fastforce split: prod.splits\<close>)

lemma list_create_spec:
  assumes M: "malloc_ok mal" and I: "pool_inv n F p gs" and ne: "nonempty gs" and r: "dl_list_create mal k w p = Some (Some l, p1)"
    and k: "0 < k" "k \<le> int (2 * lim)" "w \<noteq> 0" "2 * lim < 2 ^ 31" "unat (pool_end p) + 2 * lim * unat w < 2 ^ 64"
  shows "list_ok n F lim gs l p1 \<and> slots l = [] \<and> lsize l = w"
proof -
  obtain a q where q: "dl_palloc mal sizeof_list p = Some (a, q)" "pool_inv n F q (got a sizeof_list @ gs)"
    using palloc_spec [OF M I, of sizeof_list] by (auto simp: serves_def)
  then obtain t where t: "a = Some t" "pool_inv n F q ((t, sizeof_list) # gs)"
    using r by (cases a) (auto simp: dl_list_create_def)
  obtain e q2 where e: "dl_palloc mal (of_int k * w) q = Some (e, q2)" "pool_inv n F q2 (got e (of_int k * w) @ (t, sizeof_list) # gs)"
    using palloc_spec [OF M t(2), of "of_int k * w"] by (auto simp: serves_def)
  obtain x where x: "e = Some x" "l = \<lparr>parts = [\<lparr>p_elts = x, p_nelts = 0\<rparr>], lsize = w, lnalloc = k, lnelts = 0\<rparr>" "p1 = q2"
    using r q(1) t(1) e(1) by (cases e) (auto simp: dl_list_create_def dl_list_init_def split: if_splits)
  have "pool_end q2 = pool_end p" using palloc_pool_end [OF I q(1)] palloc_pool_end [OF t(2) e(1)] by simp
  moreover have "pool_inv n F q2 ((x, of_int k * w) # gs)" using e(2) x(1) by (auto simp: pool_inv_def)
  ultimately show ?thesis
    using x k ne by (simp add: list_ok_def array_ok_def asize_def slots_def mult.commute)
qed

section \<open>Properties\<close>

lemma list_run:
  assumes "malloc_ok mal" "pool_inv n F p gs" "nonempty gs" "dl_list_create mal k w p = Some (Some l, p1)"
    and "0 < k" "k \<le> int (2 * lim)" "w \<noteq> 0" "2 * lim < 2 ^ 31" "unat (pool_end p) + 2 * lim * unat w < 2 ^ 64"
    and "\<forall>e\<in>set es. length e = unat w" "length es < 2 ^ 31"
  shows "\<exists>r. add_all (list_add mal) es (l, p1, m) = Some r \<and> (\<forall>l' p' m'. r = Some (l', p', m') \<longrightarrow>
    list_elems m' l' = es \<and> map (piece m') gs = map (piece m) gs)"
proof -
  have L: "list_ok n F lim gs l p1" "slots l = []" "lsize l = w"
    using list_create_spec [OF assms(1-4) assms(5-9)] by auto
  let ?cs = "map (piece m) gs"
  have S: "list_state mal n F lim gs ?cs (l, p1, m)" using L assms(1) by (simp add: list_state_def)
  have e0: "list_elems m l = []" using L(2) by (simp add: list_elems_def)
  obtain r where r: "add_all (list_add mal) es (l, p1, m) = Some r" "\<forall>s'. r = Some s' \<longrightarrow>
      list_state mal n F lim gs ?cs s' \<and> (\<lambda>(l, p, m). list_elems m l) s' = es"
    using li.add_all_spec [OF S, of es] assms(10,11) L e0 by auto
  then show ?thesis by (auto simp: list_state_def)
qed

text \<open>C19: a list of arrays created in a pool refines a list, part after part: pushing elements and writing
  them to the addresses returned runs into nothing undefined; unless memory runs out the list then
  holds exactly the elements in their order, and the other clients' memory has its contents.\<close>

theorem list_refines_list:
  assumes "malloc_ok mal" "pool_inv n F p gs" "nonempty gs" "dl_list_create mal k w p = Some (Some l, p1)"
    and "0 < k" "k \<le> int (2 * lim)" "w \<noteq> 0" "2 * lim < 2 ^ 31" "unat (pool_end p) + 2 * lim * unat w < 2 ^ 64"
    and "\<forall>e\<in>set es. length e = unat w" "length es < 2 ^ 31"
  shows "\<exists>r. add_all (list_add mal) es (l, p1, m) = Some r \<and> (\<forall>l' p' m'. r = Some (l', p', m') \<longrightarrow>
    list_elems m' l' = es \<and> map (piece m') gs = map (piece m) gs)"
  using list_run [OF assms] .

definition small_list :: dlist where
  "small_list = \<lparr>parts = [\<lparr>p_elts = 144, p_nelts = 0\<rparr>], lsize = 2, lnalloc = 1, lnelts = 0\<rparr>"

lemma small_list_created: "\<exists>p. dl_list_create bump 1 2 small_pool = Some (Some small_list, p)"
  by (simp add: dl_list_create_def dl_list_init_def small_list_def small_pool_def pool_defs)

theorem list_refines_list_witness:
  "\<exists>p1 r. dl_list_create bump 1 2 small_pool = Some (Some small_list, p1)
    \<and> add_all (list_add bump) [[1, 2], [3, 4], [5, 6]] (small_list, p1, \<lambda>_. 0) = Some r
    \<and> (\<forall>l' p' m'. r = Some (l', p', m') \<longrightarrow> list_elems m' l' = [[1, 2], [3, 4], [5, 6]])"
proof -
  obtain p1 where c: "dl_list_create bump 1 2 small_pool = Some (Some small_list, p1)" using small_list_created by blast
  from list_refines_list [OF bump_ok small_pool_inv _ c, of 3 "[[1, 2], [3, 4], [5, 6]]" "\<lambda>_. 0"] c
  show ?thesis by (fastforce simp: small_pool_end)
qed

text \<open>C18: unlike in the array, an element of the list never moves: a push leaves the addresses handed out
  before as they are and adds a new one at the end, which lies in live memory and apart from all of
  them; what the client writes there changes no older element.\<close>

theorem list_push_stable:
  assumes "list_ok n F lim gs l p" "malloc_ok mal" "lnelts l + 1 < 2 ^ 31"
  shows "\<exists>r l' p'. dl_list_push mal l p = Some (r, l', p') \<and> list_ok n F lim gs l' p' \<and> (case r of
      None \<Rightarrow> l' = l
    | Some s \<Rightarrow> slots l' = slots l @ [s] \<and> writable (heap p') s (lsize l)
        \<and> (\<forall>e m. length e = unat (lsize l) \<longrightarrow> list_elems (store s e m) l' = list_elems m l @ [e]))"
proof -
  obtain r l' p' where "dl_list_push mal l p = Some (r, l', p')" "case r of None \<Rightarrow> l' = l \<and> list_ok n F lim gs l p'
    | Some s \<Rightarrow> pushed n F lim gs l s l' p'" using list_push_spec [OF assms] by blast
  then show ?thesis by (cases r) (auto simp: pushed_def)
qed

theorem list_push_stable_witness:
  "\<exists>p r l' p'. dl_list_push bump small_list p = Some (r, l', p') \<and> list_ok 160 [] 3 [] l' p'"
proof -
  obtain p1 where c: "dl_list_create bump 1 2 small_pool = Some (Some small_list, p1)" using small_list_created by blast
  have "list_ok 160 [] 3 [] small_list p1"
    using list_create_spec [OF bump_ok small_pool_inv _ c, of 3] by (simp add: small_pool_end)
  from list_push_stable [OF this bump_ok] show ?thesis by (fastforce simp: small_list_def)
qed

end
