(* ===== verification/Dl_Printf.thy ===== *)
theory Dl_Printf
  imports Dl_Number
begin

text \<open>
  The format interpreter \<^verbatim>\<open>dl_vslprintf\<close> of \<^verbatim>\<open>dl_string.c\<close> and the functions around it. The format
  is the list of its bytes before the NUL; a read behind the NUL is undefined (\<open>None\<close>), and so are
  an argument of another type than the one fetched, a string that is read past its end and a write
  to \<^verbatim>\<open>last\<close> or behind it. \<open>room\<close> is \<^verbatim>\<open>last - buf\<close>. The arithmetic on \<^verbatim>\<open>double\<close> is a parameter.
\<close>

section \<open>Arguments\<close>

text \<open>An \<^verbatim>\<open>int\<close> and a \<^verbatim>\<open>long\<close> (signed or not) as bit patterns; the object a \<^verbatim>\<open>char *\<close> points to, its NUL
  included; the text of a \<^verbatim>\<open>dl_str\<close>; a \<^verbatim>\<open>double\<close>; the value of a pointer.\<close>

datatype 'd arg = I32 u32 | I64 u64 | CStr bytes | Vec bytes | Dbl 'd | Ptr u64

text \<open>\<^verbatim>\<open>f < 0\<close>, \<^verbatim>\<open>-f\<close>, \<^verbatim>\<open>(int64_t) f\<close> and \<^verbatim>\<open>(uint64_t) ((f - (double) ui64) * scale + 0.5)\<close>. A conversion of a
  \<^verbatim>\<open>double\<close> that the integer type cannot hold (from \<open>2 ^ 63\<close> on, infinite, not a number) is undefined: \<open>None\<close>.\<close>

record 'd floats =
  f_neg :: "'d \<Rightarrow> bool"
  f_minus :: "'d \<Rightarrow> 'd"
  f_trunc :: "'d \<Rightarrow> u64 option"
  f_frac :: "'d \<Rightarrow> u64 \<Rightarrow> u32 \<Rightarrow> u64 option"

text \<open>\<^verbatim>\<open>va_arg\<close> at the types the code asks for.\<close>

fun va_int :: "'d arg list \<Rightarrow> (u32 \<times> 'd arg list) option" where
  "va_int (I32 n # as) = Some (n, as)"
| "va_int _ = None"

fun va_long :: "'d arg list \<Rightarrow> (u64 \<times> 'd arg list) option" where
  "va_long (I64 n # as) = Some (n, as)"
| "va_long _ = None"

fun va_str :: "'d arg list \<Rightarrow> (bytes \<times> 'd arg list) option" where
  "va_str (CStr p # as) = Some (p, as)"
| "va_str _ = None"

fun va_vec :: "'d arg list \<Rightarrow> (bytes \<times> 'd arg list) option" where
  "va_vec (Vec p # as) = Some (p, as)"
| "va_vec _ = None"

fun va_dbl :: "'d arg list \<Rightarrow> ('d \<times> 'd arg list) option" where
  "va_dbl (Dbl d # as) = Some (d, as)"
| "va_dbl _ = None"

fun va_ptr :: "'d arg list \<Rightarrow> (u64 \<times> 'd arg list) option" where
  "va_ptr (Ptr p # as) = Some (p, as)"
| "va_ptr _ = None"

record fspec =
  s_sign :: bool
  s_hex :: nat
  s_frac :: u32
  s_slen :: u64

abbreviation chr :: "char \<Rightarrow> byte" where "chr c \<equiv> of_char c"

section \<open>The directive\<close>

fun read_num :: "u32 \<Rightarrow> bytes \<Rightarrow> u32 \<times> bytes" where
  "read_num w [] = (w, [])"
| "read_num w (c # f) = (if is_digit c then read_num (w * 10 + ucast c - 48) f else (w, c # f))"

text \<open>The loop over the flags. The dot ends it, \<^verbatim>\<open>max_width\<close> is not used.\<close>

fun flags :: "fspec \<Rightarrow> bytes \<Rightarrow> 'd arg list \<Rightarrow> (fspec \<times> bytes \<times> 'd arg list) option" where
  "flags s [] as = Some (s, [], as)"
| "flags s (c # f) as =
     (if c = chr CHR ''u'' then flags (s\<lparr>s_sign := False\<rparr>) f as
      else if c = chr CHR ''m'' then flags s f as
      else if c = chr CHR ''X'' then flags (s\<lparr>s_hex := 2, s_sign := False\<rparr>) f as
      else if c = chr CHR ''x'' then flags (s\<lparr>s_hex := 1, s_sign := False\<rparr>) f as
      else if c = chr CHR ''.'' then
        let (w, f) = read_num 0 f in Some (s\<lparr>s_frac := w\<rparr>, f, as)
      else if c = chr CHR ''*'' then
        Option.bind (va_long as) (\<lambda>(n, as). flags (s\<lparr>s_slen := n\<rparr>) f as)
      else Some (s, c # f, as))"

fun cstr_copy :: "nat \<Rightarrow> bytes \<Rightarrow> bytes option" where
  "cstr_copy room [] = None"
| "cstr_copy room (c # p) =
     (if c \<noteq> 0 \<and> 0 < room then map_option ((#) c) (cstr_copy (room - 1) p) else Some [])"

definition conv_str :: "nat \<Rightarrow> u64 \<Rightarrow> bytes \<Rightarrow> bytes option" where
  "conv_str room slen p =
     (if slen = - 1 then cstr_copy room p
      else let len = (if room < unat slen then room else unat slen)
           in if len \<le> length p then Some (take len p) else None)"

text \<open>The value of \<^verbatim>\<open>%d\<close>, \<^verbatim>\<open>%l\<close>, \<^verbatim>\<open>%D\<close> and \<^verbatim>\<open>%L\<close> as the bits of \<^verbatim>\<open>i64\<close> or \<^verbatim>\<open>ui64\<close>.\<close>

definition fetch :: "byte \<Rightarrow> bool \<Rightarrow> 'd arg list \<Rightarrow> (u64 \<times> 'd arg list) option" where
  "fetch c sign as =
     (if c = chr CHR ''d'' \<or> c = chr CHR ''D'' then
        map_option (\<lambda>(n, as). (if sign then scast n else ucast n, as)) (va_int as)
      else va_long as)"

definition is_int :: "byte \<Rightarrow> bool" where
  "is_int c \<longleftrightarrow> c \<in> {chr CHR ''d'', chr CHR ''l'', chr CHR ''D'', chr CHR ''L''}"

text \<open>A store \<^verbatim>\<open>*buf++ = c\<close> without a check.\<close>

definition put :: "nat \<Rightarrow> byte \<Rightarrow> bytes option" where
  "put room c = (if room = 0 then None else Some [c])"

definition conv_int :: "nat \<Rightarrow> byte \<Rightarrow> nat \<Rightarrow> u32 \<Rightarrow> bool \<Rightarrow> u64 \<Rightarrow> bytes option" where
  "conv_int room zero hexa width sign v =
     (if sign \<and> sint v < 0 then
        if v = 0x8000000000000000 then None
        else map_option (\<lambda>m. m @ dl_sprintf_num (room - 1) (- v) zero hexa (unat width)) (put room (chr CHR ''-''))
      else Some (dl_sprintf_num room v zero hexa (unat width)))"

definition conv_float :: "'d floats \<Rightarrow> nat \<Rightarrow> byte \<Rightarrow> u32 \<Rightarrow> u32 \<Rightarrow> 'd \<Rightarrow> bytes option" where
  "conv_float fl room zero width fw d =
     do { m \<leftarrow> (if f_neg fl d then put room (chr CHR ''-'') else Some []);
          let d = (if f_neg fl d then f_minus fl d else d);
          i \<leftarrow> f_trunc fl d;
          let scale = 10 ^ unat fw;
          frac \<leftarrow> (if fw = 0 then Some 0 else f_frac fl d i scale);
          let (i, frac) = (if fw \<noteq> 0 \<and> frac = ucast scale then (i + 1, 0) else (i, frac));
          let out = m @ dl_sprintf_num (room - length m) i zero 0 (unat width);
          Some (if fw = 0 then out
                else let out = (if length out < room then out @ [chr CHR ''.''] else out)
                     in out @ dl_sprintf_num (room - length out) frac (chr CHR ''0'') 0 (unat fw)) }"

text \<open>An argument and what is written for it.\<close>

definition with_arg :: "('v \<times> 'a) option \<Rightarrow> ('v \<Rightarrow> bytes option) \<Rightarrow> (bytes \<times> 'a) option" where
  "with_arg x y = do { (v, as) \<leftarrow> x; out \<leftarrow> y v; Some (out, as) }"

definition conv_char :: "'d floats \<Rightarrow> nat \<Rightarrow> byte \<Rightarrow> u32 \<Rightarrow> fspec \<Rightarrow> byte \<Rightarrow> 'd arg list
    \<Rightarrow> (bytes \<times> 'd arg list) option" where
  "conv_char fl room zero width s c as =
     (if c = chr CHR ''V'' then with_arg (va_vec as) (\<lambda>v. Some (take room v))
      else if c = chr CHR ''s'' then with_arg (va_str as) (conv_str room (s_slen s))
      else if is_int c then with_arg (fetch c (s_sign s) as) (conv_int room zero (s_hex s) width (s_sign s))
      else if c = chr CHR ''f'' then with_arg (va_dbl as) (conv_float fl room zero width (s_frac s))
      else if c = chr CHR ''p'' then with_arg (va_ptr as) (conv_int room (chr CHR ''0'') 2 16 False)
      else if c = chr CHR ''c'' then with_arg (va_int as) (\<lambda>d. put room (ucast (d AND 0xff)))
      else if c = chr CHR ''Z'' then with_arg (Some ((), as)) (\<lambda>_. put room 0)
      else if c = chr CHR ''N'' then with_arg (Some ((), as)) (\<lambda>_. put room 10)
      else with_arg (Some ((), as)) (\<lambda>_. put room c))"

text \<open>One conversion: the bytes written, the rest of the format and of the arguments. At the end of the
  format the default branch copies the NUL and steps over it; the next read is behind the format.\<close>

fun conv :: "'d floats \<Rightarrow> nat \<Rightarrow> byte \<Rightarrow> u32 \<Rightarrow> fspec \<Rightarrow> bytes \<Rightarrow> 'd arg list
    \<Rightarrow> (bytes \<times> bytes \<times> 'd arg list) option" where
  "conv fl room zero width s [] as = None"
| "conv fl room zero width s (c # f) as =
     map_option (\<lambda>(out, as). (out, f, as)) (conv_char fl room zero width s c as)"

text \<open>All of a directive, from behind its percent sign.\<close>

definition directive :: "'d floats \<Rightarrow> nat \<Rightarrow> bytes \<Rightarrow> 'd arg list \<Rightarrow> (bytes \<times> bytes \<times> 'd arg list) option" where
  "directive fl room f as =
     (let zero = (if f \<noteq> [] \<and> hd f = chr CHR ''0'' then chr CHR ''0'' else chr CHR '' '');
          (width, f) = read_num 0 f
      in do { (s, f, as) \<leftarrow> flags \<lparr>s_sign = True, s_hex = 0, s_frac = 0, s_slen = - 1\<rparr> f as;
              conv fl room zero width s f as })"

lemma read_num_length: "read_num w f = (w', f') \<Longrightarrow> length f' \<le> length f"
  by (induction w f rule: read_num.induct) (auto split: if_splits)

lemma flags_length: "flags s f as = Some (s', f', as') \<Longrightarrow> length f' \<le> length f"
proof (induction s f as rule: flags.induct)
  case (2 s c f as)
  then show ?case
    by (fastforce dest: read_num_length split: if_splits prod.splits bind_splits)
qed simp

lemma conv_length: "conv fl room zero width s f as = Some (out, f', as') \<Longrightarrow> length f' < length f"
  by (cases f) auto

lemma directive_length: "directive fl room f as = Some (out, f', as') \<Longrightarrow> length f' < length f"
  by (auto simp: directive_def Let_def split: prod.splits bind_splits
    dest!: conv_length flags_length read_num_length)

section \<open>The loop\<close>

text \<open>The bytes written and the arguments that are left.\<close>

function vsl_loop :: "'d floats \<Rightarrow> nat \<Rightarrow> bytes \<Rightarrow> 'd arg list \<Rightarrow> (bytes \<times> 'd arg list) option" where
  "vsl_loop fl room f as =
     (if f = [] \<or> room = 0 then Some ([], as)
      else if hd f = chr CHR ''%'' then
        (case directive fl room (tl f) as of
           None \<Rightarrow> None
         | Some (out, f', as) \<Rightarrow>
             map_option (\<lambda>(rest, as). (out @ rest, as)) (vsl_loop fl (room - length out) f' as))
      else map_option (\<lambda>(rest, as). (hd f # rest, as)) (vsl_loop fl (room - 1) (tl f) as))"
  by pat_completeness auto
termination
  by (relation "measure (\<lambda>(fl, room, f, as). length f)") (auto dest!: directive_length)

declare vsl_loop.simps [simp del]

definition dl_vslprintf :: "'d floats \<Rightarrow> nat \<Rightarrow> bytes \<Rightarrow> 'd arg list \<Rightarrow> bytes option" where
  "dl_vslprintf fl room f as = map_option fst (vsl_loop fl room f as)"

definition dl_snprintf :: "'d floats \<Rightarrow> nat \<Rightarrow> bytes \<Rightarrow> 'd arg list \<Rightarrow> bytes option" where
  "dl_snprintf fl limit f as = dl_vslprintf fl limit f as"

definition dl_slprintf :: "'d floats \<Rightarrow> u64 \<Rightarrow> u64 \<Rightarrow> bytes \<Rightarrow> 'd arg list \<Rightarrow> bytes option" where
  "dl_slprintf fl buf bound f as = dl_vslprintf fl (unat bound - unat buf) f as"

text \<open>\<^verbatim>\<open>dl_sprintf\<close> takes \<^verbatim>\<open>(void *) -1\<close> for \<^verbatim>\<open>last\<close>.\<close>

definition dl_sprintf :: "'d floats \<Rightarrow> u64 \<Rightarrow> bytes \<Rightarrow> 'd arg list \<Rightarrow> bytes option" where
  "dl_sprintf fl buf f as = dl_slprintf fl buf (- 1) f as"

text \<open>What \<^verbatim>\<open>dl_printf\<close> sends to the standard output: a buffer of 1024 bytes with a NUL at the end, printed
  as a C string.\<close>

definition dl_printf_core :: "'d floats \<Rightarrow> bytes \<Rightarrow> 'd arg list \<Rightarrow> bytes option" where
  "dl_printf_core fl f as =
     do { out \<leftarrow> dl_vslprintf fl 1023 f as;
          if length out + 1 \<le> 1024 then Some (takeWhile (\<lambda>c. c \<noteq> 0) (out @ [0])) else None }"

definition dl_printf :: "'d floats \<Rightarrow> bytes \<Rightarrow> 'd arg list \<Rightarrow> bytes option" where
  "dl_printf fl f as = dl_printf_core fl f as"

text \<open>The text printed and the exit status.\<close>

definition dl_exit_msg :: "'d floats \<Rightarrow> int \<Rightarrow> bytes \<Rightarrow> 'd arg list \<Rightarrow> (bytes \<times> int) option" where
  "dl_exit_msg fl err f as = map_option (\<lambda>out. (out, err)) (dl_printf_core fl f as)"

end
