(* ===== verification/Dl_Printf_Props.thy ===== *)
theory Dl_Printf_Props
  imports Dl_Printf
begin

text \<open>
  The format interpreter: its output never passes \<^verbatim>\<open>last\<close> and is a prefix of what more room would
  give; formats can be read piece by piece; a format that fits its arguments always gets through;
  the decimal output is read back by \<^verbatim>\<open>dl_atoi\<close>.
\<close>

section \<open>Less room gives a prefix\<close>

lemma cstr_copy_take: "cstr_copy R p = Some out \<Longrightarrow> r \<le> R \<Longrightarrow> cstr_copy r p = Some (take r out)"
proof (induction R p arbitrary: r out rule: cstr_copy.induct)
  case (2 R c p)
  then show ?case by (cases r) (auto split: if_splits)
qed simp

lemma conv_str_take: "conv_str R n p = Some out \<Longrightarrow> r \<le> R \<Longrightarrow> conv_str r n p = Some (take r out)"
  by (auto simp: conv_str_def Let_def cstr_copy_take min_def split: if_splits)

lemma put_take: "put R c = Some out \<Longrightarrow> 0 < r \<Longrightarrow> put r c = Some (take r out)"
  by (cases r) (auto simp: put_def split: if_splits)

lemma conv_int_take: "conv_int R z h w s v = Some out \<Longrightarrow> 0 < r \<Longrightarrow> r \<le> R \<Longrightarrow> conv_int r z h w s v = Some (take r out)"
  by (cases r) (auto simp: conv_int_def put_def sprintf_num_eq min_def split: if_splits)

lemma take_sprintf_num: "r \<le> R \<Longrightarrow> take r (dl_sprintf_num R v z h w) = dl_sprintf_num r v z h w"
  by (simp add: sprintf_num_eq min_def)

text \<open>Output in two pieces, the second one into the room that is left.\<close>

lemma take_two:
  assumes "\<And>r R. r \<le> R \<Longrightarrow> take r (Y R) = Y r" "r \<le> R"
  shows "take r (x @ Y (R - length x)) = take r x @ Y (r - length (take r x))"
proof (cases "r \<le> length x")
  case True
  then have "take 0 (Y 0) = Y 0" by (intro assms(1)) simp
  then show ?thesis using True by simp
next
  case False
  then show ?thesis using assms by simp
qed

lemma take_dot:
  assumes "take r x = y" "r \<le> R"
  shows "take r (if length x < R then x @ [c] else x) = (if length y < r then y @ [c] else y)"
proof (cases "length x < r")
  case False
  then have "length y = r" using assms(1) by auto
  then show ?thesis using False assms(1) by simp
qed (use assms in auto)

lemma conv_float_take:
  assumes "conv_float fl R z w fw d = Some out" "0 < r" "r \<le> R"
  shows "conv_float fl r z w fw d = Some (take r out)"
proof -
  let ?m = "if f_neg fl d then [chr CHR ''-''] else []" and ?d = "if f_neg fl d then f_minus fl d else d"
  have put: "(if f_neg fl d then put n (chr CHR ''-'') else Some []) = Some ?m" if "0 < n" for n
    using that by (simp add: put_def)
  have R: "0 < R" using assms(2,3) by simp
  obtain j where j: "f_trunc fl ?d = Some j"
    using assms(1) by (auto simp: conv_float_def put [OF R] Let_def bind_eq_Some_conv)
  obtain f where f: "(if fw = 0 then Some 0 else f_frac fl ?d j (10 ^ unat fw)) = Some f"
    using assms(1) j by (auto simp: conv_float_def put [OF R] Let_def bind_eq_Some_conv)
  obtain i fr where p: "(if fw \<noteq> 0 \<and> f = ucast (10 ^ unat fw :: u32) then (j + 1, 0) else (j, f)) = (i, fr)"
    by (metis surj_pair)
  define A where "A n = ?m @ dl_sprintf_num (n - length ?m) i z 0 (unat w)" for n
  define B where "B n = (if length (A n) < n then A n @ [chr CHR ''.''] else A n)" for n
  define C where "C n = B n @ dl_sprintf_num (n - length (B n)) fr (chr CHR ''0'') 0 (unat fw)" for n
  have run: "conv_float fl n z w fw d = Some (if fw = 0 then A n else C n)" if "0 < n" for n
    unfolding conv_float_def put [OF that] Let_def bind.simps j f p prod.case A_def B_def C_def ..
  have "take r (A R) = take r ?m @ dl_sprintf_num (r - length (take r ?m)) i z 0 (unat w)"
    unfolding A_def by (rule take_two [OF take_sprintf_num assms(3)])
  moreover have "take r ?m = ?m" using assms(2) by simp
  ultimately have a: "take r (A R) = A r" by (simp add: A_def)
  have b: "take r (B R) = B r" unfolding B_def by (rule take_dot [OF a assms(3)])
  have "take r (C R) = take r (B R) @ dl_sprintf_num (r - length (take r (B R))) fr (chr CHR ''0'') 0 (unat fw)"
    unfolding C_def by (rule take_two [OF take_sprintf_num assms(3)])
  then have "take r (C R) = C r" by (simp add: b C_def)
  then show ?thesis using a assms run [of R] run [of r] by auto
qed

text \<open>\<open>y\<close> is what \<open>x\<close> is with only \<open>r\<close> bytes of room.\<close>

definition cut :: "nat \<Rightarrow> (bytes \<times> 'a) option \<Rightarrow> (bytes \<times> 'a) option \<Rightarrow> bool" where
  "cut r x y \<longleftrightarrow> (\<forall>out as. x = Some (out, as) \<longrightarrow> y = Some (take r out, as))"

lemma cut_if: "(b \<Longrightarrow> cut r x y) \<Longrightarrow> (\<not> b \<Longrightarrow> cut r x' y') \<Longrightarrow> cut r (if b then x else x') (if b then y else y')"
  by simp

lemma cut_with: "(\<And>v out. Y v = Some out \<Longrightarrow> Y' v = Some (take r out)) \<Longrightarrow> cut r (with_arg x Y) (with_arg x Y')"
  by (auto simp: cut_def with_arg_def split: bind_splits)

lemma conv_char_take: "0 < r \<Longrightarrow> r \<le> R \<Longrightarrow> cut r (conv_char fl R z w s c as) (conv_char fl r z w s c as)"
  unfolding conv_char_def
  by (intro cut_if cut_with) (auto simp: conv_str_take put_take conv_int_take conv_float_take min_absorb1)

lemma conv_take:
  assumes "conv fl R z w s f as = Some (out, f', as')" "0 < r" "r \<le> R"
  shows "conv fl r z w s f as = Some (take r out, f', as')"
  using assms conv_char_take [OF assms(2,3), of fl z w s "hd f" as] by (cases f) (auto simp: cut_def)

lemma directive_take:
  "directive fl R f as = Some (out, f', as') \<Longrightarrow> 0 < r \<Longrightarrow> r \<le> R \<Longrightarrow> directive fl r f as = Some (take r out, f', as')"
  by (auto simp: directive_def Let_def conv_take split: prod.splits bind_splits)

lemma conv_length_room:
  assumes "conv fl R z w s f as = Some (out, f', as')" "0 < R" shows "length out \<le> R"
proof -
  have "out = take R out" using conv_take [OF assms order_refl] assms(1) by simp
  then show ?thesis by (metis length_take min.cobounded2)
qed

lemma vsl_loop_Nil [simp]: "vsl_loop fl R [] as = Some ([], as)"
  by (simp add: vsl_loop.simps)

lemma vsl_loop_full [simp]: "vsl_loop fl 0 f as = Some ([], as)"
  by (simp add: vsl_loop.simps)

lemma vsl_loop_char [simp]:
  "c \<noteq> 37 \<Longrightarrow> vsl_loop fl (Suc R) (c # f) as = map_option (\<lambda>(rest, as). (c # rest, as)) (vsl_loop fl R f as)"
  by (simp add: vsl_loop.simps [of fl "Suc R"])

lemma vsl_loop_directive:
  "0 < R \<Longrightarrow> vsl_loop fl R (37 # f) as =
    (case directive fl R f as of None \<Rightarrow> None
     | Some (out, f', as) \<Rightarrow> map_option (\<lambda>(rest, as). (out @ rest, as)) (vsl_loop fl (R - length out) f' as))"
  by (simp add: vsl_loop.simps [of fl R])

lemma vsl_loop_take:
  "vsl_loop fl R f as = Some (out, as') \<Longrightarrow> r \<le> R \<Longrightarrow> \<exists>as''. vsl_loop fl r f as = Some (take r out, as'')"
proof (induction fl R f as arbitrary: r out as' rule: vsl_loop.induct)
  case (1 fl R f as)
  show ?case
  proof (cases "f = [] \<or> r = 0")
    case False
    then obtain c g where f: "f = c # g" and r: "0 < r" "0 < R" using 1(4) by (cases f) auto
    show ?thesis
    proof (cases "c = 37")
      case True
      have h: "hd f = chr CHR ''%''" "tl f = g" "\<not> (f = [] \<or> R = 0)" using True f r by simp_all
      obtain o1 f1 as1 where d: "directive fl R g as = Some (o1, f1, as1)"
        using 1(3) True f r by (auto simp: vsl_loop_directive split: option.splits)
      obtain o2 where l: "vsl_loop fl (R - length o1) f1 as1 = Some (o2, as')" "out = o1 @ o2"
        using 1(3) True f r d by (auto simp: vsl_loop_directive)
      have "r - length o1 \<le> R - length o1" using 1(4) by simp
      then obtain as'' where "vsl_loop fl (r - length o1) f1 as1 = Some (take (r - length o1) o2, as'')"
        using 1(1) [OF h(3,1) _ refl refl l(1)] d h(2) by simp blast
      moreover have "r - length (take r o1) = r - length o1" by (simp add: min_def)
      ultimately show ?thesis
        using directive_take [OF d r(1) 1(4)] True f r l(2) by (simp add: vsl_loop_directive)
    next
      case no: False
      obtain k n where rk: "r = Suc k" "R = Suc n" using r by (cases r; cases R) auto
      obtain o2 where l: "vsl_loop fl n g as = Some (o2, as')" "out = c # o2"
        using 1(3) no f rk by auto
      have "vsl_loop fl (R - 1) (tl f) as = Some (o2, as')" using l f rk by simp
      then obtain as'' where "vsl_loop fl k g as = Some (take k o2, as'')"
        using 1(2) [of o2 as' k] f r rk no 1(4) by auto
      then show ?thesis using no f rk l(2) by simp
    qed
  qed (use 1(3) in auto)
qed

lemma vsl_loop_length:
  assumes "vsl_loop fl R f as = Some (out, as')" shows "length out \<le> R"
proof -
  have "take R out = out" using vsl_loop_take [OF assms order_refl] assms by simp
  then show ?thesis by (metis length_take min.cobounded2)
qed

section \<open>Formats piece by piece\<close>

lemma read_num_append: "read_num w f = (w', c # f') \<Longrightarrow> read_num w (f @ g) = (w', c # f' @ g)"
  by (induction w f rule: read_num.induct) (auto split: if_splits)

lemma flags_append: "flags s f as = Some (s', c # f', as') \<Longrightarrow> flags s (f @ g) as = Some (s', c # f' @ g, as')"
proof (induction s f as rule: flags.induct)
  case (2 s c f as)
  then show ?case
    by (auto simp: read_num_append Let_def split: if_splits prod.splits bind_splits)
qed simp

lemma conv_append: "conv fl R z w s f as = Some (out, f', as') \<Longrightarrow> conv fl R z w s (f @ g) as = Some (out, f' @ g, as')"
  by (cases f) auto

lemma directive_append:
  assumes "directive fl R f as = Some (out, f', as')" shows "directive fl R (f @ g) as = Some (out, f' @ g, as')"
proof -
  obtain w f1 where n: "read_num 0 f = (w, f1)" by fastforce
  obtain s f2 as2 where fl: "flags \<lparr>s_sign = True, s_hex = 0, s_frac = 0, s_slen = - 1\<rparr> f1 as = Some (s, f2, as2)"
    and c: "conv fl R (if f \<noteq> [] \<and> hd f = chr CHR ''0'' then chr CHR ''0'' else chr CHR '' '') w s f2 as2 = Some (out, f', as')"
    using assms n by (auto simp: directive_def Let_def split: bind_splits prod.splits)
  have f2: "f2 \<noteq> []" using c by auto
  have f1: "f1 \<noteq> []" using fl f2 by auto
  have f: "f \<noteq> []" using n f1 by auto
  have "read_num 0 (f @ g) = (w, f1 @ g)" using read_num_append n f1 by (cases f1) auto
  moreover have "flags \<lparr>s_sign = True, s_hex = 0, s_frac = 0, s_slen = - 1\<rparr> (f1 @ g) as = Some (s, f2 @ g, as2)"
    using flags_append fl f2 by (cases f2) auto
  ultimately show ?thesis using conv_append [OF c, of g] f by (simp add: directive_def Let_def)
qed

lemma vsl_loop_append:
  "vsl_loop fl R f as = Some (out, as') \<Longrightarrow>
   vsl_loop fl R (f @ g) as = map_option (\<lambda>(rest, as''). (out @ rest, as'')) (vsl_loop fl (R - length out) g as')"
proof (induction fl R f as arbitrary: out as' rule: vsl_loop.induct)
  case (1 fl R f as)
  show ?case
  proof (cases "f = [] \<or> R = 0")
    case True
    then show ?thesis using 1(3) by (auto simp: option.map_ident)
  next
    case False
    then obtain c h n where f: "f = c # h" and R: "R = Suc n" by (cases f; cases R) auto
    show ?thesis
    proof (cases "c = 37")
      case True
      have hh: "hd f = chr CHR ''%''" "tl f = h" "\<not> (f = [] \<or> R = 0)" using True f R by simp_all
      obtain o1 f1 as1 where d: "directive fl R h as = Some (o1, f1, as1)"
        using 1(3) True f R by (auto simp: vsl_loop_directive split: option.splits)
      obtain o2 where l: "vsl_loop fl (R - length o1) f1 as1 = Some (o2, as')" "out = o1 @ o2"
        using 1(3) True f R d by (auto simp: vsl_loop_directive)
      have "vsl_loop fl (R - length o1) (f1 @ g) as1
          = map_option (\<lambda>(rest, as''). (o2 @ rest, as'')) (vsl_loop fl (R - length o1 - length o2) g as')"
        using 1(1) [OF hh(3,1) _ refl refl l(1)] d hh(2) by simp
      then show ?thesis
        using directive_append [OF d, of g] True f R l(2)
        by (simp add: vsl_loop_directive option.map_comp comp_def case_prod_beta)
    next
      case no: False
      obtain o2 where l: "vsl_loop fl n h as = Some (o2, as')" "out = c # o2"
        using 1(3) no f R by auto
      have "vsl_loop fl n (h @ g) as = map_option (\<lambda>(rest, as''). (o2 @ rest, as'')) (vsl_loop fl (n - length o2) g as')"
        using 1(2) [of o2 as'] l(1) f R no by simp
      then show ?thesis using no f R l(2) by (simp add: option.map_comp comp_def case_prod_beta)
    qed
  qed
qed

section \<open>Formats with types\<close>

text \<open>
  The types a format without \<^verbatim>\<open>*\<close> asks for. \<open>TSLong\<close>: a \<^verbatim>\<open>long\<close> printed with its sign, which must not be
  the least one; \<open>TStr\<close>: a string with a NUL; \<open>TDbl\<close>: a \<^verbatim>\<open>double\<close> whose absolute value \<^verbatim>\<open>int64_t\<close> can hold
  (and its scaled fraction \<^verbatim>\<open>uint64_t\<close>).
\<close>

datatype argty = TInt | TLong | TSLong | TStr | TVec | TDbl | TPtr

definition in_range :: "'d floats \<Rightarrow> 'd \<Rightarrow> bool" where
  "in_range fl d \<longleftrightarrow> (let d = (if f_neg fl d then f_minus fl d else d)
     in case f_trunc fl d of None \<Rightarrow> False | Some i \<Rightarrow> \<forall>scale. f_frac fl d i scale \<noteq> None)"

fun has_type :: "'d floats \<Rightarrow> argty \<Rightarrow> 'd arg \<Rightarrow> bool" where
  "has_type fl TInt (I32 n) = True"
| "has_type fl TLong (I64 n) = True"
| "has_type fl TSLong (I64 n) = (n \<noteq> 0x8000000000000000)"
| "has_type fl TStr (CStr p) = (0 \<in> set p)"
| "has_type fl TVec (Vec p) = True"
| "has_type fl TDbl (Dbl d) = in_range fl d"
| "has_type fl TPtr (Ptr p) = True"
| "has_type fl _ _ = False"

lemma has_type_iffs: "has_type fl TInt a \<longleftrightarrow> (\<exists>n. a = I32 n)" "has_type fl TLong a \<longleftrightarrow> (\<exists>n. a = I64 n)"
  "has_type fl TSLong a \<longleftrightarrow> (\<exists>n. a = I64 n \<and> n \<noteq> 0x8000000000000000)"
  "has_type fl TStr a \<longleftrightarrow> (\<exists>p. a = CStr p \<and> 0 \<in> set p)" "has_type fl TVec a \<longleftrightarrow> (\<exists>p. a = Vec p)"
  "has_type fl TDbl a \<longleftrightarrow> (\<exists>d. a = Dbl d \<and> in_range fl d)" "has_type fl TPtr a \<longleftrightarrow> (\<exists>p. a = Ptr p)"
  by (cases a; simp)+

fun plain_flags :: "bool \<Rightarrow> bytes \<Rightarrow> (bool \<times> bytes) option" where
  "plain_flags sg [] = Some (sg, [])"
| "plain_flags sg (c # f) =
     (if c \<in> {chr CHR ''u'', chr CHR ''x'', chr CHR ''X''} then plain_flags False f
      else if c = chr CHR ''m'' then plain_flags sg f
      else if c = chr CHR ''.'' then Some (sg, snd (read_num 0 f))
      else if c = chr CHR ''*'' then None
      else Some (sg, c # f))"

definition char_types :: "bool \<Rightarrow> byte \<Rightarrow> argty list" where
  "char_types sg c =
     (if c = chr CHR ''V'' then [TVec]
      else if c = chr CHR ''s'' then [TStr]
      else if c \<in> {chr CHR ''d'', chr CHR ''D''} then [TInt]
      else if c \<in> {chr CHR ''l'', chr CHR ''L''} then [if sg then TSLong else TLong]
      else if c = chr CHR ''f'' then [TDbl]
      else if c = chr CHR ''p'' then [TPtr]
      else if c = chr CHR ''c'' then [TInt]
      else [])"

definition directive_types :: "bytes \<Rightarrow> (argty list \<times> bytes) option" where
  "directive_types f =
     do { (sg, f) \<leftarrow> plain_flags True (snd (read_num 0 f));
          case f of [] \<Rightarrow> None | c # f \<Rightarrow> Some (char_types sg c, f) }"

lemma plain_flags_length: "plain_flags sg f = Some (sg', f') \<Longrightarrow> length f' \<le> length f"
proof (induction sg f rule: plain_flags.induct)
  case (2 sg c f)
  have "length (snd (read_num 0 f)) \<le> length f" by (metis prod.collapse read_num_length)
  then show ?case using 2 by (auto split: if_splits)
qed simp

lemma directive_types_length:
  assumes "directive_types f = Some (ts, f')" shows "length f' < length f"
proof -
  obtain sg c where p: "plain_flags True (snd (read_num 0 f)) = Some (sg, c # f')"
    using assms by (auto simp: directive_types_def split: bind_splits list.splits)
  obtain w g where r: "read_num 0 f = (w, g)" by fastforce
  show ?thesis using plain_flags_length [OF p] read_num_length [OF r] r by simp
qed

function fmt_types :: "bytes \<Rightarrow> argty list option" where
  "fmt_types [] = Some []"
| "fmt_types (c # f) =
     (if c = chr CHR ''%'' then
        (case directive_types f of None \<Rightarrow> None | Some (ts, f') \<Rightarrow> map_option ((@) ts) (fmt_types f'))
      else fmt_types f)"
  by pat_completeness auto
termination
  by (relation "measure length") (auto dest!: directive_types_length)

lemma flags_plain:
  "plain_flags (s_sign s) f = Some (sg, f') \<Longrightarrow> s_slen s = - 1 \<Longrightarrow>
   \<exists>s'. flags s f as = Some (s', f', as) \<and> s_sign s' = sg \<and> s_slen s' = - 1"
proof (induction s f as rule: flags.induct)
  case (2 s c f as)
  show ?case
  proof (cases "c \<in> {chr CHR ''u'', chr CHR ''x'', chr CHR ''X'', chr CHR ''m''}")
    case True
    then show ?thesis using 2 by auto
  next
    case False
    then show ?thesis using 2(6,7) by (auto simp: Let_def split: prod.splits if_splits)
  qed
qed simp

lemma cstr_copy_defined: "0 \<in> set p \<Longrightarrow> \<exists>out. cstr_copy R p = Some out"
  by (induction R p rule: cstr_copy.induct) auto

lemma conv_float_defined: "0 < R \<Longrightarrow> in_range fl d \<Longrightarrow> \<exists>out. conv_float fl R z w fw d = Some out"
proof -
  assume R: "0 < R" and d: "in_range fl d"
  let ?m = "if f_neg fl d then [chr CHR ''-''] else []" and ?d = "if f_neg fl d then f_minus fl d else d"
  have put: "(if f_neg fl d then put R (chr CHR ''-'') else Some []) = Some ?m" using R by (simp add: put_def)
  obtain j where j: "f_trunc fl ?d = Some j" "\<forall>scale. f_frac fl ?d j scale \<noteq> None"
    using d by (auto simp: in_range_def Let_def split: option.splits)
  then obtain f where f: "(if fw = 0 then Some 0 else f_frac fl ?d j (10 ^ unat fw)) = Some f"
    by (cases "fw = 0") auto
  show ?thesis unfolding conv_float_def put Let_def bind.simps j(1) f by (simp split: prod.split)
qed

lemma conv_int_defined: "0 < R \<Longrightarrow> (s \<Longrightarrow> v \<noteq> 0x8000000000000000) \<Longrightarrow> \<exists>out. conv_int R z h w s v = Some out"
  by (auto simp: conv_int_def put_def)

lemma fetch_int: "\<exists>v. fetch c sg (I32 n # as) = Some (v, as) \<and> v \<noteq> 0x8000000000000000"
  if "c = chr CHR ''d'' \<or> c = chr CHR ''D''"
proof -
  have "scast n \<noteq> (0x8000000000000000 :: u64)"
  proof
    assume "scast n = (0x8000000000000000 :: u64)"
    then have "sint (scast n :: u64) = sint (0x8000000000000000 :: u64)" by simp
    moreover have "sint (scast n :: u64) = sint n" by (rule sint_up_scast) (simp add: is_up)
    moreover have "- (2 ^ 31) \<le> sint n" using sint_ge [of n] by simp
    ultimately show False by simp
  qed
  moreover have "ucast n \<noteq> (0x8000000000000000 :: u64)"
  proof
    assume "ucast n = (0x8000000000000000 :: u64)"
    then have "unat (ucast n :: u64) = unat (0x8000000000000000 :: u64)" by simp
    moreover have b: "unat n < 2 ^ 32" by (rule less_le_trans [OF unsigned_less]) simp
    moreover have "unat (ucast n :: u64) = unat n"
      using b by (simp add: unsigned_ucast_eq take_bit_nat_eq_self_iff)
    ultimately show False by simp
  qed
  ultimately show ?thesis using that by (simp add: fetch_def)
qed

lemma with_defined: "x = Some (v, bs) \<Longrightarrow> \<exists>out. Y v = Some out \<Longrightarrow> \<exists>out. with_arg x Y = Some (out, bs)"
  by (auto simp: with_arg_def)

lemma conv_char_defined:
  assumes "list_all2 (has_type fl) (char_types (s_sign s) c) as" "s_slen s = - 1" "0 < R"
  shows "\<exists>out. conv_char fl R z w s c (as @ bs) = Some (out, bs)"
proof -
  note D = conv_char_def is_int_def char_types_def
  consider "c = chr CHR ''V''" | "c = chr CHR ''s''" | "c = chr CHR ''d'' \<or> c = chr CHR ''D''"
    | "c = chr CHR ''l'' \<or> c = chr CHR ''L''" | "c = chr CHR ''f''" | "c = chr CHR ''p''" | "c = chr CHR ''c''"
    | "char_types (s_sign s) c = []" "c \<notin> {chr CHR ''V'', chr CHR ''s'', chr CHR ''f'', chr CHR ''p'', chr CHR ''c''}" "\<not> is_int c"
    by (auto simp: char_types_def is_int_def)
  then show ?thesis
  proof cases
    case 1
    then show ?thesis using assms(1) by (auto simp: D with_arg_def list_all2_Cons1 has_type_iffs)
  next
    case 2
    then obtain p where "as = [CStr p]" "0 \<in> set p" using assms(1) by (auto simp: D list_all2_Cons1 has_type_iffs)
    then show ?thesis using 2 assms(2) cstr_copy_defined [of p R] by (auto simp: D conv_str_def intro!: with_defined)
  next
    case 3
    then obtain n where n: "as = [I32 n]" using assms(1) by (auto simp: D list_all2_Cons1 has_type_iffs)
    obtain v where v: "fetch c (s_sign s) (I32 n # bs) = Some (v, bs)" "v \<noteq> 0x8000000000000000" using fetch_int [OF 3] by blast
    then show ?thesis using 3 n conv_int_defined [OF assms(3), of "s_sign s" v] by (auto simp: D intro!: with_defined)
  next
    case 4
    then obtain n where n: "as = [I64 n]" "s_sign s \<Longrightarrow> n \<noteq> 0x8000000000000000"
      using assms(1) by (auto simp: D list_all2_Cons1 has_type_iffs split: if_splits)
    then show ?thesis using 4 conv_int_defined [OF assms(3) n(2)] by (auto simp: D fetch_def intro!: with_defined)
  next
    case 5
    then obtain d where "as = [Dbl d]" "in_range fl d" using assms(1) by (auto simp: D list_all2_Cons1 has_type_iffs)
    then show ?thesis using 5 conv_float_defined [OF assms(3), of fl d z w "s_frac s"] by (auto simp: D intro!: with_defined)
  next
    case 6
    then obtain v where "as = [Ptr v]" using assms(1) by (auto simp: D list_all2_Cons1 has_type_iffs)
    then show ?thesis using 6 conv_int_defined [OF assms(3), of False v] by (auto simp: D intro!: with_defined)
  next
    case 7
    then show ?thesis using assms(1,3) by (auto simp: D put_def with_arg_def list_all2_Cons1 has_type_iffs)
  next
    case 8
    then show ?thesis using assms(1,3) by (auto simp: conv_char_def with_arg_def put_def)
  qed
qed

lemma directive_defined:
  assumes "directive_types f = Some (ts, f')" "list_all2 (has_type fl) ts as" "0 < R"
  shows "\<exists>out. directive fl R f (as @ bs) = Some (out, f', bs)"
proof -
  obtain w g where n: "read_num 0 f = (w, g)" by fastforce
  obtain sg c where p: "plain_flags True g = Some (sg, c # f')" "ts = char_types sg c"
    using assms(1) n by (auto simp: directive_types_def split: bind_splits list.splits)
  let ?s = "\<lparr>s_sign = True, s_hex = 0, s_frac = 0, s_slen = - 1\<rparr>"
  obtain s where s: "flags ?s g (as @ bs) = Some (s, c # f', as @ bs)" "s_sign s = sg" "s_slen s = - 1"
    using flags_plain [of ?s g sg "c # f'" "as @ bs"] p(1) by auto
  have t: "list_all2 (has_type fl) (char_types (s_sign s) c) as" using assms(2) p(2) s(2) by simp
  obtain out where "conv_char fl R (if f \<noteq> [] \<and> hd f = chr CHR ''0'' then chr CHR ''0'' else chr CHR '' '') w s c (as @ bs) = Some (out, bs)"
    using conv_char_defined [OF t s(3) assms(3)] by blast
  then have "directive fl R f (as @ bs) = Some (out, f', bs)" by (simp add: directive_def Let_def n s(1))
  then show ?thesis by blast
qed

lemma vsl_loop_defined:
  "fmt_types f = Some ts \<Longrightarrow> list_all2 (has_type fl) ts as \<Longrightarrow> \<exists>out as'. vsl_loop fl R f (as @ bs) = Some (out, as')"
proof (induction f arbitrary: R ts as rule: fmt_types.induct)
  case (2 c f)
  show ?case
  proof (cases R)
    case (Suc n)
    show ?thesis
    proof (cases "c = chr CHR ''%''")
      case True
      obtain t1 f' where d: "directive_types f = Some (t1, f')" using 2(3) True by (auto split: option.splits)
      obtain t2 where t: "fmt_types f' = Some t2" "ts = t1 @ t2" using 2(3) True d by auto
      obtain a1 a2 where a: "as = a1 @ a2" "list_all2 (has_type fl) t1 a1" "list_all2 (has_type fl) t2 a2"
        using 2(4) t(2) by (auto simp: list_all2_append1)
      obtain out where o: "directive fl R f (a1 @ a2 @ bs) = Some (out, f', a2 @ bs)"
        using directive_defined [OF d a(2), of R "a2 @ bs"] Suc by auto
      obtain o2 as' where "vsl_loop fl (R - length out) f' (a2 @ bs) = Some (o2, as')"
        using 2(1) [OF True d refl t(1) a(3)] by blast
      then show ?thesis using o True Suc a(1) by (simp add: vsl_loop_directive)
    next
      case False
      then have "fmt_types f = Some ts" using 2(3) by simp
      then obtain o2 as' where "vsl_loop fl n f (as @ bs) = Some (o2, as')" using 2(2) [OF False _ 2(4)] by blast
      then show ?thesis using False Suc by simp
    qed
  qed simp
qed simp

section \<open>Properties\<close>

text \<open>C22: \<^verbatim>\<open>dl_snprintf\<close> never writes behind the \<^verbatim>\<open>max\<close> bytes it is given, and with less room it writes a
  prefix of what it writes with more: every conversion, padding and sign is cut at the end of the
  buffer and nowhere else.\<close>

theorem printf_bounded:
  assumes "dl_snprintf fl R f as = Some out" "r \<le> R"
  shows "length out \<le> R \<and> dl_snprintf fl r f as = Some (take r out)"
proof -
  obtain as' where "vsl_loop fl R f as = Some (out, as')"
    using assms(1) by (auto simp: dl_snprintf_def dl_vslprintf_def)
  with vsl_loop_take [OF this assms(2)] vsl_loop_length [OF this] show ?thesis
    by (auto simp: dl_snprintf_def dl_vslprintf_def)
qed

text \<open>Numbers without a fraction and a sign, below \<open>2 ^ 64\<close>.\<close>

definition no_floats :: "u64 floats" where
  "no_floats = \<lparr>f_neg = (\<lambda>_. False), f_minus = id, f_trunc = (\<lambda>d. if sint d < 0 then None else Some d),
     f_frac = (\<lambda>_ _ _. Some 0)\<rparr>"

lemma printf_example: "dl_snprintf no_floats 9 (lit ''n=%05d;'') [I32 30] = Some (lit ''n=00030;'')"
  by code_simp

theorem printf_bounded_witness:
  "length (lit ''n=00030;'') \<le> 9 \<and> dl_snprintf no_floats 4 (lit ''n=%05d;'') [I32 30] = Some (take 4 (lit ''n=00030;''))"
  using printf_bounded [OF printf_example, of 4] by simp

text \<open>C21: type safety: a format without \<^verbatim>\<open>*\<close> whose arguments have the types it asks for (strings with a
  NUL, no least \<^verbatim>\<open>long\<close> to be negated, no \<^verbatim>\<open>double\<close> out of the range of \<^verbatim>\<open>int64_t\<close>) runs into nothing
  undefined, however little room there is.\<close>

theorem printf_type_safe:
  assumes "fmt_types f = Some ts" "list_all2 (has_type fl) ts as"
  shows "\<exists>out. dl_snprintf fl R f as = Some out \<and> length out \<le> R"
proof -
  obtain out as' where "vsl_loop fl R f (as @ []) = Some (out, as')"
    using vsl_loop_defined [OF assms, of R "[]"] by blast
  with vsl_loop_length [OF this] show ?thesis by (auto simp: dl_snprintf_def dl_vslprintf_def)
qed

lemma fmt_example: "fmt_types (lit ''%s: %ld %V%.2f'') = Some [TStr, TSLong, TVec, TDbl]"
  by code_simp

theorem printf_type_safe_witness:
  "\<exists>out. dl_snprintf no_floats 12 (lit ''%s: %ld %V%.2f'') [CStr [97, 0], I64 7, Vec [98], Dbl 3] = Some out \<and> length out \<le> 12"
  by (rule printf_type_safe [OF fmt_example]) (simp add: in_range_def no_floats_def)

text \<open>A \<^verbatim>\<open>double\<close> out of range is undefined, whatever the format asks for it.\<close>

lemma printf_float_overflow:
  assumes "0 < R" "f_trunc fl (if f_neg fl d then f_minus fl d else d) = None"
  shows "dl_snprintf fl R (lit ''%f'') [Dbl d] = None"
proof -
  have "conv_float fl R z w fw d = None" for z w fw using assms by (simp add: conv_float_def put_def Let_def)
  then show ?thesis
    using assms(1)
    by (simp add: dl_snprintf_def dl_vslprintf_def vsl_loop_directive directive_def conv_char_def is_int_def with_arg_def is_digit_def)
qed

text \<open>A format can be read piece by piece: what a format writes, followed by what the next one writes
  with the arguments and the room that are left.\<close>

theorem printf_compositional:
  assumes "vsl_loop fl R f as = Some (out, as')" "dl_vslprintf fl (R - length out) g as' = Some out'"
  shows "dl_vslprintf fl R (f @ g) as = Some (out @ out')"
  using vsl_loop_append [OF assms(1), of g] assms(2) by (auto simp: dl_vslprintf_def)

theorem printf_compositional_witness:
  "dl_vslprintf no_floats 7 (lit ''ab'' @ lit ''%N'') [] = Some (lit ''ab'' @ [10])"
proof -
  have "vsl_loop no_floats 7 (lit ''ab'') [] = Some (lit ''ab'', [])" by code_simp
  moreover have "dl_vslprintf no_floats (7 - length (lit ''ab'')) (lit ''%N'') [] = Some [10]" by code_simp
  ultimately show ?thesis by (rule printf_compositional)
qed

text \<open>A format that ends with a percent sign makes the loop step over the NUL of the format and read
  behind it.\<close>

theorem printf_trailing_percent:
  assumes "vsl_loop fl R f as = Some (out, as')" "length out < R"
  shows "dl_vslprintf fl R (f @ lit ''%'') as = None"
proof -
  have "vsl_loop fl (R - length out) (lit ''%'') as' = None"
    using assms(2) by (simp add: vsl_loop_directive directive_def)
  then show ?thesis using vsl_loop_append [OF assms(1), of "lit ''%''"] by (simp add: dl_vslprintf_def)
qed

theorem printf_trailing_percent_witness: "dl_vslprintf no_floats 100 (lit ''100'' @ lit ''%'') [] = None"
proof (rule printf_trailing_percent)
  show "vsl_loop no_floats 100 (lit ''100'') [] = Some (lit ''100'', [])" by code_simp
qed simp

lemma sint_scast_64: "sint (scast (n :: u32) :: u64) = sint n"
  by (rule sint_up_scast) (simp add: is_up)

lemma unat_of_int_64: "0 \<le> i \<Longrightarrow> i < 2 ^ 64 \<Longrightarrow> unat (word_of_int i :: u64) = nat i"
  unfolding unat_eq_nat_uint unsigned_of_int by (simp add: take_bit_int_eq_self)

lemma scast_of_int: "scast (n :: u32) = (word_of_int (sint n) :: u64)"
  by (rule scast_eq)

text \<open>\<^verbatim>\<open>%d\<close> prints the decimal digits of an \<^verbatim>\<open>int\<close>, a minus sign before them when it is negative, cut at
  the end of the buffer.\<close>

theorem printf_int:
  assumes "0 < R"
  shows "dl_snprintf fl R (lit ''%d'') [I32 n]
    = Some (take R ((if sint n < 0 then [chr CHR ''-''] else []) @ dec_digits (nat \<bar>sint n\<bar>) []))"
proof -
  let ?v = "scast n :: u64"
  have b: "- (2 ^ 31) \<le> sint n" "sint n < 2 ^ 31" using sint_ge [of n] sint_lt [of n] by simp_all
  have pos: "unat ?v = nat (sint n)" if "0 \<le> sint n"
    using that b unfolding scast_of_int by (intro unat_of_int_64) simp_all
  have neg: "unat (- ?v) = nat (- sint n)" if "sint n < 0"
  proof -
    have "- ?v = word_of_int (- sint n)" unfolding scast_of_int by simp
    then show ?thesis using that b unat_of_int_64 [of "- sint n"] by simp
  qed
  have "sint ?v \<noteq> sint (0x8000000000000000 :: u64)" using b by (simp add: sint_scast_64)
  then have m: "?v \<noteq> 0x8000000000000000" by metis
  have "vsl_loop fl R (lit ''%d'') [I32 n] = map_option (\<lambda>out. (out, [])) (conv_int R (chr CHR '' '') 0 0 True ?v)"
    using assms by (cases "conv_int R (chr CHR '' '') 0 0 True ?v")
      (simp_all add: vsl_loop_directive directive_def conv_char_def is_int_def with_arg_def fetch_def is_digit_def)
  moreover have "conv_int R (chr CHR '' '') 0 0 True ?v
      = Some (take R ((if sint n < 0 then [chr CHR ''-''] else []) @ dec_digits (nat \<bar>sint n\<bar>) []))"
    using assms m pos neg by (cases R) (simp_all add: conv_int_def put_def sint_scast_64 sprintf_num_eq num_digits_dec)
  ultimately show ?thesis by (simp add: dl_snprintf_def dl_vslprintf_def)
qed

theorem printf_int_witness:
  "dl_snprintf no_floats 8 (lit ''%d'') [I32 (- 7)]
    = Some (take 8 ((if sint (- 7 :: u32) < 0 then [chr CHR ''-''] else []) @ dec_digits (nat \<bar>sint (- 7 :: u32)\<bar>) []))"
  by (rule printf_int) simp

text \<open>\<^verbatim>\<open>dl_printf\<close> prints at most 1023 bytes and stops at the first NUL of its output.\<close>

theorem printf_core_output:
  assumes "fmt_types f = Some ts" "list_all2 (has_type fl) ts as"
  shows "\<exists>out. dl_printf fl f as = Some out \<and> length out \<le> 1023 \<and> 0 \<notin> set out"
proof -
  obtain o1 as' where "vsl_loop fl 1023 f (as @ []) = Some (o1, as')"
    using vsl_loop_defined [OF assms, of 1023 "[]"] by blast
  with vsl_loop_length [OF this] have o: "dl_vslprintf fl 1023 f as = Some o1" "length o1 \<le> 1023"
    by (simp_all add: dl_vslprintf_def)
  have "length (takeWhile (\<lambda>c. c \<noteq> 0) (o1 @ [0])) \<le> length o1"
    by (cases "\<forall>c\<in>set o1. c \<noteq> 0") (auto simp: takeWhile_tail length_takeWhile_le)
  moreover have "0 \<notin> set (takeWhile (\<lambda>c. c \<noteq> 0) (o1 @ [0]))" by (auto dest: set_takeWhileD)
  ultimately show ?thesis using o by (simp add: dl_printf_def dl_printf_core_def)
qed

theorem printf_core_output_witness:
  "\<exists>out. dl_printf no_floats (lit ''%s: %ld %V%.2f'') [CStr [97, 0], I64 7, Vec [98], Dbl 3] = Some out
    \<and> length out \<le> 1023 \<and> 0 \<notin> set out"
  by (rule printf_core_output [OF fmt_example]) (simp add: in_range_def no_floats_def)

end
