(* ===== verification/Dl_Slab.thy ===== *)
theory Dl_Slab
  imports Dl_Prelude
begin

text \<open>
  The slab allocator of \<^verbatim>\<open>dl_shm.h\<close> and \<^verbatim>\<open>dl_shm.c\<close>, which serves pieces of a shared mapping. A page
  record is reached through one of three places: the list head of the free runs, the slot of a size
  class, the array of pages. Its \<^verbatim>\<open>prev\<close> word is a pointer whose two low bits hold the page type.
  Accesses outside these places, through \<^verbatim>\<open>NULL\<close> or through a pointer with type bits are undefined
  (\<open>None\<close>), as is a walk that does not end.
\<close>

section \<open>The pool\<close>

datatype sref = Free_head | Slot nat | Pg nat

datatype ptype = PAGE | BIG | EXACT | SMALL

record spage =
  sl :: u64
  nx :: "sref option"
  pv :: "sref option \<times> ptype"

record sstat =
  st_total :: u32
  st_used :: u32
  st_reqs :: u32
  st_fails :: u32

text \<open>The static variables of the file.\<close>

record globals =
  max_size :: nat
  exact_size :: nat
  exact_shift :: nat
  pagesize :: nat
  pagesize_shift :: nat

text \<open>\<open>last_page\<close> is \<^verbatim>\<open>pool->last - pool->pages\<close>; \<open>cell\<close> is the memory of the pages as words.\<close>

record slab =
  min_shift :: nat
  pages :: "spage list"
  last_page :: nat
  free_head :: spage
  slots :: "spage list"
  stats :: "sstat list"
  pfree :: u32
  start :: u64
  send :: u64
  cell :: "u64 \<Rightarrow> u64"

abbreviation PAGE_START :: u64 where "PAGE_START \<equiv> 0x8000000000000000"
abbreviation PAGE_BUSY :: u64 where "PAGE_BUSY \<equiv> 0xffffffffffffffff"
abbreviation SLAB_BUSY :: u64 where "SLAB_BUSY \<equiv> 0xffffffffffffffff"
abbreviation SHIFT_MASK :: u64 where "SHIFT_MASK \<equiv> 0xf"
abbreviation MAP_MASK :: u64 where "MAP_MASK \<equiv> 0xffffffff00000000"

fun look :: "sref \<Rightarrow> slab \<Rightarrow> spage option" where
  "look Free_head p = Some (free_head p)"
| "look (Slot i) p = (if i < length (slots p) then Some (slots p ! i) else None)"
| "look (Pg i) p = (if i < length (pages p) then Some (pages p ! i) else None)"

fun upd :: "sref \<Rightarrow> (spage \<Rightarrow> spage) \<Rightarrow> slab \<Rightarrow> slab option" where
  "upd Free_head f p = Some (p\<lparr>free_head := f (free_head p)\<rparr>)"
| "upd (Slot i) f p = (if i < length (slots p) then Some (p\<lparr>slots := (slots p)[i := f (slots p ! i)]\<rparr>) else None)"
| "upd (Pg i) f p = (if i < length (pages p) then Some (p\<lparr>pages := (pages p)[i := f (pages p ! i)]\<rparr>) else None)"

definition upd_stat :: "nat \<Rightarrow> (sstat \<Rightarrow> sstat) \<Rightarrow> slab \<Rightarrow> slab option" where
  "upd_stat i f p = (if i < length (stats p) then Some (p\<lparr>stats := (stats p)[i := f (stats p ! i)]\<rparr>) else None)"

text \<open>A pointer read from a \<^verbatim>\<open>prev\<close> word without masking the type.\<close>

definition raw_prev :: "spage \<Rightarrow> sref option" where
  "raw_prev g = (if snd (pv g) = PAGE then fst (pv g) else None)"

definition dl_slab_page_type :: "spage \<Rightarrow> ptype" where
  "dl_slab_page_type g = snd (pv g)"

definition dl_slab_page_prev :: "spage \<Rightarrow> sref option" where
  "dl_slab_page_prev g = fst (pv g)"

definition dl_slab_page_addr :: "globals \<Rightarrow> slab \<Rightarrow> nat \<Rightarrow> u64" where
  "dl_slab_page_addr G p i = push_bit (pagesize_shift G) (of_nat i) + start p"

section \<open>Pages\<close>

text \<open>The search for a run of at least \<open>k\<close> free pages.\<close>

partial_function (option) find_run :: "slab \<Rightarrow> u64 \<Rightarrow> sref \<Rightarrow> sref option option" where
  "find_run p k r =
     (if r = Free_head then Some None
      else do { g \<leftarrow> look r p;
                if k \<le> sl g then Some (Some r) else Option.bind (nx g) (find_run p k) })"

text \<open>The pages behind the first one of a run that is handed out.\<close>

fun mark_busy :: "nat \<Rightarrow> nat \<Rightarrow> slab \<Rightarrow> slab option" where
  "mark_busy i 0 p = Some p"
| "mark_busy i (Suc n) p =
     Option.bind (upd (Pg i) (\<lambda>g. \<lparr>sl = PAGE_BUSY, nx = None, pv = (None, PAGE)\<rparr>) p) (mark_busy (Suc i) n)"

text \<open>Take the first \<open>k\<close> pages off the run at \<open>i\<close>: the rest takes its place in the list of runs.\<close>

definition split_run :: "nat \<Rightarrow> nat \<Rightarrow> slab \<Rightarrow> slab option" where
  "split_run i k p =
     do { g \<leftarrow> look (Pg i) p;
          p \<leftarrow> upd (Pg (i + unat (sl g) - 1)) (\<lambda>x. x\<lparr>pv := (Some (Pg (i + k)), PAGE)\<rparr>) p;
          g \<leftarrow> look (Pg i) p;
          p \<leftarrow> upd (Pg (i + k)) (\<lambda>x. \<lparr>sl = sl g - of_nat k, nx = nx g, pv = pv g\<rparr>) p;
          g \<leftarrow> look (Pg i) p;
          q \<leftarrow> raw_prev g;
          p \<leftarrow> upd q (\<lambda>x. x\<lparr>nx := Some (Pg (i + k))\<rparr>) p;
          g \<leftarrow> look (Pg i) p;
          n \<leftarrow> nx g;
          upd n (\<lambda>x. x\<lparr>pv := (Some (Pg (i + k)), PAGE)\<rparr>) p }"

definition unlink_run :: "nat \<Rightarrow> slab \<Rightarrow> slab option" where
  "unlink_run i p =
     do { g \<leftarrow> look (Pg i) p;
          q \<leftarrow> raw_prev g;
          p \<leftarrow> upd q (\<lambda>x. x\<lparr>nx := nx g\<rparr>) p;
          g \<leftarrow> look (Pg i) p;
          n \<leftarrow> nx g;
          upd n (\<lambda>x. x\<lparr>pv := pv g\<rparr>) p }"

text \<open>\<open>Some (None, p)\<close> is \<^verbatim>\<open>NULL\<close>; otherwise the position of the first page.\<close>

definition dl_slab_alloc_pages :: "u32 \<Rightarrow> slab \<Rightarrow> (nat option \<times> slab) option" where
  "dl_slab_alloc_pages k p =
     do { r \<leftarrow> Option.bind (nx (free_head p)) (find_run p (ucast k));
          case r of
            None \<Rightarrow> Some (None, p)
          | Some (Pg i) \<Rightarrow>
              do { g \<leftarrow> look (Pg i) p;
                   p \<leftarrow> (if ucast k < sl g then split_run i (unat k) p else unlink_run i p);
                   p \<leftarrow> upd (Pg i) (\<lambda>x. \<lparr>sl = ucast k OR PAGE_START, nx = None, pv = (None, PAGE)\<rparr>) p;
                   let p = p\<lparr>pfree := pfree p - k\<rparr>;
                   p \<leftarrow> mark_busy (i + 1) (unat (k - 1)) p;
                   Some (Some i, p) }
          | _ \<Rightarrow> None }"

text \<open>\<^verbatim>\<open>memset(&page[1], 0, ...)\<close>\<close>

fun wipe_pages :: "nat \<Rightarrow> nat \<Rightarrow> slab \<Rightarrow> slab option" where
  "wipe_pages i 0 p = Some p"
| "wipe_pages i (Suc n) p =
     Option.bind (upd (Pg i) (\<lambda>g. \<lparr>sl = 0, nx = None, pv = (None, PAGE)\<rparr>) p) (wipe_pages (Suc i) n)"

text \<open>Take a record out of the ring it is linked in.\<close>

definition unlink :: "sref \<Rightarrow> slab \<Rightarrow> slab option" where
  "unlink r p =
     do { g \<leftarrow> look r p;
          q \<leftarrow> dl_slab_page_prev g;
          p \<leftarrow> upd q (\<lambda>x. x\<lparr>nx := nx g\<rparr>) p;
          g \<leftarrow> look r p;
          n \<leftarrow> nx g;
          upd n (\<lambda>x. x\<lparr>pv := pv g\<rparr>) p }"

text \<open>The run behind the page is joined if it is free; \<open>k\<close> is the number of pages so far, less one, a \<^verbatim>\<open>uint\<close>.\<close>

definition join_next :: "nat \<Rightarrow> nat \<Rightarrow> slab \<Rightarrow> (nat \<times> slab) option" where
  "join_next i k p =
     do { g \<leftarrow> look (Pg i) p;
          let j = i + unat (sl g);
          if \<not> j < last_page p then Some (k, p)
          else do { h \<leftarrow> look (Pg j) p;
                    if dl_slab_page_type h = PAGE \<and> nx h \<noteq> None then
                      do { p \<leftarrow> upd (Pg i) (\<lambda>x. x\<lparr>sl := sl x + sl h\<rparr>) p;
                           p \<leftarrow> unlink (Pg j) p;
                           p \<leftarrow> upd (Pg j) (\<lambda>x. \<lparr>sl = 0, nx = None, pv = (None, PAGE)\<rparr>) p;
                           Some ((k + unat (sl h)) mod 2 ^ 32, p) }
                    else Some (k, p) } }"

text \<open>The run before the page is joined if it is free: the result starts there.\<close>

definition join_prev :: "nat \<Rightarrow> nat \<Rightarrow> slab \<Rightarrow> (nat \<times> nat \<times> slab) option" where
  "join_prev i k p =
     (if i = 0 then Some (i, k, p)
      else do { h \<leftarrow> look (Pg (i - 1)) p;
                if dl_slab_page_type h \<noteq> PAGE then Some (i, k, p)
                else do { r \<leftarrow> (if sl h = 0 then dl_slab_page_prev h else Some (Pg (i - 1)));
                          h \<leftarrow> look r p;
                          if nx h = None then Some (i, k, p)
                          else do { g \<leftarrow> look (Pg i) p;
                                    p \<leftarrow> upd r (\<lambda>x. x\<lparr>sl := sl x + sl g\<rparr>) p;
                                    p \<leftarrow> unlink r p;
                                    p \<leftarrow> upd (Pg i) (\<lambda>x. \<lparr>sl = 0, nx = None, pv = (None, PAGE)\<rparr>) p;
                                    case r of Pg j \<Rightarrow> Some (j, (k + unat (sl h)) mod 2 ^ 32, p) | _ \<Rightarrow> None } } })"

text \<open>The run is wiped behind its first page; a page of a size class leaves its ring.\<close>

definition open_run :: "nat \<Rightarrow> u32 \<Rightarrow> slab \<Rightarrow> slab option" where
  "open_run i n p =
     do { p \<leftarrow> upd (Pg i) (\<lambda>x. x\<lparr>sl := ucast n\<rparr>) (p\<lparr>pfree := pfree p + n\<rparr>);
          p \<leftarrow> wipe_pages (i + 1) (unat (n - 1)) p;
          g \<leftarrow> look (Pg i) p;
          if nx g \<noteq> None then unlink (Pg i) p else Some p }"

text \<open>The run of \<open>k + 1\<close> pages at \<open>i\<close> becomes the first one in the list of free runs.\<close>

definition link_free :: "nat \<Rightarrow> nat \<Rightarrow> slab \<Rightarrow> slab option" where
  "link_free i k p =
     do { p \<leftarrow> (if k \<noteq> 0 then upd (Pg (i + k)) (\<lambda>x. x\<lparr>pv := (Some (Pg i), PAGE)\<rparr>) p else Some p);
          p \<leftarrow> upd (Pg i) (\<lambda>x. x\<lparr>nx := nx (free_head p), pv := (Some Free_head, PAGE)\<rparr>) p;
          h \<leftarrow> nx (free_head p);
          p \<leftarrow> upd h (\<lambda>x. x\<lparr>pv := (Some (Pg i), PAGE)\<rparr>) p;
          upd Free_head (\<lambda>x. x\<lparr>nx := Some (Pg i)\<rparr>) p }"

definition dl_slab_free_pages :: "nat \<Rightarrow> u32 \<Rightarrow> slab \<Rightarrow> slab option" where
  "dl_slab_free_pages i n p =
     do { p \<leftarrow> open_run i n p;
          (k, p) \<leftarrow> join_next i (unat (n - 1)) p;
          (i, k, p) \<leftarrow> join_prev i k p;
          link_free i k p }"

section \<open>Pieces of a page\<close>

text \<open>The lowest clear bit from \<open>i\<close> on, below \<open>n\<close>: the loops over \<^verbatim>\<open>m <<= 1\<close>.\<close>

function low_clear :: "u64 \<Rightarrow> nat \<Rightarrow> nat \<Rightarrow> nat option" where
  "low_clear w i n = (if n \<le> i then None else if bit w i then low_clear w (Suc i) n else Some i)"
  by pat_completeness auto
termination by (relation "measure (\<lambda>(w, i, n). n - i)") auto

declare low_clear.simps [simp del]

definition set_map :: "nat \<Rightarrow> u64 \<Rightarrow> u64" where
  "set_map i w = w OR push_bit i 1"

definition clear_map :: "nat \<Rightarrow> u64 \<Rightarrow> u64" where
  "clear_map i w = w AND NOT (push_bit i 1)"

definition word_at :: "u64 \<Rightarrow> nat \<Rightarrow> u64" where
  "word_at a n = a + of_nat (8 * n)"

definition set_cell :: "u64 \<Rightarrow> u64 \<Rightarrow> slab \<Rightarrow> slab" where
  "set_cell a v p = p\<lparr>cell := (cell p)(a := v)\<rparr>"

text \<open>A full page leaves the ring of its slot.\<close>

definition retire :: "nat \<Rightarrow> ptype \<Rightarrow> slab \<Rightarrow> slab option" where
  "retire i t p =
     do { p \<leftarrow> unlink (Pg i) p;
          upd (Pg i) (\<lambda>x. x\<lparr>nx := None, pv := (None, t)\<rparr>) p }"

definition bump_used :: "sstat \<Rightarrow> sstat" where
  "bump_used s = s\<lparr>st_used := st_used s + 1\<rparr>"

text \<open>The first bitmap word from \<open>n\<close> on, below \<open>map\<close>, that is not full.\<close>

function find_word :: "slab \<Rightarrow> u64 \<Rightarrow> nat \<Rightarrow> nat \<Rightarrow> nat option" where
  "find_word p b n k =
     (if k \<le> n then None else if cell p (word_at b n) \<noteq> SLAB_BUSY then Some n else find_word p b (Suc n) k)"
  by pat_completeness auto
termination by (relation "measure (\<lambda>(p, b, n, k). k - n)") auto

declare find_word.simps [simp del]

definition map_words :: "globals \<Rightarrow> nat \<Rightarrow> nat" where
  "map_words G shift = pagesize G div 2 ^ shift div 64"

text \<open>The pieces of a small page that hold its bitmap.\<close>

definition map_pieces :: "globals \<Rightarrow> nat \<Rightarrow> nat" where
  "map_pieces G shift = (let n = pagesize G div 2 ^ shift div (2 ^ shift * 8) in if n = 0 then 1 else n)"

text \<open>A piece of the page \<open>i\<close> of the slot's ring; \<open>None\<close> in the result: the page is busy.\<close>

definition alloc_small :: "globals \<Rightarrow> nat \<Rightarrow> nat \<Rightarrow> nat \<Rightarrow> slab \<Rightarrow> (u64 option \<times> slab) option" where
  "alloc_small G shift slot i p =
     (let b = dl_slab_page_addr G p i; k = map_words G shift
      in case find_word p b 0 k of
           None \<Rightarrow> Some (None, p)
         | Some n \<Rightarrow>
             (case low_clear (cell p (word_at b n)) 0 64 of
                None \<Rightarrow> None
              | Some j \<Rightarrow>
                  do { let p = set_cell (word_at b n) (set_map j (cell p (word_at b n))) p;
                       let a = b + push_bit shift (of_nat (n * 64 + j));
                       p \<leftarrow> upd_stat slot bump_used p;
                       if cell p (word_at b n) = SLAB_BUSY \<and> find_word p b (Suc n) k = None
                       then do { p \<leftarrow> retire i SMALL p; Some (Some a, p) }
                       else Some (Some a, p) }))"

definition alloc_exact :: "globals \<Rightarrow> nat \<Rightarrow> nat \<Rightarrow> nat \<Rightarrow> slab \<Rightarrow> (u64 option \<times> slab) option" where
  "alloc_exact G shift slot i p =
     do { g \<leftarrow> look (Pg i) p;
          case low_clear (sl g) 0 64 of
            None \<Rightarrow> Some (None, p)
          | Some j \<Rightarrow>
              do { p \<leftarrow> upd (Pg i) (\<lambda>x. x\<lparr>sl := set_map j (sl x)\<rparr>) p;
                   p \<leftarrow> (if set_map j (sl g) = SLAB_BUSY then retire i EXACT p else Some p);
                   let a = dl_slab_page_addr G p i + push_bit shift (of_nat j);
                   p \<leftarrow> upd_stat slot bump_used p;
                   Some (Some a, p) } }"

text \<open>The map of a page of big pieces is in the upper half of its \<^verbatim>\<open>slab\<close> word.\<close>

definition big_mask :: "globals \<Rightarrow> nat \<Rightarrow> u64" where
  "big_mask G shift = push_bit 32 (push_bit (pagesize G div 2 ^ shift) 1 - 1)"

definition alloc_big :: "globals \<Rightarrow> nat \<Rightarrow> nat \<Rightarrow> nat \<Rightarrow> slab \<Rightarrow> (u64 option \<times> slab) option" where
  "alloc_big G shift slot i p =
     do { g \<leftarrow> look (Pg i) p;
          case low_clear (sl g) 32 (32 + pagesize G div 2 ^ shift) of
            None \<Rightarrow> Some (None, p)
          | Some j \<Rightarrow>
              do { p \<leftarrow> upd (Pg i) (\<lambda>x. x\<lparr>sl := set_map j (sl x)\<rparr>) p;
                   p \<leftarrow> (if set_map j (sl g) AND MAP_MASK = big_mask G shift then retire i BIG p else Some p);
                   let a = dl_slab_page_addr G p i + push_bit shift (of_nat (j - 32));
                   p \<leftarrow> upd_stat slot bump_used p;
                   Some (Some a, p) } }"

definition alloc_from_page :: "globals \<Rightarrow> nat \<Rightarrow> nat \<Rightarrow> nat \<Rightarrow> slab \<Rightarrow> (u64 option \<times> slab) option" where
  "alloc_from_page G shift slot i p =
     (if shift < exact_shift G then alloc_small G shift slot i p
      else if shift = exact_shift G then alloc_exact G shift slot i p
      else alloc_big G shift slot i p)"

text \<open>A fresh page \<open>i\<close> becomes the first one of the slot's ring.\<close>

definition enter_slot :: "nat \<Rightarrow> nat \<Rightarrow> u64 \<Rightarrow> ptype \<Rightarrow> slab \<Rightarrow> slab option" where
  "enter_slot slot i v t p =
     do { p \<leftarrow> upd (Pg i) (\<lambda>x. \<lparr>sl = v, nx = Some (Slot slot), pv = (Some (Slot slot), t)\<rparr>) p;
          upd (Slot slot) (\<lambda>x. x\<lparr>nx := Some (Pg i)\<rparr>) p }"

fun clear_words :: "u64 \<Rightarrow> nat \<Rightarrow> nat \<Rightarrow> slab \<Rightarrow> slab" where
  "clear_words b i 0 p = p"
| "clear_words b i (Suc n) p = clear_words b (Suc i) n (set_cell (word_at b i) 0 p)"

definition alloc_fresh :: "globals \<Rightarrow> nat \<Rightarrow> nat \<Rightarrow> nat \<Rightarrow> slab \<Rightarrow> (u64 \<times> slab) option" where
  "alloc_fresh G shift slot i p =
     (let b = dl_slab_page_addr G p i
      in if shift < exact_shift G then
           let n = map_pieces G shift;
               p = set_cell b (push_bit n 2 - 1) p;
               p = clear_words b 1 (map_words G shift - 1) p
           in do { p \<leftarrow> enter_slot slot i (of_nat shift) SMALL p;
                   p \<leftarrow> upd_stat slot (\<lambda>s. s\<lparr>st_total := st_total s + of_nat (pagesize G div 2 ^ shift - n)\<rparr>) p;
                   p \<leftarrow> upd_stat slot bump_used p;
                   Some (b + push_bit shift (of_nat n), p) }
         else if shift = exact_shift G then
           do { p \<leftarrow> enter_slot slot i 1 EXACT p;
                p \<leftarrow> upd_stat slot (\<lambda>s. s\<lparr>st_total := st_total s + 64\<rparr>) p;
                p \<leftarrow> upd_stat slot bump_used p;
                Some (b, p) }
         else
           do { p \<leftarrow> enter_slot slot i (push_bit 32 1 OR of_nat shift) BIG p;
                p \<leftarrow> upd_stat slot (\<lambda>s. s\<lparr>st_total := st_total s + of_nat (pagesize G div 2 ^ shift)\<rparr>) p;
                p \<leftarrow> upd_stat slot bump_used p;
                Some (b, p) })"

text \<open>\<^verbatim>\<open>for (s = size - 1; s >>= 1; shift++)\<close>\<close>

fun shift_loop :: "nat \<Rightarrow> nat \<Rightarrow> nat" where
  "shift_loop s shift = (if s div 2 = 0 then shift else shift_loop (s div 2) (Suc shift))"

declare shift_loop.simps [simp del]

definition size_shift :: "slab \<Rightarrow> nat \<Rightarrow> nat" where
  "size_shift p sz = (if 2 ^ min_shift p < sz then shift_loop (sz - 1) 1 else min_shift p)"

definition dl_slab_alloc_locked :: "globals \<Rightarrow> u64 \<Rightarrow> slab \<Rightarrow> (u64 option \<times> slab) option" where
  "dl_slab_alloc_locked G sz p =
     (if max_size G < unat sz then
        do { (i, p) \<leftarrow> dl_slab_alloc_pages
               (ucast (drop_bit (pagesize_shift G) sz + (if unat sz mod pagesize G \<noteq> 0 then 1 else 0))) p;
             Some (map_option (dl_slab_page_addr G p) i, p) }
      else
        do { let shift = size_shift p (unat sz);
             let slot = shift - min_shift p;
             p \<leftarrow> upd_stat slot (\<lambda>s. s\<lparr>st_reqs := st_reqs s + 1\<rparr>) p;
             g \<leftarrow> look (Slot slot) p;
             r \<leftarrow> nx g;
             g \<leftarrow> look r p;
             (a, p) \<leftarrow> (if nx g \<noteq> Some r
                        then case r of Pg i \<Rightarrow> alloc_from_page G shift slot i p | _ \<Rightarrow> None
                        else Some (None, p));
             case a of
               Some a \<Rightarrow> Some (Some a, p)
             | None \<Rightarrow>
                 do { (i, p) \<leftarrow> dl_slab_alloc_pages 1 p;
                      case i of
                        Some i \<Rightarrow> do { (a, p) \<leftarrow> alloc_fresh G shift slot i p; Some (Some a, p) }
                      | None \<Rightarrow>
                          do { p \<leftarrow> upd_stat slot (\<lambda>s. s\<lparr>st_fails := st_fails s + 1\<rparr>) p;
                               Some (None, p) } } })"

definition dl_slab_alloc :: "globals \<Rightarrow> u64 \<Rightarrow> slab \<Rightarrow> (u64 option \<times> slab) option" where
  "dl_slab_alloc G sz p = dl_slab_alloc_locked G sz p"

section \<open>Freeing\<close>

text \<open>What the call did: nothing (an address outside of the pool or a page that is not in use), the message
  it printed, or the piece is free.\<close>

datatype outcome = Refused | Wrong_chunk | Already_free | Freed

definition drop_used :: "sstat \<Rightarrow> sstat" where
  "drop_used s = s\<lparr>st_used := st_used s - 1\<rparr>"

text \<open>A page that was full enters the ring of its slot again.\<close>

definition reenter :: "nat \<Rightarrow> nat \<Rightarrow> ptype \<Rightarrow> slab \<Rightarrow> slab option" where
  "reenter slot i t p =
     do { h \<leftarrow> look (Slot slot) p;
          p \<leftarrow> upd (Pg i) (\<lambda>x. x\<lparr>nx := nx h\<rparr>) p;
          p \<leftarrow> upd (Slot slot) (\<lambda>x. x\<lparr>nx := Some (Pg i)\<rparr>) p;
          p \<leftarrow> upd (Pg i) (\<lambda>x. x\<lparr>pv := (Some (Slot slot), t)\<rparr>) p;
          g \<leftarrow> look (Pg i) p;
          n \<leftarrow> nx g;
          upd n (\<lambda>x. x\<lparr>pv := (Some (Pg i), t)\<rparr>) p }"

text \<open>The page is given back when its map is empty; \<open>t\<close> is the number of its pieces.\<close>

definition release_page :: "nat \<Rightarrow> nat \<Rightarrow> nat \<Rightarrow> slab \<Rightarrow> slab option" where
  "release_page slot i t p =
     do { p \<leftarrow> dl_slab_free_pages i 1 p;
          upd_stat slot (\<lambda>s. s\<lparr>st_total := st_total s - of_nat t\<rparr>) p }"

definition page_base :: "globals \<Rightarrow> u64 \<Rightarrow> u64" where
  "page_base G a = a AND NOT (of_nat (pagesize G) - 1)"

definition page_offset :: "globals \<Rightarrow> u64 \<Rightarrow> nat" where
  "page_offset G a = unat (a AND (of_nat (pagesize G) - 1))"

definition aligned :: "u64 \<Rightarrow> nat \<Rightarrow> bool" where
  "aligned a sz \<longleftrightarrow> a AND (of_nat sz - 1) = 0"

text \<open>Some word of the map from \<open>n\<close> on, below \<open>k\<close>, is in use.\<close>

definition words_used :: "slab \<Rightarrow> u64 \<Rightarrow> nat \<Rightarrow> nat \<Rightarrow> bool" where
  "words_used p b n k \<longleftrightarrow> list_ex (\<lambda>i. cell p (word_at b i) \<noteq> 0) [n..<k]"

definition free_small :: "globals \<Rightarrow> u64 \<Rightarrow> nat \<Rightarrow> slab \<Rightarrow> (outcome \<times> slab) option" where
  "free_small G a i p =
     do { g \<leftarrow> look (Pg i) p;
          let shift = unat (sl g AND SHIFT_MASK);
          if \<not> aligned a (2 ^ shift) then Some (Wrong_chunk, p)
          else do {
            let n = page_offset G a div 2 ^ shift;
            let b = page_base G a;
            let w = word_at b (n div 64);
            if \<not> bit (cell p w) (n mod 64) then Some (Already_free, p)
            else do {
              let slot = shift - min_shift p;
              p \<leftarrow> (if nx g = None then reenter slot i SMALL p else Some p);
              let p = set_cell w (clear_map (n mod 64) (cell p w)) p;
              let k = map_pieces G shift;
              p \<leftarrow> (if cell p b AND NOT (push_bit k 1 - 1) \<noteq> 0 \<or> words_used p b 1 (map_words G shift) then Some p
                   else release_page slot i (pagesize G div 2 ^ shift - k) p);
              p \<leftarrow> upd_stat slot drop_used p;
              Some (Freed, p) } } }"

definition free_exact :: "globals \<Rightarrow> u64 \<Rightarrow> nat \<Rightarrow> slab \<Rightarrow> (outcome \<times> slab) option" where
  "free_exact G a i p =
     do { g \<leftarrow> look (Pg i) p;
          let j = page_offset G a div 2 ^ exact_shift G;
          if \<not> aligned a (exact_size G) then Some (Wrong_chunk, p)
          else if \<not> bit (sl g) j then Some (Already_free, p)
          else do {
            let slot = exact_shift G - min_shift p;
            p \<leftarrow> (if sl g = SLAB_BUSY then reenter slot i EXACT p else Some p);
            p \<leftarrow> upd (Pg i) (\<lambda>x. x\<lparr>sl := clear_map j (sl x)\<rparr>) p;
            p \<leftarrow> (if clear_map j (sl g) \<noteq> 0 then Some p else release_page slot i 64 p);
            p \<leftarrow> upd_stat slot drop_used p;
            Some (Freed, p) } }"

definition free_big :: "globals \<Rightarrow> u64 \<Rightarrow> nat \<Rightarrow> slab \<Rightarrow> (outcome \<times> slab) option" where
  "free_big G a i p =
     do { g \<leftarrow> look (Pg i) p;
          let shift = unat (sl g AND SHIFT_MASK);
          if \<not> aligned a (2 ^ shift) then Some (Wrong_chunk, p)
          else do {
            let j = page_offset G a div 2 ^ shift + 32;
            if \<not> bit (sl g) j then Some (Already_free, p)
            else do {
              let slot = shift - min_shift p;
              p \<leftarrow> (if nx g = None then reenter slot i BIG p else Some p);
              p \<leftarrow> upd (Pg i) (\<lambda>x. x\<lparr>sl := clear_map j (sl x)\<rparr>) p;
              p \<leftarrow> (if clear_map j (sl g) AND MAP_MASK \<noteq> 0 then Some p
                   else release_page slot i (pagesize G div 2 ^ shift) p);
              p \<leftarrow> upd_stat slot drop_used p;
              Some (Freed, p) } } }"

definition free_run :: "globals \<Rightarrow> u64 \<Rightarrow> nat \<Rightarrow> slab \<Rightarrow> (outcome \<times> slab) option" where
  "free_run G a i p =
     do { g \<leftarrow> look (Pg i) p;
          if \<not> aligned a (pagesize G) then Some (Wrong_chunk, p)
          else if sl g AND PAGE_START = 0 then Some (Refused, p)
          else if sl g = PAGE_BUSY then Some (Refused, p)
          else do { p \<leftarrow> dl_slab_free_pages i (ucast (sl g AND NOT PAGE_START)) p;
                    Some (Freed, p) } }"

definition dl_slab_free_locked :: "globals \<Rightarrow> u64 \<Rightarrow> slab \<Rightarrow> (outcome \<times> slab) option" where
  "dl_slab_free_locked G a p =
     (if a < start p \<or> send p < a then Some (Refused, p)
      else do { let i = unat (drop_bit (pagesize_shift G) (a - start p));
                g \<leftarrow> look (Pg i) p;
                case dl_slab_page_type g of
                  SMALL \<Rightarrow> free_small G a i p
                | EXACT \<Rightarrow> free_exact G a i p
                | BIG \<Rightarrow> free_big G a i p
                | PAGE \<Rightarrow> free_run G a i p })"

definition dl_slab_free :: "globals \<Rightarrow> u64 \<Rightarrow> slab \<Rightarrow> (outcome \<times> slab) option" where
  "dl_slab_free G a p = dl_slab_free_locked G a p"

section \<open>Initialisation\<close>

text \<open>\<^verbatim>\<open>for (n = v; n >>= 1; k++)\<close>\<close>

fun log_loop :: "nat \<Rightarrow> nat \<Rightarrow> nat" where
  "log_loop v k = (if v div 2 = 0 then k else log_loop (v div 2) (Suc k))"

declare log_loop.simps [simp del]

text \<open>\<open>pg\<close> is what \<^verbatim>\<open>getpagesize\<close> returns. The shifts are counted up from the values they have.\<close>

definition init_globals :: "nat \<Rightarrow> globals \<Rightarrow> globals" where
  "init_globals pg G =
     (let G = G\<lparr>pagesize := pg, pagesize_shift := log_loop pg (pagesize_shift G)\<rparr>
      in if max_size G = 0
         then G\<lparr>max_size := pg div 2, exact_size := pg div 64, exact_shift := log_loop (pg div 64) (exact_shift G)\<rparr>
         else G)"

abbreviation sizeof_slab_pool :: u64 where "sizeof_slab_pool \<equiv> 128"
abbreviation sizeof_slab_page :: nat where "sizeof_slab_page \<equiv> 24"
abbreviation sizeof_slab_stat :: nat where "sizeof_slab_stat \<equiv> 16"

definition empty_slot :: "nat \<Rightarrow> spage" where
  "empty_slot i = \<lparr>sl = 0, nx = Some (Slot i), pv = (None, PAGE)\<rparr>"

text \<open>A mapping without room for a single page is not modelled (\<open>None\<close>): the record of the page 0 would
  be written behind the array. The page size is at least \<open>2 ^ mshift\<close> bytes (4096 and 8 in practice); for a
  smaller one the code's unsigned \<open>n\<close> would wrap, here it is 0.\<close>

definition dl_slab_init :: "nat \<Rightarrow> u64 \<Rightarrow> u64 \<Rightarrow> nat \<Rightarrow> (u64 \<Rightarrow> u64) \<Rightarrow> globals \<Rightarrow> (globals \<times> slab) option" where
  "dl_slab_init pg addr fin mshift mem G =
     (let G = init_globals pg G;
          n = pagesize_shift G - mshift;
          a = addr + sizeof_slab_pool;
          sz = fin - a;
          a = a + of_nat (n * sizeof_slab_page) + of_nat (n * sizeof_slab_stat);
          sz = sz - of_nat (n * (sizeof_slab_page + sizeof_slab_stat));
          cnt = unat (ucast (sz div of_nat (pagesize G + sizeof_slab_page)) :: u32);
          st = (a + of_nat (cnt * sizeof_slab_page) + of_nat (pagesize G) - 1) AND NOT (of_nat (pagesize G) - 1);
          m = int cnt - int (unat ((fin - st) div of_nat (pagesize G)));
          c = (if 0 < m then nat (int cnt - m) else cnt)
      in if cnt = 0 then None
         else Some (G, \<lparr>min_shift = mshift,
           pages = \<lparr>sl = of_nat c, nx = Some Free_head, pv = (Some Free_head, PAGE)\<rparr>
             # replicate (cnt - 1) \<lparr>sl = 0, nx = None, pv = (None, PAGE)\<rparr>,
           last_page = c,
           free_head = \<lparr>sl = 0, nx = Some (Pg 0), pv = (None, PAGE)\<rparr>,
           slots = map empty_slot [0..<n],
           stats = replicate n \<lparr>st_total = 0, st_used = 0, st_reqs = 0, st_fails = 0\<rparr>,
           pfree = of_nat c, start = st, send = fin, cell = mem\<rparr>))"

definition dl_shm_slab_init :: "nat \<Rightarrow> u64 \<Rightarrow> u64 \<Rightarrow> (u64 \<Rightarrow> u64) \<Rightarrow> globals \<Rightarrow> (globals \<times> slab) option" where
  "dl_shm_slab_init pg addr sz mem G = dl_slab_init pg addr (addr + sz) 3 mem G"

end
