(* ===== verification/Dl_Slab_Pages.thy ===== *)
theory Dl_Slab_Pages
  imports Dl_Slab
begin

text \<open>
  The page allocator of the slab. The pages of a pool are divided into runs, each free, handed out, or a
  page of a size class; the invariant ties the page records to such a list of runs. Allocation and
  release are then operations on the list.
\<close>

section \<open>Accesses\<close>

definition valid :: "sref \<Rightarrow> slab \<Rightarrow> bool" where
  "valid r p = (case r of Free_head \<Rightarrow> True | Slot i \<Rightarrow> i < length (slots p) | Pg i \<Rightarrow> i < length (pages p))"

text \<open>The records of a pool as a function, and the update as a total one.\<close>

definition recs :: "slab \<Rightarrow> sref \<Rightarrow> spage" where
  "recs p r = (case r of Free_head \<Rightarrow> free_head p | Slot i \<Rightarrow> slots p ! i | Pg i \<Rightarrow> pages p ! i)"

definition updr :: "sref \<Rightarrow> (spage \<Rightarrow> spage) \<Rightarrow> slab \<Rightarrow> slab" where
  "updr r f p = the (upd r f p)"

lemma valid_simps [simp]:
  "valid Free_head p" "valid (Slot i) p \<longleftrightarrow> i < length (slots p)" "valid (Pg i) p \<longleftrightarrow> i < length (pages p)"
  by (simp_all add: valid_def)

lemma look_valid: "valid r p \<Longrightarrow> look r p = Some (recs p r)"
  by (cases r) (simp_all add: recs_def)

lemma upd_valid: "valid r p \<Longrightarrow> upd r f p = Some (updr r f p)"
  by (cases r) (simp_all add: updr_def)

lemma recs_updr: "valid r p \<Longrightarrow> recs (updr r f p) = (recs p)(r := f (recs p r))"
  by (cases r) (auto simp: updr_def recs_def fun_eq_iff split: sref.splits)

text \<open>The parts that no update of a record touches.\<close>

definition shape :: "slab \<Rightarrow> nat \<times> nat \<times> nat \<times> nat \<times> u64 \<times> u64 \<times> (u64 \<Rightarrow> u64) \<times> sstat list" where
  "shape p = (min_shift p, last_page p, length (pages p), length (slots p), start p, send p, cell p, stats p)"

lemma shape_updr: "valid r p \<Longrightarrow> shape (updr r f p) = shape p"
  by (cases r) (auto simp: updr_def shape_def)

lemma pfree_updr: "valid r p \<Longrightarrow> pfree (updr r f p) = pfree p"
  by (cases r) (auto simp: updr_def)

lemma shape_fields:
  assumes "shape p' = shape p"
  shows "last_page p' = last_page p" "length (pages p') = length (pages p)" "valid r p' = valid r p"
    "start p' = start p" "send p' = send p" "cell p' = cell p" "stats p' = stats p" "min_shift p' = min_shift p"
  using assms by (auto simp: shape_def valid_def split: sref.splits)

lemma updr_valid: "valid r p \<Longrightarrow> valid q (updr r f p) = valid q p"
  by (rule shape_fields, rule shape_updr)

lemma updr_last: "valid r p \<Longrightarrow> last_page (updr r f p) = last_page p"
  by (rule shape_fields, rule shape_updr)

lemma updr_pages: "valid r p \<Longrightarrow> length (pages (updr r f p)) = length (pages p)"
  by (rule shape_fields, rule shape_updr)

lemma pfree_upd [simp]:
  "recs (p\<lparr>pfree := x\<rparr>) = recs p" "valid r (p\<lparr>pfree := x\<rparr>) = valid r p" "shape (p\<lparr>pfree := x\<rparr>) = shape p"
  by (simp_all add: recs_def valid_def shape_def fun_eq_iff split: sref.splits)

lemmas exec = look_valid upd_valid recs_updr updr_valid updr_last updr_pages shape_updr pfree_updr

section \<open>The ring of the free runs\<close>

definition link :: "(sref \<Rightarrow> spage) \<Rightarrow> sref \<Rightarrow> sref \<Rightarrow> bool" where
  "link R a b \<longleftrightarrow> nx (R a) = Some b \<and> (b \<noteq> Free_head \<longrightarrow> pv (R b) = (Some a, PAGE))"

fun seg :: "(sref \<Rightarrow> spage) \<Rightarrow> sref \<Rightarrow> nat list \<Rightarrow> sref \<Rightarrow> bool" where
  "seg R a [] b \<longleftrightarrow> link R a b"
| "seg R a (h # hs) b \<longleftrightarrow> link R a (Pg h) \<and> seg R (Pg h) hs b"

definition ring :: "(sref \<Rightarrow> spage) \<Rightarrow> nat list \<Rightarrow> bool" where
  "ring R hs \<longleftrightarrow> distinct hs \<and> seg R Free_head hs Free_head"

text \<open>The place in front of what follows \<open>xs\<close>, and the first place of \<open>ys\<close>.\<close>

definition lastof :: "sref \<Rightarrow> nat list \<Rightarrow> sref" where
  "lastof a xs = (if xs = [] then a else Pg (last xs))"

definition firstof :: "nat list \<Rightarrow> sref \<Rightarrow> sref" where
  "firstof ys b = (case ys of [] \<Rightarrow> b | y # _ \<Rightarrow> Pg y)"

lemma lastof_Cons [simp]: "lastof a [] = a" "lastof a (h # hs) = lastof (Pg h) hs"
  by (simp_all add: lastof_def)

lemma firstof_simps [simp]: "firstof [] b = b" "firstof (y # ys) b = Pg y"
  by (simp_all add: firstof_def)

lemma lastof_cases: "lastof a xs = a \<and> xs = [] \<or> (\<exists>h \<in> set xs. lastof a xs = Pg h)"
  by (cases "xs = []") (auto simp: lastof_def)

lemma firstof_cases: "firstof ys b = b \<and> ys = [] \<or> (\<exists>h \<in> set ys. firstof ys b = Pg h)"
  by (cases ys) auto

lemma seg_append: "seg R a (xs @ h # ys) b \<longleftrightarrow> seg R a xs (Pg h) \<and> seg R (Pg h) ys b"
  by (induction xs arbitrary: a) auto

lemma seg_ends: "seg R a xs b \<Longrightarrow> nx (R (lastof a xs)) = Some b \<and> (b \<noteq> Free_head \<longrightarrow> pv (R b) = (Some (lastof a xs), PAGE))"
  by (induction xs arbitrary: a) (auto simp: link_def)

lemma seg_first: "seg R a ys b \<Longrightarrow> nx (R a) = Some (firstof ys b)"
  by (cases ys) (auto simp: link_def)

text \<open>A segment whose last link is moved, and one that starts at another place.\<close>

lemma seg_last_change:
  assumes "seg R a xs b" "distinct (a # map Pg xs)"
    and "\<And>r. r \<in> insert a (Pg ` set xs) \<Longrightarrow> r \<noteq> lastof a xs \<Longrightarrow> nx (R' r) = nx (R r)"
    and "\<And>h. h \<in> set xs \<Longrightarrow> pv (R' (Pg h)) = pv (R (Pg h))"
    and "link R' (lastof a xs) c"
  shows "seg R' a xs c"
  using assms
proof (induction xs arbitrary: a)
  case (Cons x xs)
  have "lastof (Pg x) xs \<noteq> a" using Cons.prems(2) lastof_cases [of "Pg x" xs] by auto
  then have "link R' a (Pg x)" using Cons.prems by (auto simp: link_def)
  moreover have "seg R' (Pg x) xs c" by (rule Cons.IH) (use Cons.prems in auto)
  ultimately show ?case by simp
qed simp

lemma seg_first_change:
  assumes "seg R a ys b" "nx (R' a') = nx (R a)"
    and "\<And>h. h \<in> set ys \<Longrightarrow> nx (R' (Pg h)) = nx (R (Pg h))"
    and "\<And>h. h \<in> set (tl ys) \<Longrightarrow> pv (R' (Pg h)) = pv (R (Pg h))"
    and "firstof ys b \<noteq> Free_head \<Longrightarrow> pv (R' (firstof ys b)) = (Some a', PAGE)"
    and "b = Free_head"
  shows "seg R' a' ys b"
proof -
  have cong: "seg R' a ys b" if "seg R a ys b" "nx (R' a) = nx (R a)"
    "\<And>h. h \<in> set ys \<Longrightarrow> nx (R' (Pg h)) = nx (R (Pg h))" "\<And>h. h \<in> set ys \<Longrightarrow> pv (R' (Pg h)) = pv (R (Pg h))" for a ys
    using that \<open>b = Free_head\<close> by (induction ys arbitrary: a) (auto simp: link_def)
  show ?thesis
  proof (cases ys)
    case Nil
    then show ?thesis using assms by (auto simp: link_def)
  next
    case (Cons y zs)
    have "seg R' (Pg y) zs b" by (rule cong) (use assms Cons in auto)
    moreover have "link R' a' (Pg y)" using assms Cons by (auto simp: link_def)
    ultimately show ?thesis using Cons by simp
  qed
qed

text \<open>The run at \<open>h\<close> and its neighbours in the ring.\<close>

lemma ring_at:
  assumes "ring R (xs @ h # ys)"
  shows "nx (R (Pg h)) = Some (firstof ys Free_head)" "pv (R (Pg h)) = (Some (lastof Free_head xs), PAGE)"
  using assms seg_first seg_ends unfolding ring_def seg_append by fastforce+

lemma ring_head: "ring R hs \<Longrightarrow> nx (R Free_head) = Some (firstof hs Free_head)"
  unfolding ring_def using seg_first by blast

lemma ring_remove:
  assumes ring: "ring R (xs @ h # ys)"
    and q: "nx (R' (lastof Free_head xs)) = Some (firstof ys Free_head)"
    and n: "ys \<noteq> [] \<Longrightarrow> pv (R' (firstof ys Free_head)) = (Some (lastof Free_head xs), PAGE)"
    and nxs: "\<And>r. r \<in> insert Free_head (Pg ` (set xs \<union> set ys)) \<Longrightarrow> r \<noteq> lastof Free_head xs \<Longrightarrow> nx (R' r) = nx (R r)"
    and pvs: "\<And>x. x \<in> set xs \<union> set ys \<Longrightarrow> Pg x \<noteq> firstof ys Free_head \<Longrightarrow> pv (R' (Pg x)) = pv (R (Pg x))"
  shows "ring R' (xs @ ys)"
proof -
  have d: "distinct (xs @ h # ys)" and s1: "seg R Free_head xs (Pg h)" and s2: "seg R (Pg h) ys Free_head"
    using ring by (auto simp: ring_def seg_append)
  have notin: "Pg x \<noteq> firstof ys Free_head" if "x \<in> set xs" for x
    using that d firstof_cases [of ys Free_head] by auto
  have lq: "lastof Free_head xs \<noteq> Pg y" if "y \<in> set ys" for y
    using that d lastof_cases [of Free_head xs] by auto
  have seg1: "seg R' Free_head xs c" if "link R' (lastof Free_head xs) c" for c
    by (rule seg_last_change [OF s1]) (use d nxs pvs notin that in \<open>auto simp: distinct_map inj_on_def\<close>)
  show ?thesis
  proof (cases ys)
    case Nil
    then show ?thesis using seg1 q d by (auto simp: ring_def link_def)
  next
    case (Cons y zs)
    have "seg R (Pg y) zs Free_head" using s2 Cons by simp
    then have "seg R' (Pg y) zs Free_head"
    proof (rule seg_first_change)
      show "nx (R' (Pg y)) = nx (R (Pg y))" using nxs [of "Pg y"] lq [of y] Cons by simp
      show "nx (R' (Pg h)) = nx (R (Pg h))" if "h \<in> set zs" for h
        using that nxs [of "Pg h"] lq [of h] Cons by simp
      show "pv (R' (Pg h)) = pv (R (Pg h))" if "h \<in> set (tl zs)" for h
        using that pvs Cons d by (cases zs) auto
      assume "firstof zs Free_head \<noteq> Free_head"
      then obtain z where z: "firstof zs Free_head = Pg z" "z \<in> set zs" using firstof_cases [of zs Free_head] by auto
      have "pv (R (Pg z)) = (Some (Pg y), PAGE)" using s2 z Cons by (cases zs) (auto simp: link_def)
      then show "pv (R' (firstof zs Free_head)) = (Some (Pg y), PAGE)" using z pvs [of z] Cons d by auto
    qed simp
    moreover have "seg R' Free_head xs (Pg y)" using seg1 q n Cons by (auto simp: link_def)
    ultimately show ?thesis using d Cons by (auto simp: ring_def seg_append)
  qed
qed

text \<open>A new place right behind the head.\<close>

lemma ring_push:
  assumes ring: "ring R hs" and i: "i \<notin> set hs"
    and "link R' Free_head (Pg i)" "nx (R' (Pg i)) = Some (firstof hs Free_head)"
    and "hs \<noteq> [] \<Longrightarrow> pv (R' (firstof hs Free_head)) = (Some (Pg i), PAGE)"
    and "\<And>x. x \<in> set hs \<Longrightarrow> nx (R' (Pg x)) = nx (R (Pg x))"
    and "\<And>x. x \<in> set hs \<Longrightarrow> Pg x \<noteq> firstof hs Free_head \<Longrightarrow> pv (R' (Pg x)) = pv (R (Pg x))"
  shows "ring R' (i # hs)"
proof -
  have s: "seg R Free_head hs Free_head" and d: "distinct hs" using ring by (auto simp: ring_def)
  have "seg R' (Pg i) hs Free_head"
    by (rule seg_first_change [OF s]) (use assms d ring_head [OF ring] in \<open>auto simp: firstof_def split: list.splits\<close>)
  then show ?thesis using assms(3) i d by (simp add: ring_def)
qed

text \<open>A place takes the place of another.\<close>

lemma ring_replace:
  assumes ring: "ring R (xs @ h # ys)" and i: "i \<notin> set xs \<union> set ys"
    and q: "link R' (lastof Free_head xs) (Pg i)"
    and h: "nx (R' (Pg i)) = Some (firstof ys Free_head)"
    and n: "ys \<noteq> [] \<Longrightarrow> pv (R' (firstof ys Free_head)) = (Some (Pg i), PAGE)"
    and nxs: "\<And>r. r \<in> insert Free_head (Pg ` (set xs \<union> set ys)) \<Longrightarrow> r \<noteq> lastof Free_head xs \<Longrightarrow> nx (R' r) = nx (R r)"
    and pvs: "\<And>x. x \<in> set xs \<union> set ys \<Longrightarrow> Pg x \<noteq> firstof ys Free_head \<Longrightarrow> pv (R' (Pg x)) = pv (R (Pg x))"
  shows "ring R' (xs @ i # ys)"
proof -
  have d: "distinct (xs @ h # ys)" and s1: "seg R Free_head xs (Pg h)" and s2: "seg R (Pg h) ys Free_head"
    using ring by (auto simp: ring_def seg_append)
  have notin: "Pg x \<noteq> firstof ys Free_head" if "x \<in> set xs" for x
    using that d firstof_cases [of ys Free_head] by auto
  have lq: "lastof Free_head xs \<noteq> Pg y" if "y \<in> set ys" for y
    using that d lastof_cases [of Free_head xs] by auto
  have "seg R' Free_head xs (Pg i)"
    by (rule seg_last_change [OF s1]) (use d nxs pvs notin q in \<open>auto simp: distinct_map inj_on_def\<close>)
  moreover have "seg R' (Pg i) ys Free_head"
  proof (rule seg_first_change [OF s2])
    show "nx (R' (Pg i)) = nx (R (Pg h))" using h ring_at(1) [OF ring] by simp
    show "pv (R' (Pg x)) = pv (R (Pg x))" if "x \<in> set (tl ys)" for x
      using that pvs d by (cases ys) auto
    show "nx (R' (Pg x)) = nx (R (Pg x))" if "x \<in> set ys" for x
      using that nxs [of "Pg x"] lq [of x] by simp
    show "pv (R' (firstof ys Free_head)) = (Some (Pg i), PAGE)" if "firstof ys Free_head \<noteq> Free_head"
      using that n by (cases ys) auto
  qed simp
  ultimately show ?thesis using d i by (auto simp: ring_def seg_append)
qed

section \<open>Runs of pages\<close>

text \<open>\<open>Opened\<close> is a run in the middle of its release.\<close>

datatype run_kind = Free_run | Used_run | Slot_page | Opened

type_synonym run = "nat \<times> run_kind"

definition wiped :: "spage \<Rightarrow> bool" where
  "wiped g \<longleftrightarrow> sl g = 0 \<and> nx g = None \<and> snd (pv g) = PAGE"

text \<open>The records of a run at \<open>s\<close>; \<open>e\<close> is the end of the pages: the last record of the run there need not
  point to the first one.\<close>

fun tile :: "(sref \<Rightarrow> spage) \<Rightarrow> nat \<Rightarrow> nat \<Rightarrow> run \<Rightarrow> bool" where
  "tile R e s (n, Opened) \<longleftrightarrow> 1 \<le> n \<and> sl (R (Pg s)) = of_nat n \<and> (\<forall>j. s < j \<and> j < s + n \<longrightarrow> wiped (R (Pg j)))"
| "tile R e s (n, Free_run) \<longleftrightarrow> 1 \<le> n \<and> sl (R (Pg s)) = of_nat n \<and> (\<forall>j. s < j \<and> j < s + n \<longrightarrow> wiped (R (Pg j)))
     \<and> (2 \<le> n \<and> s + n < e \<longrightarrow> fst (pv (R (Pg (s + n - 1)))) = Some (Pg s))"
| "tile R e s (n, Used_run) \<longleftrightarrow> 1 \<le> n \<and> R (Pg s) = \<lparr>sl = of_nat n OR PAGE_START, nx = None, pv = (None, PAGE)\<rparr>
     \<and> (\<forall>j. s < j \<and> j < s + n \<longrightarrow> R (Pg j) = \<lparr>sl = PAGE_BUSY, nx = None, pv = (None, PAGE)\<rparr>)"
| "tile R e s (n, Slot_page) \<longleftrightarrow> n = 1 \<and> snd (pv (R (Pg s))) \<noteq> PAGE"

fun tiles :: "(sref \<Rightarrow> spage) \<Rightarrow> nat \<Rightarrow> nat \<Rightarrow> run list \<Rightarrow> bool" where
  "tiles R e s [] \<longleftrightarrow> True"
| "tiles R e s (r # rs) \<longleftrightarrow> tile R e s r \<and> tiles R e (s + fst r) rs"

definition span :: "run list \<Rightarrow> nat" where
  "span rs = sum_list (map fst rs)"

lemma span_simps [simp]: "span [] = 0" "span (r # rs) = fst r + span rs" "span (xs @ ys) = span xs + span ys"
  by (simp_all add: span_def)

text \<open>Where the runs of a kind start.\<close>

fun starts :: "run_kind \<Rightarrow> nat \<Rightarrow> run list \<Rightarrow> nat set" where
  "starts k s [] = {}"
| "starts k s (r # rs) = (if snd r = k then insert s (starts k (s + fst r) rs) else starts k (s + fst r) rs)"

lemma starts_append [simp]: "starts k s (xs @ ys) = starts k s xs \<union> starts k (s + span xs) ys"
  by (induction xs arbitrary: s) (auto simp: add.assoc)

lemma tiles_append [simp]: "tiles R e s (xs @ ys) \<longleftrightarrow> tiles R e s xs \<and> tiles R e (s + span xs) ys"
  by (induction xs arbitrary: s) (auto simp: add.assoc)

lemma tile_pos: "tile R e s r \<Longrightarrow> 1 \<le> fst r"
  by (cases r; cases "snd r") auto

lemma starts_range: "tiles R e s rs \<Longrightarrow> j \<in> starts k s rs \<Longrightarrow> s \<le> j \<and> j < s + span rs"
proof (induction rs arbitrary: s)
  case (Cons r rs)
  then show ?case using tile_pos [of R e s r] by (fastforce split: if_splits)
qed simp

text \<open>A change of the records that keeps the runs: the starts of free runs keep their length, the pages of the
  size classes their type, and the others stay as they are.\<close>

definition keeps :: "(sref \<Rightarrow> spage) \<Rightarrow> (sref \<Rightarrow> spage) \<Rightarrow> nat \<Rightarrow> run list \<Rightarrow> bool" where
  "keeps R R' s rs \<longleftrightarrow>
     (\<forall>j. s \<le> j \<and> j < s + span rs \<longrightarrow>
        (if j \<in> starts Free_run s rs then sl (R' (Pg j)) = sl (R (Pg j))
         else if j \<in> starts Slot_page s rs then snd (pv (R' (Pg j))) \<noteq> PAGE
         else R' (Pg j) = R (Pg j)))"

lemma tile_keeps:
  assumes "tile R e s (n, k)"
    and "\<And>j. s < j \<Longrightarrow> j < s + n \<Longrightarrow> R' (Pg j) = R (Pg j)"
    and "k = Free_run \<Longrightarrow> sl (R' (Pg s)) = sl (R (Pg s))"
    and "k = Slot_page \<Longrightarrow> snd (pv (R' (Pg s))) \<noteq> PAGE"
    and "k \<notin> {Free_run, Slot_page} \<Longrightarrow> R' (Pg s) = R (Pg s)"
  shows "tile R' e s (n, k)"
  using assms by (cases k) auto

lemma tiles_keeps: "tiles R e s rs \<Longrightarrow> keeps R R' s rs \<Longrightarrow> tiles R' e s rs"
proof (induction rs arbitrary: s)
  case (Cons r rs)
  obtain n k where r: "r = (n, k)" by (cases r)
  have t: "tile R e s (n, k)" "tiles R e (s + n) rs" and n: "1 \<le> n" using Cons.prems(1) r tile_pos by auto
  have notin: "j \<notin> starts c (s + n) rs" if "j < s + n" for c j using starts_range [OF t(2), of j c] that by auto
  have K: "if j \<in> starts Free_run s ((n, k) # rs) then sl (R' (Pg j)) = sl (R (Pg j))
         else if j \<in> starts Slot_page s ((n, k) # rs) then snd (pv (R' (Pg j))) \<noteq> PAGE
         else R' (Pg j) = R (Pg j)" if "s \<le> j" "j < s + n + span rs" for j
    using Cons.prems(2) that unfolding keeps_def r by simp
  have "tile R' e s (n, k)"
  proof (rule tile_keeps [OF t(1)])
    show "R' (Pg j) = R (Pg j)" if "s < j" "j < s + n" for j using K [of j] notin [of j] that by (auto split: if_splits)
    show "k = Free_run \<Longrightarrow> sl (R' (Pg s)) = sl (R (Pg s))" using K [of s] n by simp
    show "k = Slot_page \<Longrightarrow> snd (pv (R' (Pg s))) \<noteq> PAGE" using K [of s] n notin by simp
    show "k \<notin> {Free_run, Slot_page} \<Longrightarrow> R' (Pg s) = R (Pg s)" using K [of s] n notin by simp
  qed
  moreover have "keeps R R' (s + n) rs"
    unfolding keeps_def
  proof (intro allI impI)
    fix j
    assume j: "s + n \<le> j \<and> j < s + n + span rs"
    then show "if j \<in> starts Free_run (s + n) rs then sl (R' (Pg j)) = sl (R (Pg j))
         else if j \<in> starts Slot_page (s + n) rs then snd (pv (R' (Pg j))) \<noteq> PAGE
         else R' (Pg j) = R (Pg j)"
      using K [of j] n by (auto split: if_splits)
  qed
  ultimately show ?case using Cons.IH t(2) r by simp
qed simp

text \<open>The number of free pages, and no two free runs side by side.\<close>

definition free_pages :: "run list \<Rightarrow> nat" where
  "free_pages rs = sum_list (map (\<lambda>(n, k). if k = Free_run then n else 0) rs)"

lemma free_pages_simps [simp]:
  "free_pages [] = 0" "free_pages (xs @ ys) = free_pages xs + free_pages ys"
  "free_pages ((n, k) # rs) = (if k = Free_run then n else 0) + free_pages rs"
  by (simp_all add: free_pages_def)

definition apart :: "run list \<Rightarrow> bool" where
  "apart rs \<longleftrightarrow> successively (\<lambda>a b. \<not> (snd a = Free_run \<and> snd b = Free_run)) rs"

text \<open>The invariant of the page allocator, and the one of the middle of a release.\<close>

definition in_order :: "slab \<Rightarrow> run list \<Rightarrow> nat list \<Rightarrow> bool" where
  "in_order p rs hs \<longleftrightarrow> tiles (recs p) (last_page p) 0 rs \<and> span rs = last_page p \<and> last_page p \<le> length (pages p)
     \<and> last_page p < 2 ^ 32 \<and> ring (recs p) hs \<and> set hs = starts Free_run 0 rs"

definition slab_pages :: "slab \<Rightarrow> run list \<Rightarrow> bool" where
  "slab_pages p rs \<longleftrightarrow> (\<exists>hs. in_order p rs hs) \<and> apart rs \<and> Opened \<notin> snd ` set rs \<and> pfree p = of_nat (free_pages rs)"

lemma starts_split: "i \<in> starts k s rs \<Longrightarrow> \<exists>xs n ys. rs = xs @ (n, k) # ys \<and> i = s + span xs"
proof (induction rs arbitrary: s)
  case (Cons r rs)
  show ?case
  proof (cases "snd r = k \<and> i = s")
    case True
    then have "r # rs = [] @ (fst r, k) # rs" "i = s + span []" by (cases r, auto)+
    then show ?thesis by blast
  next
    case False
    then obtain xs n ys where "rs = xs @ (n, k) # ys" "i = s + fst r + span xs" using Cons by (fastforce split: if_splits)
    then have "r # rs = (r # xs) @ (n, k) # ys" "i = s + span (r # xs)" by auto
    then show ?thesis by blast
  qed
qed simp

lemma tiles_slot: "tiles R e s rs \<Longrightarrow> j \<in> starts Slot_page s rs \<Longrightarrow> snd (pv (R (Pg j))) \<noteq> PAGE"
proof (induction rs arbitrary: s)
  case (Cons r rs)
  then show ?case by (cases r) (auto split: if_splits)
qed simp

lemma spage_eq: "sl a = sl b \<Longrightarrow> nx a = nx b \<Longrightarrow> pv a = pv (b :: spage) \<Longrightarrow> a = b"
  by simp

text \<open>A change outside of the pages \<open>a\<close>: one successor and one predecessor.\<close>

definition relinked :: "nat set \<Rightarrow> (sref \<Rightarrow> spage) \<Rightarrow> (sref \<Rightarrow> spage) \<Rightarrow> sref \<Rightarrow> sref \<Rightarrow> sref \<Rightarrow> sref \<Rightarrow> bool" where
  "relinked a R R' q x n y \<longleftrightarrow>
     (\<forall>r. r \<notin> Pg ` a \<longrightarrow> sl (R' r) = sl (R r) \<and> nx (R' r) = (if r = q then Some x else nx (R r))
        \<and> pv (R' r) = (if r = n then (Some y, PAGE) else pv (R r)))"

lemma tiles_relinked:
  assumes "tiles R e s rs" "relinked a R R' q x n y" "\<And>j. j \<in> a \<Longrightarrow> \<not> (s \<le> j \<and> j < s + span rs)"
    and "\<And>j. s \<le> j \<Longrightarrow> j < s + span rs \<Longrightarrow> Pg j \<in> {q, n} \<Longrightarrow> j \<in> starts Free_run s rs"
  shows "tiles R' e s rs"
proof -
  have "keeps R R' s rs" unfolding keeps_def
  proof (intro allI impI)
    fix j
    assume j: "s \<le> j \<and> j < s + span rs"
    then have "Pg j \<notin> Pg ` a" "j \<notin> starts Free_run s rs \<Longrightarrow> Pg j \<noteq> q \<and> Pg j \<noteq> n" using assms(3) [of j] assms(4) [of j] by auto
    then have f: "sl (R' (Pg j)) = sl (R (Pg j))" "j \<notin> starts Free_run s rs \<Longrightarrow> R' (Pg j) = R (Pg j)"
      using assms(2) unfolding relinked_def by (simp_all add: spage_eq)
    show "if j \<in> starts Free_run s rs then sl (R' (Pg j)) = sl (R (Pg j))
         else if j \<in> starts Slot_page s rs then snd (pv (R' (Pg j))) \<noteq> PAGE
         else R' (Pg j) = R (Pg j)"
      using f tiles_slot [OF assms(1), of j] by auto
  qed
  then show ?thesis by (rule tiles_keeps [OF assms(1)])
qed

text \<open>The two places in the ring before and behind the run at \<open>i\<close>.\<close>

lemma ring_places:
  assumes "in_order p rs (us @ i # vs)"
  shows "lastof Free_head us = Free_head \<or> (\<exists>j \<in> starts Free_run 0 rs. j \<noteq> i \<and> lastof Free_head us = Pg j)"
    "firstof vs Free_head = Free_head \<or> (\<exists>j \<in> starts Free_run 0 rs. j \<noteq> i \<and> firstof vs Free_head = Pg j)"
    "valid (lastof Free_head us) p" "valid (firstof vs Free_head) p"
proof -
  have st: "starts Free_run 0 rs = set (us @ i # vs)" and d: "distinct (us @ i # vs)"
    and t: "tiles (recs p) (last_page p) 0 rs" and l: "span rs = last_page p" "last_page p \<le> length (pages p)"
    using assms by (auto simp: in_order_def ring_def)
  show 1: "lastof Free_head us = Free_head \<or> (\<exists>j \<in> starts Free_run 0 rs. j \<noteq> i \<and> lastof Free_head us = Pg j)"
    using lastof_cases [of Free_head us] st d by auto
  show 2: "firstof vs Free_head = Free_head \<or> (\<exists>j \<in> starts Free_run 0 rs. j \<noteq> i \<and> firstof vs Free_head = Pg j)"
    using firstof_cases [of vs Free_head] st d by auto
  have "j < length (pages p)" if "j \<in> starts Free_run 0 rs" for j using starts_range [OF t that] l by simp
  then show "valid (lastof Free_head us) p" "valid (firstof vs Free_head) p" using 1 2 by fastforce+
qed

text \<open>Filling a range of records.\<close>

definition paint :: "nat \<Rightarrow> nat \<Rightarrow> spage \<Rightarrow> (sref \<Rightarrow> spage) \<Rightarrow> sref \<Rightarrow> spage" where
  "paint i n g R = (\<lambda>r. if r \<in> Pg ` {i..<i + n} then g else R r)"

lemma paint_0 [simp]: "paint i 0 g R = R"
  by (simp add: paint_def)

lemma paint_Suc: "paint (Suc i) n g (R(Pg i := g)) = paint i (Suc n) g R"
proof -
  have "{i..<i + Suc n} = insert i {Suc i..<Suc i + n}" by auto
  then show ?thesis by (auto simp: paint_def fun_eq_iff)
qed

lemma mark_busy_exec:
  "i + n \<le> length (pages p) \<Longrightarrow>
   \<exists>p'. mark_busy i n p = Some p' \<and> recs p' = paint i n \<lparr>sl = PAGE_BUSY, nx = None, pv = (None, PAGE)\<rparr> (recs p)
      \<and> shape p' = shape p \<and> pfree p' = pfree p"
proof (induction n arbitrary: i p)
  case (Suc n)
  let ?p = "updr (Pg i) (\<lambda>g. \<lparr>sl = PAGE_BUSY, nx = None, pv = (None, PAGE)\<rparr>) p"
  have v: "valid (Pg i) p" using Suc.prems by simp
  have l: "Suc i + n \<le> length (pages ?p)" using Suc.prems v by (simp add: updr_pages)
  obtain p' where "mark_busy (Suc i) n ?p = Some p'" "recs p' = paint (Suc i) n \<lparr>sl = PAGE_BUSY, nx = None, pv = (None, PAGE)\<rparr> (recs ?p)"
    "shape p' = shape ?p" "pfree p' = pfree ?p"
    using Suc.IH [OF l] by blast
  then show ?case using v by (simp add: upd_valid recs_updr shape_updr pfree_updr paint_Suc del: upd.simps)
qed simp

lemma wipe_pages_exec:
  "i + n \<le> length (pages p) \<Longrightarrow>
   \<exists>p'. wipe_pages i n p = Some p' \<and> recs p' = paint i n \<lparr>sl = 0, nx = None, pv = (None, PAGE)\<rparr> (recs p)
      \<and> shape p' = shape p \<and> pfree p' = pfree p"
proof (induction n arbitrary: i p)
  case (Suc n)
  let ?p = "updr (Pg i) (\<lambda>g. \<lparr>sl = 0, nx = None, pv = (None, PAGE)\<rparr>) p"
  have v: "valid (Pg i) p" using Suc.prems by simp
  have l: "Suc i + n \<le> length (pages ?p)" using Suc.prems v by (simp add: updr_pages)
  obtain p' where "wipe_pages (Suc i) n ?p = Some p'" "recs p' = paint (Suc i) n \<lparr>sl = 0, nx = None, pv = (None, PAGE)\<rparr> (recs ?p)"
    "shape p' = shape ?p" "pfree p' = pfree ?p"
    using Suc.IH [OF l] by blast
  then show ?case using v by (simp add: upd_valid recs_updr shape_updr pfree_updr paint_Suc del: upd.simps)
qed simp

section \<open>Allocation\<close>

lemma find_run_exec:
  assumes "seg (recs p) a hs Free_head" "\<And>h. h \<in> set hs \<Longrightarrow> valid (Pg h) p"
  shows "find_run p k (firstof hs Free_head) = Some (map_option Pg (List.find (\<lambda>h. k \<le> sl (recs p (Pg h))) hs))"
  using assms
proof (induction hs arbitrary: a)
  case Nil
  then show ?case by (subst find_run.simps) simp
next
  case (Cons h hs)
  have s: "seg (recs p) (Pg h) hs Free_head" using Cons.prems(1) by simp
  have "find_run p k (firstof hs Free_head) = Some (map_option Pg (List.find (\<lambda>h. k \<le> sl (recs p (Pg h))) hs))"
    by (rule Cons.IH [OF s]) (use Cons.prems(2) in auto)
  then show ?case using seg_first [OF s] Cons.prems(2) look_valid [of "Pg h" p]
    by (subst find_run.simps) (simp del: look.simps)
qed

lemma in_orderD:
  assumes "in_order p rs hs"
  shows "tiles (recs p) (last_page p) 0 rs" "span rs = last_page p" "last_page p \<le> length (pages p)"
    "last_page p < 2 ^ 32" "ring (recs p) hs" "set hs = starts Free_run 0 rs"
  using assms by (simp_all add: in_order_def)

lemma unat_up: "unat (ucast (k::u32) :: u64) = unat k"
proof -
  have "unat k < 2 ^ 32" by (rule order_less_le_trans [OF unsigned_less]) simp
  then show ?thesis by (simp add: unsigned_ucast_eq take_bit_nat_eq_self)
qed

lemma in_order_heads: "in_order p rs hs \<Longrightarrow> h \<in> set hs \<Longrightarrow> valid (Pg h) p"
  using in_orderD [of p rs hs] starts_range [of "recs p" "last_page p" 0 rs h Free_run] by simp

text \<open>A free run that is the one at \<open>i\<close> of the ring.\<close>

lemma free_run_at:
  assumes "in_order p (xs @ (m, Free_run) # ys) (us @ i # vs)" "i = span xs"
  shows "1 \<le> m" "i + m \<le> last_page p" "valid (Pg i) p" "j < i + m \<Longrightarrow> valid (Pg j) p" "sl (recs p (Pg i)) = of_nat m" "unat (sl (recs p (Pg i))) = m"
    "nx (recs p (Pg i)) = Some (firstof vs Free_head)" "pv (recs p (Pg i)) = (Some (lastof Free_head us), PAGE)"
    "\<And>j. i < j \<Longrightarrow> j < i + m \<Longrightarrow> wiped (recs p (Pg j))"
    "2 \<le> m \<Longrightarrow> i + m < last_page p \<Longrightarrow> fst (pv (recs p (Pg (i + m - 1)))) = Some (Pg i)"
proof -
  note D = in_orderD [OF assms(1)]
  show m: "1 \<le> m" and l: "i + m \<le> last_page p" and v: "valid (Pg i) p" "j < i + m \<Longrightarrow> valid (Pg j) p"
    and sl: "sl (recs p (Pg i)) = of_nat m" and "\<And>j. i < j \<Longrightarrow> j < i + m \<Longrightarrow> wiped (recs p (Pg j))"
    "2 \<le> m \<Longrightarrow> i + m < last_page p \<Longrightarrow> fst (pv (recs p (Pg (i + m - 1)))) = Some (Pg i)"
    using D(1-3) assms(2) by auto
  show "unat (sl (recs p (Pg i))) = m" using sl l D(4) by (simp add: unat_of_nat)
  show "nx (recs p (Pg i)) = Some (firstof vs Free_head)" "pv (recs p (Pg i)) = (Some (lastof Free_head us), PAGE)"
    using ring_at [OF D(5)] by auto
qed

text \<open>The places next to a run of the ring are not among its pages.\<close>

lemma starts_outside:
  assumes "tiles R e 0 (xs @ (m, k) # ys)" "j \<in> starts c 0 (xs @ (m, k) # ys)" "j \<noteq> span xs"
  shows "j \<in> starts c 0 xs \<and> j < span xs \<or> j \<in> starts c (span xs + m) ys \<and> span xs + m \<le> j"
  using assms starts_range [of R e 0 xs j c] starts_range [of R e "span xs + m" ys j c] by (auto split: if_splits)

lemma ring_places_outside:
  assumes "in_order p (xs @ (m, k) # ys) (us @ i # vs)" "i = span xs" "i \<le> j" "j < i + m"
  shows "lastof Free_head us \<noteq> Pg j" "firstof vs Free_head \<noteq> Pg j"
proof -
  note D = in_orderD [OF assms(1)]
  have "j' \<noteq> j" if "j' \<in> starts Free_run 0 (xs @ (m, k) # ys)" "j' \<noteq> i" for j'
    using starts_outside [OF D(1) that(1)] that(2) assms(2-4) by auto
  then show "lastof Free_head us \<noteq> Pg j" "firstof vs Free_head \<noteq> Pg j" using ring_places(1,2) [OF assms(1)] by auto
qed

lemma split_exec:
  assumes I: "in_order p (xs @ (m, Free_run) # ys) (us @ i # vs)" and i: "i = span xs" and k: "1 \<le> k" "k < m"
  obtains p' where "split_run i k p = Some p'" "shape p' = shape p" "pfree p' = pfree p"
    "relinked {i..<i + m} (recs p) (recs p') (lastof Free_head us) (Pg (i + k)) (firstof vs Free_head) (Pg (i + k))"
    "recs p' (Pg (i + k)) = \<lparr>sl = of_nat (m - k), nx = Some (firstof vs Free_head), pv = (Some (lastof Free_head us), PAGE)\<rparr>"
    "\<And>j. i + k < j \<Longrightarrow> j < i + m \<Longrightarrow> wiped (recs p' (Pg j))"
    "2 \<le> m - k \<Longrightarrow> fst (pv (recs p' (Pg (i + m - 1)))) = Some (Pg (i + k))"
proof -
  let ?q = "lastof Free_head us" and ?n = "firstof vs Free_head"
  note F = free_run_at [OF I i]
  have q: "?q \<noteq> Pg j" "?n \<noteq> Pg j" if "i \<le> j" "j < i + m" for j using ring_places_outside [OF I i that] by auto
  have V: "valid (Pg i) p" "valid (Pg (i + m - 1)) p" "valid (Pg (i + k)) p" "valid ?q p" "valid ?n p"
    using F(3,4) k ring_places [OF I] by auto
  have ne: "i + m - 1 \<noteq> i" "i + k \<noteq> i" using k by auto
  let ?R1 = "(recs p)(Pg (i + m - 1) := (recs p (Pg (i + m - 1)))\<lparr>pv := (Some (Pg (i + k)), PAGE)\<rparr>)"
  let ?R2 = "?R1(Pg (i + k) := \<lparr>sl = sl (recs p (Pg i)) - of_nat k, nx = Some ?n, pv = (Some ?q, PAGE)\<rparr>)"
  let ?R3 = "?R2(?q := (?R2 ?q)\<lparr>nx := Some (Pg (i + k))\<rparr>)"
  let ?R4 = "?R3(?n := (?R3 ?n)\<lparr>pv := (Some (Pg (i + k)), PAGE)\<rparr>)"
  have "\<exists>p'. split_run i k p = Some p' \<and> shape p' = shape p \<and> pfree p' = pfree p \<and> recs p' = ?R4"
    unfolding split_run_def raw_prev_def
    using V F(6,7,8) ne q [of i] k by (simp add: exec del: look.simps upd.simps valid_simps)
  then obtain p' where p': "split_run i k p = Some p'" "shape p' = shape p" "pfree p' = pfree p" "recs p' = ?R4" by blast
  show thesis
  proof (rule that [OF p'(1-3)])
    have "of_nat m - of_nat k = (of_nat (m - k) :: u64)" using k by (simp add: of_nat_diff)
    then show "recs p' (Pg (i + k)) = \<lparr>sl = of_nat (m - k), nx = Some ?n, pv = (Some ?q, PAGE)\<rparr>"
      using p'(4) q [of "i + k"] k F(5) by simp
    show "relinked {i..<i + m} (recs p) (recs p') ?q (Pg (i + k)) ?n (Pg (i + k))"
      unfolding relinked_def p'(4) using k by auto
    show "wiped (recs p' (Pg j))" if "i + k < j" "j < i + m" for j
      using F(9) [of j] q [of j] that k unfolding p'(4) by (auto simp: wiped_def)
    show "fst (pv (recs p' (Pg (i + m - 1)))) = Some (Pg (i + k))" if "2 \<le> m - k"
    proof -
      have "i + m - 1 \<noteq> i + k" "i \<le> i + m - 1" "i + m - 1 < i + m" using that k by auto
      then show ?thesis using q [of "i + m - 1"] unfolding p'(4) by simp
    qed
  qed
qed

lemma unlink_run_exec:
  assumes I: "in_order p (xs @ (m, Free_run) # ys) (us @ i # vs)" and i: "i = span xs"
  obtains p' where "unlink_run i p = Some p'" "shape p' = shape p" "pfree p' = pfree p"
    "relinked {i..<i + m} (recs p) (recs p') (lastof Free_head us) (firstof vs Free_head) (firstof vs Free_head) (lastof Free_head us)"
proof -
  let ?q = "lastof Free_head us" and ?n = "firstof vs Free_head"
  note F = free_run_at [OF I i]
  have q: "?q \<noteq> Pg i" "?n \<noteq> Pg i" using ring_places_outside [OF I i, of i] F(1) by auto
  have V: "valid (Pg i) p" "valid ?q p" "valid ?n p" using F(3) ring_places [OF I] by auto
  let ?R3 = "(recs p)(?q := (recs p ?q)\<lparr>nx := Some ?n\<rparr>)"
  let ?R4 = "?R3(?n := (?R3 ?n)\<lparr>pv := (Some ?q, PAGE)\<rparr>)"
  have "\<exists>p'. unlink_run i p = Some p' \<and> shape p' = shape p \<and> pfree p' = pfree p \<and> recs p' = ?R4"
    unfolding unlink_run_def raw_prev_def
    using V F(7,8) q by (simp add: exec del: look.simps upd.simps valid_simps)
  then show ?thesis using that by (auto simp: relinked_def)
qed

text \<open>The rest of the ring lies outside of the pages of the run.\<close>

lemma ring_outside:
  assumes "in_order p (xs @ (m, k) # ys) (us @ i # vs)" "i = span xs" "x \<in> set us \<union> set vs"
  shows "x \<notin> {i..<i + m}"
proof -
  note D = in_orderD [OF assms(1)]
  have "x \<in> starts Free_run 0 (xs @ (m, k) # ys)" "x \<noteq> i" using D(5,6) assms(3) by (auto simp: ring_def)
  then show ?thesis using starts_outside [OF D(1), of x Free_run] assms(2) by auto
qed

lemma tiles_around:
  assumes I: "in_order p (xs @ (m, k) # ys) (us @ i # vs)" and i: "i = span xs"
    and L: "relinked {i..<i + m} (recs p) R' (lastof Free_head us) a (firstof vs Free_head) b"
  shows "tiles R' (last_page p) 0 xs" "tiles R' (last_page p) (i + m) ys"
proof -
  note D = in_orderD [OF I]
  have st: "j \<in> starts Free_run 0 xs \<and> j < i \<or> j \<in> starts Free_run (i + m) ys \<and> i + m \<le> j"
    if "Pg j \<in> {lastof Free_head us, firstof vs Free_head}" for j
  proof -
    have "j \<in> starts Free_run 0 (xs @ (m, k) # ys)" "j \<noteq> i" using ring_places(1,2) [OF I] that by auto
    then show ?thesis using starts_outside [OF D(1)] i by blast
  qed
  show "tiles R' (last_page p) 0 xs"
    by (rule tiles_relinked [OF _ L]) (use D(1) i st in fastforce)+
  show "tiles R' (last_page p) (i + m) ys"
    by (rule tiles_relinked [OF _ L]) (use D(1) i st in fastforce)+
qed

lemma ring_around:
  assumes I: "in_order p (xs @ (m, k) # ys) (us @ i # vs)" and i: "i = span xs"
    and L: "relinked {i..<i + m} (recs p) R' (lastof Free_head us) a (firstof vs Free_head) b"
  shows "r \<in> insert Free_head (Pg ` (set us \<union> set vs)) \<Longrightarrow> r \<noteq> lastof Free_head us \<Longrightarrow> nx (R' r) = nx (recs p r)"
    "x \<in> set us \<union> set vs \<Longrightarrow> Pg x \<noteq> firstof vs Free_head \<Longrightarrow> pv (R' (Pg x)) = pv (recs p (Pg x))"
    "nx (R' (lastof Free_head us)) = Some a" "vs \<noteq> [] \<Longrightarrow> pv (R' (firstof vs Free_head)) = (Some b, PAGE)"
proof -
  note out = ring_outside [OF I i]
  show "nx (R' r) = nx (recs p r)" if "r \<in> insert Free_head (Pg ` (set us \<union> set vs))" "r \<noteq> lastof Free_head us"
    using L out that unfolding relinked_def by fastforce
  show "pv (R' (Pg x)) = pv (recs p (Pg x))" if "x \<in> set us \<union> set vs" "Pg x \<noteq> firstof vs Free_head"
    using L out that unfolding relinked_def by fastforce
  have "lastof Free_head us \<notin> Pg ` {i..<i + m}" using lastof_cases [of Free_head us] out by auto
  then show "nx (R' (lastof Free_head us)) = Some a" using L unfolding relinked_def by simp
  have "firstof vs Free_head \<notin> Pg ` {i..<i + m}" using firstof_cases [of vs Free_head] out by auto
  then show "pv (R' (firstof vs Free_head)) = (Some b, PAGE)" using L unfolding relinked_def by simp
qed

text \<open>The first pages of a run are handed out.\<close>

definition take_run :: "nat \<Rightarrow> nat \<Rightarrow> run list" where
  "take_run k m = (k, Used_run) # (if k < m then [(m - k, Free_run)] else [])"

lemma take_pages:
  assumes I: "in_order p (xs @ (m, Free_run) # ys) (us @ i # vs)" and i: "i = span xs" and k: "1 \<le> k" "k \<le> m"
  obtains p1 hs where "(if k < m then split_run i k p else unlink_run i p) = Some p1" "shape p1 = shape p" "pfree p1 = pfree p"
    "\<And>p2. recs p2 = paint (i + 1) (k - 1) \<lparr>sl = PAGE_BUSY, nx = None, pv = (None, PAGE)\<rparr>
        ((recs p1)(Pg i := \<lparr>sl = of_nat k OR PAGE_START, nx = None, pv = (None, PAGE)\<rparr>)) \<Longrightarrow> shape p2 = shape p \<Longrightarrow>
      in_order p2 (xs @ take_run k m @ ys) hs"
proof -
  note D = in_orderD [OF I]
  let ?q = "lastof Free_head us" and ?n = "firstof vs Free_head" and ?b = "\<lparr>sl = PAGE_BUSY, nx = None, pv = (None, PAGE)\<rparr>"
  have st: "set us \<union> set vs = starts Free_run 0 xs \<union> starts Free_run (i + m) ys"
  proof -
    have "i \<notin> starts Free_run 0 xs" "i \<notin> starts Free_run (i + m) ys"
      using starts_range [of "recs p" "last_page p" 0 xs i Free_run] starts_range [of "recs p" "last_page p" "i + m" ys i Free_run]
        D(1) i k by auto
    moreover have "i \<notin> set us \<union> set vs" "insert i (set us \<union> set vs) = insert i (starts Free_run 0 xs \<union> starts Free_run (i + m) ys)"
      using D(5,6) i by (auto simp: ring_def)
    ultimately show ?thesis by (metis Un_iff insert_ident)
  qed
  show thesis
  proof (cases "k < m")
    case True
    obtain p1 where p1: "split_run i k p = Some p1" "shape p1 = shape p" "pfree p1 = pfree p"
      and L: "relinked {i..<i + m} (recs p) (recs p1) ?q (Pg (i + k)) ?n (Pg (i + k))"
      and h: "recs p1 (Pg (i + k)) = \<lparr>sl = of_nat (m - k), nx = Some ?n, pv = (Some ?q, PAGE)\<rparr>"
      and w: "\<And>j. i + k < j \<Longrightarrow> j < i + m \<Longrightarrow> wiped (recs p1 (Pg j))"
      and e: "2 \<le> m - k \<Longrightarrow> fst (pv (recs p1 (Pg (i + m - 1)))) = Some (Pg (i + k))"
      using split_exec [OF I i k(1) True] by blast
    show thesis
    proof (rule that [of p1 "us @ (i + k) # vs"])
      fix p2 :: slab
      assume R: "recs p2 = paint (i + 1) (k - 1) ?b ((recs p1)(Pg i := \<lparr>sl = of_nat k OR PAGE_START, nx = None, pv = (None, PAGE)\<rparr>))"
        and sh: "shape p2 = shape p"
      have far: "recs p2 r = recs p1 r" if "r \<notin> Pg ` {i..<i + k}" for r using that k by (auto simp: R paint_def)
      have L2: "relinked {i..<i + m} (recs p) (recs p2) ?q (Pg (i + k)) ?n (Pg (i + k))"
        using L far True unfolding relinked_def by (fastforce simp: image_iff)
      have "tile (recs p2) (last_page p) (i + k) (m - k, Free_run)"
      proof -
        have "recs p2 (Pg j) = recs p1 (Pg j)" if "i + k \<le> j" for j by (rule far) (use that in auto)
        moreover have "i + k + (m - k) - 1 = i + m - 1" "i + k \<le> i + m - 1" using True by auto
        ultimately show ?thesis using h w e True by auto
      qed
      moreover have "tile (recs p2) (last_page p) i (k, Used_run)" using k by (auto simp: R paint_def)
      moreover have "ring (recs p2) (us @ (i + k) # vs)"
      proof (rule ring_replace [OF D(5)])
        show "i + k \<notin> set us \<union> set vs" using ring_outside [OF I i] True by fastforce
        show "link (recs p2) ?q (Pg (i + k))" using ring_around(3) [OF I i L2] far h by (auto simp: link_def image_iff)
        show "nx (recs p2 (Pg (i + k))) = Some ?n" using far h by (auto simp: image_iff)
      qed (use ring_around [OF I i L2] in auto)
      moreover have "set (us @ (i + k) # vs) = starts Free_run 0 (xs @ take_run k m @ ys)"
        using st i True by (auto simp: take_run_def)
      ultimately show "in_order p2 (xs @ take_run k m @ ys) (us @ (i + k) # vs)"
        using tiles_around [OF I i L2] D(2,3,4) i True unfolding in_order_def
        by (simp add: take_run_def shape_fields [OF sh])
    qed (use p1 True in auto)
  next
    case False
    then have km: "k = m" using k by simp
    obtain p1 where p1: "unlink_run i p = Some p1" "shape p1 = shape p" "pfree p1 = pfree p"
      and L: "relinked {i..<i + m} (recs p) (recs p1) ?q ?n ?n ?q"
      using unlink_run_exec [OF I i] by blast
    show thesis
    proof (rule that [of p1 "us @ vs"])
      fix p2 :: slab
      assume R: "recs p2 = paint (i + 1) (k - 1) ?b ((recs p1)(Pg i := \<lparr>sl = of_nat k OR PAGE_START, nx = None, pv = (None, PAGE)\<rparr>))"
        and sh: "shape p2 = shape p"
      have far: "recs p2 r = recs p1 r" if "r \<notin> Pg ` {i..<i + k}" for r using that k by (auto simp: R paint_def)
      have L2: "relinked {i..<i + m} (recs p) (recs p2) ?q ?n ?n ?q"
        using L far km unfolding relinked_def by (fastforce simp: image_iff)
      have "tile (recs p2) (last_page p) i (k, Used_run)" using k by (auto simp: R paint_def)
      moreover have "ring (recs p2) (us @ vs)"
        by (rule ring_remove [OF D(5)]) (use ring_around [OF I i L2] in auto)
      moreover have "set (us @ vs) = starts Free_run 0 (xs @ take_run k m @ ys)" using st i km by (auto simp: take_run_def)
      ultimately show "in_order p2 (xs @ take_run k m @ ys) (us @ vs)"
        using tiles_around [OF I i L2] D(2,3,4) i km unfolding in_order_def
        by (simp add: take_run_def shape_fields [OF sh])
    qed (use p1 km in auto)
  qed
qed

lemma apart_append: "apart (xs @ ys) \<longleftrightarrow> apart xs \<and> apart ys \<and> (xs \<noteq> [] \<and> ys \<noteq> [] \<longrightarrow> \<not> (snd (last xs) = Free_run \<and> snd (hd ys) = Free_run))"
  by (auto simp: apart_def successively_append_iff)

lemma apart_Cons: "apart (r # ys) \<longleftrightarrow> apart ys \<and> (ys \<noteq> [] \<longrightarrow> \<not> (snd r = Free_run \<and> snd (hd ys) = Free_run))"
  by (cases ys) (auto simp: apart_def)

lemma apart_Nil [simp]: "apart []"
  by (simp add: apart_def)

lemma pages_take: "slab_pages p (xs @ (m, Free_run) # ys) \<Longrightarrow> k \<le> m \<Longrightarrow>
    apart (xs @ take_run k m @ ys) \<and> Opened \<notin> snd ` set (xs @ take_run k m @ ys) \<and> free_pages (xs @ take_run k m @ ys) = free_pages (xs @ (m, Free_run) # ys) - k"
  by (auto simp: slab_pages_def take_run_def apart_append apart_Cons)

lemma alloc_pages_some:
  assumes P: "slab_pages p (xs @ (m, Free_run) # ys)" and I: "in_order p (xs @ (m, Free_run) # ys) (us @ i # vs)" and i: "i = span xs"
    and k: "1 \<le> unat (k::u32)" "unat k \<le> m"
    and f: "List.find (\<lambda>h. ucast k \<le> sl (recs p (Pg h))) (us @ i # vs) = Some i"
  shows "\<exists>p'. dl_slab_alloc_pages k p = Some (Some i, p') \<and> slab_pages p' (xs @ take_run (unat k) m @ ys) \<and> shape p' = shape p"
proof -
  note D = in_orderD [OF I] and F = free_run_at [OF I i]
  let ?g = "\<lparr>sl = ucast k OR PAGE_START, nx = None, pv = (None, PAGE)\<rparr>" and ?b = "\<lparr>sl = PAGE_BUSY, nx = None, pv = (None, PAGE)\<rparr>"
  have uk: "ucast k = (of_nat (unat k) :: u64)" by (simp add: unat_up)
  obtain p1 hs where p1: "(if unat k < m then split_run i (unat k) p else unlink_run i p) = Some p1" "shape p1 = shape p" "pfree p1 = pfree p"
    and next_order: "\<And>p2. recs p2 = paint (i + 1) (unat k - 1) ?b ((recs p1)(Pg i := ?g)) \<Longrightarrow> shape p2 = shape p \<Longrightarrow>
      in_order p2 (xs @ take_run (unat k) m @ ys) hs"
    using take_pages [OF I i k] uk by metis
  let ?p2 = "(updr (Pg i) (\<lambda>x. ?g) p1)\<lparr>pfree := pfree (updr (Pg i) (\<lambda>x. ?g) p1) - k\<rparr>"
  have v1: "valid (Pg i) p1" using F(3) shape_fields(3) [OF p1(2)] by simp
  have "unat (k - 1) = unat k - 1" using k(1) unat_sub [of 1 k] by (simp add: word_le_nat_alt)
  moreover have "i + 1 + (unat k - 1) \<le> length (pages ?p2)"
    using F(2) k D(3) v1 shape_fields(2) [OF p1(2)] by (simp add: updr_pages)
  then obtain p3 where p3: "mark_busy (i + 1) (unat k - 1) ?p2 = Some p3"
    "recs p3 = paint (i + 1) (unat k - 1) ?b (recs ?p2)" "shape p3 = shape ?p2" "pfree p3 = pfree ?p2"
    using mark_busy_exec [of "i + 1" "unat k - 1" ?p2] by blast
  moreover have "ucast k < sl (recs p (Pg i)) \<longleftrightarrow> unat k < m" using F(6) by (simp add: word_less_nat_alt unat_up)
  moreover have "nx (free_head p) = Some (firstof (us @ i # vs) Free_head)"
    using ring_head [OF D(5)] by (simp add: recs_def)
  moreover have "find_run p (ucast k) (firstof (us @ i # vs) Free_head) = Some (Some (Pg i))"
  proof -
    have "valid (Pg h) p" if "h \<in> set (us @ i # vs)" for h by (rule in_order_heads [OF I that])
    then show ?thesis using find_run_exec [of p Free_head "us @ i # vs" "ucast k"] D(5) f by (simp add: ring_def)
  qed
  ultimately have "dl_slab_alloc_pages k p = Some (Some i, p3)"
    unfolding dl_slab_alloc_pages_def using F(3) v1 p1(1)
    by (simp add: look_valid upd_valid Let_def del: look.simps upd.simps valid_simps find_run.simps)
  moreover have "in_order p3 (xs @ take_run (unat k) m @ ys) hs"
    by (rule next_order) (use p3(2,3) v1 p1(2) in \<open>simp_all add: recs_updr shape_updr\<close>)
  moreover have "pfree p3 = of_nat (free_pages (xs @ take_run (unat k) m @ ys))"
  proof -
    have "pfree p3 = of_nat (free_pages (xs @ (m, Free_run) # ys)) - k"
      using p3(4) v1 p1(3) P by (simp add: pfree_updr slab_pages_def)
    also have "\<dots> = of_nat (free_pages (xs @ (m, Free_run) # ys) - unat k)" using k(2) by (simp add: of_nat_diff)
    finally show ?thesis using pages_take [OF P k(2)] by simp
  qed
  moreover have "apart (xs @ take_run (unat k) m @ ys)" "Opened \<notin> snd ` set (xs @ take_run (unat k) m @ ys)"
    using pages_take [OF P k(2)] by blast+
  moreover have "shape p3 = shape p" using p3(3) v1 p1(2) by (simp add: shape_updr)
  ultimately show ?thesis unfolding slab_pages_def by blast
qed

lemma alloc_pages_none:
  assumes "in_order p rs hs" "\<And>m. (m, Free_run) \<in> set rs \<Longrightarrow> m < unat k"
  shows "dl_slab_alloc_pages k p = Some (None, p)"
proof -
  note D = in_orderD [OF assms(1)]
  have small: "\<not> ucast k \<le> sl (recs p (Pg h)) \<and> valid (Pg h) p" if h: "h \<in> set hs" for h
  proof -
    have "h \<in> starts Free_run 0 rs" using h D(6) by simp
    then obtain xs m ys where rs: "rs = xs @ (m, Free_run) # ys" and "h = 0 + span xs" using starts_split by blast
    moreover obtain us vs where "hs = us @ h # vs" using h split_list by fast
    ultimately have I: "in_order p (xs @ (m, Free_run) # ys) (us @ h # vs)" "h = span xs" using assms(1) by auto
    have "m < unat k" using assms(2) rs by simp
    then show ?thesis using free_run_at [OF I] by (simp add: word_le_nat_alt unat_up)
  qed
  then have "List.find (\<lambda>h. ucast k \<le> sl (recs p (Pg h))) hs = None" by (auto simp: find_None_iff)
  then have "find_run p (ucast k) (firstof hs Free_head) = Some None"
    using find_run_exec [of p Free_head hs "ucast k"] D(5) small by (simp add: ring_def)
  moreover have "nx (free_head p) = Some (firstof hs Free_head)" using ring_head [OF D(5)] by (simp add: recs_def)
  ultimately show ?thesis by (simp add: dl_slab_alloc_pages_def)
qed

lemma alloc_pages_spec:
  assumes P: "slab_pages p rs" and k: "1 \<le> unat k"
  shows "(\<forall>m. (m, Free_run) \<in> set rs \<longrightarrow> m < unat k) \<and> dl_slab_alloc_pages k p = Some (None, p)
    \<or> (\<exists>xs m ys p'. rs = xs @ (m, Free_run) # ys \<and> unat k \<le> m \<and> dl_slab_alloc_pages k p = Some (Some (span xs), p')
         \<and> slab_pages p' (xs @ take_run (unat k) m @ ys) \<and> shape p' = shape p)"
proof -
  obtain hs where I: "in_order p rs hs" using P by (auto simp: slab_pages_def)
  note D = in_orderD [OF I]
  show ?thesis
  proof (cases "List.find (\<lambda>h. ucast k \<le> sl (recs p (Pg h))) hs")
    case None
    have "m < unat k" if r: "(m, Free_run) \<in> set rs" for m
    proof -
      obtain xs ys where rs: "rs = xs @ (m, Free_run) # ys" using r unfolding in_set_conv_decomp by blast
      then have "span xs \<in> set hs" using D(6) by simp
      then obtain us vs where hs: "hs = us @ span xs # vs" using split_list by fast
      have "\<not> ucast k \<le> sl (recs p (Pg (span xs)))" using None \<open>span xs \<in> set hs\<close> by (simp add: find_None_iff)
      then show ?thesis using free_run_at(6) [of p xs m ys us "span xs" vs] I rs hs by (simp add: word_le_nat_alt unat_up)
    qed
    then show ?thesis using alloc_pages_none [OF I] by blast
  next
    case (Some i)
    then have c: "i \<in> set hs" "ucast k \<le> sl (recs p (Pg i))" by (auto simp: find_Some_iff)
    then have "i \<in> starts Free_run 0 rs" using D(6) by simp
    then obtain xs m ys where rs: "rs = xs @ (m, Free_run) # ys" "i = span xs" using starts_split by fastforce
    obtain us vs where hs: "hs = us @ i # vs" using c split_list by fast
    have I': "in_order p (xs @ (m, Free_run) # ys) (us @ i # vs)" using I rs hs by simp
    have "unat k \<le> m" using free_run_at(6) [OF I' rs(2)] c(2) by (simp add: word_le_nat_alt unat_up)
    then show ?thesis using alloc_pages_some [OF _ I' rs(2) k] P Some rs hs by blast
  qed
qed

end
