(* ===== verification/Dl_Slab_Release.thy ===== *)
theory Dl_Slab_Release
  imports Dl_Slab_Pages
begin

text \<open>
  The release of a run of pages: it is opened, joined with the free runs behind and before it, and linked
  in front of the ring. Each step keeps the division into runs.
\<close>

lemma free_head_recs: "free_head p = recs p Free_head"
  by (simp add: recs_def)

lemma unlink_exec:
  assumes "valid r p" "valid q p" "valid n p" "nx (recs p r) = Some n" "fst (pv (recs p r)) = Some q" "q \<noteq> r" "n \<noteq> r"
  obtains p' where "unlink r p = Some p'" "shape p' = shape p" "pfree p' = pfree p"
    "recs p' = ((recs p)(q := (recs p q)\<lparr>nx := Some n\<rparr>))(n := (((recs p)(q := (recs p q)\<lparr>nx := Some n\<rparr>)) n)\<lparr>pv := pv (recs p r)\<rparr>)"
proof -
  let ?R = "((recs p)(q := (recs p q)\<lparr>nx := Some n\<rparr>))(n := (((recs p)(q := (recs p q)\<lparr>nx := Some n\<rparr>)) n)\<lparr>pv := pv (recs p r)\<rparr>)"
  have "\<exists>p'. unlink r p = Some p' \<and> shape p' = shape p \<and> pfree p' = pfree p \<and> recs p' = ?R"
    unfolding unlink_def dl_slab_page_prev_def
    using assms by (simp add: exec del: look.simps upd.simps valid_simps)
  then show ?thesis using that by blast
qed

text \<open>The length in the record of an opened run.\<close>

lemma opened_at:
  assumes "in_order p (xs @ (n, Opened) # ys) hs" "i = span xs"
  shows "1 \<le> n" "i + n \<le> last_page p" "i < last_page p" "valid (Pg i) p" "sl (recs p (Pg i)) = of_nat n" "unat (sl (recs p (Pg i))) = n"
    "\<And>j. i < j \<Longrightarrow> j < i + n \<Longrightarrow> wiped (recs p (Pg j))" "\<And>j. j < i + n \<Longrightarrow> valid (Pg j) p"
proof -
  note D = in_orderD [OF assms(1)]
  show n: "1 \<le> n" and l: "i + n \<le> last_page p" and "valid (Pg i) p" "\<And>j. j < i + n \<Longrightarrow> valid (Pg j) p"
    and sl: "sl (recs p (Pg i)) = of_nat n" and "\<And>j. i < j \<Longrightarrow> j < i + n \<Longrightarrow> wiped (recs p (Pg j))"
    using D(1-3) assms(2) by auto
  then show "i < last_page p" by simp
  show "unat (sl (recs p (Pg i))) = n" using sl l D(4) by (simp add: unat_of_nat)
qed

text \<open>Joining takes the run at \<open>i\<close> out of the ring and makes one of two adjacent runs: what has to hold of the
  records for it.\<close>

lemma joined:
  assumes I: "in_order p (xs @ (m, Free_run) # ys) (us @ i # vs)" and i: "i = span xs"
    and R: "recs p' = R'" "shape p' = shape p"
    and L: "relinked a (recs p) R' (lastof Free_head us) (firstof vs Free_head) (firstof vs Free_head) (lastof Free_head us)"
    and zs: "xs @ (m, Free_run) # ys = xs' @ zs @ ys'" "starts Free_run (span xs') zs = {i}" "a \<subseteq> {span xs'..<span xs' + span zs}"
    and t: "tile R' (last_page p) (span xs') (span zs, Opened)"
  shows "in_order p' (xs' @ (span zs, Opened) # ys') (us @ vs)"
proof -
  note D = in_orderD [OF I]
  have T: "tiles (recs p) (last_page p) 0 xs'" "tiles (recs p) (last_page p) (span xs' + span zs) ys'"
    "tiles (recs p) (last_page p) (span xs') zs"
    using D(1) unfolding zs(1) by (auto simp: add.assoc)
  have out: "x \<in> starts Free_run 0 xs' \<and> x < span xs' \<or> x \<in> starts Free_run (span xs' + span zs) ys' \<and> span xs' + span zs \<le> x"
    if "x \<in> starts Free_run 0 (xs @ (m, Free_run) # ys)" "x \<noteq> i" for x
    using that starts_range [OF T(1), of x Free_run] starts_range [OF T(2), of x Free_run] zs(2) unfolding zs(1) by (auto simp: add.assoc)
  have iz: "span xs' \<le> i" "i < span xs' + span zs" using starts_range [OF T(3), of i Free_run] zs(2) by auto
  have inn: "x \<notin> a" "x \<noteq> i" "x \<in> starts Free_run 0 xs' \<and> x < span xs' \<or> x \<in> starts Free_run (span xs' + span zs) ys' \<and> span xs' + span zs \<le> x"
    if "x \<in> set us \<union> set vs" for x
  proof -
    have "x \<in> starts Free_run 0 (xs @ (m, Free_run) # ys)" "x \<noteq> i" using that D(5,6) by (auto simp: ring_def)
    then show "x \<noteq> i" "x \<in> starts Free_run 0 xs' \<and> x < span xs' \<or> x \<in> starts Free_run (span xs' + span zs) ys' \<and> span xs' + span zs \<le> x"
      using out by auto
    then show "x \<notin> a" using zs(3) by auto
  qed
  have Q: "lastof Free_head us = Free_head \<or> (\<exists>x \<in> set us. lastof Free_head us = Pg x)"
    and N: "firstof vs Free_head = Free_head \<or> (\<exists>x \<in> set vs. firstof vs Free_head = Pg x)"
    using lastof_cases [of Free_head us] firstof_cases [of vs Free_head] by auto
  have "tiles R' (last_page p) 0 xs'"
  proof (rule tiles_relinked [OF T(1) L])
    show "j \<in> starts Free_run 0 xs'" if "0 \<le> j" "j < 0 + span xs'" "Pg j \<in> {lastof Free_head us, firstof vs Free_head}" for j
      using that Q N inn(3) by fastforce
  qed (use zs(3) in auto)
  moreover have "tiles R' (last_page p) (span xs' + span zs) ys'"
  proof (rule tiles_relinked [OF T(2) L])
    show "j \<in> starts Free_run (span xs' + span zs) ys'"
      if "span xs' + span zs \<le> j" "j < span xs' + span zs + span ys'" "Pg j \<in> {lastof Free_head us, firstof vs Free_head}" for j
      using that Q N inn(3) by fastforce
  qed (use zs(3) in auto)
  moreover have "ring R' (us @ vs)"
  proof (rule ring_remove [OF D(5)])
    have "lastof Free_head us \<notin> Pg ` a" "firstof vs Free_head \<notin> Pg ` a" using Q N inn(1) by auto
    then show "nx (R' (lastof Free_head us)) = Some (firstof vs Free_head)"
      "pv (R' (firstof vs Free_head)) = (Some (lastof Free_head us), PAGE)"
      using L unfolding relinked_def by auto
    show "nx (R' r) = nx (recs p r)" if "r \<in> insert Free_head (Pg ` (set us \<union> set vs))" "r \<noteq> lastof Free_head us" for r
      using that L inn(1) unfolding relinked_def by fastforce
    show "pv (R' (Pg x)) = pv (recs p (Pg x))" if "x \<in> set us \<union> set vs" "Pg x \<noteq> firstof vs Free_head" for x
      using that L inn(1) unfolding relinked_def by fastforce
  qed
  moreover have "set (us @ vs) = starts Free_run 0 (xs' @ (span zs, Opened) # ys')"
  proof -
    have "insert i (set (us @ vs)) = insert i (starts Free_run 0 xs' \<union> starts Free_run (span xs' + span zs) ys')"
      using D(6) zs(2) unfolding zs(1) by (auto simp: add.assoc)
    moreover have "i \<notin> set (us @ vs)" using inn(2) by auto
    moreover have "i \<notin> starts Free_run 0 xs' \<union> starts Free_run (span xs' + span zs) ys'"
      using starts_range [OF T(1), of i Free_run] starts_range [OF T(2), of i Free_run] iz by auto
    ultimately have "set (us @ vs) = starts Free_run 0 xs' \<union> starts Free_run (span xs' + span zs) ys'" by (metis insert_ident)
    then show ?thesis by (simp add: add.assoc)
  qed
  moreover have "span (xs' @ (span zs, Opened) # ys') = last_page p" using D(2) unfolding zs(1) by simp
  ultimately show ?thesis using t D(3,4) unfolding in_order_def R(1) shape_fields [OF R(2)] by simp
qed

lemma wiped_record [simp]: "wiped \<lparr>sl = 0, nx = None, pv = (None, PAGE)\<rparr>"
  by (simp add: wiped_def)

text \<open>The run behind.\<close>

lemma join_next_free:
  assumes I: "in_order p (xs @ (n, Opened) # (m, Free_run) # ys) hs" and i: "i = span xs" and k: "k < n"
  obtains p' hs' where "join_next i k p = Some (k + m, p')" "in_order p' (xs @ (n + m, Opened) # ys) hs'"
    "shape p' = shape p" "pfree p' = pfree p" "recs p' (Pg i) = (recs p (Pg i))\<lparr>sl := of_nat (n + m)\<rparr>"
proof -
  note D = in_orderD [OF I] and O = opened_at [OF I i]
  define j where "j = i + n"
  have j: "j = span (xs @ [(n, Opened)])" using i by (simp add: j_def)
  have "j \<in> set hs" using D(6) i j by simp
  then obtain us vs where hs: "hs = us @ j # vs" using split_list by fast
  have I': "in_order p ((xs @ [(n, Opened)]) @ (m, Free_run) # ys) (us @ j # vs)" using I hs by simp
  note F = free_run_at [OF I' j]
  let ?q = "lastof Free_head us" and ?n = "firstof vs Free_head"
  have ij: "i \<noteq> j" "j < last_page p" using O(1) F(1,2) by (auto simp: j_def)
  have head: "x \<noteq> i" if "x \<in> starts Free_run 0 ((xs @ [(n, Opened)]) @ (m, Free_run) # ys)" "x \<noteq> j" for x
    using starts_outside [OF _ that(1), of "recs p" "last_page p"] in_orderD(1) [OF I'] that(2) i j O(1)
      starts_range [of "recs p" "last_page p" 0 xs x Free_run] D(1) by (auto simp: j_def split: if_splits)
  have q: "?q \<noteq> Pg i" "?n \<noteq> Pg i" "?q \<noteq> Pg j" "?n \<noteq> Pg j" "valid ?q p" "valid ?n p"
    using ring_places [OF I'] ring_places_outside [OF I' j, of j] F(1) head by auto
  let ?p1 = "updr (Pg i) (\<lambda>x. x\<lparr>sl := sl x + sl (recs p (Pg j))\<rparr>) p"
  have e1: "recs ?p1 = (recs p)(Pg i := (recs p (Pg i))\<lparr>sl := of_nat (n + m)\<rparr>)" "shape ?p1 = shape p" "pfree ?p1 = pfree p"
    using O(4,5) F(5) by (simp_all add: recs_updr shape_updr pfree_updr)
  have V: "valid (Pg j) ?p1" "valid ?q ?p1" "valid ?n ?p1" using F(3) q shape_fields(3) [OF e1(2)] by simp_all
  obtain p2 where p2: "unlink (Pg j) ?p1 = Some p2" "shape p2 = shape ?p1" "pfree p2 = pfree ?p1"
    "recs p2 = ((recs ?p1)(?q := (recs ?p1 ?q)\<lparr>nx := Some ?n\<rparr>))(?n := (((recs ?p1)(?q := (recs ?p1 ?q)\<lparr>nx := Some ?n\<rparr>)) ?n)\<lparr>pv := pv (recs ?p1 (Pg j))\<rparr>)"
    by (rule unlink_exec [OF V]) (use e1 F(7,8) ij q in auto)
  let ?p3 = "updr (Pg j) (\<lambda>x. \<lparr>sl = 0, nx = None, pv = (None, PAGE)\<rparr>) p2"
  have v2: "valid (Pg j) p2" using F(3) e1(2) p2(2) shape_fields(3) by metis
  have e3: "recs ?p3 = (recs p2)(Pg j := \<lparr>sl = 0, nx = None, pv = (None, PAGE)\<rparr>)" "shape ?p3 = shape p" "pfree ?p3 = pfree p"
    using v2 p2(2,3) e1(2,3) by (simp_all add: recs_updr shape_updr pfree_updr)
  have R: "recs ?p3 = (((recs p)(Pg i := (recs p (Pg i))\<lparr>sl := of_nat (n + m)\<rparr>, ?q := (recs p ?q)\<lparr>nx := Some ?n\<rparr>))
      (?n := (((recs p)(?q := (recs p ?q)\<lparr>nx := Some ?n\<rparr>)) ?n)\<lparr>pv := (Some ?q, PAGE)\<rparr>))(Pg j := \<lparr>sl = 0, nx = None, pv = (None, PAGE)\<rparr>)"
    unfolding e3(1) p2(4) e1(1) using q ij F(8) by (simp add: fun_eq_iff)
  have wrap: "(k + m) mod 2 ^ 32 = k + m" using k D(2,4) by simp
  have go: "join_next i k p = Some (k + m, ?p3)"
    unfolding join_next_def dl_slab_page_type_def
    using wrap O(4,6) F(3,5,6,7,8) ij p2(1) v2 by (simp add: look_valid upd_valid Let_def j_def [symmetric] del: look.simps upd.simps valid_simps)
  have ri: "recs ?p3 (Pg i) = (recs p (Pg i))\<lparr>sl := of_nat (n + m)\<rparr>" unfolding R using q ij by simp
  have J: "in_order ?p3 (xs @ (span [(n, Opened), (m, Free_run)], Opened) # ys) (us @ vs)"
  proof (rule joined [OF I' j refl e3(2)])
    show "relinked {i, j} (recs p) (recs ?p3) ?q ?n ?n ?q" unfolding relinked_def R by auto
    show "starts Free_run (span xs) [(n, Opened), (m, Free_run)] = {j}" using i by (simp add: j_def)
    show "{i, j} \<subseteq> {span xs..<span xs + span [(n, Opened), (m, Free_run)]}" using O(1) F(1) i by (auto simp: j_def)
    have far: "recs ?p3 (Pg x) = recs p (Pg x)" if x: "i < x" "x < i + (n + m)" "x \<noteq> j" for x
    proof -
      have "y \<noteq> x" if y: "y \<in> starts Free_run 0 ((xs @ [(n, Opened)]) @ (m, Free_run) # ys)" "y \<noteq> j" for y
        using starts_outside [OF in_orderD(1) [OF I'] y(1)] y(2) x i j starts_range [of "recs p" "last_page p" 0 xs y Free_run] D(1)
        by (auto simp: j_def split: if_splits)
      then have "?q \<noteq> Pg x" "?n \<noteq> Pg x" using ring_places(1,2) [OF I'] by auto
      then show ?thesis unfolding R using x by simp
    qed
    have "wiped (recs ?p3 (Pg x))" if x: "i < x" "x < i + (n + m)" for x
    proof (cases "x = j")
      case True
      then show ?thesis unfolding R by simp
    next
      case False
      then show ?thesis using far [OF x] O(7) [of x] F(9) [of x] x by (cases "x < j") (auto simp: j_def)
    qed
    then show "tile (recs ?p3) (last_page p) (span xs) (span [(n, Opened), (m, Free_run)], Opened)"
      using O(1) i ri by simp
  qed simp
  show thesis by (rule that [OF go _ e3(2,3) ri]) (use J in simp)
qed

lemma join_next_stop:
  assumes I: "in_order p (xs @ (n, Opened) # ys) hs" and i: "i = span xs"
    and ys: "ys \<noteq> [] \<Longrightarrow> snd (hd ys) \<in> {Used_run, Slot_page}"
  shows "join_next i k p = Some (k, p)"
proof (cases ys)
  case Nil
  note D = in_orderD [OF I] and O = opened_at [OF I i]
  show ?thesis unfolding join_next_def using O(4,6) D(2) Nil i
    by (simp add: look_valid Let_def del: look.simps valid_simps)
next
  case (Cons r zs)
  note D = in_orderD [OF I] and O = opened_at [OF I i]
  obtain m c where r: "r = (m, c)" "c \<in> {Used_run, Slot_page}" using ys Cons by (cases r) auto
  have t: "tile (recs p) (last_page p) (i + n) (m, c)" using D(1) Cons r i by simp
  then have "i + n < last_page p" using D(2) Cons r i tile_pos [OF t] by auto
  moreover have "snd (pv (recs p (Pg (i + n)))) \<noteq> PAGE \<or> nx (recs p (Pg (i + n))) = None" using t r(2) by auto
  moreover have "valid (Pg (i + n)) p" using calculation(1) D(3) by simp
  ultimately show ?thesis unfolding join_next_def dl_slab_page_type_def using O(4,6)
    by (auto simp: look_valid Let_def simp del: look.simps valid_simps)
qed

text \<open>The run before.\<close>

lemma join_prev_free:
  assumes I: "in_order p (xs @ (m, Free_run) # (n, Opened) # ys) hs" and i: "i = span xs + m" and k: "k < n"
  obtains p' hs' where "join_prev i k p = Some (span xs, k + m, p')" "in_order p' (xs @ (m + n, Opened) # ys) hs'"
    "shape p' = shape p" "pfree p' = pfree p"
proof -
  define s where "s = span xs"
  note D = in_orderD [OF I]
  have IO: "in_order p ((xs @ [(m, Free_run)]) @ (n, Opened) # ys) hs" using I by simp
  have iO: "i = span (xs @ [(m, Free_run)])" using i by simp
  note O = opened_at [OF IO iO]
  have "s \<in> set hs" using D(6) by (simp add: s_def)
  then obtain us vs where hs: "hs = us @ s # vs" using split_list by fast
  have I': "in_order p (xs @ (m, Free_run) # (n, Opened) # ys) (us @ s # vs)" using I hs by simp
  note F = free_run_at [OF I' s_def]
  let ?q = "lastof Free_head us" and ?n = "firstof vs Free_head"
  have ii: "i = s + m" "i \<noteq> s" "s < i" "i < last_page p" "s < length (pages p)" using O(3) F(1,3) i by (auto simp: s_def)
  have far: "y \<notin> {s..<s + (m + n)}" if y: "y \<in> starts Free_run 0 (xs @ (m, Free_run) # (n, Opened) # ys)" "y \<noteq> s" for y
    using starts_outside [OF D(1) y(1)] y(2) D(1) starts_range [of "recs p" "last_page p" "s + m + n" ys y Free_run]
    by (auto simp: s_def split: if_splits)
  have q: "?q \<noteq> Pg x" "?n \<noteq> Pg x" if "s \<le> x" "x < s + (m + n)" for x
    using ring_places(1,2) [OF I'] far that by fastforce+
  have qs: "?q \<noteq> Pg i" "?n \<noteq> Pg i" "?q \<noteq> Pg s" "?n \<noteq> Pg s" "valid ?q p" "valid ?n p" "valid (Pg s) p" "valid (Pg i) p"
    using q [of i] q [of s] ii O(1,4) F(1,3) ring_places(3,4) [OF I'] by auto
  have before: "valid (Pg (i - 1)) p" "snd (pv (recs p (Pg (i - 1)))) = PAGE"
    "(if sl (recs p (Pg (i - 1))) = 0 then fst (pv (recs p (Pg (i - 1)))) else Some (Pg (i - 1))) = Some (Pg s)"
  proof -
    show "valid (Pg (i - 1)) p" using O(4) by simp
    have "snd (pv (recs p (Pg (i - 1)))) = PAGE \<and> (if sl (recs p (Pg (i - 1))) = 0 then fst (pv (recs p (Pg (i - 1)))) else Some (Pg (i - 1))) = Some (Pg s)"
    proof (cases "m = 1")
      case True
      then show ?thesis using F(5,8) ii(1) by simp
    next
      case False
      then have "s < i - 1" "i - 1 < s + m" "2 \<le> m" "s + m - 1 = i - 1" using ii(1) F(1) by auto
      then show ?thesis using F(9) [of "i - 1"] F(10) ii(1,4) by (simp add: wiped_def)
    qed
    then show "snd (pv (recs p (Pg (i - 1)))) = PAGE"
      "(if sl (recs p (Pg (i - 1))) = 0 then fst (pv (recs p (Pg (i - 1)))) else Some (Pg (i - 1))) = Some (Pg s)" by simp_all
  qed
  let ?p1 = "updr (Pg s) (\<lambda>x. x\<lparr>sl := sl x + sl (recs p (Pg i))\<rparr>) p"
  have e1: "recs ?p1 = (recs p)(Pg s := (recs p (Pg s))\<lparr>sl := of_nat (m + n)\<rparr>)" "shape ?p1 = shape p" "pfree ?p1 = pfree p"
    using qs(7) O(5) F(5) by (simp_all add: recs_updr shape_updr pfree_updr)
  have V: "valid (Pg s) ?p1" "valid ?q ?p1" "valid ?n ?p1" using qs shape_fields(3) [OF e1(2)] by simp_all
  obtain p2 where p2: "unlink (Pg s) ?p1 = Some p2" "shape p2 = shape ?p1" "pfree p2 = pfree ?p1"
    "recs p2 = ((recs ?p1)(?q := (recs ?p1 ?q)\<lparr>nx := Some ?n\<rparr>))(?n := (((recs ?p1)(?q := (recs ?p1 ?q)\<lparr>nx := Some ?n\<rparr>)) ?n)\<lparr>pv := pv (recs ?p1 (Pg s))\<rparr>)"
    by (rule unlink_exec [OF V]) (use e1 F(7,8) qs in auto)
  let ?p3 = "updr (Pg i) (\<lambda>x. \<lparr>sl = 0, nx = None, pv = (None, PAGE)\<rparr>) p2"
  have v2: "valid (Pg i) p2" using qs(8) e1(2) p2(2) shape_fields(3) by metis
  have e3: "recs ?p3 = (recs p2)(Pg i := \<lparr>sl = 0, nx = None, pv = (None, PAGE)\<rparr>)" "shape ?p3 = shape p" "pfree ?p3 = pfree p"
    using v2 p2(2,3) e1(2,3) by (simp_all add: recs_updr shape_updr pfree_updr)
  have R: "recs ?p3 = (((recs p)(Pg s := (recs p (Pg s))\<lparr>sl := of_nat (m + n)\<rparr>, ?q := (recs p ?q)\<lparr>nx := Some ?n\<rparr>))
      (?n := (((recs p)(?q := (recs p ?q)\<lparr>nx := Some ?n\<rparr>)) ?n)\<lparr>pv := (Some ?q, PAGE)\<rparr>))(Pg i := \<lparr>sl = 0, nx = None, pv = (None, PAGE)\<rparr>)"
    unfolding e3(1) p2(4) e1(1) using qs ii F(8) by (simp add: fun_eq_iff)
  have wrap: "(k + m) mod 2 ^ 32 = k + m" using k D(2,4) by simp
  have go: "join_prev i k p = Some (s, k + m, ?p3)"
    unfolding join_prev_def dl_slab_page_type_def dl_slab_page_prev_def
    using wrap before qs F(6,7) ii p2(1) v2 by (simp add: look_valid upd_valid del: look.simps upd.simps valid_simps split: if_splits)
  have J: "in_order ?p3 (xs @ (span [(m, Free_run), (n, Opened)], Opened) # ys) (us @ vs)"
  proof (rule joined [OF I' s_def refl e3(2)])
    show "relinked {s, i} (recs p) (recs ?p3) ?q ?n ?n ?q" unfolding relinked_def R by auto
    show "starts Free_run (span xs) [(m, Free_run), (n, Opened)] = {s}" by (simp add: s_def)
    show "{s, i} \<subseteq> {span xs..<span xs + span [(m, Free_run), (n, Opened)]}" using O(1) F(1) ii by (auto simp: s_def)
    have "wiped (recs ?p3 (Pg x))" if x: "s < x" "x < s + (m + n)" for x
      using F(9) [of x] O(7) [of x] x q [of x] ii(1) unfolding R by (cases "x < i") auto
    then show "tile (recs ?p3) (last_page p) (span xs) (span [(m, Free_run), (n, Opened)], Opened)"
      using F(1) qs ii(2) unfolding R by (simp add: s_def)
  qed simp
  show thesis by (rule that [OF go [unfolded s_def] _ e3(2,3)]) (use J in simp)
qed

lemma join_prev_stop:
  assumes I: "in_order p (xs @ (n, Opened) # ys) hs" and i: "i = span xs"
    and xs: "xs \<noteq> [] \<Longrightarrow> snd (last xs) \<in> {Used_run, Slot_page}"
  shows "join_prev i k p = Some (i, k, p)"
proof (cases xs rule: rev_cases)
  case Nil
  then show ?thesis by (simp add: join_prev_def i)
next
  case (snoc zs r)
  note D = in_orderD [OF I] and O = opened_at [OF I i]
  obtain m c where r: "r = (m, c)" "c \<in> {Used_run, Slot_page}" using xs snoc by (cases r) auto
  have t: "tile (recs p) (last_page p) (span zs) (m, c)" using D(1) snoc r by simp
  have iz: "i = span zs + m" "1 \<le> m" using i snoc r tile_pos [OF t] by auto
  have v: "valid (Pg (i - 1)) p" using O(4) by simp
  show ?thesis
  proof (cases c)
    case Slot_page
    then have "snd (pv (recs p (Pg (i - 1)))) \<noteq> PAGE" using t iz by auto
    then show ?thesis using v iz by (simp add: join_prev_def look_valid dl_slab_page_type_def del: look.simps valid_simps)
  next
    case Used_run
    have "sl (recs p (Pg (i - 1))) \<noteq> 0 \<and> nx (recs p (Pg (i - 1))) = None \<and> snd (pv (recs p (Pg (i - 1)))) = PAGE"
    proof (cases "m = 1")
      case True
      then show ?thesis using t Used_run iz by simp
    next
      case False
      then have "span zs < i - 1" "i - 1 < span zs + m" using iz by auto
      then show ?thesis using t Used_run by simp
    qed
    then show ?thesis using v iz by (simp add: join_prev_def look_valid dl_slab_page_type_def del: look.simps valid_simps)
  qed (use r in auto)
qed

text \<open>The joined run becomes the first one of the ring.\<close>

lemma link_free_exec:
  assumes I: "in_order p (xs @ (n, Opened) # ys) hs" and i: "i = span xs"
  obtains p' where "link_free i (n - 1) p = Some p'" "in_order p' (xs @ (n, Free_run) # ys) (i # hs)"
    "shape p' = shape p" "pfree p' = pfree p"
proof -
  note D = in_orderD [OF I] and O = opened_at [OF I i]
  let ?n = "firstof hs Free_head"
  let ?p1 = "if n - 1 \<noteq> 0 then updr (Pg (i + (n - 1))) (\<lambda>x. x\<lparr>pv := (Some (Pg i), PAGE)\<rparr>) p else p"
  let ?R1 = "if n - 1 \<noteq> 0 then (recs p)(Pg (i + (n - 1)) := (recs p (Pg (i + (n - 1))))\<lparr>pv := (Some (Pg i), PAGE)\<rparr>) else recs p"
  let ?R2 = "?R1(Pg i := (?R1 (Pg i))\<lparr>nx := Some ?n, pv := (Some Free_head, PAGE)\<rparr>)"
  let ?R3 = "?R2(?n := (?R2 ?n)\<lparr>pv := (Some (Pg i), PAGE)\<rparr>)"
  let ?R4 = "?R3(Free_head := (?R3 Free_head)\<lparr>nx := Some (Pg i)\<rparr>)"
  have out: "x \<in> starts Free_run 0 xs \<and> x < i \<or> x \<in> starts Free_run (i + n) ys \<and> i + n \<le> x" if "x \<in> set hs" for x
    using that D(1,6) i starts_range [of "recs p" "last_page p" 0 xs x Free_run] starts_range [of "recs p" "last_page p" "i + n" ys x Free_run]
    by auto
  have N: "?n = Free_head \<or> (\<exists>x \<in> set hs. ?n = Pg x)" using firstof_cases [of hs Free_head] by auto
  have vl: "valid (Pg (i + (n - 1))) p" using O(1) O(8) [of "i + (n - 1)"] by simp
  have vn: "valid ?n p" using N in_order_heads [OF I] by auto
  have sh: "shape ?p1 = shape p" "pfree ?p1 = pfree p" "recs ?p1 = ?R1" using vl by (auto simp: exec simp del: valid_simps)
  have v1: "valid r ?p1 = valid r p" for r by (rule shape_fields, rule sh)
  have nf: "nx (recs p Free_head) = Some ?n" by (rule ring_head [OF D(5)])
  have head: "nx (free_head ?p1) = Some ?n" using nf sh(3) by (simp add: free_head_recs)
  let ?p2 = "updr (Pg i) (\<lambda>x. x\<lparr>nx := Some ?n, pv := (Some Free_head, PAGE)\<rparr>) ?p1"
  have s2: "shape ?p2 = shape p" "pfree ?p2 = pfree p" "recs ?p2 = ?R2" using O(4) v1 sh by (simp_all only: exec)
  have v2: "valid r ?p2 = valid r p" for r by (rule shape_fields, rule s2)
  have head2: "nx (free_head ?p2) = Some ?n" using nf s2(3) by (simp add: free_head_recs)
  let ?p3 = "updr ?n (\<lambda>x. x\<lparr>pv := (Some (Pg i), PAGE)\<rparr>) ?p2"
  have s3: "shape ?p3 = shape p" "pfree ?p3 = pfree p" "recs ?p3 = ?R3" using vn v2 s2 by (simp_all only: exec)
  have v3: "valid r ?p3 = valid r p" for r by (rule shape_fields, rule s3)
  let ?p4 = "updr Free_head (\<lambda>x. x\<lparr>nx := Some (Pg i)\<rparr>) ?p3"
  have s4: "shape ?p4 = shape p" "pfree ?p4 = pfree p" "recs ?p4 = ?R4" using s3 by (simp_all only: exec valid_simps)
  have "(if n - 1 \<noteq> 0 then upd (Pg (i + (n - 1))) (\<lambda>x. x\<lparr>pv := (Some (Pg i), PAGE)\<rparr>) p else Some p) = Some ?p1"
    using vl by (simp only: upd_valid if_split) simp
  moreover have "upd (Pg i) (\<lambda>x. x\<lparr>nx := nx (free_head ?p1), pv := (Some Free_head, PAGE)\<rparr>) ?p1 = Some ?p2"
    using v1 O(4) by (simp only: upd_valid head)
  moreover have "upd ?n (\<lambda>x. x\<lparr>pv := (Some (Pg i), PAGE)\<rparr>) ?p2 = Some ?p3" using v2 vn by (simp only: upd_valid)
  moreover have "upd Free_head (\<lambda>x. x\<lparr>nx := Some (Pg i)\<rparr>) ?p3 = Some ?p4" by (simp only: upd_valid valid_simps)
  ultimately have "link_free i (n - 1) p = Some ?p4"
    unfolding link_free_def by (simp only: head2 bind.bind_lunit)
  then obtain p4 where go: "link_free i (n - 1) p = Some p4" and s4: "shape p4 = shape p" "pfree p4 = pfree p" "recs p4 = ?R4"
    using s4 by blast
  have L: "relinked {i..<i + n} (recs p) (recs p4) Free_head (Pg i) ?n (Pg i)"
    unfolding relinked_def s4(3) using O(1) N out by (auto simp: image_iff)
  have nP: "?n \<noteq> Pg x" if "i \<le> x" "x < i + n" for x using N out that by fastforce
  have t: "tile (recs p4) (last_page p) i (n, Free_run)"
  proof -
    have "sl (recs p4 (Pg i)) = of_nat n" using O(1,5) nP [of i] unfolding s4(3) by simp
    moreover have "wiped (recs p4 (Pg j))" if "i < j" "j < i + n" for j
      using O(7) [OF that] nP [of j] that unfolding s4(3) by (auto simp: wiped_def)
    moreover have "fst (pv (recs p4 (Pg (i + n - 1)))) = Some (Pg i)" if "2 \<le> n"
    proof -
      have "i + n - 1 = i + (n - 1)" "i + (n - 1) \<noteq> i" "n - 1 \<noteq> 0" using that by auto
      then show ?thesis using nP [of "i + (n - 1)"] that unfolding s4(3) by simp
    qed
    ultimately show ?thesis using O(1) by simp
  qed
  have I4: "in_order p4 (xs @ (n, Free_run) # ys) (i # hs)"
  proof -
    have "tiles (recs p4) (last_page p) 0 xs"
      by (rule tiles_relinked [OF _ L]) (use D(1) i N out in fastforce)+
    moreover have "tiles (recs p4) (last_page p) (i + n) ys"
      by (rule tiles_relinked [OF _ L]) (use D(1) i N out in fastforce)+
    moreover have "ring (recs p4) (i # hs)"
    proof (rule ring_push [OF D(5)])
      show "i \<notin> set hs" using out O(1) by fastforce
      show "link (recs p4) Free_head (Pg i)" "nx (recs p4 (Pg i)) = Some ?n"
        using nP [of i] O(1) unfolding s4(3) by (auto simp: link_def)
      show "pv (recs p4 ?n) = (Some (Pg i), PAGE)" unfolding s4(3) by simp
      have far: "Pg x \<notin> Pg ` {i..<i + n}" if "x \<in> set hs" for x using out [OF that] by auto
      show "nx (recs p4 (Pg x)) = nx (recs p (Pg x))" if "x \<in> set hs" for x
        using L far [OF that] unfolding relinked_def by simp
      show "pv (recs p4 (Pg x)) = pv (recs p (Pg x))" if "x \<in> set hs" "Pg x \<noteq> ?n" for x
        using L far [OF that(1)] that(2) unfolding relinked_def by simp
    qed
    ultimately show ?thesis using t D(2,3,4,6) i unfolding in_order_def shape_fields [OF s4(1)]
      by (simp add: add.assoc)
  qed
  show thesis by (rule that [OF go I4 s4(1,2)])
qed

text \<open>Opening changes the pages of the run and, for a page of a size class, the links of its ring.\<close>

lemma opened:
  assumes I: "in_order p (xs @ (n, c) # ys) hs" and i: "i = span xs" and c: "c \<in> {Used_run, Slot_page}"
    and t: "tile (recs p') (last_page p) i (n, Opened)" and sh: "shape p' = shape p"
    and far: "\<And>r. r \<notin> Pg ` {i..<i + n} \<Longrightarrow> r \<notin> Pg ` (starts Slot_page 0 xs \<union> starts Slot_page (i + n) ys) \<Longrightarrow> r \<notin> range Slot \<Longrightarrow>
      recs p' r = recs p r"
    and slot: "\<And>j. j \<in> starts Slot_page 0 xs \<union> starts Slot_page (i + n) ys \<Longrightarrow> snd (pv (recs p' (Pg j))) \<noteq> PAGE"
  shows "in_order p' (xs @ (n, Opened) # ys) hs"
proof -
  note D = in_orderD [OF I]
  have T: "tiles (recs p) (last_page p) 0 xs" "tiles (recs p) (last_page p) (i + n) ys" and n: "1 \<le> n"
    using D(1) i tile_pos [of "recs p" "last_page p" i "(n, c)"] by auto
  have none: "starts Free_run s rs \<inter> starts Slot_page s rs = {}" if "tiles (recs p) e s rs" for e s rs
    using that
  proof (induction rs arbitrary: s)
    case (Cons r rs)
    then show ?case using starts_range [of "recs p" e "s + fst r" rs s] tile_pos [of "recs p" e s r] by (fastforce split: if_splits)
  qed simp
  note rx = starts_range [OF T(1)] and ry = starts_range [OF T(2)]
  have kx: "keeps (recs p) (recs p') 0 xs" unfolding keeps_def
  proof (intro allI impI)
    fix j
    assume j: "0 \<le> j \<and> j < 0 + span xs"
    have "recs p' (Pg j) = recs p (Pg j)" if "j \<notin> starts Slot_page 0 xs"
      by (rule far) (use that j i ry [of j] in auto)
    then show "if j \<in> starts Free_run 0 xs then sl (recs p' (Pg j)) = sl (recs p (Pg j))
         else if j \<in> starts Slot_page 0 xs then snd (pv (recs p' (Pg j))) \<noteq> PAGE
         else recs p' (Pg j) = recs p (Pg j)"
      using none [OF T(1)] slot [of j] by auto
  qed
  have ky: "keeps (recs p) (recs p') (i + n) ys" unfolding keeps_def
  proof (intro allI impI)
    fix j
    assume j: "i + n \<le> j \<and> j < i + n + span ys"
    have "recs p' (Pg j) = recs p (Pg j)" if "j \<notin> starts Slot_page (i + n) ys"
      by (rule far) (use that j i rx [of j] in auto)
    then show "if j \<in> starts Free_run (i + n) ys then sl (recs p' (Pg j)) = sl (recs p (Pg j))
         else if j \<in> starts Slot_page (i + n) ys then snd (pv (recs p' (Pg j))) \<noteq> PAGE
         else recs p' (Pg j) = recs p (Pg j)"
      using none [OF T(2)] slot [of j] by auto
  qed
  have same: "recs p' (Pg h) = recs p (Pg h)" if "h \<in> set hs" for h
  proof (rule far)
    have h: "h \<in> starts Free_run 0 xs \<or> h \<in> starts Free_run (i + n) ys" using that D(6) i c by auto
    then show "Pg h \<notin> Pg ` {i..<i + n}" using rx [of h] ry [of h] i by auto
    have "h \<notin> starts Slot_page 0 xs" if "h \<in> starts Free_run (i + n) ys" using that rx [of h] ry [of h] i n by fastforce
    moreover have "h \<notin> starts Slot_page (i + n) ys" if "h \<in> starts Free_run 0 xs" using that rx [of h] ry [of h] i n by fastforce
    ultimately show "Pg h \<notin> Pg ` (starts Slot_page 0 xs \<union> starts Slot_page (i + n) ys)"
      using h none [OF T(1)] none [OF T(2)] by auto
  qed auto
  have head: "recs p' Free_head = recs p Free_head" by (rule far) auto
  have "seg (recs p') a hs b" if "seg (recs p) a hs b" "set hs \<subseteq> set hs'" "recs p' a = recs p a" "b = Free_head"
    "\<And>h. h \<in> set hs' \<Longrightarrow> recs p' (Pg h) = recs p (Pg h)" for a b hs hs'
    using that by (induction hs arbitrary: a) (auto simp: link_def)
  then have "ring (recs p') hs" using D(5) same head unfolding ring_def by blast
  then show ?thesis
    using tiles_keeps [OF T(1) kx] tiles_keeps [OF T(2) ky] t D(2,3,4,6) i c
    unfolding in_order_def shape_fields [OF sh] by auto
qed

text \<open>A page of a size class whose neighbours in its ring are slots or pages of size classes.\<close>

definition slot_linked :: "slab \<Rightarrow> run list \<Rightarrow> nat \<Rightarrow> bool" where
  "slot_linked p rs i \<longleftrightarrow> (\<exists>q n. nx (recs p (Pg i)) = Some n \<and> fst (pv (recs p (Pg i))) = Some q \<and>
     (\<forall>r \<in> {q, n}. (\<exists>s < length (slots p). r = Slot s) \<or> (\<exists>j \<in> starts Slot_page 0 rs. j \<noteq> i \<and> r = Pg j)))"

lemma of_nat_u32:
  assumes "n < 2 ^ 32"
  shows "unat (of_nat n :: u32) = n" "ucast (of_nat n :: u32) = (of_nat n :: u64)"
proof -
  show u: "unat (of_nat n :: u32) = n" using assms by (simp add: unat_of_nat)
  have "ucast (of_nat n :: u32) = (of_nat (unat (of_nat n :: u32)) :: u64)" by (simp add: unat_up)
  then show "ucast (of_nat n :: u32) = (of_nat n :: u64)" using u by simp
qed

lemma open_run_used:
  assumes I: "in_order p (xs @ (n, Used_run) # ys) hs" and i: "i = span xs"
  obtains p' where "open_run i (of_nat n) p = Some p'" "in_order p' (xs @ (n, Opened) # ys) hs" "shape p' = shape p"
    "pfree p' = pfree p + of_nat n"
proof -
  note D = in_orderD [OF I]
  have t: "tile (recs p) (last_page p) i (n, Used_run)" using D(1) i by simp
  have n: "1 \<le> n" "i + n \<le> last_page p" "n < 2 ^ 32" using t D(2,4) i by auto
  have un: "unat (of_nat n :: u32) = n" "ucast (of_nat n :: u32) = (of_nat n :: u64)" using of_nat_u32 [OF n(3)] by auto
  have un1: "unat (of_nat n - 1 :: u32) = n - 1" using un(1) n(1) unat_sub [of 1 "of_nat n :: u32"] by (simp add: word_le_nat_alt)
  let ?p0 = "p\<lparr>pfree := pfree p + of_nat n\<rparr>"
  let ?p1 = "updr (Pg i) (\<lambda>x. x\<lparr>sl := of_nat n\<rparr>) ?p0"
  have v: "valid (Pg i) ?p0" using n D(3) by simp
  have p1: "shape ?p1 = shape p" "pfree ?p1 = pfree p + of_nat n"
    "recs ?p1 = (recs p)(Pg i := (recs p (Pg i))\<lparr>sl := of_nat n\<rparr>)"
    using v by (simp_all add: shape_updr pfree_updr recs_updr)
  have "i + 1 + (n - 1) \<le> length (pages ?p1)" using n D(3) shape_fields(2) [OF p1(1)] by simp
  then obtain p2 where p2: "wipe_pages (i + 1) (n - 1) ?p1 = Some p2" "shape p2 = shape ?p1" "pfree p2 = pfree ?p1"
    "recs p2 = paint (i + 1) (n - 1) \<lparr>sl = 0, nx = None, pv = (None, PAGE)\<rparr> (recs ?p1)"
    using wipe_pages_exec [of "i + 1" "n - 1" ?p1] by blast
  have ri: "recs p2 (Pg i) = \<lparr>sl = of_nat n, nx = None, pv = (None, PAGE)\<rparr>" using t p1(3) p2(4) by (auto simp: paint_def)
  have v2: "valid (Pg i) p2" using v p1(1) p2(2) by (metis shape_fields(3) pfree_upd(2))
  have "open_run i (of_nat n) p = Some p2"
    unfolding open_run_def using v p2(1) ri v2 un un1 by (simp add: upd_valid look_valid del: upd.simps look.simps valid_simps)
  moreover have "in_order p2 (xs @ (n, Opened) # ys) hs"
  proof (rule opened [OF I i])
    have "wiped (recs p2 (Pg j))" if "i < j" "j < i + n" for j using that p2(4) by (auto simp: paint_def)
    then show "tile (recs p2) (last_page p) i (n, Opened)" using n ri by simp
    have far: "recs p2 r = recs p r" if "r \<notin> Pg ` {i..<i + n}" for r using that n p1(3) p2(4) by (auto simp: paint_def)
    then show "recs p2 r = recs p r" if "r \<notin> Pg ` {i..<i + n}" for r using that by blast
    show "snd (pv (recs p2 (Pg j))) \<noteq> PAGE" if "j \<in> starts Slot_page 0 xs \<union> starts Slot_page (i + n) ys" for j
    proof -
      have "Pg j \<notin> Pg ` {i..<i + n}" using that D(1) i starts_range [of "recs p" "last_page p" 0 xs j Slot_page]
        starts_range [of "recs p" "last_page p" "i + n" ys j Slot_page] by auto
      moreover have "snd (pv (recs p (Pg j))) \<noteq> PAGE"
        using tiles_slot [OF D(1), of j] that i by auto
      ultimately show ?thesis using far by metis
    qed
  qed (use p1(1) p2(2) in auto)
  ultimately show thesis using that p1 p2 by simp
qed

lemma open_run_slot:
  assumes I: "in_order p (xs @ (1, Slot_page) # ys) hs" and i: "i = span xs"
    and l: "slot_linked p (xs @ (1, Slot_page) # ys) i"
  obtains p' where "open_run i 1 p = Some p'" "in_order p' (xs @ (1, Opened) # ys) hs" "shape p' = shape p" "pfree p' = pfree p + 1"
proof -
  note D = in_orderD [OF I]
  have t: "snd (pv (recs p (Pg i))) \<noteq> PAGE" and il: "i < last_page p" using D(1,2) i by auto
  obtain q n where qn: "nx (recs p (Pg i)) = Some n" "fst (pv (recs p (Pg i))) = Some q"
    and where_r: "\<And>r. r \<in> {q, n} \<Longrightarrow> (\<exists>s < length (slots p). r = Slot s) \<or> (\<exists>j \<in> starts Slot_page 0 xs \<union> starts Slot_page (i + 1) ys. r = Pg j \<and> j \<noteq> i)"
    using l i unfolding slot_linked_def by (fastforce split: if_splits)
  have valid: "valid r p" if "r \<in> {q, n}" for r
  proof -
    have "valid (Pg j) p" if "j \<in> starts Slot_page 0 xs \<union> starts Slot_page (i + 1) ys" for j
      using starts_range [OF D(1), of j Slot_page] that D(2,3) i by auto
    then show ?thesis using where_r [OF that] by auto
  qed
  have ne: "q \<noteq> Pg i" "n \<noteq> Pg i" using where_r [of q] where_r [of n] by auto
  let ?p0 = "p\<lparr>pfree := pfree p + 1\<rparr>"
  let ?p1 = "updr (Pg i) (\<lambda>x. x\<lparr>sl := 1\<rparr>) ?p0"
  have v: "valid (Pg i) ?p0" using il D(3) by simp
  have p1: "shape ?p1 = shape p" "pfree ?p1 = pfree p + 1" "recs ?p1 = (recs p)(Pg i := (recs p (Pg i))\<lparr>sl := 1\<rparr>)"
    using v by (simp_all add: shape_updr pfree_updr recs_updr)
  have V: "valid (Pg i) ?p1" "valid q ?p1" "valid n ?p1"
    using v valid shape_fields(3) [OF p1(1)] by (metis pfree_upd(2) insertCI)+
  obtain p2 where p2: "unlink (Pg i) ?p1 = Some p2" "shape p2 = shape ?p1" "pfree p2 = pfree ?p1"
    "recs p2 = ((recs ?p1)(q := (recs ?p1 q)\<lparr>nx := Some n\<rparr>))(n := (((recs ?p1)(q := (recs ?p1 q)\<lparr>nx := Some n\<rparr>)) n)\<lparr>pv := pv (recs ?p1 (Pg i))\<rparr>)"
    by (rule unlink_exec [OF V]) (use p1 qn ne in auto)
  have "open_run i 1 p = Some p2"
    unfolding open_run_def using v p2(1) V(1) p1(3) qn(1)
    by (simp add: upd_valid look_valid del: upd.simps look.simps valid_simps)
  moreover have "in_order p2 (xs @ (1, Opened) # ys) hs"
  proof (rule opened [OF I i])
    have "sl (recs p2 (Pg i)) = 1" using ne unfolding p2(4) p1(3) by simp
    then show "tile (recs p2) (last_page p) i (1, Opened)" by auto
    show "recs p2 r = recs p r" if "r \<notin> Pg ` {i..<i + 1}" "r \<notin> Pg ` (starts Slot_page 0 xs \<union> starts Slot_page (i + 1) ys)" "r \<notin> range Slot" for r
    proof -
      have "r \<noteq> q" "r \<noteq> n" using where_r [of r] that(2,3) by auto
      then show ?thesis using that(1) unfolding p2(4) p1(3) by auto
    qed
    show "snd (pv (recs p2 (Pg j))) \<noteq> PAGE" if "j \<in> starts Slot_page 0 xs \<union> starts Slot_page (i + 1) ys" for j
    proof -
      have "snd (pv (recs p (Pg j))) \<noteq> PAGE" using tiles_slot [OF D(1), of j] that i by auto
      then show ?thesis using t ne unfolding p2(4) p1(3) by auto
    qed
  qed (use p1(1) p2(2) in auto)
  ultimately show thesis using that p1 p2 by simp
qed

section \<open>The release of a run\<close>

text \<open>The free run next to a released one becomes part of it.\<close>

definition before :: "run list \<Rightarrow> run list \<times> nat" where
  "before xs = (if xs \<noteq> [] \<and> snd (last xs) = Free_run then (butlast xs, fst (last xs)) else (xs, 0))"

definition behind :: "run list \<Rightarrow> run list \<times> nat" where
  "behind ys = (if ys \<noteq> [] \<and> snd (hd ys) = Free_run then (tl ys, fst (hd ys)) else (ys, 0))"

definition release :: "run list \<Rightarrow> nat \<Rightarrow> run list \<Rightarrow> run list" where
  "release xs n ys = fst (before xs) @ (snd (before xs) + n + snd (behind ys), Free_run) # fst (behind ys)"

lemma release_span: "span (release xs n ys) = span xs + n + span ys"
proof -
  have "span (fst (before xs)) + snd (before xs) = span xs" by (cases xs rule: rev_cases) (auto simp: before_def)
  moreover have "span (fst (behind ys)) + snd (behind ys) = span ys" by (cases ys) (auto simp: behind_def)
  ultimately show ?thesis by (simp add: release_def)
qed

lemma release_free: "free_pages (release xs n ys) = free_pages xs + n + free_pages ys"
proof -
  have "free_pages (fst (before xs)) + snd (before xs) = free_pages xs" by (cases xs rule: rev_cases) (auto simp: before_def)
  moreover have "free_pages (fst (behind ys)) + snd (behind ys) = free_pages ys" by (cases ys) (auto simp: behind_def)
  ultimately show ?thesis by (simp add: release_def)
qed

lemma release_apart:
  assumes "apart (xs @ r # ys)"
  shows "apart (release xs n ys)"
proof -
  have "apart xs" "apart ys" using assms by (auto simp: apart_append apart_Cons)
  moreover have "apart (fst (before xs)) \<and> (fst (before xs) \<noteq> [] \<longrightarrow> snd (last (fst (before xs))) \<noteq> Free_run)"
    using \<open>apart xs\<close> by (cases xs rule: rev_cases) (auto simp: before_def apart_append)
  moreover have "apart (fst (behind ys)) \<and> (fst (behind ys) \<noteq> [] \<longrightarrow> snd (hd (fst (behind ys))) \<noteq> Free_run)"
    using \<open>apart ys\<close> by (cases ys) (auto simp: behind_def apart_Cons)
  ultimately show ?thesis by (auto simp: release_def apart_append apart_Cons)
qed

lemma release_closed:
  assumes "Opened \<notin> snd ` set xs" "Opened \<notin> snd ` set ys"
  shows "Opened \<notin> snd ` set (release xs n ys)"
proof -
  have "set (fst (before xs)) \<subseteq> set xs" by (auto simp: before_def dest: in_set_butlastD)
  moreover have "set (fst (behind ys)) \<subseteq> set ys" by (cases ys) (auto simp: behind_def)
  ultimately show ?thesis using assms by (auto simp: release_def)
qed

lemma used_or_slot: "Opened \<notin> snd ` set xs \<Longrightarrow> r \<in> set xs \<Longrightarrow> snd r \<noteq> Free_run \<Longrightarrow> snd r \<in> {Used_run, Slot_page}"
  by (cases "snd r") (auto simp: image_iff)

text \<open>From the opened run on.\<close>

lemma join_and_link:
  assumes I: "in_order p (xs @ (n, Opened) # ys) hs" and i: "i = span xs"
    and o: "Opened \<notin> snd ` set xs" "Opened \<notin> snd ` set ys"
  obtains p' hs' where "do { (k, p) \<leftarrow> join_next i (n - 1) p; (i, k, p) \<leftarrow> join_prev i k p; link_free i k p } = Some p'"
    "in_order p' (release xs n ys) hs'" "shape p' = shape p" "pfree p' = pfree p"
proof -
  obtain ys' b where b: "behind ys = (ys', b)" by fastforce
  obtain xs' a where a: "before xs = (xs', a)" by fastforce
  have n: "1 \<le> n" using opened_at(1) [OF I i] .
  obtain p1 hs1 where p1: "join_next i (n - 1) p = Some (n - 1 + b, p1)" "in_order p1 (xs @ (n + b, Opened) # ys') hs1"
    "shape p1 = shape p" "pfree p1 = pfree p"
  proof (cases "ys \<noteq> [] \<and> snd (hd ys) = Free_run")
    case True
    then have ys: "ys = (b, Free_run) # ys'" using b by (cases ys) (auto simp: behind_def)
    show ?thesis using join_next_free [OF I [unfolded ys] i, of "n - 1"] n that by auto
  next
    case False
    then have ys: "b = 0" "ys' = ys" using b by (auto simp: behind_def)
    have "snd (hd ys) \<in> {Used_run, Slot_page}" if "ys \<noteq> []" using used_or_slot [OF o(2), of "hd ys"] that False by simp
    then show ?thesis using join_next_stop [OF I i, of "n - 1"] that [of p hs] I ys by simp
  qed
  obtain p2 hs2 where p2: "join_prev i (n - 1 + b) p1 = Some (span xs', n - 1 + b + a, p2)"
    "in_order p2 (xs' @ (a + (n + b), Opened) # ys') hs2" "shape p2 = shape p1" "pfree p2 = pfree p1"
  proof (cases "xs \<noteq> [] \<and> snd (last xs) = Free_run")
    case True
    then have xs: "xs = xs' @ [(a, Free_run)]" using a by (cases xs rule: rev_cases) (auto simp: before_def)
    have I1: "in_order p1 (xs' @ (a, Free_run) # (n + b, Opened) # ys') hs1" using p1(2) xs by simp
    have "i = span xs' + a" using i xs by simp
    then show ?thesis using join_prev_free [OF I1, of i "n - 1 + b"] n that by auto
  next
    case False
    then have xs: "a = 0" "xs' = xs" using a by (auto simp: before_def)
    have "snd (last xs) \<in> {Used_run, Slot_page}" if "xs \<noteq> []" using used_or_slot [OF o(1), of "last xs"] that False by simp
    then show ?thesis using join_prev_stop [OF p1(2) i, of "n - 1 + b"] that [of p1 hs1] p1(2) xs i by simp
  qed
  obtain p3 where p3: "link_free (span xs') (a + (n + b) - 1) p2 = Some p3" "in_order p3 (xs' @ (a + (n + b), Free_run) # ys') (span xs' # hs2)"
    "shape p3 = shape p2" "pfree p3 = pfree p2"
    using link_free_exec [OF p2(2) refl] by metis
  have k: "a + (n + b) - 1 = n - 1 + b + a" using n by simp
  show thesis
  proof (rule that)
    show "do { (k, p) \<leftarrow> join_next i (n - 1) p; (i, k, p) \<leftarrow> join_prev i k p; link_free i k p } = Some p3"
      using p1(1) p2(1) p3(1) k by simp
    show "in_order p3 (release xs n ys) (span xs' # hs2)" using p3(2) a b by (simp add: release_def add.assoc)
  qed (use p1 p2 p3 in simp_all)
qed

text \<open>The run at \<open>i\<close> can be given back: it is handed out, or a page of a size class.\<close>

definition releasable :: "slab \<Rightarrow> run list \<Rightarrow> nat \<Rightarrow> run_kind \<Rightarrow> bool" where
  "releasable p rs i c \<longleftrightarrow> c = Used_run \<or> c = Slot_page \<and> slot_linked p rs i"

lemma free_pages_spec:
  assumes P: "slab_pages p (xs @ (n, c) # ys)" and c: "releasable p (xs @ (n, c) # ys) (span xs) c"
  shows "\<exists>p'. dl_slab_free_pages (span xs) (of_nat n) p = Some p' \<and> slab_pages p' (release xs n ys) \<and> shape p' = shape p"
proof -
  obtain hs where I: "in_order p (xs @ (n, c) # ys) hs" using P by (auto simp: slab_pages_def)
  note D = in_orderD [OF I]
  have o: "Opened \<notin> snd ` set xs" "Opened \<notin> snd ` set ys" and ap: "apart (xs @ (n, c) # ys)"
    and pf: "pfree p = of_nat (free_pages xs + free_pages ys)"
    using P c by (auto simp: slab_pages_def releasable_def)
  have t: "tile (recs p) (last_page p) (span xs) (n, c)" using D(1) by simp
  have n: "1 \<le> n" "n < 2 ^ 32" using tile_pos [OF t] D(2,4) by auto
  obtain p1 where p1: "open_run (span xs) (of_nat n) p = Some p1" "in_order p1 (xs @ (n, Opened) # ys) hs" "shape p1 = shape p"
    "pfree p1 = pfree p + of_nat n"
  proof (cases "c = Used_run")
    case True
    then show ?thesis using open_run_used [OF I [unfolded True] refl] that by metis
  next
    case False
    then have cs: "c = Slot_page" "slot_linked p (xs @ (n, c) # ys) (span xs)" using c by (auto simp: releasable_def)
    then have n1: "n = 1" using t by simp
    show ?thesis using open_run_slot [of p xs ys hs "span xs"] I cs n1 that by (metis of_nat_1)
  qed
  obtain p2 hs' where p2: "do { (k, p) \<leftarrow> join_next (span xs) (n - 1) p1; (i, k, p) \<leftarrow> join_prev (span xs) k p; link_free i k p } = Some p2"
    "in_order p2 (release xs n ys) hs'" "shape p2 = shape p1" "pfree p2 = pfree p1"
    using join_and_link [OF p1(2) refl o] by blast
  have un: "unat (of_nat n - 1 :: u32) = n - 1"
    using of_nat_u32(1) [OF n(2)] n(1) unat_sub [of 1 "of_nat n :: u32"] by (simp add: word_le_nat_alt)
  have "dl_slab_free_pages (span xs) (of_nat n) p = Some p2" unfolding dl_slab_free_pages_def using p1(1) p2(1) un by simp
  moreover have "pfree p2 = of_nat (free_pages (release xs n ys))" using p2(4) p1(4) pf by (simp add: release_free)
  ultimately show ?thesis
    using p2(2,3) p1(3) release_apart [OF ap] release_closed [OF o] unfolding slab_pages_def by auto
qed

end
