(* ===== verification/Dl_Slab_Props.thy ===== *)
theory Dl_Slab_Props
  imports Dl_Slab_Release
begin

text \<open>
  What the slab promises for requests above half a page, which are served with whole pages, and for the
  addresses it gets back. The page allocator is an interface of its own, so the results about it are
  proved from its laws.
\<close>

section \<open>The interface of the page allocator\<close>

locale page_source =
  fixes alloc :: "u32 \<Rightarrow> 's \<Rightarrow> (nat option \<times> 's) option"
    and free :: "nat \<Rightarrow> u32 \<Rightarrow> 's \<Rightarrow> 's option"
    and holds :: "'s \<Rightarrow> run list \<Rightarrow> bool"
  assumes alloc_law: "holds p rs \<Longrightarrow> 1 \<le> unat k \<Longrightarrow>
      (\<forall>m. (m, Free_run) \<in> set rs \<longrightarrow> m < unat k) \<and> alloc k p = Some (None, p)
    \<or> (\<exists>xs m ys p'. rs = xs @ (m, Free_run) # ys \<and> unat k \<le> m \<and> alloc k p = Some (Some (span xs), p')
         \<and> holds p' (xs @ take_run (unat k) m @ ys))"
    and free_law: "holds p (xs @ (n, Used_run) # ys) \<Longrightarrow> \<exists>p'. free (span xs) (of_nat n) p = Some p' \<and> holds p' (release xs n ys)"
    and apart_law: "holds p rs \<Longrightarrow> apart rs"
begin

lemma release_undoes:
  assumes "apart (xs @ (m, Free_run) # ys)" "k \<le> m"
  shows "release xs k (tl (take_run k m) @ ys) = xs @ (m, Free_run) # ys"
  using assms by (auto simp: release_def before_def behind_def take_run_def apart_append apart_Cons)

text \<open>A request that is given back leaves the division into runs as it was.\<close>

lemma undo:
  assumes H: "holds p rs" and k: "1 \<le> unat k" and a: "alloc k p = Some (Some s, p')"
  shows "\<exists>p''. free s k p' = Some p'' \<and> holds p'' rs"
proof -
  obtain xs m ys where rs: "rs = xs @ (m, Free_run) # ys" "unat k \<le> m" "s = span xs"
    "holds p' (xs @ take_run (unat k) m @ ys)"
    using alloc_law [OF H k] a by auto
  have "xs @ take_run (unat k) m @ ys = xs @ (unat k, Used_run) # (tl (take_run (unat k) m) @ ys)"
    by (simp add: take_run_def)
  then obtain p'' where "free (span xs) (of_nat (unat k)) p' = Some p''" "holds p'' (release xs (unat k) (tl (take_run (unat k) m) @ ys))"
    using free_law rs(4) by metis
  then show ?thesis using release_undoes [of xs m ys "unat k"] apart_law [OF H] rs by simp
qed

text \<open>A request fails only when no free run is long enough.\<close>

lemma fails_only_if_full:
  assumes "holds p rs" "1 \<le> unat k" "alloc k p = Some (None, p')"
  shows "p' = p" "(m, Free_run) \<in> set rs \<Longrightarrow> m < unat k"
  using alloc_law [OF assms(1,2)] assms(3) by auto

end

interpretation pg: page_source dl_slab_alloc_pages dl_slab_free_pages slab_pages
proof unfold_locales
  show "(\<forall>m. (m, Free_run) \<in> set rs \<longrightarrow> m < unat k) \<and> dl_slab_alloc_pages k p = Some (None, p)
    \<or> (\<exists>xs m ys p'. rs = xs @ (m, Free_run) # ys \<and> unat k \<le> m \<and> dl_slab_alloc_pages k p = Some (Some (span xs), p')
         \<and> slab_pages p' (xs @ take_run (unat k) m @ ys))" if "slab_pages p rs" "1 \<le> unat k" for p rs k
    using alloc_pages_spec [OF that] by blast
  show "\<exists>p'. dl_slab_free_pages (span xs) (of_nat n) p = Some p' \<and> slab_pages p' (release xs n ys)"
    if "slab_pages p (xs @ (n, Used_run) # ys)" for p xs n ys
    using free_pages_spec [OF that] by (auto simp: releasable_def)
  show "slab_pages p rs \<Longrightarrow> apart rs" for p rs by (simp add: slab_pages_def)
qed

section \<open>Addresses\<close>

text \<open>The pages lie at a multiple of the page size and inside the mapping.\<close>

definition slab_geometry :: "globals \<Rightarrow> slab \<Rightarrow> bool" where
  "slab_geometry G p \<longleftrightarrow> pagesize G = 2 ^ pagesize_shift G \<and> pagesize_shift G < 32 \<and> pagesize G dvd unat (start p)
     \<and> unat (start p) + last_page p * pagesize G \<le> unat (send p)"

lemma geometryD:
  assumes "slab_geometry G p"
  shows "pagesize G = 2 ^ pagesize_shift G" "0 < pagesize G" "pagesize G dvd unat (start p)"
    "unat (start p) + last_page p * pagesize G \<le> unat (send p)" "pagesize_shift G < 64"
  using assms unfolding slab_geometry_def by auto

lemma word_below [simp]: "unat (w :: u64) < 2 ^ 64"
  by (rule order_less_le_trans [OF unsigned_less]) simp

lemma of_nat_u64: "n < 2 ^ 64 \<Longrightarrow> unat (of_nat n :: u64) = n"
  by (simp add: unat_of_nat)

lemma drop_unat: "unat (drop_bit s (w :: u64)) = unat w div 2 ^ s"
proof -
  have "take_bit LENGTH(64) (unat w) = unat w" using word_below [of w] by (simp add: take_bit_nat_eq_self)
  then show ?thesis unfolding unsigned_drop_bit_eq by (simp only: drop_bit_eq_div)
qed

lemma down_of_nat: "n < 2 ^ 64 \<Longrightarrow> (ucast (of_nat n :: u64) :: u32) = of_nat n"
proof -
  assume "n < 2 ^ 64"
  have "(ucast w :: u32) = of_nat (unat w)" for w :: u64 by simp
  then show ?thesis using of_nat_u64 [OF \<open>n < 2 ^ 64\<close>] by metis
qed

lemma ceil_div:
  assumes "0 < (P :: nat)"
  shows "(n + P - 1) div P = n div P + (if n mod P \<noteq> 0 then 1 else 0)"
proof -
  obtain q r where n: "n = P * q + r" "r < P" using assms by (metis mult_div_mod_eq mod_less_divisor)
  show ?thesis
  proof (cases "r = 0")
    case True
    then have "n + P - 1 = P * q + (P - 1)" "P - 1 < P" using n assms by auto
    then have "(n + P - 1) div P = q" using assms by (simp only: div_mult_self4) simp
    then show ?thesis using n True assms by simp
  next
    case False
    then have "n + P - 1 = P * (q + 1) + (r - 1)" "r - 1 < P" using n by auto
    then have "(n + P - 1) div P = q + 1" using assms by (simp only: div_mult_self4) simp
    moreover have "n div P = q" "n mod P = r" using n by auto
    ultimately show ?thesis using False by simp
  qed
qed

lemma aligned_iff: "s < 64 \<Longrightarrow> aligned a (2 ^ s) \<longleftrightarrow> 2 ^ s dvd unat a"
proof -
  assume s: "s < 64"
  have "a AND (2 ^ s - 1) = take_bit s a" by (simp add: take_bit_eq_mask mask_eq_exp_minus_1)
  then have "aligned a (2 ^ s) \<longleftrightarrow> take_bit s a = 0" by (simp add: aligned_def)
  also have "\<dots> \<longleftrightarrow> unat (take_bit s a) = 0" by (simp add: unat_eq_0)
  also have "\<dots> \<longleftrightarrow> unat a mod 2 ^ s = 0" by (simp only: unsigned_take_bit_eq take_bit_nat_def)
  finally show ?thesis by (simp add: dvd_eq_mod_eq_0)
qed

lemma page_addr_unat:
  assumes "slab_geometry G p" "i \<le> last_page p"
  shows "unat (dl_slab_page_addr G p i) = unat (start p) + i * pagesize G"
proof -
  have "i * pagesize G \<le> last_page p * pagesize G" using assms(2) by simp
  then have "unat (start p) + i * pagesize G < 2 ^ 64"
    using assms(1) word_below [of "send p"] unfolding slab_geometry_def by linarith
  moreover have "dl_slab_page_addr G p i = of_nat (unat (start p) + i * pagesize G)"
    using assms(1) by (simp add: dl_slab_page_addr_def slab_geometry_def push_bit_eq_mult)
  ultimately show ?thesis using of_nat_u64 by metis
qed

text \<open>The page of an address.\<close>

lemma page_of_addr:
  assumes "slab_geometry G p" "i < last_page p" "unat a = unat (start p) + i * pagesize G + d" "d < pagesize G"
  shows "\<not> a < start p" "\<not> send p < a" "unat (drop_bit (pagesize_shift G) (a - start p)) = i"
    "aligned a (pagesize G) \<longleftrightarrow> d = 0"
proof -
  have "(i + 1) * pagesize G \<le> last_page p * pagesize G" using assms(2) by (intro mult_le_mono1) simp
  then have "i * pagesize G + pagesize G \<le> last_page p * pagesize G" by simp
  moreover have "unat (start p) + last_page p * pagesize G \<le> unat (send p)" using assms(1) unfolding slab_geometry_def by blast
  ultimately have "unat a < unat (send p)" using assms(3,4) by linarith
  then show "\<not> send p < a" by (simp add: word_less_nat_alt)
  show ge: "\<not> a < start p" using assms(3) by (simp add: word_less_nat_alt)
  then have "unat (a - start p) = i * pagesize G + d" using assms(3) by (simp add: unat_sub not_less)
  then show "unat (drop_bit (pagesize_shift G) (a - start p)) = i"
    using assms(1,4) unfolding slab_geometry_def drop_unat by simp
  have "pagesize G dvd unat a \<longleftrightarrow> pagesize G dvd d"
  proof -
    have "pagesize G dvd unat (start p) + i * pagesize G" using geometryD(3) [OF assms(1)] by (rule dvd_add) simp
    then show ?thesis unfolding assms(3) by (metis dvd_add_right_iff)
  qed
  also have "\<dots> \<longleftrightarrow> d = 0" using assms(4) by (auto dest: dvd_imp_le)
  finally show "aligned a (pagesize G) \<longleftrightarrow> d = 0" using assms(1) aligned_iff [of "pagesize_shift G" a] by (simp add: slab_geometry_def)
qed

text \<open>The mark in the record of a run that is handed out.\<close>

lemma marked:
  assumes "n < 2 ^ 32"
  shows "(of_nat n OR PAGE_START) AND PAGE_START \<noteq> 0" "of_nat n OR PAGE_START \<noteq> PAGE_BUSY"
    "(of_nat n OR PAGE_START) AND NOT PAGE_START = of_nat n" "of_nat n AND PAGE_START = 0"
proof -
  have start_bit: "bit PAGE_START j \<longleftrightarrow> j = 63" for j
  proof -
    have p: "PAGE_START = push_bit 63 1" by simp
    show ?thesis unfolding p bit_push_bit_iff bit_1_iff by auto
  qed
  have small: "\<not> bit (of_nat n :: u64) j" if "32 \<le> j" for j
  proof -
    have "(of_nat n :: u64) = take_bit 32 (of_nat n)"
      using assms by (simp flip: of_nat_take_bit) (simp add: take_bit_nat_eq_self)
    then show ?thesis using that by (metis bit_take_bit_iff not_less)
  qed
  have "bit ((of_nat n OR PAGE_START) AND PAGE_START) 63" by (simp add: bit_and_iff bit_or_iff start_bit)
  then show "(of_nat n OR PAGE_START) AND PAGE_START \<noteq> 0" by (metis bit_0_eq bot_apply bot_bool_def)
  have "\<not> bit (of_nat n OR PAGE_START) 62" using small [of 62] by (simp add: bit_or_iff start_bit)
  moreover have "bit PAGE_BUSY 62" by simp
  ultimately show "of_nat n OR PAGE_START \<noteq> PAGE_BUSY" by metis
  show "(of_nat n OR PAGE_START) AND NOT PAGE_START = of_nat n"
  proof (rule bit_word_eqI)
    fix j
    assume "j < LENGTH(64)"
    then show "bit ((of_nat n OR PAGE_START) AND NOT PAGE_START) j \<longleftrightarrow> bit (of_nat n :: u64) j"
      using small [of j] by (simp only: bit_and_iff bit_or_iff bit_not_iff start_bit) auto
  qed
  show "of_nat n AND PAGE_START = 0"
  proof (rule bit_word_eqI)
    fix j
    show "bit (of_nat n AND PAGE_START) j \<longleftrightarrow> bit (0 :: u64) j"
      using small [of j] by (simp only: bit_and_iff start_bit) auto
  qed
qed

section \<open>Requests above half a page\<close>

text \<open>The number of pages a request needs.\<close>

definition pages_for :: "globals \<Rightarrow> nat \<Rightarrow> nat" where
  "pages_for G n = (n + pagesize G - 1) div pagesize G"

lemma pages_for_le: "0 < pagesize G \<Longrightarrow> n \<le> pages_for G n * pagesize G"
  unfolding pages_for_def using dividend_less_div_times [of "pagesize G" "n + pagesize G - 1"] by linarith

lemma pages_for_pos: "0 < n \<Longrightarrow> 0 < pagesize G \<Longrightarrow> 1 \<le> pages_for G n"
  unfolding pages_for_def by (simp add: div_greater_zero_iff Suc_le_eq)

text \<open>The count the code computes.\<close>

definition page_count :: "globals \<Rightarrow> u64 \<Rightarrow> u32" where
  "page_count G sz = ucast (drop_bit (pagesize_shift G) sz + (if unat sz mod pagesize G \<noteq> 0 then 1 else 0))"

lemma page_count:
  assumes "slab_geometry G p" "pages_for G (unat sz) < 2 ^ 32"
  shows "unat (page_count G sz) = pages_for G (unat sz)"
proof -
  note g = geometryD [OF assms(1)]
  have up: "pages_for G (unat sz) = unat sz div pagesize G + (if unat sz mod pagesize G \<noteq> 0 then 1 else 0)"
    unfolding pages_for_def by (rule ceil_div [OF g(2)])
  have "unat (drop_bit (pagesize_shift G) sz) = unat sz div pagesize G" unfolding drop_unat g(1) ..
  moreover have "drop_bit (pagesize_shift G) sz = of_nat (unat (drop_bit (pagesize_shift G) sz))" by simp
  ultimately have d: "drop_bit (pagesize_shift G) sz = of_nat (unat sz div pagesize G)" by metis
  have "drop_bit (pagesize_shift G) sz + (if unat sz mod pagesize G \<noteq> 0 then 1 else 0) = of_nat (pages_for G (unat sz))"
    unfolding d up by simp
  then have "page_count G sz = ucast (of_nat (pages_for G (unat sz)) :: u64)" by (simp only: page_count_def)
  also have "\<dots> = of_nat (pages_for G (unat sz))" by (rule down_of_nat) (use assms(2) in simp)
  finally show ?thesis using of_nat_u32(1) [OF assms(2)] by (simp only:)
qed

lemma shape_geometry: "shape p' = shape p \<Longrightarrow> slab_geometry G p' = slab_geometry G p"
proof -
  assume "shape p' = shape p"
  then have "start p' = start p" "send p' = send p" "last_page p' = last_page p" by (rule shape_fields)+
  then show ?thesis by (simp add: slab_geometry_def)
qed

lemma alloc_large_code:
  assumes "max_size G < unat sz" "dl_slab_alloc_pages (page_count G sz) p = Some (i, p')"
  shows "dl_slab_alloc G sz p = Some (map_option (dl_slab_page_addr G p') i, p')"
  using assms by (simp add: dl_slab_alloc_def dl_slab_alloc_locked_def page_count_def)

lemma alloc_large:
  assumes "slab_pages p rs" "slab_geometry G p" "max_size G < unat sz" "pages_for G (unat sz) < 2 ^ 32"
  shows "(\<forall>m. (m, Free_run) \<in> set rs \<longrightarrow> m < pages_for G (unat sz)) \<and> dl_slab_alloc G sz p = Some (None, p)
    \<or> (\<exists>xs m ys a p'. rs = xs @ (m, Free_run) # ys \<and> pages_for G (unat sz) \<le> m
         \<and> dl_slab_alloc G sz p = Some (Some a, p') \<and> unat a = unat (start p) + span xs * pagesize G
         \<and> unat a + unat sz \<le> unat (send p)
         \<and> slab_pages p' (xs @ take_run (pages_for G (unat sz)) m @ ys) \<and> slab_geometry G p')"
proof -
  define k where "k = pages_for G (unat sz)"
  let ?w = "page_count G sz"
  have w: "unat ?w = k" using page_count [OF assms(2,4)] by (simp add: k_def)
  note P = geometryD(2) [OF assms(2)]
  have k: "1 \<le> unat ?w" unfolding w k_def by (rule pages_for_pos) (use assms(3) P in auto)
  from alloc_pages_spec [OF assms(1) k] show ?thesis
  proof (elim disjE exE conjE)
    assume full: "\<forall>m. (m, Free_run) \<in> set rs \<longrightarrow> m < unat ?w" "dl_slab_alloc_pages ?w p = Some (None, p)"
    have "dl_slab_alloc G sz p = Some (None, p)" using alloc_large_code [OF assms(3) full(2)] by simp
    then show ?thesis using full(1) unfolding w k_def by (intro disjI1 conjI)
  next
    fix xs m ys p'
    assume some: "rs = xs @ (m, Free_run) # ys" "unat ?w \<le> m" "dl_slab_alloc_pages ?w p = Some (Some (span xs), p')"
      "slab_pages p' (xs @ take_run (unat ?w) m @ ys)" "shape p' = shape p"
    have "span rs = last_page p" using assms(1) by (auto simp: slab_pages_def in_order_def)
    then have l: "span xs + k \<le> last_page p" using some(1,2) w by simp
    have g: "slab_geometry G p'" using assms(2) some(5) shape_geometry by blast
    have "span xs \<le> last_page p'" using l shape_fields(1) [OF some(5)] by simp
    then have a: "unat (dl_slab_page_addr G p' (span xs)) = unat (start p) + span xs * pagesize G"
      using page_addr_unat [OF g] shape_fields(4) [OF some(5)] by simp
    have "(span xs + k) * pagesize G \<le> last_page p * pagesize G" using l by (rule mult_le_mono1)
    then have "span xs * pagesize G + k * pagesize G \<le> last_page p * pagesize G" by (simp add: add_mult_distrib)
    moreover have "unat sz \<le> k * pagesize G" unfolding k_def using pages_for_le [OF P] .
    ultimately have "unat (dl_slab_page_addr G p' (span xs)) + unat sz \<le> unat (send p)"
      using a geometryD(4) [OF assms(2)] by linarith
    moreover have "dl_slab_alloc G sz p = Some (Some (dl_slab_page_addr G p' (span xs)), p')"
      using alloc_large_code [OF assms(3) some(3)] by simp
    moreover have "pages_for G (unat sz) \<le> m" "slab_pages p' (xs @ take_run (pages_for G (unat sz)) m @ ys)"
      using some(2,4) unfolding w k_def .
    ultimately have "rs = xs @ (m, Free_run) # ys \<and> pages_for G (unat sz) \<le> m
         \<and> dl_slab_alloc G sz p = Some (Some (dl_slab_page_addr G p' (span xs)), p')
         \<and> unat (dl_slab_page_addr G p' (span xs)) = unat (start p) + span xs * pagesize G
         \<and> unat (dl_slab_page_addr G p' (span xs)) + unat sz \<le> unat (send p)
         \<and> slab_pages p' (xs @ take_run (pages_for G (unat sz)) m @ ys) \<and> slab_geometry G p'"
      using some(1) a g by (intro conjI)
    then show ?thesis by (intro disjI2) (intro exI)
  qed
qed

lemma free_run_code:
  assumes I: "in_order p (xs @ (n, c) # ys) hs" and g: "slab_geometry G p" and j: "span xs \<le> j" "j < span xs + n"
    and a: "unat a = unat (start p) + j * pagesize G + d" "d < pagesize G"
    and t: "snd (pv (recs p (Pg j))) = PAGE"
  shows "dl_slab_free G a p = (if d \<noteq> 0 then Some (Wrong_chunk, p)
    else if sl (recs p (Pg j)) AND PAGE_START = 0 then Some (Refused, p)
    else if sl (recs p (Pg j)) = PAGE_BUSY then Some (Refused, p)
    else do { p \<leftarrow> dl_slab_free_pages j (ucast (sl (recs p (Pg j)) AND NOT PAGE_START)) p; Some (Freed, p) })"
proof -
  note D = in_orderD [OF I]
  have jl: "j < last_page p" using D(2) j by simp
  note A = page_of_addr [OF g jl a]
  have "valid (Pg j) p" using jl D(3) by simp
  then show ?thesis
    unfolding dl_slab_free_def dl_slab_free_locked_def free_run_def dl_slab_page_type_def
    using A t by (simp add: look_valid Let_def del: look.simps valid_simps)
qed

lemma free_large:
  assumes "slab_pages p (xs @ (n, Used_run) # ys)" "slab_geometry G p" "unat a = unat (start p) + span xs * pagesize G"
  shows "\<exists>p'. dl_slab_free G a p = Some (Freed, p') \<and> slab_pages p' (release xs n ys) \<and> slab_geometry G p'"
proof -
  obtain hs where I: "in_order p (xs @ (n, Used_run) # ys) hs" using assms(1) by (auto simp: slab_pages_def)
  note D = in_orderD [OF I]
  have t: "tile (recs p) (last_page p) (span xs) (n, Used_run)" using D(1) by simp
  have n: "1 \<le> n" "n < 2 ^ 32" using t D(2,4) by auto
  have P: "0 < pagesize G" using assms(2) by (simp add: slab_geometry_def)
  obtain p' where p': "dl_slab_free_pages (span xs) (of_nat n) p = Some p'" "slab_pages p' (release xs n ys)" "shape p' = shape p"
    using free_pages_spec [OF assms(1)] by (auto simp: releasable_def)
  have "(ucast (of_nat n :: u64) :: u32) = of_nat n" by (rule down_of_nat) (use n(2) in simp)
  then have "dl_slab_free G a p = Some (Freed, p')"
    using free_run_code [OF I assms(2), of "span xs" a 0] n assms(3) P t p'(1) marked [OF n(2)] by simp
  then show ?thesis using p' shape_geometry [OF p'(3)] assms(2) by blast
qed

end
