(* ===== verification/Dl_Slab_Init.thy ===== *)
theory Dl_Slab_Init
  imports Dl_Slab_Props
begin

text \<open>
  Initialisation: the first call in a process gives a pool whose pages are one free run. The shift of the
  page size is counted up from the value it has, so a later call doubles it.
\<close>

lemma log_loop_exp: "log_loop (2 ^ s) k = k + s"
proof (induction s arbitrary: k)
  case 0
  then show ?case by (subst log_loop.simps) simp
next
  case (Suc s)
  then show ?case by (subst log_loop.simps) simp
qed

lemma init_globals_exp:
  "pagesize (init_globals (2 ^ s) G) = 2 ^ s" "pagesize_shift (init_globals (2 ^ s) G) = pagesize_shift G + s"
  by (auto simp: init_globals_def log_loop_exp Let_def)

lemma u64_eq: "unat (w :: u64) = n \<Longrightarrow> w = of_nat n"
proof -
  assume "unat w = n"
  moreover have "w = of_nat (unat w)" by simp
  ultimately show ?thesis by metis
qed

text \<open>\<^verbatim>\<open>dl_align_ptr\<close>\<close>

lemma align_down:
  assumes "s < 64"
  shows "unat (w AND NOT (of_nat (2 ^ s) - 1) :: u64) = unat w div 2 ^ s * 2 ^ s"
proof -
  have "w AND NOT (of_nat (2 ^ s) - 1) = push_bit s (drop_bit s w)"
  proof (rule bit_word_eqI)
    fix j
    assume "j < LENGTH(64)"
    moreover have "of_nat (2 ^ s) - 1 = (mask s :: u64)" by (simp add: mask_eq_exp_minus_1)
    ultimately show "bit (w AND NOT (of_nat (2 ^ s) - 1)) j \<longleftrightarrow> bit (push_bit s (drop_bit s w)) j"
      by (auto simp: bit_and_iff bit_not_iff bit_mask_iff bit_push_bit_iff bit_drop_bit_eq)
  qed
  also have "\<dots> = of_nat (unat w div 2 ^ s * 2 ^ s)"
    using u64_eq [OF drop_unat [of s w]] by (simp add: push_bit_eq_mult)
  also have "unat \<dots> = unat w div 2 ^ s * 2 ^ s"
    by (rule of_nat_u64) (rule order_le_less_trans [OF _ word_below [of w]], simp add: div_times_less_eq_dividend)
  finally show ?thesis .
qed

text \<open>Addresses as numbers.\<close>

lemma add_u64: "unat (a :: u64) + n < 2 ^ 64 \<Longrightarrow> unat (a + of_nat n) = unat a + n"
proof -
  assume "unat a + n < 2 ^ 64"
  moreover have "a + of_nat n = of_nat (unat a + n)" by simp
  ultimately show ?thesis using of_nat_u64 by metis
qed

lemma sub_u64: "unat (b :: u64) \<le> unat (a :: u64) \<Longrightarrow> unat (a - b) = unat a - unat b"
  by (simp add: unat_sub word_le_nat_alt)

lemma div_u64: "0 < n \<Longrightarrow> n < 2 ^ 64 \<Longrightarrow> unat ((a :: u64) div of_nat n) = unat a div n"
  by (simp add: unat_div of_nat_u64)

lemma cnt_u32: "unat (w :: u64) < 2 ^ 32 \<Longrightarrow> unat (ucast w :: u32) = unat w"
  using down_of_nat [of "unat w"] of_nat_u32(1) [of "unat w"] by (simp add: word_below)

text \<open>The layout of a mapping: the number of pages that fit beside their records, and the aligned start.\<close>

lemma layout:
  fixes base fin pg :: nat
  assumes "0 < pg" and cnt: "cnt = (fin - base) div (pg + 24)" "2 \<le> cnt" and st: "st = (base + cnt * 24 + pg - 1) div pg * pg"
    and q: "q = (fin - st) div pg"
  shows "base + cnt * 24 \<le> st" "st \<le> fin" "base + cnt * 24 + pg - 1 < fin" "1 \<le> q" "cnt \<le> q + 1"
    "st + q * pg \<le> fin" "pg dvd st"
proof -
  have "cnt * (pg + 24) \<le> fin - base" unfolding cnt(1) by (rule div_times_less_eq_dividend)
  moreover have "2 * (pg + 24) \<le> cnt * (pg + 24)" using cnt(2) by (rule mult_le_mono1)
  ultimately have c: "base + cnt * pg + cnt * 24 \<le> fin" using assms(1) by (simp add: add_mult_distrib2)
  let ?x = "base + cnt * 24 + pg - 1"
  have d: "?x = ?x div pg * pg + ?x mod pg" "?x mod pg < pg" using assms(1) by simp_all
  then show 1: "base + cnt * 24 \<le> st" unfolding st by linarith
  have "2 * pg \<le> cnt * pg" using cnt(2) by (rule mult_le_mono1)
  then show 3: "?x < fin" using c assms(1) by linarith
  have sx: "st \<le> ?x" unfolding st by (rule div_times_less_eq_dividend)
  then show 2: "st \<le> fin" using 3 by linarith
  have "cnt * pg = (cnt - 1) * pg + pg" using cnt(2) by (metis add.commute le_add_diff_inverse2 mult_Suc numeral_le_one_iff One_nat_def plus_1_eq_Suc add_leE one_add_one)
  then have "(cnt - 1) * pg \<le> fin - st" using c sx assms(1) by linarith
  then have "cnt - 1 \<le> q" unfolding q using assms(1) by (simp add: less_eq_div_iff_mult_less_eq)
  then show "cnt \<le> q + 1" "1 \<le> q" using cnt(2) by auto
  have "q * pg \<le> fin - st" unfolding q by (rule div_times_less_eq_dividend)
  then show "st + q * pg \<le> fin" using 2 by linarith
  show "pg dvd st" unfolding st by simp
qed

text \<open>The header of a pool: the pool record, the slots and their counters.\<close>

definition header :: "nat \<Rightarrow> nat" where
  "header n = 128 + n * 40"

lemma replicate_wiped: "i < k \<Longrightarrow> (replicate k \<lparr>sl = 0, nx = None, pv = (None, PAGE)\<rparr> :: spage list) ! i = \<lparr>sl = 0, nx = None, pv = (None, PAGE)\<rparr>"
  by simp

lemma init_slab_pages:
  assumes "pages p = \<lparr>sl = of_nat c, nx = Some Free_head, pv = (Some Free_head, PAGE)\<rparr> # replicate k \<lparr>sl = 0, nx = None, pv = (None, PAGE)\<rparr>"
    and "last_page p = c" "1 \<le> c" "c \<le> k + 1" "c < 2 ^ 32" "nx (free_head p) = Some (Pg 0)" "pfree p = of_nat c"
  shows "slab_pages p [(c, Free_run)]"
proof -
  have "wiped (recs p (Pg j))" if "0 < j" "j < c" for j
    using that assms(1,4) by (cases j) (auto simp: recs_def)
  moreover have "ring (recs p) [0]" using assms(1,6) by (simp add: ring_def link_def recs_def)
  ultimately have "in_order p [(c, Free_run)] [0]" using assms by (auto simp: in_order_def recs_def)
  then show ?thesis using assms(7) by (auto simp: slab_pages_def apart_def)
qed

lemma init_pages:
  assumes s: "s < 32" and n: "n = pagesize_shift G + s - mshift"
    and sz: "header n + 2 * (2 ^ s + 24) \<le> sz" "unat addr + sz < 2 ^ 64" "sz < 2 ^ (32 + s)"
  obtains c p where "dl_slab_init (2 ^ s) addr (addr + of_nat sz) mshift mem G = Some (init_globals (2 ^ s) G, p)"
    "slab_pages p [(c, Free_run)]" "pagesize_shift G = 0 \<Longrightarrow> slab_geometry (init_globals (2 ^ s) G) p" "1 \<le> c" "unat (start p) \<ge> unat addr + header n"
    "unat (send p) = unat addr + sz" "sz < header n + (c + 2) * (2 ^ s + 24)" "unat (start p) \<le> unat (send p)"
proof -
  let ?pg = "2 ^ s :: nat" and ?fin = "unat addr + sz" and ?base = "unat addr + header n"
  define cnt where "cnt = (?fin - ?base) div (?pg + 24)"
  define stn where "stn = (?base + cnt * 24 + ?pg - 1) div ?pg * ?pg"
  define q where "q = (?fin - stn) div ?pg"
  have h: "header n = 128 + n * 40" by (simp add: header_def)
  have c2: "2 \<le> cnt" unfolding cnt_def using sz(1) by (simp add: less_eq_div_iff_mult_less_eq)
  note L = layout [OF _ cnt_def c2 stn_def q_def]
  have pos: "0 < ?pg" by simp
  have c32: "cnt < 2 ^ 32"
  proof -
    have "sz - header n < 2 ^ 32 * (?pg + 24)" using sz(3) by (simp add: power_add)
    then show ?thesis unfolding cnt_def by (simp add: less_mult_imp_div_less)
  qed
  have pgp: "?pg + 24 < 2 ^ 64"
  proof -
    have "?pg \<le> 2 ^ 32" by (rule power_increasing) (use s in auto)
    then show ?thesis by simp
  qed
  \<comment> \<open>the words of the code\<close>
  let ?w_fin = "addr + of_nat sz" and ?w_a = "addr + 128"
  have fin: "unat ?w_fin = ?fin" by (rule add_u64) (use sz in simp)
  have ua: "unat ?w_a = unat addr + 128" using add_u64 [of addr 128] sz h by simp
  let ?w_base = "?w_a + of_nat (n * 24) + of_nat (n * 16)"
  have b: "unat ?w_base = ?base"
  proof -
    have "unat (?w_a + of_nat (n * 24)) = unat addr + 128 + n * 24" using add_u64 [of ?w_a "n * 24"] sz h ua by simp
    then show ?thesis using add_u64 [of "?w_a + of_nat (n * 24)" "n * 16"] sz h by simp
  qed
  let ?w_sz = "?w_fin - ?w_a - of_nat (n * (24 + 16))"
  have wsz: "unat ?w_sz = ?fin - ?base"
  proof -
    have "unat (?w_fin - ?w_a) = ?fin - (unat addr + 128)" using sub_u64 [of ?w_a ?w_fin] fin ua sz h by simp
    moreover have "unat (of_nat (n * 40) :: u64) = n * 40" by (rule of_nat_u64) (use sz h in simp)
    ultimately show ?thesis using sub_u64 [of "of_nat (n * (24 + 16))" "?w_fin - ?w_a"] sz h by simp
  qed
  have wc: "unat (ucast (?w_sz div of_nat (?pg + 24)) :: u32) = cnt"
    using cnt_u32 [of "?w_sz div of_nat (?pg + 24)"] div_u64 [of "?pg + 24" ?w_sz] pgp wsz c32 unfolding cnt_def by simp
  let ?w_x = "?w_base + of_nat (cnt * 24) + of_nat ?pg - 1"
  have wx: "unat ?w_x = ?base + cnt * 24 + ?pg - 1"
  proof -
    have lt: "?base + cnt * 24 + ?pg < 2 ^ 64" using L(3) [OF pos] sz(2) by linarith
    then have "unat (?w_base + of_nat (cnt * 24)) = ?base + cnt * 24" using add_u64 [of ?w_base "cnt * 24"] b by simp
    then have u: "unat (?w_base + of_nat (cnt * 24) + of_nat ?pg) = ?base + cnt * 24 + ?pg"
      using add_u64 [of "?w_base + of_nat (cnt * 24)" ?pg] lt by simp
    have "unat (1 :: u64) \<le> unat (?w_base + of_nat (cnt * 24) + of_nat ?pg)" unfolding u unsigned_1 using pos by linarith
    then show ?thesis using sub_u64 [of 1 "?w_base + of_nat (cnt * 24) + of_nat ?pg"] unfolding u by (simp only: unsigned_1)
  qed
  let ?w_st = "?w_x AND NOT (of_nat ?pg - 1)"
  have wst: "unat ?w_st = stn" unfolding stn_def wx [symmetric] by (rule align_down) (use s in simp)
  have wq: "unat ((?w_fin - ?w_st) div of_nat ?pg) = q"
  proof -
    have "unat (?w_fin - ?w_st) = ?fin - stn" using sub_u64 [of ?w_st ?w_fin] fin wst L(2) [OF pos] by simp
    then show ?thesis using div_u64 [of ?pg "?w_fin - ?w_st"] pgp unfolding q_def by simp
  qed
  define c where "c = (if 0 < int cnt - int q then nat (int cnt - (int cnt - int q)) else cnt)"
  have c: "c = min cnt q" "1 \<le> c" "cnt \<le> c + 1" "c \<le> q" "c \<le> cnt" using L(4,5) [OF pos] c2 by (auto simp: c_def)
  show thesis
  proof (rule that)
    let ?p = "\<lparr>min_shift = mshift,
           pages = \<lparr>sl = of_nat c, nx = Some Free_head, pv = (Some Free_head, PAGE)\<rparr>
             # replicate (cnt - 1) \<lparr>sl = 0, nx = None, pv = (None, PAGE)\<rparr>,
           last_page = c,
           free_head = \<lparr>sl = 0, nx = Some (Pg 0), pv = (None, PAGE)\<rparr>,
           slots = map empty_slot [0..<n],
           stats = replicate n \<lparr>st_total = 0, st_used = 0, st_reqs = 0, st_fails = 0\<rparr>,
           pfree = of_nat c, start = ?w_st, send = ?w_fin, cell = mem\<rparr>"
    have "cnt \<noteq> 0" using c2 by simp
    then show "dl_slab_init ?pg addr ?w_fin mshift mem G = Some (init_globals ?pg G, ?p)"
      unfolding dl_slab_init_def Let_def init_globals_exp n [symmetric] wc wq c_def [symmetric] by (simp only: if_False)
    show "slab_pages ?p [(c, Free_run)]"
      by (rule init_slab_pages) (use c c2 c32 in auto)
    have "stn + c * ?pg \<le> ?fin"
    proof -
      have "c * ?pg \<le> q * ?pg" using c(4) by (rule mult_le_mono1)
      then show ?thesis using L(6) [OF pos] by linarith
    qed
    then show "slab_geometry (init_globals ?pg G) ?p" if "pagesize_shift G = 0" using that
      using s L(7) [OF pos] wst fin unfolding slab_geometry_def by (simp add: init_globals_exp del: of_nat_add)
    show "1 \<le> c" by (rule c)
    show "unat addr + header n \<le> unat (start ?p)" using L(1) [OF pos] wst by (simp del: of_nat_add)
    show "unat (send ?p) = unat addr + sz" using fin by simp
    have "sz - header n < (cnt + 1) * (?pg + 24)"
      unfolding cnt_def using dividend_less_div_times [of "?pg + 24" "?fin - ?base"] by simp
    moreover have "(cnt + 1) * (?pg + 24) \<le> (c + 2) * (?pg + 24)" using c(3) by (intro mult_le_mono1) simp
    ultimately show "sz < header n + (c + 2) * (?pg + 24)" by linarith
    show "unat (start ?p) \<le> unat (send ?p)" using L(2) [OF pos] wst fin by (simp del: of_nat_add)
  qed
qed

section \<open>What a caller of the slab can rely on\<close>

lemma shm_init_pages:
  assumes "s < 32" "n = pagesize_shift G + s - 3" "header n + 2 * (2 ^ s + 24) \<le> unat sz" "unat addr + unat sz < 2 ^ 64" "unat sz < 2 ^ (32 + s)"
  obtains c p where "dl_shm_slab_init (2 ^ s) addr sz mem G = Some (init_globals (2 ^ s) G, p)"
    "slab_pages p [(c, Free_run)]" "pagesize_shift G = 0 \<Longrightarrow> slab_geometry (init_globals (2 ^ s) G) p" "1 \<le> c"
    "unat (start p) \<ge> unat addr + header n" "unat (send p) = unat addr + unat sz" "unat sz < header n + (c + 2) * (2 ^ s + 24)"
    "unat (start p) \<le> unat (send p)"
proof -
  have "addr + of_nat (unat sz) = addr + sz" by simp
  then show ?thesis using init_pages [OF assms, of mem] that unfolding dl_shm_slab_init_def by metis
qed

text \<open>C37: The first pool of a process is one free run of pages inside the mapping, and no more than two pages of
  the room behind the header are lost.\<close>

theorem slab_init:
  assumes "s < 32" "pagesize_shift G = 0" "header (s - 3) + 2 * (2 ^ s + 24) \<le> unat sz" "unat addr + unat sz < 2 ^ 64" "unat sz < 2 ^ (32 + s)"
  shows "\<exists>c p. dl_shm_slab_init (2 ^ s) addr sz mem G = Some (init_globals (2 ^ s) G, p) \<and> slab_pages p [(c, Free_run)]
    \<and> slab_geometry (init_globals (2 ^ s) G) p \<and> unat addr + header (s - 3) \<le> unat (start p) \<and> unat (send p) = unat addr + unat sz
    \<and> unat sz < header (s - 3) + (c + 2) * (2 ^ s + 24)"
proof -
  have n: "s - 3 = pagesize_shift G + s - 3" using assms(2) by simp
  show ?thesis using shm_init_pages [OF assms(1) n assms(3-5), of mem] assms(2) by metis
qed

text \<open>A mapping of sixteen pages at a fixed address.\<close>

definition no_globals :: globals where
  "no_globals = \<lparr>max_size = 0, exact_size = 0, exact_shift = 0, pagesize = 0, pagesize_shift = 0\<rparr>"

abbreviation linux_globals :: globals where
  "linux_globals \<equiv> init_globals (2 ^ 12) no_globals"

definition small_pool :: slab where
  "small_pool = snd (the (dl_shm_slab_init (2 ^ 12) 0x10000 0x10000 (\<lambda>a. 0) no_globals))"

theorem slab_init_witness:
  "\<exists>c p. dl_shm_slab_init (2 ^ 12) 0x10000 0x10000 (\<lambda>a. 0) no_globals = Some (linux_globals, p) \<and> slab_pages p [(c, Free_run)] \<and> 14 \<le> c"
proof -
  have "\<exists>c p. dl_shm_slab_init (2 ^ 12) 0x10000 0x10000 (\<lambda>a. 0) no_globals = Some (linux_globals, p) \<and> slab_pages p [(c, Free_run)]
    \<and> slab_geometry linux_globals p \<and> unat (0x10000 :: u64) + header (12 - 3) \<le> unat (start p)
    \<and> unat (send p) = unat (0x10000 :: u64) + unat (0x10000 :: u64)
    \<and> unat (0x10000 :: u64) < header (12 - 3) + (c + 2) * (2 ^ 12 + 24)"
    by (rule slab_init) (simp_all add: no_globals_def header_def)
  then obtain c p where "dl_shm_slab_init (2 ^ 12) 0x10000 0x10000 (\<lambda>a. 0) no_globals = Some (linux_globals, p)"
    "slab_pages p [(c, Free_run)]" "unat (0x10000 :: u64) < header (12 - 3) + (c + 2) * (2 ^ 12 + 24)" by blast
  moreover from this(3) have "14 \<le> c" by (simp add: header_def)
  ultimately show ?thesis by blast
qed

lemma small_pool:
  obtains c where "slab_pages small_pool [(c, Free_run)]" "slab_geometry linux_globals small_pool" "14 \<le> c"
proof -
  have h: "header (pagesize_shift no_globals + 12 - 3) + 2 * (2 ^ 12 + 24) \<le> unat (0x10000 :: u64)"
    by (simp add: header_def no_globals_def)
  obtain c p where p: "dl_shm_slab_init (2 ^ 12) 0x10000 0x10000 (\<lambda>a. 0) no_globals = Some (linux_globals, p)"
    "slab_pages p [(c, Free_run)]" "pagesize_shift no_globals = 0 \<Longrightarrow> slab_geometry linux_globals p"
    "unat (0x10000 :: u64) < header (pagesize_shift no_globals + 12 - 3) + (c + 2) * (2 ^ 12 + 24)"
    by (rule shm_init_pages [OF _ refl h, of "0x10000" "\<lambda>a. 0"]) simp_all
  have "14 \<le> c" using p(4) by (simp add: header_def no_globals_def)
  moreover have "small_pool = p" using p(1) by (simp add: small_pool_def)
  ultimately show ?thesis using that p(2,3) by (simp add: no_globals_def)
qed

text \<open>C26: A request above half a page fails only when no free run has enough pages; otherwise the address is
  the one of a page that was free, the whole request lies inside the mapping, and exactly the pages it needs
  change hands.\<close>

theorem slab_alloc_large:
  assumes "slab_pages p rs" "slab_geometry G p" "max_size G < unat sz" "pages_for G (unat sz) < 2 ^ 32"
  shows "(\<forall>m. (m, Free_run) \<in> set rs \<longrightarrow> m < pages_for G (unat sz)) \<and> dl_slab_alloc G sz p = Some (None, p)
    \<or> (\<exists>xs m ys a p'. rs = xs @ (m, Free_run) # ys \<and> pages_for G (unat sz) \<le> m
         \<and> dl_slab_alloc G sz p = Some (Some a, p') \<and> unat a = unat (start p) + span xs * pagesize G
         \<and> unat a + unat sz \<le> unat (send p)
         \<and> slab_pages p' (xs @ take_run (pages_for G (unat sz)) m @ ys) \<and> slab_geometry G p')"
  using alloc_large [OF assms] .

lemma linux_sizes: "max_size linux_globals = 2048" "pagesize linux_globals = 4096" "pages_for linux_globals 5000 = 2"
    "pagesize_shift linux_globals = 12"
proof -
  show "pagesize_shift linux_globals = 12" unfolding init_globals_exp by (simp add: no_globals_def)
qed (simp_all add: init_globals_def no_globals_def Let_def pages_for_def)

theorem slab_alloc_large_witness:
  "\<exists>a p'. dl_slab_alloc linux_globals 5000 small_pool = Some (Some a, p') \<and> unat a = unat (start small_pool)"
proof -
  obtain c where c: "slab_pages small_pool [(c, Free_run)]" "slab_geometry linux_globals small_pool" "14 \<le> c" by (rule small_pool)
  have z: "max_size linux_globals < unat (5000 :: u64)" "pages_for linux_globals (unat (5000 :: u64)) < 2 ^ 32"
    using linux_sizes by simp_all
  obtain xs m ys a p' where "[(c, Free_run)] = xs @ (m, Free_run) # ys" "dl_slab_alloc linux_globals 5000 small_pool = Some (Some a, p')"
    "unat a = unat (start small_pool) + span xs * pagesize linux_globals"
    using slab_alloc_large [OF c(1,2) z] c(3) linux_sizes(3) by auto
  moreover from this(1) have "xs = []" by (simp add: Cons_eq_append_conv)
  ultimately show ?thesis by auto
qed

text \<open>C27: The address of a run that is handed out gives its pages back; they are joined with the free runs
  next to them, so no two free runs ever lie side by side.\<close>

theorem slab_free_large:
  assumes "slab_pages p (xs @ (n, Used_run) # ys)" "slab_geometry G p" "unat a = unat (start p) + span xs * pagesize G"
  shows "\<exists>p'. dl_slab_free G a p = Some (Freed, p') \<and> slab_pages p' (release xs n ys) \<and> slab_geometry G p'"
  using free_large [OF assms] .

text \<open>The pool after one request for two pages.\<close>

definition used_pool :: slab where
  "used_pool = snd (the (dl_slab_alloc linux_globals 5000 small_pool))"

lemma used_pool:
  obtains m where "slab_pages used_pool [(2, Used_run), (m, Free_run)]" "slab_geometry linux_globals used_pool" "12 \<le> m"
proof -
  obtain c where c: "slab_pages small_pool [(c, Free_run)]" "slab_geometry linux_globals small_pool" "14 \<le> c" by (rule small_pool)
  have z: "max_size linux_globals < unat (5000 :: u64)" "pages_for linux_globals (unat (5000 :: u64)) < 2 ^ 32"
    using linux_sizes by simp_all
  obtain xs m ys a p' where x: "[(c, Free_run)] = xs @ (m, Free_run) # ys" "dl_slab_alloc linux_globals 5000 small_pool = Some (Some a, p')"
    "slab_pages p' (xs @ take_run (pages_for linux_globals (unat (5000 :: u64))) m @ ys)" "slab_geometry linux_globals p'"
    using alloc_large [OF c(1,2) z] c(3) linux_sizes(3) by auto
  have "xs = []" "m = c" "ys = []" using x(1) by (simp_all add: Cons_eq_append_conv)
  moreover have "used_pool = p'" using x(2) by (simp add: used_pool_def)
  ultimately show ?thesis using that [of "c - 2"] x(3,4) c(3) linux_sizes(3) by (simp add: take_run_def)
qed

theorem slab_free_large_witness:
  "\<exists>p' m. dl_slab_free linux_globals (start used_pool) used_pool = Some (Freed, p') \<and> slab_pages p' [(m, Free_run)]"
proof -
  obtain m where m: "slab_pages used_pool [(2, Used_run), (m, Free_run)]" "slab_geometry linux_globals used_pool" "12 \<le> m" by (rule used_pool)
  have "slab_pages used_pool ([] @ (2, Used_run) # [(m, Free_run)])"
    "unat (start used_pool) = unat (start used_pool) + span [] * pagesize linux_globals" using m by simp_all
  from slab_free_large [OF this(1) m(2) this(2)] show ?thesis by (auto simp: release_def before_def behind_def)
qed

text \<open>A large request that is given back leaves the pages divided as before.\<close>

theorem slab_alloc_free:
  assumes "slab_pages p rs" "slab_geometry G p" "max_size G < unat sz" "pages_for G (unat sz) < 2 ^ 32"
    and "dl_slab_alloc G sz p = Some (Some a, p')"
  shows "\<exists>p''. dl_slab_free G a p' = Some (Freed, p'') \<and> slab_pages p'' rs"
proof -
  let ?k = "pages_for G (unat sz)"
  obtain xs m ys where x: "rs = xs @ (m, Free_run) # ys" "?k \<le> m" "unat a = unat (start p) + span xs * pagesize G"
    "slab_pages p' (xs @ take_run ?k m @ ys)" "slab_geometry G p'"
    using alloc_large [OF assms(1-4)] assms(5) by auto
  have "shape p' = shape p"
  proof -
    have g: "unat (page_count G sz) = ?k" by (rule page_count [OF assms(2,4)])
    moreover have "1 \<le> ?k" by (rule pages_for_pos) (use assms(3) geometryD(2) [OF assms(2)] in auto)
    ultimately have k: "1 \<le> unat (page_count G sz)" by simp
    obtain i p1 where "dl_slab_alloc_pages (page_count G sz) p = Some (i, p1)" "shape p1 = shape p"
      using alloc_pages_spec [OF assms(1) k] by blast
    moreover from alloc_large_code [OF assms(3) this(1)] have "p1 = p'" using assms(5) by simp
    ultimately show ?thesis by simp
  qed
  then have a: "unat a = unat (start p') + span xs * pagesize G" using x(3) shape_fields(4) by metis
  have "xs @ take_run ?k m @ ys = xs @ (?k, Used_run) # (tl (take_run ?k m) @ ys)" by (simp add: take_run_def)
  then have P: "slab_pages p' (xs @ (?k, Used_run) # (tl (take_run ?k m) @ ys))" using x(4) by metis
  have "apart (xs @ (m, Free_run) # ys)" using assms(1) x(1) by (simp add: slab_pages_def)
  then have "release xs ?k (tl (take_run ?k m) @ ys) = rs" using pg.release_undoes [of xs m ys ?k] x(1,2) by simp
  then show ?thesis using free_large [OF P x(5) a] by auto
qed

theorem slab_alloc_free_witness:
  "\<exists>a p' p'' c. dl_slab_alloc linux_globals 5000 small_pool = Some (Some a, p') \<and> dl_slab_free linux_globals a p' = Some (Freed, p'')
     \<and> slab_pages p'' [(c, Free_run)]"
proof -
  obtain c where c: "slab_pages small_pool [(c, Free_run)]" "slab_geometry linux_globals small_pool" "14 \<le> c" by (rule small_pool)
  have z: "max_size linux_globals < unat (5000 :: u64)" "pages_for linux_globals (unat (5000 :: u64)) < 2 ^ 32"
    using linux_sizes by simp_all
  obtain a p' where "dl_slab_alloc linux_globals 5000 small_pool = Some (Some a, p')"
    using alloc_large [OF c(1,2) z] c(3) linux_sizes(3) by auto
  with slab_alloc_free [OF c(1,2) z this] show ?thesis by blast
qed

text \<open>C36: An address inside a page that is not the first one of a run handed out is refused: with the message of a
  wrong chunk when it is not the start of a page, silently when it is; the pool stays as it is. A run cannot be
  given back twice.\<close>

theorem slab_free_refuses:
  assumes "slab_pages p (xs @ (n, c) # ys)" "slab_geometry G p" "c \<in> {Free_run, Used_run}"
    and "span xs \<le> j" "j < span xs + n" "unat a = unat (start p) + j * pagesize G + d" "d < pagesize G"
    and "d \<noteq> 0 \<or> c = Free_run \<or> j \<noteq> span xs"
  shows "dl_slab_free G a p = Some (if d \<noteq> 0 then Wrong_chunk else Refused, p)"
proof -
  obtain hs where I: "in_order p (xs @ (n, c) # ys) hs" using assms(1) by (auto simp: slab_pages_def)
  note D = in_orderD [OF I]
  have t: "tile (recs p) (last_page p) (span xs) (n, c)" using D(1) by simp
  have n: "n < 2 ^ 32" using D(2,4) by simp
  have type: "snd (pv (recs p (Pg j))) = PAGE"
  proof (cases "j = span xs")
    case True
    show ?thesis
    proof (cases "c = Used_run")
      case True
      then show ?thesis using t \<open>j = span xs\<close> by simp
    next
      case False
      then have c: "c = Free_run" using assms(3) by simp
      then have "span xs \<in> set hs" using D(6) by simp
      then obtain us vs where hs: "hs = us @ span xs # vs" using split_list by fast
      show ?thesis using free_run_at(8) [of p xs n ys us "span xs" vs] I hs c True by simp
    qed
  next
    case False
    then show ?thesis using t assms(3-5) by (auto simp: wiped_def)
  qed
  note F = free_run_code [OF I assms(2,4-7) type]
  show ?thesis
  proof (cases "d = 0")
    case False
    then show ?thesis using F by simp
  next
    case True
    then have "sl (recs p (Pg j)) AND PAGE_START = 0 \<or> sl (recs p (Pg j)) = PAGE_BUSY"
      using assms(3-5,8) t marked(4) [OF n] by (cases "j = span xs") (auto simp: wiped_def)
    then show ?thesis using F True by auto
  qed
qed

theorem slab_free_refuses_witness:
  "dl_slab_free linux_globals (start small_pool) small_pool = Some (Refused, small_pool)"
proof -
  obtain c where c: "slab_pages small_pool [(c, Free_run)]" "slab_geometry linux_globals small_pool" "14 \<le> c" by (rule small_pool)
  have "slab_pages small_pool ([] @ (c, Free_run) # [])" using c by simp
  from slab_free_refuses [OF this c(2), of 0 "start small_pool" 0] c(3) geometryD(2) [OF c(2)] show ?thesis by simp
qed

text \<open>C38: The second pool of a process: the shift of the page size is doubled, so every page but the first
  lies behind the end of a mapping that is not larger than the square of the page size.\<close>

theorem slab_init_twice:
  assumes "0 < s" "s \<le> 15" "pagesize_shift G = 0" "dl_shm_slab_init (2 ^ s) addr1 sz1 mem1 G = Some (G1, p1)"
    and "header (s + s - 3) + 2 * (2 ^ s + 24) \<le> unat sz" "unat sz \<le> 2 ^ (s + s)" "unat addr + unat sz < 2 ^ 63"
  shows "\<exists>p. dl_shm_slab_init (2 ^ s) addr sz mem G1 = Some (init_globals (2 ^ s) G1, p) \<and> pagesize_shift (init_globals (2 ^ s) G1) = s + s
    \<and> (\<forall>i. 1 \<le> i \<and> i < last_page p \<longrightarrow> unat (send p) < unat (dl_slab_page_addr (init_globals (2 ^ s) G1) p i))"
proof -
  have "G1 = init_globals (2 ^ s) G" using assms(4) by (auto simp: dl_shm_slab_init_def dl_slab_init_def Let_def split: if_splits)
  then have sh: "pagesize_shift G1 = s" using assms(3) by (simp add: init_globals_exp)
  let ?G = "init_globals (2 ^ s) G1"
  have "unat sz < 2 ^ (32 + s)"
    by (rule order_le_less_trans [OF assms(6)]) (use assms(2) in \<open>intro power_strict_increasing, auto\<close>)
  moreover have "s < 32" "s + s - 3 = pagesize_shift G1 + s - 3" "unat addr + unat sz < 2 ^ 64" using assms(2,7) sh by simp_all
  ultimately obtain c p where p: "dl_shm_slab_init (2 ^ s) addr sz mem G1 = Some (?G, p)" "slab_pages p [(c, Free_run)]"
    "unat (start p) \<ge> unat addr + header (s + s - 3)" "unat (send p) = unat addr + unat sz" "unat (start p) \<le> unat (send p)"
    using shm_init_pages [OF _ _ assms(5)] by metis
  have shift: "pagesize_shift ?G = s + s" by (simp add: init_globals_exp sh)
  have "unat (send p) < unat (dl_slab_page_addr ?G p i)" if i: "1 \<le> i" "i < last_page p" for i
  proof -
    have "last_page p < 2 ^ 32" using p(2) by (auto simp: slab_pages_def in_order_def)
    then have "i * 2 ^ (s + s) < 2 ^ 32 * 2 ^ (s + s)" using i by simp
    also have "\<dots> \<le> 2 ^ 32 * 2 ^ 30" by (intro mult_le_mono2 power_increasing) (use assms(2) in auto)
    finally have "i * 2 ^ (s + s) < 2 ^ 62" by simp
    then have lt: "unat (start p) + i * 2 ^ (s + s) < 2 ^ 64" using p(4,5) assms(7) by simp
    have "dl_slab_page_addr ?G p i = start p + of_nat (i * 2 ^ (s + s))"
      by (simp add: dl_slab_page_addr_def shift push_bit_eq_mult)
    then have "unat (dl_slab_page_addr ?G p i) = unat (start p) + i * 2 ^ (s + s)" using add_u64 [OF lt] by simp
    moreover have "1 * 2 ^ (s + s) \<le> i * 2 ^ (s + s)" using i(1) by (rule mult_le_mono1)
    moreover have "0 < header (s + s - 3)" by (simp add: header_def)
    ultimately show ?thesis using p(3,4) assms(6) by linarith
  qed
  then show ?thesis using p(1) shift by blast
qed

theorem slab_init_twice_witness:
  "\<exists>G1 p1 p. dl_shm_slab_init (2 ^ 12) 0x10000 0x10000 (\<lambda>a. 0) no_globals = Some (G1, p1)
     \<and> dl_shm_slab_init (2 ^ 12) 0x100000 0x10000 (\<lambda>a. 0) G1 = Some (init_globals (2 ^ 12) G1, p)
     \<and> (\<forall>i. 1 \<le> i \<and> i < last_page p \<longrightarrow> unat (send p) < unat (dl_slab_page_addr (init_globals (2 ^ 12) G1) p i))"
proof -
  have h: "header (pagesize_shift no_globals + 12 - 3) + 2 * (2 ^ 12 + 24) \<le> unat (0x10000 :: u64)"
    by (simp add: header_def no_globals_def)
  obtain p1 where p1: "dl_shm_slab_init (2 ^ 12) 0x10000 0x10000 (\<lambda>a. 0) no_globals = Some (linux_globals, p1)"
    by (rule shm_init_pages [OF _ refl h, of "0x10000" "\<lambda>a. 0"]) simp_all
  have "header (12 + 12 - 3) + 2 * (2 ^ 12 + 24) \<le> unat (0x10000 :: u64)" "unat (0x10000 :: u64) \<le> 2 ^ (12 + 12)"
    "unat (0x100000 :: u64) + unat (0x10000 :: u64) < 2 ^ 63" "pagesize_shift no_globals = 0"
    by (simp_all add: header_def no_globals_def)
  with slab_init_twice [OF _ _ _ p1, of "0x10000" "0x100000" "\<lambda>a. 0"] p1 show ?thesis by auto
qed

text \<open>The end of the pool is taken for an address inside it: when the pages fill the mapping, giving it back
  reads the record behind the array.\<close>

theorem slab_free_end:
  assumes "slab_geometry G p" "last_page p = length (pages p)" "unat (send p) = unat (start p) + last_page p * pagesize G"
  shows "dl_slab_free G (send p) p = None"
proof -
  note g = geometryD [OF assms(1)]
  have le: "unat (start p) \<le> unat (send p)" using assms(3) by simp
  then have "unat (send p - start p) = last_page p * pagesize G" using sub_u64 assms(3) by simp
  then have "unat (drop_bit (pagesize_shift G) (send p - start p)) = last_page p" unfolding drop_unat using g(1,2) by simp
  moreover have "\<not> send p < start p" using le by (simp add: word_less_nat_alt)
  ultimately show ?thesis using assms(2) by (simp add: dl_slab_free_def dl_slab_free_locked_def)
qed

theorem slab_free_end_witness:
  "\<exists>G p. slab_geometry G p \<and> slab_pages p [(1, Free_run)] \<and> dl_slab_free G (send p) p = None"
proof -
  let ?p = "\<lparr>min_shift = 3, pages = [\<lparr>sl = 1, nx = Some Free_head, pv = (Some Free_head, PAGE)\<rparr>], last_page = 1,
    free_head = \<lparr>sl = 0, nx = Some (Pg 0), pv = (None, PAGE)\<rparr>, slots = [], stats = [], pfree = 1,
    start = 0x1000, send = 0x2000, cell = (\<lambda>a. 0)\<rparr>"
  have g: "slab_geometry linux_globals ?p" unfolding slab_geometry_def linux_sizes by simp
  have "dl_slab_free linux_globals (send ?p) ?p = None" by (rule slab_free_end [OF g]) (simp_all add: init_globals_def no_globals_def Let_def)
  moreover have "slab_pages ?p [(1, Free_run)]" by (rule init_slab_pages [of _ 1 0]) simp_all
  ultimately show ?thesis using g by blast
qed

end
