(* ===== verification/Dl_Table.thy ===== *)
theory Dl_Table
  imports Dl_Hash Dl_Fifo
begin

text \<open>
  The table of \<^verbatim>\<open>dl_table.h\<close> and \<^verbatim>\<open>dl_table.c\<close>, with an array part for small integer keys and a node part
  for the others, in the manner of Lua. A reference to a value is a position in one of the two parts. \<open>ok n\<close>
  is the outcome of the \<open>n\<close>-th allocation. Accesses outside of the parts and through \<^verbatim>\<open>NULL\<close>, and walks that
  do not end, are undefined (\<open>None\<close>). The insertion of a key rebuilds a full table, and the rebuilding inserts
  keys: the depth of this recursion is an argument, and reaching it is \<open>None\<close> as well.
\<close>

section \<open>The table\<close>

text \<open>The tag of a cell; \<open>No_tag\<close> is the one of the static dummy node.\<close>

datatype tag = No_tag | DL_NIL_L | DL_INT_L | DL_STR_L | DL_VOID_L

text \<open>The union of a cell: a number or a pointer of the client, a string of the table, a string whose text could
  not be allocated, the pointer to a string that has been freed. The pointer to a string of the table that is still
  allocated differs from those of the client; a freed one may have any bits, the allocator can give its address to
  the client.\<close>

datatype payload = Word u64 | Text bytes | Broken | Dangling

record cell =
  ctag :: tag
  cval :: payload

datatype tkey = KInt int | KStr bytes

text \<open>A node without a key has the tag \<^verbatim>\<open>DL_NIL_L\<close> (or 0) in its key.\<close>

record tnode =
  nkey :: "tkey option"
  nval :: cell
  nnext :: "nat option"

datatype nodes = Dummy | Null | Block "tnode list"

text \<open>\<open>ablock\<close> is the allocation the array part lies in; \<open>handled\<close> lists the pointers the handler \<^verbatim>\<open>void_h\<close> was called with, latest first; \<open>nalloc\<close> counts the
  allocations.\<close>

record table =
  lsizenode :: nat
  sizearray :: int
  arr :: "cell list"
  ablock :: nat
  node :: nodes
  lastfree :: "int option"
  handled :: "u64 list"
  nalloc :: nat

abbreviation MAXBITS :: nat where "MAXBITS \<equiv> 26"

abbreviation nil_cell :: cell where "nil_cell \<equiv> \<lparr>ctag = DL_NIL_L, cval = Word 0\<rparr>"

definition dummynode :: tnode where
  "dummynode = \<lparr>nkey = None, nval = \<lparr>ctag = No_tag, cval = Word 0\<rparr>, nnext = None\<rparr>"

fun node_list :: "nodes \<Rightarrow> tnode list option" where
  "node_list Dummy = Some [dummynode]"
| "node_list Null = None"
| "node_list (Block ns) = Some ns"

definition node_at :: "nat \<Rightarrow> table \<Rightarrow> tnode option" where
  "node_at i t = do { ns \<leftarrow> node_list (node t); if i < length ns then Some (ns ! i) else None }"

text \<open>A store to a node; the dummy node is constant.\<close>

definition upd_node :: "nat \<Rightarrow> (tnode \<Rightarrow> tnode) \<Rightarrow> table \<Rightarrow> table option" where
  "upd_node i f t =
     (case node t of
        Block ns \<Rightarrow> if i < length ns then Some (t\<lparr>node := Block (ns[i := f (ns ! i)])\<rparr>) else None
      | _ \<Rightarrow> None)"

datatype vref = In_array nat | In_node nat

fun get_cell :: "vref \<Rightarrow> table \<Rightarrow> cell option" where
  "get_cell (In_array i) t = (if i < length (arr t) then Some (arr t ! i) else None)"
| "get_cell (In_node i) t = map_option nval (node_at i t)"

fun put_cell :: "vref \<Rightarrow> cell \<Rightarrow> table \<Rightarrow> table option" where
  "put_cell (In_array i) c t = (if i < length (arr t) then Some (t\<lparr>arr := (arr t)[i := c]\<rparr>) else None)"
| "put_cell (In_node i) c t = upd_node i (\<lambda>n. n\<lparr>nval := c\<rparr>) t"

definition alloc :: "(nat \<Rightarrow> bool) \<Rightarrow> table \<Rightarrow> bool \<times> table" where
  "alloc ok t = (ok (nalloc t), t\<lparr>nalloc := nalloc t + 1\<rparr>)"

section \<open>Searching\<close>

definition hashnum :: "table \<Rightarrow> int \<Rightarrow> nat" where
  "hashnum t n =
     (if n = 0 then 0
      else let w = word_of_int n :: u64
           in unat (ucast w + ucast (drop_bit 32 w) :: u32) mod 2 ^ lsizenode t)"

fun main_pos :: "table \<Rightarrow> tkey \<Rightarrow> nat" where
  "main_pos t (KInt n) = hashnum t n"
| "main_pos t (KStr s) = unat (dl_hash_key s) mod 2 ^ lsizenode t"

text \<open>The walk along a chain; \<open>m\<close> is the comparison with the searched key.\<close>

partial_function (option) chain_walk :: "(tnode \<Rightarrow> bool option) \<Rightarrow> nat \<Rightarrow> table \<Rightarrow> nat option option" where
  "chain_walk m i t =
     do { n \<leftarrow> node_at i t;
          found \<leftarrow> m n;
          if found then Some (Some i)
          else case nnext n of None \<Rightarrow> Some None | Some j \<Rightarrow> chain_walk m j t }"

declare chain_walk.simps [code]

definition same_int :: "int \<Rightarrow> tnode \<Rightarrow> bool option" where
  "same_int index n = Some (nkey n = Some (KInt index))"

text \<open>\<^verbatim>\<open>memcmp\<close> reads as many bytes of the stored key as the searched one has.\<close>

fun same_str :: "bytes \<Rightarrow> tkey option \<Rightarrow> bool option" where
  "same_str s (Some (KStr d)) = (if length d < length s then None else Some (take (length s) d = s))"
| "same_str s _ = Some False"

definition dl_find_by_index :: "table \<Rightarrow> int \<Rightarrow> vref option option" where
  "dl_find_by_index t index =
     (if index < sizearray t \<and> 0 \<le> index then Some (Some (In_array (nat index)))
      else map_option (map_option In_node) (chain_walk (same_int index) (hashnum t index) t))"

definition dl_find_by_str :: "table \<Rightarrow> bytes \<Rightarrow> vref option option" where
  "dl_find_by_str t s = map_option (map_option In_node) (chain_walk (\<lambda>n. same_str s (nkey n)) (unat (dl_hash_key s) mod 2 ^ lsizenode t) t)"

fun dl_find_l :: "table \<Rightarrow> tkey \<Rightarrow> vref option option" where
  "dl_find_l t (KInt n) = dl_find_by_index t n"
| "dl_find_l t (KStr s) = dl_find_by_str t s"

section \<open>Rebuilding\<close>

definition ceillog2_of :: "int \<Rightarrow> int" where
  "ceillog2_of x = dl_log2 (word_of_int (x - 1)) + 1"

definition dl_array_init_l :: "(nat \<Rightarrow> bool) \<Rightarrow> int \<Rightarrow> table \<Rightarrow> bool \<times> table" where
  "dl_array_init_l ok size1 t =
     (if 0 < size1 then
        let (done, t) = alloc ok t
        in if \<not> done then (False, t\<lparr>arr := []\<rparr>)
           else (True, t\<lparr>arr := replicate (nat size1) nil_cell, ablock := nalloc t, sizearray := size1\<rparr>)
      else (True, t\<lparr>sizearray := size1\<rparr>))"

definition fresh_node :: tnode where
  "fresh_node = \<lparr>nkey = None, nval = nil_cell, nnext = None\<rparr>"

definition dl_node_init_l :: "(nat \<Rightarrow> bool) \<Rightarrow> int \<Rightarrow> table \<Rightarrow> bool \<times> table" where
  "dl_node_init_l ok size1 t =
     (if size1 = 0 then (True, t\<lparr>node := Dummy, lastfree := None, lsizenode := 0\<rparr>)
      else let l = ceillog2_of size1
           in if int MAXBITS < l then (False, t)
              else let (done, t) = alloc ok t
                   in if \<not> done then (False, t\<lparr>node := Null\<rparr>)
                      else (True, t\<lparr>node := Block (replicate (2 ^ nat l) fresh_node),
                                    lastfree := Some (2 ^ nat l), lsizenode := nat l\<rparr>))"

text \<open>\<^verbatim>\<open>while (t->lastfree-- > t->node)\<close>: the free position, and where \<^verbatim>\<open>lastfree\<close> ends up.\<close>

function free_loop :: "tnode list \<Rightarrow> int \<Rightarrow> (nat option \<times> int) option" where
  "free_loop ns l =
     (if l \<le> 0 then Some (None, l - 1)
      else if length ns < nat l then None
      else if nkey (ns ! nat (l - 1)) = None then Some (Some (nat (l - 1)), l - 1)
      else free_loop ns (l - 1))"
  by pat_completeness auto
termination by (relation "measure (\<lambda>(ns, l). nat l)") auto

declare free_loop.simps [simp del]

definition getfreepos :: "table \<Rightarrow> (nat option \<times> table) option" where
  "getfreepos t =
     (case lastfree t of
        None \<Rightarrow> Some (None, t)
      | Some l \<Rightarrow>
          do { ns \<leftarrow> node_list (node t);
               (f, l) \<leftarrow> free_loop ns l;
               Some (f, t\<lparr>lastfree := Some l\<rparr>) })"

definition countint :: "tkey option \<Rightarrow> nat list \<Rightarrow> nat \<times> nat list" where
  "countint key nums =
     (case key of
        Some (KInt k) \<Rightarrow>
          if 0 < k \<and> k \<le> 2 ^ MAXBITS
          then let i = nat (ceillog2_of k) in (1, nums[i := nums ! i + 1]) else (0, nums)
      | _ \<Rightarrow> (0, nums))"

text \<open>The used cells among the keys \<open>i\<close> to \<open>lim\<close>, key \<open>i\<close> standing for the cell \<open>i - 1\<close>.\<close>

definition count_cells :: "cell list \<Rightarrow> nat \<Rightarrow> nat \<Rightarrow> nat option" where
  "count_cells cs i lim =
     (if lim < i then Some 0
      else if length cs < lim then None
      else Some (length (filter (\<lambda>j. ctag (cs ! (j - 1)) \<noteq> DL_NIL_L) [i..<Suc lim])))"

text \<open>\<open>lg\<close> is the slice, \<open>n\<close> the number of slices left, \<open>i\<close> the next key.\<close>

fun usearray_loop :: "table \<Rightarrow> nat \<Rightarrow> nat \<Rightarrow> nat \<Rightarrow> nat \<Rightarrow> nat list \<Rightarrow> (nat \<times> nat list) option" where
  "usearray_loop t 0 lg i ause nums = Some (ause, nums)"
| "usearray_loop t (Suc n) lg i ause nums =
     (let lim = (if sizearray t < 2 ^ lg then nat (sizearray t) else 2 ^ lg)
      in if sizearray t < 2 ^ lg \<and> sizearray t < int i then Some (ause, nums)
         else do { lc \<leftarrow> count_cells (arr t) i lim;
                   usearray_loop t n (Suc lg) (max i (lim + 1)) (ause + lc) (nums[lg := nums ! lg + lc]) })"

definition numusearray :: "table \<Rightarrow> nat list \<Rightarrow> (nat \<times> nat list) option" where
  "numusearray t nums = usearray_loop t (Suc MAXBITS) 0 1 0 nums"

text \<open>The nodes, last one first: integer keys, used nodes, the counts of the slices.\<close>

fun usehash_loop :: "tnode list \<Rightarrow> nat \<Rightarrow> nat \<Rightarrow> nat list \<Rightarrow> nat \<times> nat \<times> nat list" where
  "usehash_loop [] ause total1 nums = (ause, total1, nums)"
| "usehash_loop (n # ns) ause total1 nums =
     (if ctag (nval n) \<noteq> DL_NIL_L
      then let (c, nums) = countint (nkey n) nums in usehash_loop ns (ause + c) (total1 + 1) nums
      else usehash_loop ns ause total1 nums)"

definition numusehash :: "table \<Rightarrow> nat list \<Rightarrow> (nat \<times> nat \<times> nat list) option" where
  "numusehash t nums = do { ns \<leftarrow> node_list (node t); Some (usehash_loop (rev ns) 0 0 nums) }"

text \<open>The size of the array part and the number of keys that go to it; \<^verbatim>\<open>twotoi\<close> is \<open>2 ^ i\<close>.\<close>

function sizes_loop :: "nat list \<Rightarrow> nat \<Rightarrow> nat \<Rightarrow> nat \<Rightarrow> nat \<Rightarrow> nat \<Rightarrow> (nat \<times> nat) option" where
  "sizes_loop nums narray i a na n =
     (if 2 ^ i div 2 < narray then
        if length nums \<le> i then None
        else let a' = (if 0 < nums ! i then a + nums ! i else a);
                 more = 0 < nums ! i \<and> 2 ^ i div 2 < a';
                 n' = (if more then 2 ^ i else n);
                 na' = (if more then a' else na)
             in if a' = narray then Some (n', na') else sizes_loop nums narray (Suc i) a' na' n'
      else Some (n, na))"
  by pat_completeness auto
termination
proof (relation "measure (\<lambda>(nums, narray, i, a, na, n). narray - 2 ^ i div 2)", goal_cases)
  case 1
  show ?case by simp
next
  case (2 nums narray i a na n)
  have "(2 :: nat) ^ i div 2 < 2 ^ i" by simp
  then have "narray - 2 ^ i < narray - 2 ^ i div 2" using 2(1) by (rule diff_less_mono2)
  then show ?case by simp
qed

declare sizes_loop.simps [simp del]

definition computesizes :: "nat list \<Rightarrow> nat \<Rightarrow> (nat \<times> nat) option" where
  "computesizes nums narray = sizes_loop nums narray 0 0 0 0"

type_synonym inserter = "tkey \<Rightarrow> table \<Rightarrow> (vref option \<times> table) option"

definition dl_set_l :: "inserter \<Rightarrow> inserter" where
  "dl_set_l newkey key t =
     do { v \<leftarrow> dl_find_l t key;
          case v of Some r \<Rightarrow> Some (Some r, t) | None \<Rightarrow> newkey key t }"

definition dl_set_num_l :: "inserter \<Rightarrow> int \<Rightarrow> table \<Rightarrow> (vref option \<times> table) option" where
  "dl_set_num_l newkey n t = dl_set_l newkey (KInt n) t"

text \<open>\<^verbatim>\<open>*v = old_arr[i]\<close> and \<^verbatim>\<open>*v = old->i_val\<close>\<close>

definition store_at :: "vref option \<times> table \<Rightarrow> cell \<Rightarrow> table option" where
  "store_at vt c = do { r \<leftarrow> fst vt; put_cell r c (snd vt) }"

text \<open>The cells are read from the block \<open>b\<close>, which an insertion must not have replaced and freed.\<close>

fun array_to_nodes :: "inserter \<Rightarrow> nat \<Rightarrow> int \<Rightarrow> cell list \<Rightarrow> table \<Rightarrow> table option" where
  "array_to_nodes newkey b i [] t = Some t"
| "array_to_nodes newkey b i (c # cs) t =
     (if ablock t \<noteq> b then None
      else if ctag c \<noteq> DL_NIL_L
      then do { vt \<leftarrow> dl_set_num_l newkey i t;
                if ablock (snd vt) \<noteq> b then None
                else do { t \<leftarrow> store_at vt c; array_to_nodes newkey b (i + 1) cs t } }
      else array_to_nodes newkey b (i + 1) cs t)"

text \<open>The old nodes, last one first; a used node without a key is read as a string through \<^verbatim>\<open>NULL\<close>.\<close>

fun nodes_to_nodes :: "inserter \<Rightarrow> tnode list \<Rightarrow> table \<Rightarrow> table option" where
  "nodes_to_nodes newkey [] t = Some t"
| "nodes_to_nodes newkey (n # ns) t =
     (if ctag (nval n) \<noteq> DL_NIL_L
      then do { key \<leftarrow> nkey n; vt \<leftarrow> dl_set_l newkey key t; t \<leftarrow> store_at vt (nval n); nodes_to_nodes newkey ns t }
      else nodes_to_nodes newkey ns t)"

definition grow_array :: "(nat \<Rightarrow> bool) \<Rightarrow> int \<Rightarrow> table \<Rightarrow> bool \<times> table" where
  "grow_array ok nasize t =
     (if sizearray t < nasize then
        let (done, t') = dl_array_init_l ok nasize t
        in if \<not> done then (False, t')
           else (True, if arr t = [] then t'
                       else t'\<lparr>arr := take (nat (sizearray t)) (arr t) @ drop (nat (sizearray t)) (arr t')\<rparr>)
      else (True, t))"

definition resize :: "(nat \<Rightarrow> bool) \<Rightarrow> inserter \<Rightarrow> int \<Rightarrow> int \<Rightarrow> table \<Rightarrow> (bool \<times> table) option" where
  "resize ok newkey nasize nhsize t =
     (let old = t; (done, t) = grow_array ok nasize t
      in if \<not> done then Some (False, t)
         else let (done, t) = dl_node_init_l ok nhsize t
              in if \<not> done then Some (False, t)
                 else do {
                   t \<leftarrow> (if nasize < sizearray old
                         then if length (arr old) < nat (sizearray old) then None
                              else array_to_nodes newkey (ablock old) nasize (drop (nat nasize) (take (nat (sizearray old)) (arr old))) (t\<lparr>sizearray := nasize\<rparr>)
                         else Some t);
                   case node old of
                     Dummy \<Rightarrow> Some (True, t)
                   | Null \<Rightarrow> None
                   | Block ns \<Rightarrow> do { t \<leftarrow> nodes_to_nodes newkey (rev ns) t; Some (True, t) } })"

definition dl_rehash :: "(nat \<Rightarrow> bool) \<Rightarrow> inserter \<Rightarrow> tkey \<Rightarrow> table \<Rightarrow> (bool \<times> table) option" where
  "dl_rehash ok newkey ek t =
     do { (na, nums) \<leftarrow> numusearray t (replicate (Suc MAXBITS) 0);
          (nh, used, nums) \<leftarrow> numusehash t nums;
          let (c, nums) = countint (Some ek) nums;
          (nasize, nin) \<leftarrow> computesizes nums (na + nh + c);
          resize ok newkey (int nasize) (int (na + used + 1) - int nin) t }"

section \<open>Insertion\<close>

text \<open>The node in front of \<open>mp\<close> in the chain from \<open>o\<close>.\<close>

partial_function (option) before_loop :: "nat \<Rightarrow> nat \<Rightarrow> table \<Rightarrow> nat option" where
  "before_loop i mp t =
     do { n \<leftarrow> node_at i t;
          if nnext n = Some mp then Some i
          else case nnext n of None \<Rightarrow> None | Some j \<Rightarrow> before_loop j mp t }"

declare before_loop.simps [code]

text \<open>A node out of its main position makes room: it moves to the free position \<open>f\<close>.\<close>

definition move_node :: "nat \<Rightarrow> nat \<Rightarrow> nat \<Rightarrow> table \<Rightarrow> table option" where
  "move_node other mp f t =
     do { b \<leftarrow> before_loop other mp t;
          t \<leftarrow> upd_node b (\<lambda>n. n\<lparr>nnext := Some f\<rparr>) t;
          m \<leftarrow> node_at mp t;
          t \<leftarrow> upd_node f (\<lambda>n. m) t;
          upd_node mp (\<lambda>n. n\<lparr>nnext := None, nval := (nval n)\<lparr>ctag := DL_NIL_L\<rparr>\<rparr>) t }"

definition chain_node :: "nat \<Rightarrow> nat \<Rightarrow> table \<Rightarrow> table option" where
  "chain_node mp f t =
     do { m \<leftarrow> node_at mp t;
          t \<leftarrow> upd_node f (\<lambda>n. n\<lparr>nnext := nnext m\<rparr>) t;
          upd_node mp (\<lambda>n. n\<lparr>nnext := Some f\<rparr>) t }"

definition fill_key :: "nat \<Rightarrow> tkey \<Rightarrow> table \<Rightarrow> (vref option \<times> table) option" where
  "fill_key i key t = do { t \<leftarrow> upd_node i (\<lambda>n. n\<lparr>nkey := Some key\<rparr>) t; Some (Some (In_node i), t) }"

text \<open>The node is put at \<open>f\<close> or, when the main position is taken by a stranger, at the main position.\<close>

definition place_key :: "tkey \<Rightarrow> nat \<Rightarrow> nat \<Rightarrow> table \<Rightarrow> (vref option \<times> table) option" where
  "place_key key mp f t =
     do { m \<leftarrow> node_at mp t;
          mk \<leftarrow> nkey m;
          let other = main_pos t mk;
          if mp \<noteq> other then do { t \<leftarrow> move_node other mp f t; fill_key mp key t }
          else do { t \<leftarrow> chain_node mp f t; fill_key f key t } }"

text \<open>\<open>Some (None, t)\<close> is the \<^verbatim>\<open>NULL\<close> return.\<close>

fun dl_newkey_l :: "(nat \<Rightarrow> bool) \<Rightarrow> nat \<Rightarrow> inserter" where
  "dl_newkey_l ok 0 key t = None"
| "dl_newkey_l ok (Suc d) key t =
     do { let mp = main_pos t key;
          m \<leftarrow> node_at mp t;
          if ctag (nval m) \<noteq> DL_NIL_L \<or> node t = Dummy then
            do { (f, t) \<leftarrow> getfreepos t;
                 case f of
                   None \<Rightarrow>
                     do { (done, t) \<leftarrow> dl_rehash ok (dl_newkey_l ok d) key t;
                          if \<not> done then Some (None, t) else dl_set_l (dl_newkey_l ok d) key t }
                 | Some f \<Rightarrow> place_key key mp f t }
          else fill_key mp key t }"

text \<open>The old value goes: its string is freed, the handler takes its pointer.\<close>

definition drop_value :: "cell \<Rightarrow> table \<Rightarrow> table option" where
  "drop_value c t =
     (case ctag c of
        DL_STR_L \<Rightarrow> (case cval c of Text s \<Rightarrow> Some t | Broken \<Rightarrow> Some t | _ \<Rightarrow> None)
      | DL_VOID_L \<Rightarrow> (case cval c of Word w \<Rightarrow> Some (t\<lparr>handled := w # handled t\<rparr>) | _ \<Rightarrow> None)
      | _ \<Rightarrow> Some t)"

definition dl_array_set :: "(nat \<Rightarrow> bool) \<Rightarrow> nat \<Rightarrow> int \<Rightarrow> vref option \<Rightarrow> table \<Rightarrow> (vref option \<times> table) option" where
  "dl_array_set ok d index v t =
     (case v of
        None \<Rightarrow> dl_newkey_l ok d (KInt index) t
      | Some r \<Rightarrow> do { c \<leftarrow> get_cell r t; t \<leftarrow> drop_value c t; Some (Some r, t) })"

text \<open>The key of a new node is a copy.\<close>

definition dl_node_set :: "(nat \<Rightarrow> bool) \<Rightarrow> nat \<Rightarrow> bytes \<Rightarrow> vref option \<Rightarrow> table \<Rightarrow> (vref option \<times> table) option" where
  "dl_node_set ok d s v t =
     (case v of
        None \<Rightarrow>
          (let (done, t) = alloc ok t
           in if \<not> done then Some (None, t)
              else let (done, t) = alloc ok t
                   in if \<not> done then Some (None, t) else dl_newkey_l ok d (KStr s) t)
      | Some r \<Rightarrow> do { c \<leftarrow> get_cell r t; t \<leftarrow> drop_value c t; Some (Some r, t) })"

definition dl_array_set_int :: "vref \<Rightarrow> u64 \<Rightarrow> table \<Rightarrow> table option" where
  "dl_array_set_int r value t = put_cell r \<lparr>ctag = DL_INT_L, cval = Word value\<rparr> t"

definition dl_array_set_void :: "vref \<Rightarrow> u64 \<Rightarrow> table \<Rightarrow> table option" where
  "dl_array_set_void r value t = put_cell r \<lparr>ctag = DL_VOID_L, cval = Word value\<rparr> t"

text \<open>A failed allocation leaves the tag as it was.\<close>

definition dl_array_set_str :: "(nat \<Rightarrow> bool) \<Rightarrow> vref \<Rightarrow> bytes \<Rightarrow> table \<Rightarrow> (rc \<times> table) option" where
  "dl_array_set_str ok r s t =
     (let (done, t) = alloc ok t
      in do { c \<leftarrow> get_cell r t;
              if \<not> done then do { t \<leftarrow> put_cell r (c\<lparr>cval := Word 0\<rparr>) t; Some (DL_ERROR, t) }
              else let (done, t) = alloc ok t
                   in if \<not> done then do { t \<leftarrow> put_cell r (c\<lparr>cval := Broken\<rparr>) t; Some (DL_ERROR, t) }
                      else do { t \<leftarrow> put_cell r \<lparr>ctag = DL_STR_L, cval = Text s\<rparr> t; Some (DL_OK, t) } })"

definition dl_node_set_int :: "vref \<Rightarrow> u64 \<Rightarrow> table \<Rightarrow> table option" where
  "dl_node_set_int r value t = put_cell r \<lparr>ctag = DL_INT_L, cval = Word value\<rparr> t"

definition dl_node_set_void :: "vref \<Rightarrow> u64 \<Rightarrow> table \<Rightarrow> table option" where
  "dl_node_set_void r value t = put_cell r \<lparr>ctag = DL_VOID_L, cval = Word value\<rparr> t"

definition dl_node_set_str :: "(nat \<Rightarrow> bool) \<Rightarrow> vref \<Rightarrow> bytes \<Rightarrow> table \<Rightarrow> (rc \<times> table) option" where
  "dl_node_set_str ok r s t =
     (let (done, t) = alloc ok t
      in do { c \<leftarrow> get_cell r t;
              if \<not> done then do { t \<leftarrow> put_cell r (c\<lparr>cval := Word 0\<rparr>) t; Some (DL_ERROR, t) }
              else let (done, t) = alloc ok t
                   in if \<not> done then do { t \<leftarrow> put_cell r (c\<lparr>cval := Broken\<rparr>) t; Some (DL_ERROR, t) }
                      else do { t \<leftarrow> put_cell r \<lparr>ctag = DL_STR_L, cval = Text s\<rparr> t; Some (DL_OK, t) } })"

definition dl_array_set_int_l :: "(nat \<Rightarrow> bool) \<Rightarrow> nat \<Rightarrow> table \<Rightarrow> int \<Rightarrow> u64 \<Rightarrow> (rc \<times> table) option" where
  "dl_array_set_int_l ok d t index value =
     do { v \<leftarrow> dl_find_by_index t index;
          (vv, t) \<leftarrow> dl_array_set ok d index v t;
          case vv of
            None \<Rightarrow> Some (DL_ERROR, t)
          | Some r \<Rightarrow> do { t \<leftarrow> dl_array_set_int r value t; Some (DL_OK, t) } }"

definition dl_array_set_str_l :: "(nat \<Rightarrow> bool) \<Rightarrow> nat \<Rightarrow> table \<Rightarrow> int \<Rightarrow> bytes \<Rightarrow> (rc \<times> table) option" where
  "dl_array_set_str_l ok d t index s =
     do { v \<leftarrow> dl_find_by_index t index;
          (vv, t) \<leftarrow> dl_array_set ok d index v t;
          case vv of None \<Rightarrow> Some (DL_ERROR, t) | Some r \<Rightarrow> dl_array_set_str ok r s t }"

text \<open>The union is compared with the new pointer whatever the tag is. The outcome is undefined when the union still
  holds the pointer to a freed string.\<close>

definition holds_word :: "vref option \<Rightarrow> u64 \<Rightarrow> table \<Rightarrow> bool option" where
  "holds_word v value t =
     (case v of
        None \<Rightarrow> Some False
      | Some r \<Rightarrow> do { c \<leftarrow> get_cell r t; if cval c = Dangling then None else Some (cval c = Word value) })"

definition dl_array_set_void_l :: "(nat \<Rightarrow> bool) \<Rightarrow> nat \<Rightarrow> table \<Rightarrow> int \<Rightarrow> u64 \<Rightarrow> (rc \<times> table) option" where
  "dl_array_set_void_l ok d t index value =
     do { v \<leftarrow> dl_find_by_index t index;
          same \<leftarrow> holds_word v value t;
          if same then Some (DL_OK, t)
          else do { (vv, t) \<leftarrow> dl_array_set ok d index v t;
                    case vv of
                      None \<Rightarrow> Some (DL_ERROR, t)
                    | Some r \<Rightarrow> do { t \<leftarrow> dl_array_set_void r value t; Some (DL_OK, t) } } }"

definition dl_node_set_int_l :: "(nat \<Rightarrow> bool) \<Rightarrow> nat \<Rightarrow> table \<Rightarrow> bytes \<Rightarrow> u64 \<Rightarrow> (rc \<times> table) option" where
  "dl_node_set_int_l ok d t s value =
     do { v \<leftarrow> dl_find_by_str t s;
          (vv, t) \<leftarrow> dl_node_set ok d s v t;
          case vv of
            None \<Rightarrow> Some (DL_ERROR, t)
          | Some r \<Rightarrow> do { t \<leftarrow> dl_node_set_int r value t; Some (DL_OK, t) } }"

definition dl_node_set_str_l :: "(nat \<Rightarrow> bool) \<Rightarrow> nat \<Rightarrow> table \<Rightarrow> bytes \<Rightarrow> bytes \<Rightarrow> (rc \<times> table) option" where
  "dl_node_set_str_l ok d t s value =
     do { v \<leftarrow> dl_find_by_str t s;
          (vv, t) \<leftarrow> dl_node_set ok d s v t;
          case vv of None \<Rightarrow> Some (DL_ERROR, t) | Some r \<Rightarrow> dl_node_set_str ok r value t }"

definition dl_node_set_void_l :: "(nat \<Rightarrow> bool) \<Rightarrow> nat \<Rightarrow> table \<Rightarrow> bytes \<Rightarrow> u64 \<Rightarrow> (rc \<times> table) option" where
  "dl_node_set_void_l ok d t s value =
     do { v \<leftarrow> dl_find_by_str t s;
          same \<leftarrow> holds_word v value t;
          if same then Some (DL_OK, t)
          else do { (vv, t) \<leftarrow> dl_node_set ok d s v t;
                    case vv of
                      None \<Rightarrow> Some (DL_ERROR, t)
                    | Some r \<Rightarrow> do { t \<leftarrow> dl_node_set_void r value t; Some (DL_OK, t) } } }"

section \<open>Deletion\<close>

text \<open>The union keeps what it holds; the string it points to is freed.\<close>

definition dl_reset_v_l :: "vref \<Rightarrow> table \<Rightarrow> table option" where
  "dl_reset_v_l r t =
     do { c \<leftarrow> get_cell r t;
          t \<leftarrow> drop_value c t;
          put_cell r \<lparr>ctag = DL_NIL_L, cval = (if ctag c = DL_STR_L then Dangling else cval c)\<rparr> t }"

text \<open>The node is taken out of its chain; when it is the first one, the next one takes its place and the
  position of that one is cleared.\<close>

definition unchain_node :: "nat \<Rightarrow> table \<Rightarrow> (nat \<times> table) option" where
  "unchain_node i t =
     do { n \<leftarrow> node_at i t;
          k \<leftarrow> nkey n;
          let mp = main_pos t k;
          if mp \<noteq> i then
            do { b \<leftarrow> before_loop mp i t;
                 t \<leftarrow> upd_node b (\<lambda>x. x\<lparr>nnext := nnext n\<rparr>) t;
                 Some (i, t) }
          else case nnext n of
            None \<Rightarrow> Some (i, t)
          | Some j \<Rightarrow>
              do { m \<leftarrow> node_at j t;
                   t \<leftarrow> upd_node i (\<lambda>x. m) t;
                   t \<leftarrow> upd_node j (\<lambda>x. n) t;
                   Some (j, t) } }"

definition dl_reset_node_l :: "nat \<Rightarrow> table \<Rightarrow> table option" where
  "dl_reset_node_l i t =
     do { (i, t) \<leftarrow> unchain_node i t;
          t \<leftarrow> dl_reset_v_l (In_node i) t;
          t \<leftarrow> upd_node i (\<lambda>n. n\<lparr>nkey := None, nnext := None\<rparr>) t;
          l \<leftarrow> lastfree t;
          Some (if l \<le> int i then t\<lparr>lastfree := Some (int i + 1)\<rparr> else t) }"

definition dl_del_key_str_l :: "table \<Rightarrow> bytes \<Rightarrow> table option" where
  "dl_del_key_str_l t s =
     do { v \<leftarrow> dl_find_by_str t s;
          case v of
            Some (In_node i) \<Rightarrow> dl_reset_node_l i t
          | _ \<Rightarrow> Some t }"

definition dl_del_key_index_l :: "table \<Rightarrow> int \<Rightarrow> table option" where
  "dl_del_key_index_l t index =
     do { v \<leftarrow> dl_find_by_index t index;
          case v of
            None \<Rightarrow> Some t
          | Some (In_array i) \<Rightarrow> dl_reset_v_l (In_array i) t
          | Some (In_node i) \<Rightarrow> dl_reset_node_l i t }"

section \<open>Creation and destruction\<close>

definition dl_table_init :: "(nat \<Rightarrow> bool) \<Rightarrow> int \<Rightarrow> int \<Rightarrow> table \<Rightarrow> table option" where
  "dl_table_init ok narray nhash t =
     (let t = t\<lparr>arr := [], ablock := 0, sizearray := 0, lsizenode := 0, node := Dummy, lastfree := None, handled := []\<rparr>;
          (done, t) = dl_array_init_l ok narray t
      in if \<not> done then None
         else let (done, t) = dl_node_init_l ok nhash t in if \<not> done then None else Some t)"

text \<open>The result of the first allocation is used unchecked: the outer \<open>None\<close>. The inner one is the \<^verbatim>\<open>NULL\<close>
  return.\<close>

definition dl_table_new :: "(nat \<Rightarrow> bool) \<Rightarrow> int \<Rightarrow> int \<Rightarrow> table option option" where
  "dl_table_new ok narray nhash =
     (if \<not> ok 0 then None
      else Some (dl_table_init ok narray nhash
        \<lparr>lsizenode = 0, sizearray = 0, arr = [], ablock = 0, node = Dummy, lastfree = None, handled = [], nalloc = 1\<rparr>))"

fun destroy_cells :: "cell list \<Rightarrow> table \<Rightarrow> table option" where
  "destroy_cells [] t = Some t"
| "destroy_cells (c # cs) t = Option.bind (drop_value c t) (destroy_cells cs)"

text \<open>The pointers handed to the handler over the life of the table.\<close>

definition dl_table_destroy :: "table \<Rightarrow> u64 list option" where
  "dl_table_destroy t =
     do { t \<leftarrow> (if int (length (arr t)) < sizearray t then None else destroy_cells (take (nat (sizearray t)) (arr t)) t);
          ns \<leftarrow> node_list (node t);
          t \<leftarrow> destroy_cells (map nval ns) t;
          Some (handled t) }"

end
