(* ===== verification/Dl_Table_Chains.thy ===== *)
theory Dl_Table_Chains
  imports Dl_Table
begin

text \<open>
  The nodes of a table as chains. Every used node lies on the chain that starts at the main position of its
  key; a chain whose main position is taken by another chain is empty. Insertion and deletion are shown on the
  list of nodes, with the chains as witnesses.
\<close>

section \<open>Chains\<close>

fun path :: "tnode list \<Rightarrow> nat option \<Rightarrow> nat list \<Rightarrow> bool" where
  "path ns a [] \<longleftrightarrow> a = None"
| "path ns a (x # xs) \<longleftrightarrow> a = Some x \<and> x < length ns \<and> path ns (nnext (ns ! x)) xs"

lemma path_Cons: "path ns a (x # xs) \<longleftrightarrow> a = Some x \<and> x < length ns \<and> path ns (nnext (ns ! x)) xs"
  by simp

lemma path_length: "path ns a xs \<Longrightarrow> x \<in> set xs \<Longrightarrow> x < length ns"
  by (induction xs arbitrary: a) (auto simp: path_Cons)

lemma path_det: "path ns a xs \<Longrightarrow> path ns a ys \<Longrightarrow> xs = ys"
proof (induction xs arbitrary: a ys)
  case Nil
  then show ?case by (cases ys) (auto simp: path_Cons)
next
  case (Cons x xs)
  then show ?case by (cases ys) (auto simp: path_Cons)
qed

lemma path_suffix: "path ns a (xs @ y # ys) \<Longrightarrow> path ns (Some y) (y # ys)"
  by (induction xs arbitrary: a) (auto simp: path_Cons)

lemma path_distinct: "path ns a xs \<Longrightarrow> distinct xs"
proof (induction xs arbitrary: a)
  case (Cons x xs)
  have "x \<notin> set xs"
  proof
    assume "x \<in> set xs"
    then obtain us vs where xs: "xs = us @ x # vs" using split_list by fast
    have "path ns (Some x) (x # vs)" using path_suffix [of ns a "x # us" x vs] Cons.prems xs by simp
    moreover have "path ns (Some x) (x # xs)" using Cons.prems by (auto simp: path_Cons)
    ultimately have "x # vs = x # xs" by (rule path_det)
    then show False using xs by simp
  qed
  then show ?case using Cons by (auto simp: path_Cons)
qed simp

lemma path_cong:
  assumes "path ns a xs" "length ns' = length ns" "\<And>x. x \<in> set xs \<Longrightarrow> nnext (ns' ! x) = nnext (ns ! x)"
  shows "path ns' a xs"
  using assms by (induction xs arbitrary: a) (auto simp: path_Cons)

text \<open>The link behind \<open>b\<close> is moved.\<close>

lemma path_relink:
  assumes "path ns a (xs @ b # ys)" "length ns' = length ns" "\<And>x. x \<in> set xs \<Longrightarrow> nnext (ns' ! x) = nnext (ns ! x)"
    and "path ns' (nnext (ns' ! b)) zs"
  shows "path ns' a (xs @ b # zs)"
  using assms by (induction xs arbitrary: a) (auto simp: path_Cons)

definition chains :: "(tkey \<Rightarrow> nat) \<Rightarrow> tnode list \<Rightarrow> (nat \<Rightarrow> nat list) \<Rightarrow> bool" where
  "chains m ns ch \<longleftrightarrow>
     (\<forall>k. m k < length ns)
   \<and> (\<forall>p. ch p \<noteq> [] \<longrightarrow> path ns (Some p) (ch p))
   \<and> (\<forall>p i. i \<in> set (ch p) \<longrightarrow> (\<exists>k. nkey (ns ! i) = Some k \<and> m k = p))
   \<and> (\<forall>i k. i < length ns \<longrightarrow> nkey (ns ! i) = Some k \<longrightarrow> i \<in> set (ch (m k)))
   \<and> (\<forall>i. i < length ns \<longrightarrow> nkey (ns ! i) = None \<longrightarrow> nnext (ns ! i) = None)
   \<and> (\<forall>i j k. i < length ns \<longrightarrow> j < length ns \<longrightarrow> nkey (ns ! i) = Some k \<longrightarrow> nkey (ns ! j) = Some k \<longrightarrow> i = j)
   \<and> (\<forall>i. i < length ns \<longrightarrow> (ctag (nval (ns ! i)) = DL_NIL_L \<longleftrightarrow> nkey (ns ! i) = None))"

lemma chainsD:
  assumes "chains m ns ch"
  shows "m k < length ns" "ch p \<noteq> [] \<Longrightarrow> path ns (Some p) (ch p)"
    "i \<in> set (ch p) \<Longrightarrow> \<exists>k. nkey (ns ! i) = Some k \<and> m k = p"
    "i < length ns \<Longrightarrow> nkey (ns ! i) = Some k \<Longrightarrow> i \<in> set (ch (m k))"
    "i < length ns \<Longrightarrow> nkey (ns ! i) = None \<Longrightarrow> nnext (ns ! i) = None"
    "i < length ns \<Longrightarrow> j < length ns \<Longrightarrow> nkey (ns ! i) = Some k \<Longrightarrow> nkey (ns ! j) = Some k \<Longrightarrow> i = j"
    "i < length ns \<Longrightarrow> ctag (nval (ns ! i)) = DL_NIL_L \<longleftrightarrow> nkey (ns ! i) = None"
    "i \<in> set (ch p) \<Longrightarrow> i < length ns"
proof -
  show "i \<in> set (ch p) \<Longrightarrow> i < length ns"
    using assms path_length [of ns "Some p" "ch p" i] unfolding chains_def by (metis empty_iff empty_set)
qed (use assms in \<open>unfold chains_def; blast\<close>)+

lemma chain_hd:
  assumes "chains m ns ch" "ch p \<noteq> []"
  obtains rest where "ch p = p # rest"
  using chainsD(2) [OF assms] assms(2) by (cases "ch p") (auto simp: path_Cons)

text \<open>The chain of a main position that another chain uses, or no chain, is empty.\<close>

lemma chain_empty:
  assumes "chains m ns ch" "nkey (ns ! p) = None \<or> (\<exists>k. nkey (ns ! p) = Some k \<and> m k \<noteq> p)"
  shows "ch p = []"
proof (rule ccontr)
  assume "ch p \<noteq> []"
  then obtain rest where "ch p = p # rest" using chain_hd [OF assms(1)] by blast
  then have "\<exists>k. nkey (ns ! p) = Some k \<and> m k = p" using chainsD(3) [OF assms(1), of p p] by simp
  then show False using assms(2) by auto
qed

text \<open>From every position the links lead to an end.\<close>

lemma path_from:
  assumes "chains m ns ch" "p < length ns"
  obtains xs where "path ns (Some p) xs"
proof (cases "nkey (ns ! p)")
  case None
  then have "path ns (Some p) [p]" using chainsD(5) [OF assms(1)] assms(2) by (simp add: path_Cons)
  then show ?thesis using that by blast
next
  case (Some k)
  then have "p \<in> set (ch (m k))" using chainsD(4) [OF assms(1)] assms(2) by blast
  then obtain us vs where "ch (m k) = us @ p # vs" using split_list by fast
  then have "path ns (Some p) (p # vs)" using path_suffix chainsD(2) [OF assms(1), of "m k"] by simp
  then show ?thesis using that by blast
qed

section \<open>The contents of the nodes\<close>

definition node_map :: "tnode list \<Rightarrow> tkey \<Rightarrow> cell option" where
  "node_map ns k = map_option nval (List.find (\<lambda>n. nkey n = Some k) ns)"

lemma node_map_Some:
  assumes "chains m ns ch"
  shows "node_map ns k = Some v \<longleftrightarrow> (\<exists>i < length ns. nkey (ns ! i) = Some k \<and> nval (ns ! i) = v)"
proof
  assume "node_map ns k = Some v"
  then obtain n where "List.find (\<lambda>n. nkey n = Some k) ns = Some n" "nval n = v" by (auto simp: node_map_def)
  then show "\<exists>i < length ns. nkey (ns ! i) = Some k \<and> nval (ns ! i) = v" unfolding find_Some_iff by blast
next
  assume "\<exists>i < length ns. nkey (ns ! i) = Some k \<and> nval (ns ! i) = v"
  then obtain i where i: "i < length ns" "nkey (ns ! i) = Some k" "nval (ns ! i) = v" by blast
  then have "ns ! i \<in> set ns" by simp
  then have "List.find (\<lambda>n. nkey n = Some k) ns \<noteq> None" using i(2) unfolding find_None_iff by blast
  then obtain n where n: "List.find (\<lambda>n. nkey n = Some k) ns = Some n" by blast
  then obtain j where j: "j < length ns" "nkey (ns ! j) = Some k" "n = ns ! j" unfolding find_Some_iff by blast
  then have "j = i" using chainsD(6) [OF assms j(1) i(1) j(2) i(2)] by simp
  then have "n = ns ! i" using j(3) by simp
  then show "node_map ns k = Some v" using n i by (simp add: node_map_def)
qed

lemma node_map_None: "node_map ns k = None \<longleftrightarrow> (\<forall>i < length ns. nkey (ns ! i) \<noteq> Some k)"
  by (auto simp: node_map_def find_None_iff in_set_conv_nth)

lemma node_map_eqI:
  assumes "chains m ns ch" "\<And>k v. f k = Some v \<longleftrightarrow> (\<exists>i < length ns. nkey (ns ! i) = Some k \<and> nval (ns ! i) = v)"
  shows "node_map ns = f"
proof
  fix k
  have eq: "node_map ns k = Some v \<longleftrightarrow> f k = Some v" for v
    using node_map_Some [OF assms(1), of k v] assms(2) [of k v] by (simp only:)
  show "node_map ns k = f k"
  proof (cases "f k")
    case None
    then have "node_map ns k \<noteq> Some v" for v using eq [of v] by simp
    then show ?thesis using None by (metis option.exhaust)
  next
    case (Some v)
    then show ?thesis using eq [of v] by simp
  qed
qed

section \<open>Insertion\<close>

text \<open>Into the free main position.\<close>

lemma insert_free:
  assumes C: "chains m ns ch" and mp: "mp = m k" and free: "nkey (ns ! mp) = None" and new: "node_map ns k = None" and c: "ctag c \<noteq> DL_NIL_L"
  defines "ns' \<equiv> ns[mp := \<lparr>nkey = Some k, nval = c, nnext = nnext (ns ! mp)\<rparr>]"
  shows "chains m ns' (ch(mp := [mp]))" "node_map ns' = (node_map ns)(k \<mapsto> c)"
proof -
  note D = chainsD [OF C]
  have mpl: "mp < length ns" using D(1) mp by simp
  have e: "ch mp = []" using chain_empty [OF C] free by blast
  have nk: "nkey (ns ! i) \<noteq> Some k" if "i < length ns" for i using new that by (simp add: node_map_None)
  have notin: "mp \<notin> set (ch p)" for p using D(3) [of mp p] free by auto
  have nth: "ns' ! i = (if i = mp then \<lparr>nkey = Some k, nval = c, nnext = nnext (ns ! mp)\<rparr> else ns ! i)" for i
    using mpl by (simp add: ns'_def)
  have len: "length ns' = length ns" by (simp add: ns'_def)
  have P: "path ns' (Some p) ((ch(mp := [mp])) p)" if "(ch(mp := [mp])) p \<noteq> []" for p
  proof (cases "p = mp")
    case True
    then show ?thesis using mpl D(5) [OF mpl free] len nth by (simp add: path_Cons)
  next
    case False
    have "path ns (Some p) (ch p)" using D(2) False that by simp
    then have "path ns' (Some p) (ch p)" by (rule path_cong [OF _ len]) (use notin [of p] in \<open>auto simp: nth\<close>)
    then show ?thesis using False by simp
  qed
  show C': "chains m ns' (ch(mp := [mp]))"
    unfolding chains_def len
  proof (intro conjI allI impI)
    show "m k < length ns" for k by (rule D)
    show "path ns' (Some p) ((ch(mp := [mp])) p)" if "(ch(mp := [mp])) p \<noteq> []" for p using P that .
    show "\<exists>k. nkey (ns' ! i) = Some k \<and> m k = p" if "i \<in> set ((ch(mp := [mp])) p)" for p i
      using that D(3) [of i p] notin [of p] mp by (cases "p = mp") (auto simp: nth)
    show "i \<in> set ((ch(mp := [mp])) (m k'))" if "i < length ns" "nkey (ns' ! i) = Some k'" for i k'
      using that D(4) [of i k'] e mp by (auto simp: nth split: if_splits)
    show "nnext (ns' ! i) = None" if "i < length ns" "nkey (ns' ! i) = None" for i
      using that D(5) [of i] by (auto simp: nth split: if_splits)
    show "i = j" if "i < length ns" "j < length ns" "nkey (ns' ! i) = Some k'" "nkey (ns' ! j) = Some k'" for i j k'
      using that D(6) [of i j k'] nk by (auto simp: nth split: if_splits)
    show "ctag (nval (ns' ! i)) = DL_NIL_L \<longleftrightarrow> nkey (ns' ! i) = None" if "i < length ns" for i
      using that D(7) [of i] c by (auto simp: nth)
  qed
  show "node_map ns' = (node_map ns)(k \<mapsto> c)"
  proof (rule node_map_eqI [OF C'])
    fix k' v
    show "((node_map ns)(k \<mapsto> c)) k' = Some v \<longleftrightarrow> (\<exists>i < length ns'. nkey (ns' ! i) = Some k' \<and> nval (ns' ! i) = v)"
    proof (cases "k' = k")
      case True
      then show ?thesis using nk mpl by (auto simp: nth len)
    next
      case False
      then have "nkey (ns' ! i) = Some k' \<longleftrightarrow> nkey (ns ! i) = Some k'" "nkey (ns ! i) = Some k' \<Longrightarrow> ns' ! i = ns ! i" for i
        using free by (auto simp: nth)
      then show ?thesis using node_map_Some [OF C, of k' v] False by (auto simp: len)
    qed
  qed
qed

text \<open>Behind the node at the main position.\<close>

lemma insert_behind:
  assumes C: "chains m ns ch" and mp: "mp = m k" and taken: "nkey (ns ! mp) = Some k0" "m k0 = mp"
    and f: "f < length ns" "nkey (ns ! f) = None" and new: "node_map ns k = None" and c: "ctag c \<noteq> DL_NIL_L"
  defines "ns' \<equiv> ns[f := \<lparr>nkey = Some k, nval = c, nnext = nnext (ns ! mp)\<rparr>, mp := (ns ! mp)\<lparr>nnext := Some f\<rparr>]"
  obtains ch' where "chains m ns' ch'" "node_map ns' = (node_map ns)(k \<mapsto> c)"
proof -
  note D = chainsD [OF C]
  have mpl: "mp < length ns" using D(1) mp by simp
  have fm: "f \<noteq> mp" using f taken by auto
  have nth: "ns' ! i = (if i = mp then (ns ! mp)\<lparr>nnext := Some f\<rparr> else if i = f then \<lparr>nkey = Some k, nval = c, nnext = nnext (ns ! mp)\<rparr> else ns ! i)" for i
    using mpl f(1) fm by (simp add: ns'_def nth_list_update)
  have len: "length ns' = length ns" by (simp add: ns'_def)
  have nk: "nkey (ns ! i) \<noteq> Some k" if "i < length ns" for i using new that by (simp add: node_map_None)
  have fnot: "f \<notin> set (ch p)" for p using D(3) [of f p] f by auto
  have "mp \<in> set (ch mp)" using D(4) [OF mpl taken(1)] taken(2) by simp
  then obtain rest where ch: "ch mp = mp # rest" using chain_hd [OF C, of mp] by (metis empty_iff empty_set)
  have pm: "path ns (Some mp) (mp # rest)" using D(2) [of mp] ch by simp
  then have mr: "mp \<notin> set rest" using path_distinct by fastforce
  let ?ch = "ch(mp := mp # f # rest)"
  have key: "nkey (ns' ! i) = (if i = f then Some k else nkey (ns ! i))" for i using fm by (simp add: nth)
  have C': "chains m ns' ?ch"
    unfolding chains_def len
  proof (intro conjI allI impI)
    show "m k < length ns" for k by (rule D)
    show "path ns' (Some p) (?ch p)" if "?ch p \<noteq> []" for p
    proof (cases "p = mp")
      case True
      have "path ns (nnext (ns ! mp)) rest" using pm by simp
      then have "path ns' (nnext (ns ! mp)) rest"
        by (rule path_cong [OF _ len]) (use mr fnot [of mp] ch in \<open>auto simp: nth\<close>)
      then show ?thesis using True mpl f(1) fm by (simp add: nth len)
    next
      case False
      then have "mp \<notin> set (ch p)" using D(3) [of mp p] taken by auto
      moreover have "path ns (Some p) (ch p)" using D(2) False that by simp
      ultimately have "path ns' (Some p) (ch p)" using fnot [of p] by (intro path_cong [OF _ len]) (auto simp: nth)
      then show ?thesis using False by simp
    qed
    show "\<exists>k. nkey (ns' ! i) = Some k \<and> m k = p" if "i \<in> set (?ch p)" for p i
      using that D(3) [of i p] fnot [of p] mp ch taken fm by (cases "p = mp") (auto simp: key)
    show "i \<in> set (?ch (m k'))" if "i < length ns" "nkey (ns' ! i) = Some k'" for i k'
      using that D(4) [of i k'] ch mp by (cases "i = f") (auto simp: key)
    show "nnext (ns' ! i) = None" if "i < length ns" "nkey (ns' ! i) = None" for i
      using that D(5) [of i] taken by (auto simp: nth split: if_splits)
    show "i = j" if "i < length ns" "j < length ns" "nkey (ns' ! i) = Some k'" "nkey (ns' ! j) = Some k'" for i j k'
      using that D(6) [of i j k'] nk by (auto simp: key split: if_splits)
    show "ctag (nval (ns' ! i)) = DL_NIL_L \<longleftrightarrow> nkey (ns' ! i) = None" if "i < length ns" for i
      using that D(7) [of i] c by (auto simp: nth)
  qed
  have "node_map ns' = (node_map ns)(k \<mapsto> c)"
  proof (rule node_map_eqI [OF C'])
    fix k' v
    show "((node_map ns)(k \<mapsto> c)) k' = Some v \<longleftrightarrow> (\<exists>i < length ns'. nkey (ns' ! i) = Some k' \<and> nval (ns' ! i) = v)"
    proof (cases "k' = k")
      case True
      then show ?thesis using nk f(1) fm by (auto simp: nth len)
    next
      case False
      then have "nkey (ns' ! i) = Some k' \<longleftrightarrow> nkey (ns ! i) = Some k'" "nkey (ns ! i) = Some k' \<Longrightarrow> nval (ns' ! i) = nval (ns ! i)" for i
        using f(2) by (auto simp: nth key)
      then show ?thesis using node_map_Some [OF C, of k' v] False by (auto simp: len)
    qed
  qed
  then show thesis using that C' by blast
qed

text \<open>In the place of a stranger, which moves.\<close>

lemma insert_moving:
  assumes C: "chains m ns ch" and mp: "mp = m k" and taken: "nkey (ns ! mp) = Some k0" "m k0 \<noteq> mp"
    and f: "f < length ns" "nkey (ns ! f) = None" and new: "node_map ns k = None" and c: "ctag c \<noteq> DL_NIL_L"
    and b: "ch (m k0) = us @ b # mp # vs"
  defines "ns' \<equiv> ns[b := (ns ! b)\<lparr>nnext := Some f\<rparr>, f := ns ! mp, mp := \<lparr>nkey = Some k, nval = c, nnext = None\<rparr>]"
  obtains ch' where "chains m ns' ch'" "node_map ns' = (node_map ns)(k \<mapsto> c)"
proof -
  note D = chainsD [OF C]
  let ?o = "m k0"
  have mpl: "mp < length ns" using D(1) mp by simp
  have po: "path ns (Some ?o) (us @ b # mp # vs)" using D(2) [of ?o] b by simp
  have dist: "distinct (us @ b # mp # vs)" using path_distinct [OF po] .
  have bl: "b < length ns" using path_length [OF po] by simp
  have fnot: "f \<notin> set (ch p)" for p using D(3) [of f p] f by auto
  have ne: "f \<noteq> mp" "b \<noteq> mp" "b \<noteq> f" using f taken dist fnot [of ?o] b by auto
  have nth: "ns' ! i = (if i = mp then \<lparr>nkey = Some k, nval = c, nnext = None\<rparr> else if i = f then ns ! mp
      else if i = b then (ns ! b)\<lparr>nnext := Some f\<rparr> else ns ! i)" for i
    using mpl bl f(1) ne by (simp add: ns'_def nth_list_update)
  have len: "length ns' = length ns" by (simp add: ns'_def)
  have nk: "nkey (ns ! i) \<noteq> Some k" if "i < length ns" for i using new that by (simp add: node_map_None)
  have e: "ch mp = []" using chain_empty [OF C] taken by auto
  let ?ch = "ch(?o := us @ b # f # vs, mp := [mp])"
  have key: "nkey (ns' ! i) = (if i = mp then Some k else if i = f then Some k0 else nkey (ns ! i))" for i
    using ne taken by (simp add: nth)
  have omp: "?o \<noteq> mp" using taken by simp
  have other: "mp \<notin> set (ch p)" "b \<notin> set (ch p)" if "p \<noteq> ?o" for p
  proof -
    show "mp \<notin> set (ch p)" using D(3) [of mp p] taken that by auto
    have "b \<in> set (ch ?o)" using b by simp
    then show "b \<notin> set (ch p)" using D(3) [of b p] D(3) [of b ?o] that by auto
  qed
  have C': "chains m ns' ?ch"
    unfolding chains_def len
  proof (intro conjI allI impI)
    show "m k < length ns" for k by (rule D)
    show "path ns' (Some p) (?ch p)" if "?ch p \<noteq> []" for p
    proof -
      consider "p = mp" | "p = ?o" "p \<noteq> mp" | "p \<noteq> mp" "p \<noteq> ?o" by blast
      then show ?thesis
      proof cases
        case 1
        then show ?thesis using mpl by (simp add: nth len)
      next
        case 2
        have "path ns (Some mp) (mp # vs)" using path_suffix [of ns "Some ?o" "us @ [b]" mp vs] po by simp
        then have "path ns (nnext (ns ! mp)) vs" by simp
        then have "path ns' (nnext (ns ! mp)) vs"
          by (rule path_cong [OF _ len]) (use dist fnot [of ?o] b in \<open>auto simp: nth\<close>)
        then have "path ns' (nnext (ns' ! b)) (f # vs)" using ne f(1) by (simp add: nth len)
        then have "path ns' (Some ?o) (us @ b # f # vs)"
          by (rule path_relink [OF po len, rotated]) (use dist fnot [of ?o] b in \<open>auto simp: nth\<close>)
        then show ?thesis using 2 by simp
      next
        case 3
        then have "path ns (Some p) (ch p)" using D(2) that by simp
        then have "path ns' (Some p) (ch p)"
          by (rule path_cong [OF _ len]) (use other [OF 3(2)] fnot [of p] in \<open>auto simp: nth\<close>)
        then show ?thesis using 3 by simp
      qed
    qed
    show "\<exists>k. nkey (ns' ! i) = Some k \<and> m k = p" if i: "i \<in> set (?ch p)" for p i
    proof -
      consider "p = mp" | "p = ?o" "p \<noteq> mp" | "p \<noteq> mp" "p \<noteq> ?o" by blast
      then show ?thesis
      proof cases
        case 1
        then show ?thesis using i mp by (simp add: key)
      next
        case 2
        then have "i = f \<or> i \<in> set (ch ?o) \<and> i \<noteq> mp \<and> i \<noteq> f" using i b dist fnot [of ?o] by auto
        then show ?thesis using D(3) [of i ?o] 2 ne by (auto simp: key)
      next
        case 3
        then have "i \<in> set (ch p)" "i \<noteq> mp" "i \<noteq> f" using i other(1) [OF 3(2)] fnot [of p] by auto
        then show ?thesis using D(3) [of i p] by (simp add: key)
      qed
    qed
    show "i \<in> set (?ch (m k'))" if i: "i < length ns" "nkey (ns' ! i) = Some k'" for i k'
    proof -
      consider "i = mp" | "i = f" "i \<noteq> mp" | "i \<noteq> mp" "i \<noteq> f" by blast
      then show ?thesis
      proof cases
        case 1
        then show ?thesis using i mp by (simp add: key)
      next
        case 2
        then show ?thesis using i omp by (auto simp: key)
      next
        case 3
        then have "i \<in> set (ch (m k'))" using i D(4) [of i k'] by (simp add: key)
        then show ?thesis using b e 3 by (cases "m k' = ?o"; cases "m k' = mp") auto
      qed
    qed
    show "nnext (ns' ! i) = None" if "i < length ns" "nkey (ns' ! i) = None" for i
      using that D(5) [of i] D(3) [of b ?o] b taken by (auto simp: nth split: if_splits)
    show "i = j" if ij: "i < length ns" "j < length ns" "nkey (ns' ! i) = Some k'" "nkey (ns' ! j) = Some k'" for i j k'
    proof -
      have orig: "nkey (ns ! (if r = f then mp else r)) = Some k'" "k' \<noteq> k" "(if r = f then mp else r) < length ns"
        if "r \<noteq> mp" "r < length ns" "nkey (ns' ! r) = Some k'" for r
        using that taken mpl nk [OF mpl] nk [of r] by (auto simp: key split: if_splits)
      have "i = mp \<longleftrightarrow> k' = k" "j = mp \<longleftrightarrow> k' = k" using ij orig(2) [of i] orig(2) [of j] by (auto simp: key split: if_splits)
      then have "i = mp \<longleftrightarrow> j = mp" by blast
      moreover have "i = j" if "i \<noteq> mp" "j \<noteq> mp"
        using D(6) [OF orig(3) orig(3) orig(1) orig(1), of i j] that ij by (auto split: if_splits)
      ultimately show ?thesis by blast
    qed
    show "ctag (nval (ns' ! i)) = DL_NIL_L \<longleftrightarrow> nkey (ns' ! i) = None" if "i < length ns" for i
      using that D(7) [of i] D(7) [OF mpl] taken c by (auto simp: nth)
  qed
  have "node_map ns' = (node_map ns)(k \<mapsto> c)"
  proof (rule node_map_eqI [OF C'])
    fix k' v
    show "((node_map ns)(k \<mapsto> c)) k' = Some v \<longleftrightarrow> (\<exists>i < length ns'. nkey (ns' ! i) = Some k' \<and> nval (ns' ! i) = v)"
    proof (cases "k' = k")
      case True
      have "k0 \<noteq> k" using nk [OF mpl] taken by auto
      moreover have "nkey (ns' ! i) = Some k \<longleftrightarrow> i = mp" if "i < length ns" for i using nk [OF that] calculation by (simp add: key)
      ultimately have "(\<exists>i < length ns'. nkey (ns' ! i) = Some k \<and> nval (ns' ! i) = v) \<longleftrightarrow> nval (ns' ! mp) = v"
        using mpl unfolding len by blast
      then show ?thesis using True by (simp add: nth)
    next
      case False
      have "(\<exists>i < length ns'. nkey (ns' ! i) = Some k' \<and> nval (ns' ! i) = v) \<longleftrightarrow> (\<exists>i < length ns. nkey (ns ! i) = Some k' \<and> nval (ns ! i) = v)"
      proof
        assume "\<exists>i < length ns'. nkey (ns' ! i) = Some k' \<and> nval (ns' ! i) = v"
        then obtain i where i: "i < length ns" "nkey (ns' ! i) = Some k'" "nval (ns' ! i) = v" by (auto simp: len)
        have "nkey (ns ! (if i = f then mp else i)) = Some k' \<and> nval (ns ! (if i = f then mp else i)) = v \<and> (if i = f then mp else i) < length ns"
          using i False ne mpl by (auto simp: nth split: if_splits)
        then show "\<exists>i < length ns. nkey (ns ! i) = Some k' \<and> nval (ns ! i) = v" by blast
      next
        assume "\<exists>i < length ns. nkey (ns ! i) = Some k' \<and> nval (ns ! i) = v"
        then obtain i where i: "i < length ns" "nkey (ns ! i) = Some k'" "nval (ns ! i) = v" by blast
        have "nkey (ns' ! (if i = mp then f else i)) = Some k' \<and> nval (ns' ! (if i = mp then f else i)) = v \<and> (if i = mp then f else i) < length ns'"
          using i f ne by (auto simp: nth len)
        then show "\<exists>i < length ns'. nkey (ns' ! i) = Some k' \<and> nval (ns' ! i) = v" by blast
      qed
      then show ?thesis using node_map_Some [OF C, of k' v] False by simp
    qed
  qed
  then show thesis using that C' by blast
qed

section \<open>Deletion\<close>

definition cleared :: "tnode \<Rightarrow> bool" where
  "cleared n \<longleftrightarrow> nkey n = None \<and> nnext n = None \<and> ctag (nval n) = DL_NIL_L"

text \<open>A node that is not the first one of its chain.\<close>

lemma delete_behind:
  assumes C: "chains m ns ch" and i: "i < length ns" "nkey (ns ! i) = Some k" and ch: "ch (m k) = us @ b # i # vs" and z: "cleared z"
  defines "ns' \<equiv> ns[b := (ns ! b)\<lparr>nnext := nnext (ns ! i)\<rparr>, i := z]"
  obtains ch' where "chains m ns' ch'" "node_map ns' = (node_map ns)(k := None)"
proof -
  note D = chainsD [OF C]
  let ?p = "m k"
  have pp: "path ns (Some ?p) (us @ b # i # vs)" using D(2) [of ?p] ch by simp
  have dist: "distinct (us @ b # i # vs)" using path_distinct [OF pp] .
  have bl: "b < length ns" "b \<noteq> i" using path_length [OF pp] dist by simp_all
  have nth: "ns' ! x = (if x = i then z else if x = b then (ns ! b)\<lparr>nnext := nnext (ns ! i)\<rparr> else ns ! x)" for x
    using i bl by (simp add: ns'_def nth_list_update)
  have len: "length ns' = length ns" by (simp add: ns'_def)
  have key: "nkey (ns' ! x) = (if x = i then None else nkey (ns ! x))" for x using z by (simp add: nth cleared_def)
  have other: "i \<notin> set (ch p)" "b \<notin> set (ch p)" if "p \<noteq> ?p" for p
  proof -
    show "i \<notin> set (ch p)" using D(3) [of i p] i that by auto
    have "b \<in> set (ch ?p)" using ch by simp
    then show "b \<notin> set (ch p)" using D(3) [of b p] D(3) [of b ?p] that by auto
  qed
  let ?ch = "ch(?p := us @ b # vs)"
  have C': "chains m ns' ?ch"
    unfolding chains_def len
  proof (intro conjI allI impI)
    show "m k < length ns" for k by (rule D)
    show "path ns' (Some p) (?ch p)" if "?ch p \<noteq> []" for p
    proof (cases "p = ?p")
      case True
      have "path ns (Some i) (i # vs)" using path_suffix [of ns "Some ?p" "us @ [b]" i vs] pp by simp
      then have "path ns (nnext (ns ! i)) vs" by simp
      then have "path ns' (nnext (ns ! i)) vs" by (rule path_cong [OF _ len]) (use dist in \<open>auto simp: nth\<close>)
      then have "path ns' (nnext (ns' ! b)) vs" using bl by (simp add: nth)
      then have "path ns' (Some ?p) (us @ b # vs)" by (rule path_relink [OF pp len, rotated]) (use dist in \<open>auto simp: nth\<close>)
      then show ?thesis using True by simp
    next
      case False
      then have "path ns (Some p) (ch p)" using D(2) that by simp
      then have "path ns' (Some p) (ch p)" by (rule path_cong [OF _ len]) (use other [OF False] in \<open>auto simp: nth\<close>)
      then show ?thesis using False by simp
    qed
    show "\<exists>k. nkey (ns' ! x) = Some k \<and> m k = p" if "x \<in> set (?ch p)" for p x
      using that D(3) [of x p] other [of p] dist ch by (cases "p = ?p") (auto simp: key)
    show "x \<in> set (?ch (m k'))" if "x < length ns" "nkey (ns' ! x) = Some k'" for x k'
      using that D(4) [of x k'] ch by (cases "m k' = ?p") (auto simp: key split: if_splits)
    show "nnext (ns' ! x) = None" if "x < length ns" "nkey (ns' ! x) = None" for x
      using that D(5) [of x] D(3) [of b ?p] ch z by (auto simp: nth cleared_def split: if_splits)
    show "x = y" if "x < length ns" "y < length ns" "nkey (ns' ! x) = Some k'" "nkey (ns' ! y) = Some k'" for x y k'
      using that D(6) [of x y k'] by (auto simp: key split: if_splits)
    show "ctag (nval (ns' ! x)) = DL_NIL_L \<longleftrightarrow> nkey (ns' ! x) = None" if "x < length ns" for x
      using that D(7) [of x] z by (auto simp: nth cleared_def)
  qed
  have "node_map ns' = (node_map ns)(k := None)"
  proof (rule node_map_eqI [OF C'])
    fix k' v
    have val: "nval (ns' ! x) = nval (ns ! x)" if "x \<noteq> i" for x using that by (simp add: nth)
    have "nkey (ns' ! x) = Some k' \<and> nval (ns' ! x) = v \<longleftrightarrow> k' \<noteq> k \<and> nkey (ns ! x) = Some k' \<and> nval (ns ! x) = v" if "x < length ns" for x
      using D(6) [of x i k'] that i val [of x] by (cases "x = i") (auto simp: key)
    then show "((node_map ns)(k := None)) k' = Some v \<longleftrightarrow> (\<exists>x < length ns'. nkey (ns' ! x) = Some k' \<and> nval (ns' ! x) = v)"
      using node_map_Some [OF C, of k' v] by (auto simp: len)
  qed
  then show thesis using that C' by blast
qed

text \<open>The only node of its chain.\<close>

lemma delete_only:
  assumes C: "chains m ns ch" and i: "i < length ns" "nkey (ns ! i) = Some k" and ch: "ch (m k) = [i]" and z: "cleared z"
  defines "ns' \<equiv> ns[i := z]"
  obtains ch' where "chains m ns' ch'" "node_map ns' = (node_map ns)(k := None)"
proof -
  note D = chainsD [OF C]
  let ?p = "m k"
  have nth: "ns' ! x = (if x = i then z else ns ! x)" for x using i by (simp add: ns'_def)
  have len: "length ns' = length ns" by (simp add: ns'_def)
  have key: "nkey (ns' ! x) = (if x = i then None else nkey (ns ! x))" for x using z by (simp add: nth cleared_def)
  have other: "i \<notin> set (ch p)" if "p \<noteq> ?p" for p using D(3) [of i p] i that by auto
  let ?ch = "ch(?p := [])"
  have C': "chains m ns' ?ch"
    unfolding chains_def len
  proof (intro conjI allI impI)
    show "m k < length ns" for k by (rule D)
    show "path ns' (Some p) (?ch p)" if "?ch p \<noteq> []" for p
    proof -
      have p: "p \<noteq> ?p" using that by auto
      then have "path ns (Some p) (ch p)" using D(2) that by simp
      then have "path ns' (Some p) (ch p)" by (rule path_cong [OF _ len]) (use other [OF p] in \<open>auto simp: nth\<close>)
      then show ?thesis using p by simp
    qed
    show "\<exists>k. nkey (ns' ! x) = Some k \<and> m k = p" if "x \<in> set (?ch p)" for p x
      using that D(3) [of x p] other [of p] by (cases "p = ?p") (auto simp: key)
    show "x \<in> set (?ch (m k'))" if "x < length ns" "nkey (ns' ! x) = Some k'" for x k'
      using that D(4) [of x k'] ch by (cases "m k' = ?p") (auto simp: key split: if_splits)
    show "nnext (ns' ! x) = None" if "x < length ns" "nkey (ns' ! x) = None" for x
      using that D(5) [of x] z by (auto simp: nth cleared_def split: if_splits)
    show "x = y" if "x < length ns" "y < length ns" "nkey (ns' ! x) = Some k'" "nkey (ns' ! y) = Some k'" for x y k'
      using that D(6) [of x y k'] by (auto simp: key split: if_splits)
    show "ctag (nval (ns' ! x)) = DL_NIL_L \<longleftrightarrow> nkey (ns' ! x) = None" if "x < length ns" for x
      using that D(7) [of x] z by (auto simp: nth cleared_def)
  qed
  have "node_map ns' = (node_map ns)(k := None)"
  proof (rule node_map_eqI [OF C'])
    fix k' v
    have "nkey (ns' ! x) = Some k' \<and> nval (ns' ! x) = v \<longleftrightarrow> k' \<noteq> k \<and> nkey (ns ! x) = Some k' \<and> nval (ns ! x) = v" if "x < length ns" for x
      using D(6) [of x i k'] that i z by (cases "x = i") (auto simp: nth cleared_def)
    then show "((node_map ns)(k := None)) k' = Some v \<longleftrightarrow> (\<exists>x < length ns'. nkey (ns' ! x) = Some k' \<and> nval (ns' ! x) = v)"
      using node_map_Some [OF C, of k' v] by (auto simp: len)
  qed
  then show thesis using that C' by blast
qed

text \<open>The first node of a longer chain: the second one takes its place.\<close>

lemma delete_first:
  assumes C: "chains m ns ch" and i: "i < length ns" "nkey (ns ! i) = Some k" and ch: "ch (m k) = i # j # vs" and z: "cleared z"
  defines "ns' \<equiv> ns[i := ns ! j, j := z]"
  obtains ch' where "chains m ns' ch'" "node_map ns' = (node_map ns)(k := None)"
proof -
  note D = chainsD [OF C]
  let ?p = "m k"
  have pp: "path ns (Some ?p) (i # j # vs)" using D(2) [of ?p] ch by simp
  then have ip: "i = ?p" by simp
  have dist: "distinct (i # j # vs)" using path_distinct [OF pp] .
  have jl: "j < length ns" "i \<noteq> j" using pp dist by auto
  obtain kj where kj: "nkey (ns ! j) = Some kj" "m kj = ?p" using D(3) [of j ?p] ch by auto
  have kne: "kj \<noteq> k" using D(6) [of i j k] i jl kj by auto
  have nth: "ns' ! x = (if x = j then z else if x = i then ns ! j else ns ! x)" for x
    using i jl by (simp add: ns'_def nth_list_update)
  have len: "length ns' = length ns" by (simp add: ns'_def)
  have key: "nkey (ns' ! x) = (if x = j then None else if x = i then Some kj else nkey (ns ! x))" for x
    using z kj by (simp add: nth cleared_def)
  have other: "i \<notin> set (ch p)" "j \<notin> set (ch p)" if "p \<noteq> ?p" for p
    using D(3) [of i p] D(3) [of j p] i kj that by auto
  let ?ch = "ch(?p := i # vs)"
  have C': "chains m ns' ?ch"
    unfolding chains_def len
  proof (intro conjI allI impI)
    show "m k < length ns" for k by (rule D)
    show "path ns' (Some p) (?ch p)" if "?ch p \<noteq> []" for p
    proof (cases "p = ?p")
      case True
      have "path ns (nnext (ns ! j)) vs" using pp by simp
      then have "path ns' (nnext (ns ! j)) vs" by (rule path_cong [OF _ len]) (use dist in \<open>auto simp: nth\<close>)
      then show ?thesis using True ip i jl by (simp add: nth len)
    next
      case False
      then have "path ns (Some p) (ch p)" using D(2) that by simp
      then have "path ns' (Some p) (ch p)" by (rule path_cong [OF _ len]) (use other [OF False] in \<open>auto simp: nth\<close>)
      then show ?thesis using False by simp
    qed
    show "\<exists>k. nkey (ns' ! x) = Some k \<and> m k = p" if x: "x \<in> set (?ch p)" for p x
    proof (cases "p = ?p")
      case True
      then have "x = i \<or> x \<in> set (ch ?p) \<and> x \<noteq> i \<and> x \<noteq> j" using x ch dist by auto
      then show ?thesis using D(3) [of x ?p] True kj jl by (auto simp: key)
    next
      case False
      then have "x \<in> set (ch p)" "x \<noteq> i" "x \<noteq> j" using x other [OF False] by auto
      then show ?thesis using D(3) [of x p] by (simp add: key)
    qed
    show "x \<in> set (?ch (m k'))" if "x < length ns" "nkey (ns' ! x) = Some k'" for x k'
      using that D(4) [of x k'] ch kj by (cases "m k' = ?p") (auto simp: key split: if_splits)
    show "nnext (ns' ! x) = None" if "x < length ns" "nkey (ns' ! x) = None" for x
      using that D(5) [of x] z kj by (auto simp: nth cleared_def split: if_splits)
    show "x = y" if "x < length ns" "y < length ns" "nkey (ns' ! x) = Some k'" "nkey (ns' ! y) = Some k'" for x y k'
      using that D(6) [of x y k'] D(6) [of x j k'] D(6) [of y j k'] kj jl by (auto simp: key split: if_splits)
    show "ctag (nval (ns' ! x)) = DL_NIL_L \<longleftrightarrow> nkey (ns' ! x) = None" if "x < length ns" for x
      using that D(7) [of x] D(7) [OF jl(1)] z kj by (auto simp: nth cleared_def)
  qed
  have "node_map ns' = (node_map ns)(k := None)"
  proof (rule node_map_eqI [OF C'])
    fix k' v
    have "(\<exists>x < length ns'. nkey (ns' ! x) = Some k' \<and> nval (ns' ! x) = v) \<longleftrightarrow> k' \<noteq> k \<and> (\<exists>x < length ns. nkey (ns ! x) = Some k' \<and> nval (ns ! x) = v)"
    proof
      assume "\<exists>x < length ns'. nkey (ns' ! x) = Some k' \<and> nval (ns' ! x) = v"
      then obtain x where x: "x < length ns" "nkey (ns' ! x) = Some k'" "nval (ns' ! x) = v" by (auto simp: len)
      have "nkey (ns ! (if x = i then j else x)) = Some k' \<and> nval (ns ! (if x = i then j else x)) = v \<and> (if x = i then j else x) < length ns"
        using x jl kj z by (auto simp: nth cleared_def split: if_splits)
      moreover have "k' \<noteq> k"
        using D(6) [of x i k'] x i kj kne jl by (cases "x = i"; cases "x = j") (auto simp: key)
      ultimately show "k' \<noteq> k \<and> (\<exists>x < length ns. nkey (ns ! x) = Some k' \<and> nval (ns ! x) = v)" by blast
    next
      assume "k' \<noteq> k \<and> (\<exists>x < length ns. nkey (ns ! x) = Some k' \<and> nval (ns ! x) = v)"
      then obtain x where x: "k' \<noteq> k" "x < length ns" "nkey (ns ! x) = Some k'" "nval (ns ! x) = v" by blast
      then have "x \<noteq> i" using i by auto
      then have "nkey (ns' ! (if x = j then i else x)) = Some k' \<and> nval (ns' ! (if x = j then i else x)) = v \<and> (if x = j then i else x) < length ns'"
        using x i jl by (auto simp: nth len)
      then show "\<exists>x < length ns'. nkey (ns' ! x) = Some k' \<and> nval (ns' ! x) = v" by blast
    qed
    then show "((node_map ns)(k := None)) k' = Some v \<longleftrightarrow> (\<exists>x < length ns'. nkey (ns' ! x) = Some k' \<and> nval (ns' ! x) = v)"
      using node_map_Some [OF C, of k' v] by simp
  qed
  then show thesis using that C' by blast
qed

section \<open>Changing a value\<close>

lemma change_value:
  assumes C: "chains m ns ch" and i: "i < length ns" "nkey (ns ! i) = Some k" and c: "ctag c \<noteq> DL_NIL_L"
  defines "ns' \<equiv> ns[i := (ns ! i)\<lparr>nval := c\<rparr>]"
  shows "chains m ns' ch" "node_map ns' = (node_map ns)(k \<mapsto> c)"
proof -
  note D = chainsD [OF C]
  have nth: "ns' ! x = (if x = i then (ns ! i)\<lparr>nval := c\<rparr> else ns ! x)" for x using i by (simp add: ns'_def)
  have len: "length ns' = length ns" by (simp add: ns'_def)
  have same: "nkey (ns' ! x) = nkey (ns ! x)" "nnext (ns' ! x) = nnext (ns ! x)" for x by (simp_all add: nth)
  show C': "chains m ns' ch"
    unfolding chains_def len same
  proof (intro conjI allI impI)
    show "m k < length ns" for k by (rule D)
    show "path ns' (Some p) (ch p)" if "ch p \<noteq> []" for p
      by (rule path_cong [OF D(2) [OF that] len]) (rule same)
    show "\<exists>k. nkey (ns ! x) = Some k \<and> m k = p" if "x \<in> set (ch p)" for p x using D(3) [OF that] .
    show "x \<in> set (ch (m k'))" if "x < length ns" "nkey (ns ! x) = Some k'" for x k' using D(4) [OF that] .
    show "nnext (ns ! x) = None" if "x < length ns" "nkey (ns ! x) = None" for x using D(5) [OF that] .
    show "x = y" if "x < length ns" "y < length ns" "nkey (ns ! x) = Some k'" "nkey (ns ! y) = Some k'" for x y k' using D(6) [OF that] .
    show "ctag (nval (ns' ! x)) = DL_NIL_L \<longleftrightarrow> nkey (ns ! x) = None" if "x < length ns" for x
      using D(7) [OF that] i c by (auto simp: nth)
  qed
  show "node_map ns' = (node_map ns)(k \<mapsto> c)"
  proof (rule node_map_eqI [OF C'])
    fix k' v
    show "((node_map ns)(k \<mapsto> c)) k' = Some v \<longleftrightarrow> (\<exists>x < length ns'. nkey (ns' ! x) = Some k' \<and> nval (ns' ! x) = v)"
    proof (cases "k' = k")
      case True
      have "(\<exists>x < length ns. nkey (ns ! x) = Some k \<and> nval (ns' ! x) = v) \<longleftrightarrow> nval (ns' ! i) = v"
      proof
        assume "\<exists>x < length ns. nkey (ns ! x) = Some k \<and> nval (ns' ! x) = v"
        then obtain x where x: "x < length ns" "nkey (ns ! x) = Some k" "nval (ns' ! x) = v" by blast
        have "x = i" by (rule D(6) [OF x(1) i(1) x(2) i(2)])
        then show "nval (ns' ! i) = v" using x(3) by simp
      next
        assume "nval (ns' ! i) = v"
        then show "\<exists>x < length ns. nkey (ns ! x) = Some k \<and> nval (ns' ! x) = v" using i by blast
      qed
      then show ?thesis using True unfolding len same by (simp add: nth)
    next
      case False
      have "nkey (ns ! x) = Some k' \<and> nval (ns' ! x) = v \<longleftrightarrow> nkey (ns ! x) = Some k' \<and> nval (ns ! x) = v" for x
        using False i(2) by (cases "x = i") (simp_all add: nth)
      then show ?thesis using node_map_Some [OF C, of k' v] False unfolding len same by simp
    qed
  qed
qed

end
