(* ===== verification/Dl_Table_Refine.thy ===== *)
theory Dl_Table_Refine
  imports Dl_Table_Chains
begin

text \<open>
  The operations of the table against the map it represents. Keys come from a set \<open>K\<close> in which all strings
  have the same length, since the comparison reads as many bytes of a stored key as the searched one has.
\<close>

section \<open>Accesses to the nodes\<close>

lemma node_at_Block: "node t = Block ns \<Longrightarrow> i < length ns \<Longrightarrow> node_at i t = Some (ns ! i)"
  by (simp add: node_at_def)

lemma upd_node_Block: "node t = Block ns \<Longrightarrow> i < length ns \<Longrightarrow> upd_node i f t = Some (t\<lparr>node := Block (ns[i := f (ns ! i)])\<rparr>)"
  by (simp add: upd_node_def)

lemma main_pos_cong: "lsizenode t' = lsizenode t \<Longrightarrow> main_pos t' k = main_pos t k"
  by (cases k) (simp_all add: hashnum_def)

lemma main_pos_less: "main_pos t k < 2 ^ lsizenode t"
  by (cases k) (simp_all add: hashnum_def Let_def)

lemma chain_walk_path:
  assumes "node t = Block ns" "path ns (Some i) xs" "\<And>j. j \<in> set xs \<Longrightarrow> m (ns ! j) = Some (P j)"
  shows "chain_walk m i t = Some (List.find P xs)"
  using assms(2,3)
proof (induction xs arbitrary: i)
  case (Cons x xs)
  have x: "x = i" "i < length ns" "path ns (nnext (ns ! i)) xs" using Cons.prems(1) by auto
  have m: "m (ns ! i) = Some (P i)" using Cons.prems(2) [of i] x by simp
  show ?case
  proof (cases "nnext (ns ! i)")
    case None
    then have "xs = []" using x(3) by (cases xs) auto
    then show ?thesis using x m None by (subst chain_walk.simps) (simp add: node_at_Block [OF assms(1)])
  next
    case (Some j)
    have "chain_walk m j t = Some (List.find P xs)" using Cons.IH [of j] Cons.prems(2) x(3) Some by simp
    then show ?thesis using x m Some by (subst chain_walk.simps) (simp add: node_at_Block [OF assms(1)])
  qed
qed simp

lemma before_path:
  assumes "node t = Block ns" "path ns (Some i) (us @ b # x # vs)" "x \<notin> set us" "x \<noteq> b"
  shows "before_loop i x t = Some b"
  using assms(2,3)
proof (induction us arbitrary: i)
  case Nil
  then show ?case by (subst before_loop.simps) (simp add: node_at_Block [OF assms(1)])
next
  case (Cons u us)
  have u: "u = i" "i < length ns" "path ns (nnext (ns ! i)) (us @ b # x # vs)" using Cons.prems by auto
  obtain j where j: "nnext (ns ! i) = Some j" using u(3) by (cases us) auto
  have "j \<noteq> x" using u(3) j Cons.prems(2) assms(4) by (cases us) auto
  moreover have "before_loop j x t = Some b" using Cons.IH [of j] Cons.prems(2) u(3) j by simp
  ultimately show ?case using u j by (subst before_loop.simps) (simp add: node_at_Block [OF assms(1)])
qed

lemma free_loop_spec:
  assumes "l \<le> int (length ns)" "\<And>i. i < length ns \<Longrightarrow> l \<le> int i \<Longrightarrow> nkey (ns ! i) \<noteq> None"
  shows "(\<exists>f < length ns. free_loop ns l = Some (Some f, int f) \<and> nkey (ns ! f) = None \<and> (\<forall>i. f < i \<and> i < length ns \<longrightarrow> nkey (ns ! i) \<noteq> None))
    \<or> (\<exists>l' < 0. free_loop ns l = Some (None, l')) \<and> (\<forall>i < length ns. nkey (ns ! i) \<noteq> None)"
  using assms
proof (induction ns l rule: free_loop.induct)
  case (1 ns l)
  show ?case
  proof (cases "l \<le> 0")
    case True
    then have "\<forall>i < length ns. nkey (ns ! i) \<noteq> None" using 1(3) by (metis of_nat_0_le_iff order_trans)
    then show ?thesis using True by (subst (1 2) free_loop.simps) simp
  next
    case False
    have len: "\<not> length ns < nat l" using 1(2) by simp
    show ?thesis
    proof (cases "nkey (ns ! nat (l - 1)) = None")
      case True
      have "nat (l - 1) < length ns" using False 1(2) by simp
      moreover have "nkey (ns ! i) \<noteq> None" if "nat (l - 1) < i" "i < length ns" for i using 1(3) [of i] that False by simp
      ultimately show ?thesis using True False len by (subst (1 2) free_loop.simps) auto
    next
      case no: False
      have "nkey (ns ! i) \<noteq> None" if "i < length ns" "l - 1 \<le> int i" for i
        proof (cases "i = nat (l - 1)")
        case True
        then show ?thesis using no by simp
      next
        case False
        then show ?thesis using 1(3) [of i] that by linarith
      qed
      then have "(\<exists>f < length ns. free_loop ns (l - 1) = Some (Some f, int f) \<and> nkey (ns ! f) = None \<and> (\<forall>i. f < i \<and> i < length ns \<longrightarrow> nkey (ns ! i) \<noteq> None))
        \<or> (\<exists>l' < 0. free_loop ns (l - 1) = Some (None, l')) \<and> (\<forall>i < length ns. nkey (ns ! i) \<noteq> None)"
        using 1(1) [OF False len no] 1(2) by simp
      moreover have "free_loop ns l = free_loop ns (l - 1)" by (subst free_loop.simps) (use False len no in auto)
      ultimately show ?thesis by (simp only:)
    qed
  qed
qed

section \<open>The invariant\<close>

definition is_index :: "table \<Rightarrow> tkey \<Rightarrow> bool" where
  "is_index t k \<longleftrightarrow> (case k of KInt n \<Rightarrow> 0 \<le> n \<and> n < sizearray t | KStr s \<Rightarrow> False)"

definition keys_fit :: "tkey set \<Rightarrow> bool" where
  "keys_fit K \<longleftrightarrow> (\<forall>a b. KStr a \<in> K \<longrightarrow> KStr b \<in> K \<longrightarrow> length a = length b)"

definition nodes_ok :: "tkey set \<Rightarrow> table \<Rightarrow> tnode list \<Rightarrow> bool" where
  "nodes_ok K t ns \<longleftrightarrow> length ns = 2 ^ lsizenode t \<and> (\<exists>ch. chains (main_pos t) ns ch)
     \<and> (\<exists>l. lastfree t = Some l \<and> l \<le> int (length ns) \<and> (\<forall>i < length ns. l \<le> int i \<longrightarrow> nkey (ns ! i) \<noteq> None))
     \<and> (\<forall>i < length ns. \<forall>k. nkey (ns ! i) = Some k \<longrightarrow> k \<in> K \<and> \<not> is_index t k)"

definition tab_ok :: "tkey set \<Rightarrow> table \<Rightarrow> bool" where
  "tab_ok K t \<longleftrightarrow> 0 \<le> sizearray t \<and> sizearray t \<le> int (length (arr t))
     \<and> (case node t of
          Null \<Rightarrow> False
        | Dummy \<Rightarrow> lsizenode t = 0 \<and> lastfree t = None
        | Block ns \<Rightarrow> nodes_ok K t ns)"

definition used_nodes :: "table \<Rightarrow> tnode list" where
  "used_nodes t = (case node t of Block ns \<Rightarrow> ns | _ \<Rightarrow> [])"

text \<open>What the table holds.\<close>

definition tab_map :: "table \<Rightarrow> tkey \<Rightarrow> cell option" where
  "tab_map t k =
     (case k of
        KInt n \<Rightarrow> if 0 \<le> n \<and> n < sizearray t
                  then (let c = arr t ! nat n in if ctag c = DL_NIL_L then None else Some c)
                  else node_map (used_nodes t) k
      | KStr s \<Rightarrow> node_map (used_nodes t) k)"

lemma tab_map_node: "\<not> is_index t k \<Longrightarrow> tab_map t k = node_map (used_nodes t) k"
  by (cases k) (auto simp: tab_map_def is_index_def)

lemma is_index_cases: "is_index t k \<Longrightarrow> \<exists>n. k = KInt n \<and> 0 \<le> n \<and> n < sizearray t"
  by (cases k) (auto simp: is_index_def)

lemma node_map_empty [simp]: "node_map [] k = None"
  by (simp add: node_map_def)

section \<open>Searching\<close>

text \<open>The comparison the walk makes for the key.\<close>

fun same_key :: "tkey \<Rightarrow> tnode \<Rightarrow> bool option" where
  "same_key (KInt n) x = same_int n x"
| "same_key (KStr s) x = same_str s (nkey x)"

lemma same_key_spec:
  assumes "keys_fit K" "k \<in> K" "\<And>k'. nkey x = Some k' \<Longrightarrow> k' \<in> K"
  shows "same_key k x = Some (nkey x = Some k)"
proof (cases k)
  case (KStr s)
  show ?thesis
  proof (cases "nkey x")
    case (Some k')
    show ?thesis
    proof (cases k')
      case (KInt n)
      then show ?thesis using Some KStr by simp
    next
      case (KStr d)
      then have "KStr d \<in> K" "KStr s \<in> K" using assms(3) [OF Some] assms(2) \<open>k = KStr s\<close> by auto
      then have "length d = length s" using assms(1) unfolding keys_fit_def by blast
      then show ?thesis using Some KStr \<open>k = KStr s\<close> by simp
    qed
  qed (simp add: KStr)
qed (simp add: same_int_def)

lemma find_is_chain_walk: "\<not> is_index t k \<Longrightarrow> dl_find_l t k = map_option (map_option In_node) (chain_walk (same_key k) (main_pos t k) t)"
proof -
  assume n: "\<not> is_index t k"
  have "same_key (KInt i) = same_int i" "same_key (KStr s) = (\<lambda>x. same_str s (nkey x))" for i s by (simp_all add: fun_eq_iff)
  then show ?thesis using n by (cases k) (auto simp: is_index_def dl_find_by_index_def dl_find_by_str_def)
qed

lemma find_unique:
  assumes "i \<in> set xs" "P i" "\<And>j. j \<in> set xs \<Longrightarrow> P j \<Longrightarrow> j = i"
  shows "List.find P xs = Some i"
proof -
  obtain j where j: "List.find P xs = Some j" using assms(1,2) by (metis find_None_iff option.exhaust)
  then have "P j" "j \<in> set xs" unfolding find_Some_iff by auto
  then show ?thesis using assms(3) j by simp
qed

lemma dl_find_spec:
  assumes T: "tab_ok K t" and K: "keys_fit K" "k \<in> K"
  shows "is_index t k \<and> (\<exists>n. k = KInt n \<and> dl_find_l t k = Some (Some (In_array (nat n))))
    \<or> \<not> is_index t k \<and> node_map (used_nodes t) k = None \<and> dl_find_l t k = Some None
    \<or> \<not> is_index t k \<and> (\<exists>ns i. node t = Block ns \<and> i < length ns \<and> nkey (ns ! i) = Some k \<and> dl_find_l t k = Some (Some (In_node i))
         \<and> node_map ns k = Some (nval (ns ! i)))"
proof (cases "is_index t k")
  case True
  then show ?thesis using is_index_cases [OF True] by (auto simp: dl_find_by_index_def)
next
  case ni: False
  note F = find_is_chain_walk [OF ni]
  show ?thesis
  proof (cases "node t")
    case Dummy
    then have "main_pos t k = 0" using T main_pos_less [of t k] by (simp add: tab_ok_def)
    moreover have "same_key k dummynode = Some False" by (cases k) (simp_all add: dummynode_def same_int_def)
    ultimately have "chain_walk (same_key k) (main_pos t k) t = Some None"
      using Dummy by (subst chain_walk.simps) (simp add: node_at_def dummynode_def)
    then show ?thesis using F Dummy ni by (simp add: used_nodes_def)
  next
    case Null
    then show ?thesis using T by (simp add: tab_ok_def)
  next
    case (Block ns)
    then have B: "nodes_ok K t ns" using T by (simp add: tab_ok_def)
    then obtain ch where C: "chains (main_pos t) ns ch" by (auto simp: nodes_ok_def)
    note D = chainsD [OF C]
    obtain xs where xs: "path ns (Some (main_pos t k)) xs" using path_from [OF C D(1)] by blast
    have "same_key k (ns ! j) = Some (nkey (ns ! j) = Some k)" if "j \<in> set xs" for j
      using same_key_spec [OF K] B path_length [OF xs that] by (auto simp: nodes_ok_def)
    then have w: "chain_walk (same_key k) (main_pos t k) t = Some (List.find (\<lambda>j. nkey (ns ! j) = Some k) xs)"
      by (rule chain_walk_path [OF Block xs])
    show ?thesis
    proof (cases "node_map ns k")
      case None
      then have "List.find (\<lambda>j. nkey (ns ! j) = Some k) xs = None"
        using path_length [OF xs] by (auto simp: find_None_iff node_map_None)
      then show ?thesis using F w None ni Block by (simp add: used_nodes_def)
    next
      case (Some v)
      then obtain i where i: "i < length ns" "nkey (ns ! i) = Some k" "nval (ns ! i) = v"
        using node_map_Some [OF C] by blast
      have "i \<in> set (ch (main_pos t k))" by (rule D(4) [OF i(1,2)])
      moreover from this have "path ns (Some (main_pos t k)) (ch (main_pos t k))" by (intro D(2)) auto
      then have "ch (main_pos t k) = xs" using xs path_det by blast
      ultimately have "i \<in> set xs" by simp
      then have "List.find (\<lambda>j. nkey (ns ! j) = Some k) xs = Some i"
        by (rule find_unique) (use i D(6) path_length [OF xs] in blast)+
      then show ?thesis using F w ni Block i Some by auto
    qed
  qed
qed

section \<open>Insertion into a table with room\<close>

text \<open>The parts of the table that an insertion without rebuilding keeps.\<close>

definition tab_frame :: "table \<Rightarrow> nat \<times> int \<times> cell list \<times> nat \<times> u64 list \<times> nat" where
  "tab_frame t = (lsizenode t, sizearray t, arr t, ablock t, handled t, nalloc t)"

lemma tab_frame_fields:
  assumes "tab_frame t' = tab_frame t"
  shows "lsizenode t' = lsizenode t" "sizearray t' = sizearray t" "arr t' = arr t" "ablock t' = ablock t"
    "handled t' = handled t" "nalloc t' = nalloc t" "is_index t' k = is_index t k" "main_pos t' = main_pos t"
  using assms by (auto simp: tab_frame_def is_index_def intro!: ext main_pos_cong split: tkey.splits)

lemma getfreepos_spec:
  assumes "node t = Block ns" "lastfree t = Some l" "l \<le> int (length ns)" "\<forall>i < length ns. l \<le> int i \<longrightarrow> nkey (ns ! i) \<noteq> None"
  shows "(\<exists>f < length ns. getfreepos t = Some (Some f, t\<lparr>lastfree := Some (int f)\<rparr>) \<and> nkey (ns ! f) = None
       \<and> (\<forall>i. f < i \<and> i < length ns \<longrightarrow> nkey (ns ! i) \<noteq> None))
    \<or> (\<exists>l' < 0. getfreepos t = Some (None, t\<lparr>lastfree := Some l'\<rparr>)) \<and> (\<forall>i < length ns. nkey (ns ! i) \<noteq> None)"
  using free_loop_spec [OF assms(3)] assms(4) by (auto simp: getfreepos_def assms(1,2))

text \<open>A reference whose cell can be filled: the table then holds the key.\<close>

definition slot_for :: "tkey set \<Rightarrow> tkey \<Rightarrow> table \<Rightarrow> vref \<Rightarrow> table \<Rightarrow> bool" where
  "slot_for K k t r t1 \<longleftrightarrow> tab_frame t1 = tab_frame t \<and> (\<exists>ns. node t1 = Block ns) \<and> get_cell r t1 \<noteq> None
     \<and> (\<forall>c. ctag c \<noteq> DL_NIL_L \<longrightarrow> (\<exists>t2. put_cell r c t1 = Some t2 \<and> tab_ok K t2 \<and> tab_frame t2 = tab_frame t
          \<and> length (used_nodes t2) = length (used_nodes t) \<and> node_map (used_nodes t2) = (node_map (used_nodes t))(k \<mapsto> c)))"

lemma slot_forI:
  assumes T: "tab_ok K t" and B: "node t = Block ns" and k: "k \<in> K" "\<not> is_index t k"
    and l: "l \<le> int (length ns)" "\<And>i. i < length ns \<Longrightarrow> i \<noteq> j \<Longrightarrow> l \<le> int i \<Longrightarrow> nkey (ns' ! i) \<noteq> None"
    and j: "j < length ns" "length ns' = length ns" "nkey (ns' ! j) = Some k"
    and C: "\<And>c. ctag c \<noteq> DL_NIL_L \<Longrightarrow> \<exists>ch. chains (main_pos t) (ns'[j := (ns' ! j)\<lparr>nval := c\<rparr>]) ch"
    and M: "\<And>c. ctag c \<noteq> DL_NIL_L \<Longrightarrow> node_map (ns'[j := (ns' ! j)\<lparr>nval := c\<rparr>]) = (node_map ns)(k \<mapsto> c)"
    and keys: "\<And>i k'. i < length ns \<Longrightarrow> i \<noteq> j \<Longrightarrow> nkey (ns' ! i) = Some k' \<Longrightarrow> \<exists>i < length ns. nkey (ns ! i) = Some k'"
  shows "slot_for K k t (In_node j) (t\<lparr>lastfree := Some l, node := Block ns'\<rparr>)"
proof -
  let ?t1 = "t\<lparr>lastfree := Some l, node := Block ns'\<rparr>"
  have BO: "nodes_ok K t ns" using T B by (simp add: tab_ok_def)
  have "\<exists>t2. put_cell (In_node j) c ?t1 = Some t2 \<and> tab_ok K t2 \<and> tab_frame t2 = tab_frame t
          \<and> length (used_nodes t2) = length (used_nodes t) \<and> node_map (used_nodes t2) = (node_map (used_nodes t))(k \<mapsto> c)"
    if c: "ctag c \<noteq> DL_NIL_L" for c
  proof -
    let ?ns = "ns'[j := (ns' ! j)\<lparr>nval := c\<rparr>]"
    let ?t2 = "t\<lparr>lastfree := Some l, node := Block ?ns\<rparr>"
    have fr: "tab_frame ?t2 = tab_frame t" by (simp add: tab_frame_def)
    have key: "nkey (?ns ! i) = nkey (ns' ! i)" for i using j by (cases "i = j") auto
    have "put_cell (In_node j) c ?t1 = Some ?t2" using j by (simp add: upd_node_def)
    moreover have "nodes_ok K ?t2 ?ns"
      unfolding nodes_ok_def key tab_frame_fields(8) [OF fr] tab_frame_fields(7) [OF fr] length_list_update
    proof (intro conjI exI)
      show "length ns' = 2 ^ lsizenode ?t2" using BO j(2) by (simp add: nodes_ok_def)
      show "chains (main_pos t) ?ns (SOME ch. chains (main_pos t) ?ns ch)" using C [OF c] by (rule someI_ex)
      show "lastfree ?t2 = Some l" "l \<le> int (length ns')" using l(1) j(2) by simp_all
      show "\<forall>i < length ns'. l \<le> int i \<longrightarrow> nkey (ns' ! i) \<noteq> None" using l(2) j by (metis option.distinct(1))
      show "\<forall>i < length ns'. \<forall>k. nkey (ns' ! i) = Some k \<longrightarrow> k \<in> K \<and> \<not> is_index t k"
      proof (intro allI impI)
        fix i k'
        assume i: "i < length ns'" "nkey (ns' ! i) = Some k'"
        show "k' \<in> K \<and> \<not> is_index t k'"
        proof (cases "i = j")
          case True
          then show ?thesis using i j(3) k by simp
        next
          case False
          then obtain i' where "i' < length ns" "nkey (ns ! i') = Some k'" using keys i j(2) by auto
          then show ?thesis using BO by (auto simp: nodes_ok_def)
        qed
      qed
    qed
    then have "tab_ok K ?t2" using T by (simp add: tab_ok_def)
    ultimately show ?thesis using fr M [OF c] j(2) B by (intro exI [of _ ?t2]) (simp add: used_nodes_def)
  qed
  then show ?thesis using j by (simp add: slot_for_def tab_frame_def node_at_def)
qed

lemma place_behind:
  assumes T: "tab_ok K t" and B: "node t = Block ns" and k: "k \<in> K" "\<not> is_index t k" and new: "node_map ns k = None"
    and mp: "mp = main_pos t k" and taken: "nkey (ns ! mp) = Some k0" "main_pos t k0 = mp"
    and f: "f < length ns" "nkey (ns ! f) = None" "\<forall>i. f < i \<and> i < length ns \<longrightarrow> nkey (ns ! i) \<noteq> None"
  shows "\<exists>t1. place_key k mp f (t\<lparr>lastfree := Some (int f)\<rparr>) = Some (Some (In_node f), t1) \<and> slot_for K k t (In_node f) t1"
proof -
  have BO: "nodes_ok K t ns" using T B by (simp add: tab_ok_def)
  obtain ch where C: "chains (main_pos t) ns ch" using BO by (auto simp: nodes_ok_def)
  have mpl: "mp < length ns" using chainsD(1) [OF C] mp by simp
  have fm: "f \<noteq> mp" using f taken by auto
  define ns' where "ns' = ns[f := (ns ! f)\<lparr>nkey := Some k, nnext := nnext (ns ! mp)\<rparr>, mp := (ns ! mp)\<lparr>nnext := Some f\<rparr>]"
  let ?t = "t\<lparr>lastfree := Some (int f)\<rparr>"
  have "main_pos ?t k0 = mp" using taken(2) main_pos_cong [of ?t t k0] by simp
  moreover have "ns[f := (ns ! f)\<lparr>nnext := nnext (ns ! mp)\<rparr>, mp := (ns ! mp)\<lparr>nnext := Some f\<rparr>, f := (ns ! f)\<lparr>nnext := nnext (ns ! mp), nkey := Some k\<rparr>] = ns'"
    unfolding ns'_def by (rule nth_equalityI) (use fm mpl f in \<open>auto simp: nth_list_update\<close>)
  ultimately have go: "place_key k mp f ?t = Some (Some (In_node f), t\<lparr>lastfree := Some (int f), node := Block ns'\<rparr>)"
    using B mpl f(1) fm taken by (simp add: place_key_def chain_node_def fill_key_def node_at_def upd_node_def)
  have val: "ns'[f := (ns' ! f)\<lparr>nval := c\<rparr>] = ns[f := \<lparr>nkey = Some k, nval = c, nnext = nnext (ns ! mp)\<rparr>, mp := (ns ! mp)\<lparr>nnext := Some f\<rparr>]" for c
    unfolding ns'_def by (rule nth_equalityI) (use fm mpl f in \<open>auto simp: nth_list_update\<close>)
  have "slot_for K k t (In_node f) (t\<lparr>lastfree := Some (int f), node := Block ns'\<rparr>)"
  proof (rule slot_forI [OF T B k])
    show "int f \<le> int (length ns)" using f by simp
    show "nkey (ns' ! i) \<noteq> None" if "i < length ns" "i \<noteq> f" "int f \<le> int i" for i
      using that f(3) taken mpl unfolding ns'_def by (auto simp: nth_list_update)
    show "f < length ns" "length ns' = length ns" "nkey (ns' ! f) = Some k" using f fm by (simp_all add: ns'_def nth_list_update)
    show "\<exists>ch. chains (main_pos t) (ns'[f := (ns' ! f)\<lparr>nval := c\<rparr>]) ch" "node_map (ns'[f := (ns' ! f)\<lparr>nval := c\<rparr>]) = (node_map ns)(k \<mapsto> c)"
      if "ctag c \<noteq> DL_NIL_L" for c
      unfolding val using insert_behind [OF C mp taken f(1,2) new that] by metis+
    show "\<exists>i < length ns. nkey (ns ! i) = Some k'" if "i < length ns" "i \<noteq> f" "nkey (ns' ! i) = Some k'" for i k'
      using that mpl unfolding ns'_def by (auto simp: nth_list_update split: if_splits)
  qed
  then show ?thesis using go by blast
qed

lemma place_moving:
  assumes T: "tab_ok K t" and B: "node t = Block ns" and k: "k \<in> K" "\<not> is_index t k" and new: "node_map ns k = None"
    and mp: "mp = main_pos t k" and taken: "nkey (ns ! mp) = Some k0" "main_pos t k0 \<noteq> mp"
    and f: "f < length ns" "nkey (ns ! f) = None" "\<forall>i. f < i \<and> i < length ns \<longrightarrow> nkey (ns ! i) \<noteq> None"
  shows "\<exists>t1. place_key k mp f (t\<lparr>lastfree := Some (int f)\<rparr>) = Some (Some (In_node mp), t1) \<and> slot_for K k t (In_node mp) t1"
proof -
  have BO: "nodes_ok K t ns" using T B by (simp add: tab_ok_def)
  obtain ch where C: "chains (main_pos t) ns ch" using BO by (auto simp: nodes_ok_def)
  note D = chainsD [OF C]
  let ?o = "main_pos t k0"
  have mpl: "mp < length ns" using D(1) mp by simp
  have "mp \<in> set (ch ?o)" using D(4) [OF mpl taken(1)] .
  then obtain xs vs where xs: "ch ?o = xs @ mp # vs" using split_list by fast
  obtain rest where "ch ?o = ?o # rest" using chain_hd [OF C, of ?o] xs by auto
  then have "xs \<noteq> []" using xs taken(2) by (cases xs) auto
  then obtain us b where b: "ch ?o = us @ b # mp # vs" using xs by (cases xs rule: rev_cases) auto
  have po: "path ns (Some ?o) (us @ b # mp # vs)" using D(2) [of ?o] b by simp
  have dist: "distinct (us @ b # mp # vs)" using path_distinct [OF po] .
  have bl: "b < length ns" using path_length [OF po] by simp
  have "b \<in> set (ch ?o)" using b by simp
  then have bk: "nkey (ns ! b) \<noteq> None" using D(3) by fastforce
  have ne: "f \<noteq> mp" "b \<noteq> mp" "b \<noteq> f" using f taken dist bk by auto
  define ns' where "ns' = ns[b := (ns ! b)\<lparr>nnext := Some f\<rparr>, f := ns ! mp, mp := \<lparr>nkey = Some k, nval = (nval (ns ! mp))\<lparr>ctag := DL_NIL_L\<rparr>, nnext = None\<rparr>]"
  let ?t = "t\<lparr>lastfree := Some (int f)\<rparr>"
  have o: "main_pos ?t k0 = ?o" using main_pos_cong [of ?t t k0] by simp
  have bp: "before_loop ?o mp ?t = Some b" by (rule before_path [of _ ns _ us b mp vs]) (use B po dist in auto)
  have e: "ns[b := (ns ! b)\<lparr>nnext := Some f\<rparr>, f := ns ! mp, mp := (ns ! mp)\<lparr>nnext := None, nval := (nval (ns ! mp))\<lparr>ctag := DL_NIL_L\<rparr>\<rparr>,
      mp := (ns ! mp)\<lparr>nnext := None, nval := (nval (ns ! mp))\<lparr>ctag := DL_NIL_L\<rparr>, nkey := Some k\<rparr>] = ns'"
    unfolding ns'_def by (cases "ns ! mp") simp
  have mv: "move_node ?o mp f ?t = Some (t\<lparr>lastfree := Some (int f), node := Block (ns[b := (ns ! b)\<lparr>nnext := Some f\<rparr>, f := ns ! mp,
      mp := (ns ! mp)\<lparr>nnext := None, nval := (nval (ns ! mp))\<lparr>ctag := DL_NIL_L\<rparr>\<rparr>])\<rparr>)"
    using B mpl bl f(1) ne bp by (simp add: move_node_def node_at_def upd_node_def)
  have go: "place_key k mp f ?t = Some (Some (In_node mp), t\<lparr>lastfree := Some (int f), node := Block ns'\<rparr>)"
    using B mpl taken o mv e by (simp add: place_key_def fill_key_def node_at_def upd_node_def Let_def)
  have val: "ns'[mp := (ns' ! mp)\<lparr>nval := c\<rparr>] = ns[b := (ns ! b)\<lparr>nnext := Some f\<rparr>, f := ns ! mp, mp := \<lparr>nkey = Some k, nval = c, nnext = None\<rparr>]" for c
    unfolding ns'_def using mpl by simp
  have "slot_for K k t (In_node mp) (t\<lparr>lastfree := Some (int f), node := Block ns'\<rparr>)"
  proof (rule slot_forI [OF T B k])
    show "int f \<le> int (length ns)" using f by simp
    show "nkey (ns' ! i) \<noteq> None" if "i < length ns" "i \<noteq> mp" "int f \<le> int i" for i
      using that f(3) taken bk mpl bl unfolding ns'_def by (auto simp: nth_list_update)
    show "mp < length ns" "length ns' = length ns" "nkey (ns' ! mp) = Some k" using mpl by (simp_all add: ns'_def)
    show "\<exists>ch. chains (main_pos t) (ns'[mp := (ns' ! mp)\<lparr>nval := c\<rparr>]) ch" "node_map (ns'[mp := (ns' ! mp)\<lparr>nval := c\<rparr>]) = (node_map ns)(k \<mapsto> c)"
      if "ctag c \<noteq> DL_NIL_L" for c
      unfolding val using insert_moving [OF C mp taken f(1,2) new that b] by metis+
    show "\<exists>i < length ns. nkey (ns ! i) = Some k'" if i: "i < length ns" "i \<noteq> mp" "nkey (ns' ! i) = Some k'" for i k'
    proof (intro exI conjI)
      show "(if i = f then mp else i) < length ns" "nkey (ns ! (if i = f then mp else i)) = Some k'"
        using i mpl bl f(1) unfolding ns'_def by (auto simp: nth_list_update split: if_splits)
    qed
  qed
  then show ?thesis using go by blast
qed

lemma fill_free:
  assumes T: "tab_ok K t" and B: "node t = Block ns" and k: "k \<in> K" "\<not> is_index t k" and new: "node_map ns k = None"
    and mp: "mp = main_pos t k" and free: "nkey (ns ! mp) = None"
  shows "\<exists>t1. fill_key mp k t = Some (Some (In_node mp), t1) \<and> slot_for K k t (In_node mp) t1"
proof -
  have BO: "nodes_ok K t ns" using T B by (simp add: tab_ok_def)
  obtain ch l where C: "chains (main_pos t) ns ch" and l: "lastfree t = Some l" "l \<le> int (length ns)"
    "\<forall>i < length ns. l \<le> int i \<longrightarrow> nkey (ns ! i) \<noteq> None"
    using BO by (auto simp: nodes_ok_def)
  have mpl: "mp < length ns" using chainsD(1) [OF C] mp by simp
  define ns' where "ns' = ns[mp := (ns ! mp)\<lparr>nkey := Some k\<rparr>]"
  have "t\<lparr>node := Block ns'\<rparr> = t\<lparr>lastfree := Some l, node := Block ns'\<rparr>" using l(1) by (cases t) simp
  then have go: "fill_key mp k t = Some (Some (In_node mp), t\<lparr>lastfree := Some l, node := Block ns'\<rparr>)"
    using B mpl by (simp add: fill_key_def upd_node_def ns'_def)
  have val: "ns'[mp := (ns' ! mp)\<lparr>nval := c\<rparr>] = ns[mp := \<lparr>nkey = Some k, nval = c, nnext = nnext (ns ! mp)\<rparr>]" for c
    unfolding ns'_def using mpl by (cases "ns ! mp") simp
  have "slot_for K k t (In_node mp) (t\<lparr>lastfree := Some l, node := Block ns'\<rparr>)"
  proof (rule slot_forI [OF T B k l(2)])
    show "nkey (ns' ! i) \<noteq> None" if "i < length ns" "i \<noteq> mp" "l \<le> int i" for i
      using that l(3) unfolding ns'_def by simp
    show "mp < length ns" "length ns' = length ns" "nkey (ns' ! mp) = Some k" using mpl by (simp_all add: ns'_def)
    show "\<exists>ch. chains (main_pos t) (ns'[mp := (ns' ! mp)\<lparr>nval := c\<rparr>]) ch" "node_map (ns'[mp := (ns' ! mp)\<lparr>nval := c\<rparr>]) = (node_map ns)(k \<mapsto> c)"
      if "ctag c \<noteq> DL_NIL_L" for c
      unfolding val using insert_free [OF C mp free new that] by blast+
    show "\<exists>i < length ns. nkey (ns ! i) = Some k'" if "i < length ns" "i \<noteq> mp" "nkey (ns' ! i) = Some k'" for i k'
      using that unfolding ns'_def by auto
  qed
  then show ?thesis using go by blast
qed

text \<open>With a free node, the new key gets one without rebuilding.\<close>

lemma newkey_room:
  assumes T: "tab_ok K t" and B: "node t = Block ns" and k: "k \<in> K" "\<not> is_index t k" and new: "node_map ns k = None"
    and room: "\<exists>i < length ns. nkey (ns ! i) = None"
  shows "\<exists>r t1. dl_newkey_l ok (Suc d) k t = Some (Some r, t1) \<and> slot_for K k t r t1"
proof -
  have BO: "nodes_ok K t ns" using T B by (simp add: tab_ok_def)
  obtain ch l where C: "chains (main_pos t) ns ch" and l: "lastfree t = Some l" "l \<le> int (length ns)"
    "\<forall>i < length ns. l \<le> int i \<longrightarrow> nkey (ns ! i) \<noteq> None"
    using BO by (auto simp: nodes_ok_def)
  let ?mp = "main_pos t k"
  have mpl: "?mp < length ns" using chainsD(1) [OF C] .
  have m: "node_at ?mp t = Some (ns ! ?mp)" by (rule node_at_Block [OF B mpl])
  show ?thesis
  proof (cases "nkey (ns ! ?mp)")
    case None
    then have "ctag (nval (ns ! ?mp)) = DL_NIL_L" using chainsD(7) [OF C mpl] by simp
    then show ?thesis using fill_free [OF T B k new refl None] m B by auto
  next
    case (Some k0)
    then have tag: "ctag (nval (ns ! ?mp)) \<noteq> DL_NIL_L" using chainsD(7) [OF C mpl] by simp
    obtain f where f: "f < length ns" "getfreepos t = Some (Some f, t\<lparr>lastfree := Some (int f)\<rparr>)" "nkey (ns ! f) = None"
      "\<forall>i. f < i \<and> i < length ns \<longrightarrow> nkey (ns ! i) \<noteq> None"
      using getfreepos_spec [OF B l] room by blast
    have "\<exists>r t1. place_key k ?mp f (t\<lparr>lastfree := Some (int f)\<rparr>) = Some (Some r, t1) \<and> slot_for K k t r t1"
      using place_behind [OF T B k new refl Some _ f(1,3,4)] place_moving [OF T B k new refl Some _ f(1,3,4)] by blast
    then show ?thesis using m tag f(2) by simp
  qed
qed

end
