(* ===== verification/Dl_Table_Rebuild.thy ===== *)
theory Dl_Table_Rebuild
  imports Dl_Table_Refine
begin

text \<open>
  Rebuilding a table whose keys all stay in the nodes, that is strings and integers that the array part never
  takes. The new nodes have room for all keys and one more, so the insertion that asked for the rebuilding
  succeeds without another one.
\<close>

declare dl_newkey_l.simps(2) [simp del]

section \<open>Counting the used nodes\<close>

definition is_used :: "tnode \<Rightarrow> bool" where
  "is_used n \<longleftrightarrow> ctag (nval n) \<noteq> DL_NIL_L"

definition used_count :: "tnode list \<Rightarrow> nat" where
  "used_count ns = length (filter is_used ns)"

lemma used_count_simps [simp]:
  "used_count [] = 0" "used_count (n # ns) = (if is_used n then Suc (used_count ns) else used_count ns)"
  "used_count (rev ns) = used_count ns"
  by (simp_all add: used_count_def rev_filter [symmetric])

lemma used_keys:
  assumes C: "chains m ns ch"
  shows "(\<lambda>i. the (nkey (ns ! i))) ` {i. i < length ns \<and> nkey (ns ! i) \<noteq> None} = dom (node_map ns)"
proof (rule set_eqI)
  fix k
  let ?I = "{i. i < length ns \<and> nkey (ns ! i) \<noteq> None}"
  have "k \<in> dom (node_map ns) \<longleftrightarrow> (\<exists>v. node_map ns k = Some v)" by auto
  also have "\<dots> \<longleftrightarrow> (\<exists>i < length ns. nkey (ns ! i) = Some k)" using node_map_Some [OF C, of k] by auto
  also have "\<dots> \<longleftrightarrow> k \<in> (\<lambda>i. the (nkey (ns ! i))) ` ?I"
  proof
    assume "\<exists>i < length ns. nkey (ns ! i) = Some k"
    then obtain i where "i < length ns" "nkey (ns ! i) = Some k" by blast
    then show "k \<in> (\<lambda>i. the (nkey (ns ! i))) ` ?I" by (intro image_eqI [of _ _ i]) simp_all
  next
    assume "k \<in> (\<lambda>i. the (nkey (ns ! i))) ` ?I"
    then obtain i where "i \<in> ?I" "k = the (nkey (ns ! i))" by (rule imageE)
    then show "\<exists>i < length ns. nkey (ns ! i) = Some k" by (intro exI [of _ i]) auto
  qed
  finally show "k \<in> (\<lambda>i. the (nkey (ns ! i))) ` ?I \<longleftrightarrow> k \<in> dom (node_map ns)" ..
qed

lemma used_count_card:
  assumes C: "chains m ns ch"
  shows "used_count ns = card (dom (node_map ns))"
proof -
  note D = chainsD [OF C]
  let ?I = "{i. i < length ns \<and> nkey (ns ! i) \<noteq> None}"
  have "used_count ns = card {i. i < length ns \<and> is_used (ns ! i)}"
    unfolding used_count_def length_filter_conv_card ..
  also have "{i. i < length ns \<and> is_used (ns ! i)} = ?I"
    by (rule Collect_cong) (use D(7) in \<open>simp add: is_used_def cong: conj_cong\<close>)
  also have "card ?I = card ((\<lambda>i. the (nkey (ns ! i))) ` ?I)"
    by (rule card_image [symmetric]) (auto intro!: inj_onI D(6))
  also have "(\<lambda>i. the (nkey (ns ! i))) ` ?I = dom (node_map ns)" by (rule used_keys [OF C])
  finally show ?thesis .
qed

lemma unused_node_ex:
  assumes C: "chains m ns ch" and less: "card (dom (node_map ns)) < length ns"
  shows "\<exists>i < length ns. nkey (ns ! i) = None"
proof (rule ccontr)
  assume none: "\<not> ?thesis"
  have "filter is_used ns = ns"
  proof (rule filter_True, rule ballI)
    fix n
    assume "n \<in> set ns"
    then obtain i where "i < length ns" "n = ns ! i" by (auto simp: in_set_conv_nth)
    then show "is_used n" using none chainsD(7) [OF C, of i] by (auto simp: is_used_def)
  qed
  then show False using used_count_card [OF C] less by (simp add: used_count_def)
qed

lemma finite_node_map: "finite (dom (node_map ns))"
proof (rule finite_subset)
  show "dom (node_map ns) \<subseteq> the ` nkey ` set ns"
  proof
    fix k
    assume "k \<in> dom (node_map ns)"
    then obtain n where "n \<in> set ns" "nkey n = Some k" using nth_mem by (fastforce simp: node_map_def find_Some_iff)
    then show "k \<in> the ` nkey ` set ns" by (intro image_eqI [of _ _ "Some k"] image_eqI [of _ _ n]) simp_all
  qed
qed simp

lemma node_map_Nil: "node_map [] = Map.empty"
  by (rule ext) simp

lemma node_map_Cons: "node_map (n # ns) k = (if nkey n = Some k then Some (nval n) else node_map ns k)"
  by (simp add: node_map_def)

lemma node_map_filter:
  assumes C: "chains m ns ch"
  shows "node_map (filter is_used (rev ns)) = node_map ns"
proof (rule ext)
  fix k
  have D6: "x = y" if x: "x \<in> set ns" "y \<in> set ns" "nkey x = Some k" "nkey y = Some k" for x y
  proof -
    obtain i j where "i < length ns" "x = ns ! i" "j < length ns" "y = ns ! j" using x(1,2) by (auto simp: in_set_conv_nth)
    then show ?thesis using chainsD(6) [OF C, of i j k] x(3,4) by simp
  qed
  have used: "is_used x" if x: "x \<in> set ns" "nkey x = Some k" for x
  proof -
    obtain i where "i < length ns" "x = ns ! i" using x(1) by (auto simp: in_set_conv_nth)
    then show ?thesis using chainsD(7) [OF C, of i] x(2) by (simp add: is_used_def)
  qed
  show "node_map (filter is_used (rev ns)) k = node_map ns k"
  proof (cases "\<exists>x \<in> set ns. nkey x = Some k")
    case True
    then obtain x where x: "x \<in> set ns" "nkey x = Some k" by blast
    have unique: "node_map xs k = Some (nval x)" if xs: "set xs \<subseteq> set ns" "x \<in> set xs" for xs
    proof -
      have "List.find (\<lambda>n. nkey n = Some k) xs \<noteq> None" using xs(2) x(2) unfolding find_None_iff by blast
      then obtain y where y: "List.find (\<lambda>n. nkey n = Some k) xs = Some y" by blast
      then have "y \<in> set xs" "nkey y = Some k" unfolding find_Some_iff by auto
      then have "y = x" by (intro D6) (use xs x in blast)+
      then show ?thesis using y by (simp add: node_map_def)
    qed
    have "node_map ns k = Some (nval x)" by (rule unique) (use x in simp_all)
    moreover have "node_map (filter is_used (rev ns)) k = Some (nval x)" by (rule unique) (use x used [OF x] in auto)
    ultimately show ?thesis by simp
  next
    case False
    then have none: "node_map xs k = None" if "set xs \<subseteq> set ns" for xs
      using that unfolding node_map_def option.map_disc_iff find_None_iff by blast
    have "node_map ns k = None" by (rule none) simp
    moreover have "node_map (filter is_used (rev ns)) k = None" by (rule none) auto
    ultimately show ?thesis by simp
  qed
qed

lemma distinct_keys:
  assumes C: "chains m ns ch"
  shows "distinct (map nkey (filter is_used (rev ns)))"
proof -
  let ?is = "filter (is_used \<circ> (!) ns) [0..<length ns]"
  have "filter is_used ns = filter is_used (map ((!) ns) [0..<length ns])" by (simp only: map_nth)
  also have "\<dots> = map ((!) ns) ?is" by (rule filter_map)
  finally have f: "filter is_used ns = map ((!) ns) ?is" .
  have "i = j" if ij: "i \<in> set ?is" "j \<in> set ?is" "nkey (ns ! i) = nkey (ns ! j)" for i j
  proof -
    have l: "i < length ns" "j < length ns" "is_used (ns ! i)" using ij by auto
    then obtain k where "nkey (ns ! i) = Some k" using chainsD(7) [OF C l(1)] by (auto simp: is_used_def)
    then show ?thesis using chainsD(6) [OF C l(1,2)] ij(3) by simp
  qed
  then have "inj_on (nkey \<circ> (!) ns) (set ?is)" unfolding inj_on_def comp_def by blast
  then have "distinct (map (nkey \<circ> (!) ns) ?is)" by (simp only: distinct_map) simp
  then show ?thesis by (simp only: rev_filter [symmetric] rev_map [symmetric] distinct_rev f map_map)
qed

section \<open>Keys that stay in the nodes\<close>

definition hashed :: "tkey set \<Rightarrow> bool" where
  "hashed K \<longleftrightarrow> (\<forall>n. KInt n \<in> K \<longrightarrow> n \<le> 0 \<or> 2 ^ MAXBITS < n)"

lemma countint_hashed: "hashed K \<Longrightarrow> k \<in> K \<Longrightarrow> countint (Some k) nums = (0, nums)"
  by (cases k) (auto simp: countint_def hashed_def)

lemma usehash_loop_hashed:
  assumes "hashed K" "\<And>n k. n \<in> set ns \<Longrightarrow> nkey n = Some k \<Longrightarrow> k \<in> K"
  shows "usehash_loop ns a u nums = (a, u + used_count ns, nums)"
  using assms(2)
proof (induction ns arbitrary: u)
  case (Cons n ns)
  have "countint (nkey n) nums = (0, nums)"
    using countint_hashed [OF assms(1)] Cons.prems [of n] by (cases "nkey n") (simp_all add: countint_def)
  moreover have "usehash_loop ns a u' nums = (a, u' + used_count ns, nums)" for u'
    by (rule Cons.IH) (rule Cons.prems, simp_all)
  ultimately show ?case by (simp add: is_used_def)
qed simp

lemma numusearray_empty: "sizearray t = 0 \<Longrightarrow> numusearray t nums = Some (0, nums)"
  unfolding numusearray_def usearray_loop.simps(2) by simp

lemma ceillog2_of_spec:
  assumes "1 \<le> x" "x \<le> 2 ^ MAXBITS"
  shows "\<exists>l. ceillog2_of (int x) = int l \<and> x \<le> 2 ^ l \<and> l \<le> MAXBITS"
proof (cases "x = 1")
  case True
  then show ?thesis by (simp add: ceillog2_of_def dl_log2_0)
next
  case False
  let ?w = "word_of_int (int x - 1) :: u64"
  have "?w = of_nat (x - 1)" using assms(1) by (simp add: of_nat_diff)
  then have w: "unat ?w = x - 1" using assms(2) by (simp add: unat_of_nat take_bit_nat_eq_self)
  then have "0 < ?w" using False assms(1) by (simp add: word_less_nat_alt)
  then obtain k where k: "dl_log2 ?w = int k" "2 ^ k \<le> x - 1" "x - 1 < 2 ^ (k + 1)" using dl_log2_spec w by metis
  have "(2 :: nat) ^ k < 2 ^ MAXBITS" using k(2) assms False by linarith
  then have "k < MAXBITS" by (rule power_less_imp_less_exp [rotated]) simp
  then show ?thesis using k by (intro exI [of _ "k + 1"]) (simp add: ceillog2_of_def)
qed

section \<open>Inserting the old nodes again\<close>

lemma not_index: "sizearray t = 0 \<Longrightarrow> \<not> is_index t k"
  by (simp add: is_index_def split: tkey.splits)

text \<open>A new key in a table of hashed keys with room.\<close>

lemma set_room:
  assumes T: "tab_ok K t" and K: "keys_fit K" "k \<in> K" and z: "sizearray t = 0" and B: "node t = Block ns"
    and new: "node_map ns k = None" and room: "card (dom (node_map ns)) < length ns"
  shows "\<exists>r t1. dl_set_l (dl_newkey_l ok (Suc d)) k t = Some (Some r, t1) \<and> slot_for K k t r t1"
proof -
  have ni: "\<not> is_index t k" by (rule not_index [OF z])
  obtain ch where "chains (main_pos t) ns ch" using T B by (auto simp: tab_ok_def nodes_ok_def)
  then have "\<exists>i < length ns. nkey (ns ! i) = None" using unused_node_ex room by blast
  then have "\<exists>r t1. dl_newkey_l ok (Suc d) k t = Some (Some r, t1) \<and> slot_for K k t r t1"
    by (rule newkey_room [OF T B K(2) ni new])
  moreover have "dl_find_l t k = Some None" using dl_find_spec [OF T K] ni B new by (auto simp: used_nodes_def)
  ultimately show ?thesis by (simp add: dl_set_l_def)
qed

lemma slot_store:
  assumes "slot_for K k t r t1" "node t = Block ns" "is_used n"
  shows "\<exists>t2 ns2. store_at (Some r, t1) (nval n) = Some t2 \<and> tab_ok K t2 \<and> tab_frame t2 = tab_frame t \<and> node t2 = Block ns2
    \<and> length ns2 = length ns \<and> node_map ns2 = (node_map ns)(k \<mapsto> nval n)"
proof -
  have "ctag (nval n) \<noteq> DL_NIL_L" using assms(3) by (simp add: is_used_def)
  then obtain t2 where t2: "put_cell r (nval n) t1 = Some t2" "tab_ok K t2" "tab_frame t2 = tab_frame t"
    "length (used_nodes t2) = length (used_nodes t)" "node_map (used_nodes t2) = (node_map (used_nodes t))(k \<mapsto> nval n)"
    using assms(1) unfolding slot_for_def by blast
  have "node_map (used_nodes t2) k \<noteq> None" using t2(5) by simp
  then have "\<exists>ns2. node t2 = Block ns2" by (cases "node t2") (simp_all add: used_nodes_def)
  then show ?thesis using t2 assms(2) by (auto simp: store_at_def used_nodes_def)
qed

text \<open>The loop over the old nodes.\<close>

lemma nodes_to_nodes_spec:
  assumes "tab_ok K t" "keys_fit K" "sizearray t = 0" "node t = Block nt"
    and "\<And>n. n \<in> set ns \<Longrightarrow> is_used n \<Longrightarrow> \<exists>k \<in> K. nkey n = Some k \<and> node_map nt k = None"
    and "distinct (map nkey (filter is_used ns))" "card (dom (node_map nt)) + used_count ns \<le> length nt"
  shows "\<exists>t' nt'. nodes_to_nodes (dl_newkey_l ok (Suc d)) ns t = Some t' \<and> tab_ok K t' \<and> tab_frame t' = tab_frame t
    \<and> node t' = Block nt' \<and> length nt' = length nt \<and> node_map nt' = node_map nt ++ node_map (filter is_used ns)"
  using assms(1,3-)
proof (induction ns arbitrary: t nt)
  case Nil
  then show ?case by (simp add: node_map_Nil)
next
  case (Cons n ns)
  show ?case
  proof (cases "is_used n")
    case True
    then obtain k where k: "k \<in> K" "nkey n = Some k" "node_map nt k = None" using Cons.prems(4) [of n] by auto
    have "card (dom (node_map nt)) < length nt" using Cons.prems(6) True by simp
    from set_room [OF Cons.prems(1) assms(2) k(1) Cons.prems(2,3) k(3) this]
    obtain rf t1 where 1: "dl_set_l (dl_newkey_l ok (Suc d)) k t = Some (Some rf, t1)" "slot_for K k t rf t1" by blast
    obtain t2 nt2 where 2: "store_at (Some rf, t1) (nval n) = Some t2" "tab_ok K t2" "tab_frame t2 = tab_frame t" "node t2 = Block nt2"
      "length nt2 = length nt" "node_map nt2 = (node_map nt)(k \<mapsto> nval n)"
      using slot_store [OF 1(2) Cons.prems(3) True] by blast
    have card: "card (dom (node_map nt2)) = Suc (card (dom (node_map nt)))"
      using k(3) finite_node_map [of nt] by (simp add: 2(6) domIff)
    have "\<exists>t' nt'. nodes_to_nodes (dl_newkey_l ok (Suc d)) ns t2 = Some t' \<and> tab_ok K t' \<and> tab_frame t' = tab_frame t2
      \<and> node t' = Block nt' \<and> length nt' = length nt2 \<and> node_map nt' = node_map nt2 ++ node_map (filter is_used ns)"
    proof (rule Cons.IH [OF 2(2) _ 2(4)])
      show "sizearray t2 = 0" using tab_frame_fields(2) [OF 2(3)] Cons.prems(2) by simp
      show "\<exists>k \<in> K. nkey x = Some k \<and> node_map nt2 k = None" if x: "x \<in> set ns" "is_used x" for x
      proof -
        obtain k' where k': "k' \<in> K" "nkey x = Some k'" "node_map nt k' = None" using Cons.prems(4) [of x] x by auto
        have "nkey n \<notin> nkey ` set (filter is_used ns)" using Cons.prems(5) True by simp
        then have "k' \<noteq> k" using x k(2) k'(2) by (auto simp: image_iff)
        then show ?thesis using k' 2(6) by simp
      qed
      show "distinct (map nkey (filter is_used ns))" using Cons.prems(5) True by simp
      show "card (dom (node_map nt2)) + used_count ns \<le> length nt2" using Cons.prems(6) True card 2(5) by simp
    qed
    then obtain t' nt' where 3: "nodes_to_nodes (dl_newkey_l ok (Suc d)) ns t2 = Some t'" "tab_ok K t'" "tab_frame t' = tab_frame t2"
      "node t' = Block nt'" "length nt' = length nt2" "node_map nt' = node_map nt2 ++ node_map (filter is_used ns)" by blast
    have "node_map (filter is_used ns) k = None"
    proof -
      have "Some k \<notin> nkey ` set (filter is_used ns)" using Cons.prems(5) True k(2) by simp
      then show ?thesis by (force simp: node_map_def find_None_iff)
    qed
    then have "node_map nt2 ++ node_map (filter is_used ns) = node_map nt ++ node_map (filter is_used (n # ns))"
      using True k(2) by (auto simp: fun_eq_iff map_add_def node_map_Cons 2(6) split: option.splits)
    moreover have "nodes_to_nodes (dl_newkey_l ok (Suc d)) (n # ns) t = Some t'"
      using True k(2) 1(1) 2(1) 3(1) by (simp add: is_used_def)
    ultimately show ?thesis using 3 2(3,5) by (intro exI [of _ t'] exI [of _ nt']) simp
  next
    case False
    have "\<exists>t' nt'. nodes_to_nodes (dl_newkey_l ok (Suc d)) ns t = Some t' \<and> tab_ok K t' \<and> tab_frame t' = tab_frame t
      \<and> node t' = Block nt' \<and> length nt' = length nt \<and> node_map nt' = node_map nt ++ node_map (filter is_used ns)"
      by (rule Cons.IH) (use Cons.prems False in auto)
    moreover have "nodes_to_nodes nk (n # ns) t = nodes_to_nodes nk ns t" for nk using False by (simp add: is_used_def)
    ultimately show ?thesis using False by simp
  qed
qed

section \<open>Rebuilding\<close>

definition fits :: "table \<Rightarrow> bool" where
  "fits t \<longleftrightarrow> card (dom (node_map (used_nodes t))) < 2 ^ MAXBITS"

lemma node_init_spec:
  assumes "1 \<le> x" "x \<le> 2 ^ MAXBITS" "ok (nalloc t)" "0 \<le> sizearray t" "sizearray t \<le> int (length (arr t))"
  shows "\<exists>t1 l. dl_node_init_l ok (int x) t = (True, t1) \<and> tab_ok K t1 \<and> x \<le> 2 ^ l \<and> node t1 = Block (replicate (2 ^ l) fresh_node)
    \<and> sizearray t1 = sizearray t \<and> arr t1 = arr t \<and> ablock t1 = ablock t \<and> handled t1 = handled t \<and> nalloc t1 = nalloc t + 1"
proof -
  obtain l where l: "ceillog2_of (int x) = int l" "x \<le> 2 ^ l" "l \<le> MAXBITS" using ceillog2_of_spec [OF assms(1,2)] by blast
  let ?ns = "replicate (2 ^ l) fresh_node"
  let ?t1 = "t\<lparr>nalloc := nalloc t + 1, node := Block ?ns, lastfree := Some (2 ^ l), lsizenode := l\<rparr>"
  have fresh: "i < 2 ^ l \<Longrightarrow> ?ns ! i = fresh_node" for i by simp
  have "dl_node_init_l ok (int x) t = (True, ?t1)"
    using assms(1,3) l by (simp add: dl_node_init_l_def alloc_def)
  moreover have "chains (main_pos ?t1) ?ns (\<lambda>_. [])"
    using main_pos_less [of ?t1] by (auto simp: chains_def fresh_node_def)
  then have "nodes_ok K ?t1 ?ns" unfolding nodes_ok_def by (auto simp: fresh_node_def)
  then have "tab_ok K ?t1" using assms by (simp add: tab_ok_def)
  ultimately show ?thesis using l(2) by (intro exI [of _ ?t1] exI [of _ l]) simp
qed

text \<open>The node part is made for all used nodes and the new key.\<close>

lemma rehash_is_resize:
  assumes T: "tab_ok K t" and K: "hashed K" "k \<in> K" and z: "sizearray t = 0" and f: "fits t"
  shows "\<exists>x. 1 \<le> x \<and> x \<le> 2 ^ MAXBITS \<and> card (dom (node_map (used_nodes t))) < x
    \<and> (\<forall>nk. dl_rehash ok nk k (t\<lparr>lastfree := l\<rparr>) = resize ok nk 0 (int x) (t\<lparr>lastfree := l\<rparr>))"
proof -
  let ?t = "t\<lparr>lastfree := l\<rparr>"
  let ?m = "card (dom (node_map (used_nodes t)))"
  define old where "old = (case node t of Block ns \<Rightarrow> ns | _ \<Rightarrow> [dummynode])"
  have nl: "node_list (node ?t) = Some old" "node t \<noteq> Null" using T by (auto simp: old_def tab_ok_def split: nodes.splits)
  have keys: "k' \<in> K" if "n \<in> set old" "nkey n = Some k'" for n k'
    using that T by (auto simp: old_def tab_ok_def nodes_ok_def dummynode_def in_set_conv_nth split: nodes.splits)
  have uc: "used_count old = (if node t = Dummy then 1 else ?m)"
  proof (cases "node t")
    case (Block ns)
    then obtain ch where "chains (main_pos t) ns ch" using T by (auto simp: tab_ok_def nodes_ok_def)
    then show ?thesis using Block used_count_card by (simp add: old_def used_nodes_def)
  qed (use nl(2) in \<open>simp_all add: old_def is_used_def dummynode_def\<close>)
  let ?x = "used_count old + 1"
  have "node t = Dummy \<Longrightarrow> ?m = 0" by (simp add: used_nodes_def node_map_Nil)
  then have x: "1 \<le> ?x" "?x \<le> 2 ^ MAXBITS" "?m < ?x" using f uc by (auto simp: fits_def split: if_splits)
  have "dl_rehash ok nk k ?t = resize ok nk 0 (int ?x) ?t" for nk
    unfolding dl_rehash_def numusehash_def nl(1)
    using numusearray_empty [of ?t] usehash_loop_hashed [OF K(1), of "rev old"] keys countint_hashed [OF K] z
    by (simp add: computesizes_def sizes_loop.simps)
  then show ?thesis using x by blast
qed

text \<open>A full table, whose search for a free node ended below its first one, is rebuilt with the same contents and room.\<close>

lemma rehash_spec:
  assumes T: "tab_ok K t" and K: "keys_fit K" "hashed K" "k \<in> K" and z: "sizearray t = 0" and f: "fits t" and ok: "ok (nalloc t)"
  shows "\<exists>t' ns. dl_rehash ok (dl_newkey_l ok (Suc d)) k (t\<lparr>lastfree := l\<rparr>) = Some (True, t') \<and> tab_ok K t' \<and> sizearray t' = 0
    \<and> handled t' = handled t \<and> nalloc t' = nalloc t + 1 \<and> node t' = Block ns \<and> node_map ns = node_map (used_nodes t)
    \<and> card (dom (node_map ns)) < length ns"
proof -
  let ?t = "t\<lparr>lastfree := l\<rparr>"
  let ?m = "card (dom (node_map (used_nodes t)))"
  from rehash_is_resize [where ok = ok and l = l, OF T K(2,3) z f] obtain x where x: "1 \<le> x" "x \<le> 2 ^ MAXBITS" "?m < x"
    and rh: "\<And>nk. dl_rehash ok nk k ?t = resize ok nk 0 (int x) ?t" by blast
  have "ok (nalloc ?t)" "0 \<le> sizearray ?t" "sizearray ?t \<le> int (length (arr ?t))" using z ok by simp_all
  then have "\<exists>t1 b. dl_node_init_l ok (int x) ?t = (True, t1) \<and> tab_ok K t1 \<and> x \<le> 2 ^ b \<and> node t1 = Block (replicate (2 ^ b) fresh_node)
    \<and> sizearray t1 = sizearray ?t \<and> arr t1 = arr ?t \<and> ablock t1 = ablock ?t \<and> handled t1 = handled ?t \<and> nalloc t1 = nalloc ?t + 1"
    by (intro node_init_spec [OF x(1,2)])
  then obtain t1 b where 1: "dl_node_init_l ok (int x) ?t = (True, t1)" "tab_ok K t1" "x \<le> 2 ^ b"
    "node t1 = Block (replicate (2 ^ b) fresh_node)" "sizearray t1 = 0" "handled t1 = handled t" "nalloc t1 = nalloc t + 1"
    using z by auto
  have empty: "node_map (replicate (2 ^ b) fresh_node) = Map.empty"
    by (rule ext) (simp add: node_map_None fresh_node_def)
  show ?thesis
  proof (cases "node t")
    case Dummy
    then have "resize ok nk 0 (int x) ?t = Some (True, t1)" for nk
      using z 1(1) by (simp add: resize_def grow_array_def)
    then show ?thesis using rh 1 empty Dummy by (simp add: used_nodes_def node_map_Nil)
  next
    case (Block ns)
    then obtain ch where C: "chains (main_pos t) ns ch" using T by (auto simp: tab_ok_def nodes_ok_def)
    note D = chainsD [OF C]
    have m: "?m = used_count ns" using Block used_count_card [OF C] by (simp add: used_nodes_def)
    have "\<exists>t' nt'. nodes_to_nodes (dl_newkey_l ok (Suc d)) (rev ns) t1 = Some t' \<and> tab_ok K t' \<and> tab_frame t' = tab_frame t1
      \<and> node t' = Block nt' \<and> length nt' = length (replicate (2 ^ b) fresh_node)
      \<and> node_map nt' = node_map (replicate (2 ^ b) fresh_node) ++ node_map (filter is_used (rev ns))"
    proof (rule nodes_to_nodes_spec [OF 1(2) K(1) 1(5,4)])
      show "\<exists>k \<in> K. nkey n = Some k \<and> node_map (replicate (2 ^ b) fresh_node) k = None" if n: "n \<in> set (rev ns)" "is_used n" for n
      proof -
        obtain i where i: "i < length ns" "n = ns ! i" using n by (auto simp: in_set_conv_nth)
        then obtain k where "nkey n = Some k" using n(2) D(7) [of i] by (auto simp: is_used_def)
        then show ?thesis using T Block i empty by (auto simp: tab_ok_def nodes_ok_def)
      qed
      show "distinct (map nkey (filter is_used (rev ns)))" by (rule distinct_keys [OF C])
      show "card (dom (node_map (replicate (2 ^ b) fresh_node))) + used_count (rev ns) \<le> length (replicate (2 ^ b) fresh_node)"
        using 1(3) x(3) m by (simp add: empty)
    qed
    then obtain t' nt' where 2: "nodes_to_nodes (dl_newkey_l ok (Suc d)) (rev ns) t1 = Some t'" "tab_ok K t'" "tab_frame t' = tab_frame t1"
      "node t' = Block nt'" "length nt' = 2 ^ b" "node_map nt' = node_map ns"
      by (auto simp: empty node_map_filter [OF C])
    have "resize ok (dl_newkey_l ok (Suc d)) 0 (int x) ?t = Some (True, t')"
      using z 1(1) 2(1) Block by (simp add: resize_def grow_array_def)
    then show ?thesis
      using rh 2 tab_frame_fields [OF 2(3)] 1 x(3) Block by (intro exI [of _ t'] exI [of _ nt']) (simp add: used_nodes_def)
  qed (use T in \<open>simp add: tab_ok_def\<close>)
qed

end
