(* ===== verification/Dl_Table_Map.thy ===== *)
theory Dl_Table_Map
  imports Dl_Table_Rebuild
begin

text \<open>
  A table without an array part, used through the setting, deleting and searching functions of
  \<^verbatim>\<open>dl_table.h\<close>, refines a map from keys to cells and the list of the pointers the handler was called with.
\<close>

section \<open>Insertion, with rebuilding when it is needed\<close>

text \<open>\<open>N\<close> is a number of nodes the table keeps, \<open>room\<close> says why a new key finds a place: with \<open>N = 0\<close> the nodes are
  rebuilt when they are full, otherwise they never get full.\<close>

definition room :: "tkey set \<Rightarrow> nat \<Rightarrow> table \<Rightarrow> bool" where
  "room K N t \<longleftrightarrow> (if N = 0 then hashed K \<and> fits t
     else card (dom (node_map (used_nodes t))) < N \<and> N \<le> length (used_nodes t))"

definition key_slot :: "tkey set \<Rightarrow> nat \<Rightarrow> tkey \<Rightarrow> table \<Rightarrow> vref \<Rightarrow> table \<Rightarrow> bool" where
  "key_slot K N k t r t1 \<longleftrightarrow> get_cell r t1 \<noteq> None \<and> handled t1 = handled t
     \<and> (\<forall>c. ctag c \<noteq> DL_NIL_L \<longrightarrow> (\<exists>t2. put_cell r c t1 = Some t2 \<and> tab_ok K t2 \<and> sizearray t2 = 0 \<and> handled t2 = handled t
          \<and> N \<le> length (used_nodes t2) \<and> node_map (used_nodes t2) = (node_map (used_nodes t))(k \<mapsto> c)))"

lemma slot_for_slot:
  assumes "slot_for K k t' r t1" "sizearray t' = 0" "handled t' = handled t" "node_map (used_nodes t') = node_map (used_nodes t)"
    and "N \<le> length (used_nodes t')"
  shows "key_slot K N k t r t1"
proof -
  have fr: "tab_frame t1 = tab_frame t'" "get_cell r t1 \<noteq> None" using assms(1) by (simp_all add: slot_for_def)
  have "\<exists>t2. put_cell r c t1 = Some t2 \<and> tab_ok K t2 \<and> sizearray t2 = 0 \<and> handled t2 = handled t
    \<and> N \<le> length (used_nodes t2) \<and> node_map (used_nodes t2) = (node_map (used_nodes t))(k \<mapsto> c)" if c: "ctag c \<noteq> DL_NIL_L" for c
  proof -
    obtain t2 where "put_cell r c t1 = Some t2" "tab_ok K t2" "tab_frame t2 = tab_frame t'"
      "length (used_nodes t2) = length (used_nodes t')" "node_map (used_nodes t2) = (node_map (used_nodes t'))(k \<mapsto> c)"
      using assms(1) c unfolding slot_for_def by blast
    then show ?thesis using assms(2-) tab_frame_fields [of t2 t'] by (intro exI [of _ t2]) simp
  qed
  then show ?thesis using fr tab_frame_fields [OF fr(1)] assms(3) by (simp add: key_slot_def)
qed

lemma rebuild_and_set:
  assumes T: "tab_ok K t" and K: "keys_fit K" "hashed K" "k \<in> K" and z: "sizearray t = 0" and f: "fits t" and ok: "ok (nalloc t)"
    and new: "node_map (used_nodes t) k = None"
  shows "\<exists>r t1 t'. dl_rehash ok (dl_newkey_l ok (Suc d)) k (t\<lparr>lastfree := l\<rparr>) = Some (True, t')
    \<and> dl_set_l (dl_newkey_l ok (Suc d)) k t' = Some (Some r, t1) \<and> key_slot K 0 k t r t1"
proof -
  from rehash_spec [where ok = ok and d = d and l = l, OF T K z f ok] obtain t' ns
    where t': "dl_rehash ok (dl_newkey_l ok (Suc d)) k (t\<lparr>lastfree := l\<rparr>) = Some (True, t')" "tab_ok K t'" "sizearray t' = 0"
      "handled t' = handled t" "node t' = Block ns" "node_map ns = node_map (used_nodes t)" "card (dom (node_map ns)) < length ns"
    by blast
  have "node_map ns k = None" using new t'(6) by simp
  from set_room [OF t'(2) K(1,3) t'(3,5) this t'(7), of ok d] obtain r t1
    where 1: "dl_set_l (dl_newkey_l ok (Suc d)) k t' = Some (Some r, t1)" "slot_for K k t' r t1" by blast
  have "key_slot K 0 k t r t1" by (rule slot_for_slot [OF 1(2) t'(3,4)]) (simp_all add: used_nodes_def t'(5,6))
  then show ?thesis using t'(1) 1(1) by blast
qed

lemma newkey_hashed:
  assumes T: "tab_ok K t" and K: "keys_fit K" "hashed K" "k \<in> K" and z: "sizearray t = 0" and f: "fits t" and ok: "ok (nalloc t)"
    and new: "node_map (used_nodes t) k = None"
  shows "\<exists>r t1. dl_newkey_l ok (Suc (Suc d)) k t = Some (Some r, t1) \<and> key_slot K 0 k t r t1"
proof (cases "node t")
  case Dummy
  then have "main_pos t k = 0" "lastfree t = None" using T main_pos_less [of t k] by (simp_all add: tab_ok_def)
  then have "dl_newkey_l ok (Suc (Suc d)) k t = do { (done, t) \<leftarrow> dl_rehash ok (dl_newkey_l ok (Suc d)) k t;
      if \<not> done then Some (None, t) else dl_set_l (dl_newkey_l ok (Suc d)) k t }"
    using Dummy by (simp add: dl_newkey_l.simps(2) [of ok "Suc d"] node_at_def getfreepos_def)
  then show ?thesis using rebuild_and_set [where ok = ok and d = d and l = "lastfree t", OF T K z f ok new] by force
next
  case Null
  then show ?thesis using T by (simp add: tab_ok_def)
next
  case (Block ns)
  have ni: "\<not> is_index t k" by (rule not_index [OF z])
  have new': "node_map ns k = None" using new Block by (simp add: used_nodes_def)
  show ?thesis
  proof (cases "\<exists>i < length ns. nkey (ns ! i) = None")
    case True
    then show ?thesis using newkey_room [OF T Block K(3) ni new' True] slot_for_slot [of K k t _ _ t 0] z by blast
  next
    case False
    have BO: "nodes_ok K t ns" using T Block by (simp add: tab_ok_def)
    obtain ch l where C: "chains (main_pos t) ns ch" and l: "lastfree t = Some l" "l \<le> int (length ns)"
      "\<forall>i < length ns. l \<le> int i \<longrightarrow> nkey (ns ! i) \<noteq> None"
      using BO by (auto simp: nodes_ok_def)
    have mp: "main_pos t k < length ns" by (rule chainsD(1) [OF C])
    then have tag: "ctag (nval (ns ! main_pos t k)) \<noteq> DL_NIL_L" using chainsD(7) [OF C mp] False by blast
    obtain l' where l': "getfreepos t = Some (None, t\<lparr>lastfree := Some l'\<rparr>)" using getfreepos_spec [OF Block l] False by blast
    have "dl_newkey_l ok (Suc (Suc d)) k t = do { (done, t) \<leftarrow> dl_rehash ok (dl_newkey_l ok (Suc d)) k (t\<lparr>lastfree := Some l'\<rparr>);
        if \<not> done then Some (None, t) else dl_set_l (dl_newkey_l ok (Suc d)) k t }"
      using tag l' by (simp add: dl_newkey_l.simps(2) [of ok "Suc d"] node_at_Block [OF Block mp])
    then show ?thesis using rebuild_and_set [where ok = ok and d = d and l = "Some l'", OF T K z f ok new] by force
  qed
qed

lemma newkey_spec:
  assumes T: "tab_ok K t" and K: "keys_fit K" "k \<in> K" and z: "sizearray t = 0" and R: "room K N t" and ok: "ok (nalloc t)"
    and new: "node_map (used_nodes t) k = None"
  shows "\<exists>r t1. dl_newkey_l ok (Suc (Suc d)) k t = Some (Some r, t1) \<and> key_slot K N k t r t1"
proof (cases "N = 0")
  case True
  then have "hashed K" "fits t" using R by (simp_all add: room_def)
  then show ?thesis using newkey_hashed [where ok = ok and d = d, OF T K(1) _ K(2) z _ ok new] True by blast
next
  case False
  then have few: "card (dom (node_map (used_nodes t))) < N" "N \<le> length (used_nodes t)" using R by (simp_all add: room_def)
  then obtain ns where B: "node t = Block ns" "used_nodes t = ns" by (cases "node t") (auto simp: used_nodes_def)
  obtain ch where "chains (main_pos t) ns ch" using T B by (auto simp: tab_ok_def nodes_ok_def)
  then have "\<exists>i < length ns. nkey (ns ! i) = None" using unused_node_ex few unfolding B(2) by (meson order_less_le_trans)
  then obtain r t1 where "dl_newkey_l ok (Suc (Suc d)) k t = Some (Some r, t1)" "slot_for K k t r t1"
    using newkey_room [OF T B(1) K(2) not_index [OF z], of ok "Suc d"] new unfolding B(2) by blast
  then show ?thesis using slot_for_slot [OF _ z refl refl few(2)] by blast
qed

section \<open>Overwriting\<close>

text \<open>The value of a cell can be given up: a string it holds is allocated, a pointer is there for the handler. Only an
  empty cell has the pointer to a freed string.\<close>

definition cell_ok :: "cell \<Rightarrow> bool" where
  "cell_ok c \<longleftrightarrow> (case ctag c of
       DL_STR_L \<Rightarrow> (case cval c of Text s \<Rightarrow> True | Broken \<Rightarrow> True | _ \<Rightarrow> False)
     | DL_VOID_L \<Rightarrow> (case cval c of Word w \<Rightarrow> True | _ \<Rightarrow> False)
     | DL_NIL_L \<Rightarrow> True
     | _ \<Rightarrow> cval c \<noteq> Dangling)"

lemma cell_ok_not_dangling: "cell_ok c \<Longrightarrow> ctag c \<noteq> DL_NIL_L \<Longrightarrow> cval c \<noteq> Dangling"
  by (auto simp: cell_ok_def split: tag.splits)

text \<open>The pointers the handler takes when the value is given up.\<close>

definition handed :: "cell \<Rightarrow> u64 list" where
  "handed c = (if ctag c = DL_VOID_L then (case cval c of Word w \<Rightarrow> [w] | _ \<Rightarrow> []) else [])"

lemma drop_value_spec: "cell_ok c \<Longrightarrow> drop_value c t = Some (t\<lparr>handled := handed c @ handled t\<rparr>)"
  by (cases "ctag c"; cases "cval c") (simp_all add: cell_ok_def drop_value_def handed_def)

lemma handled_irrelevant:
  "tab_ok K (t\<lparr>handled := hs\<rparr>) = tab_ok K t" "used_nodes (t\<lparr>handled := hs\<rparr>) = used_nodes t"
proof -
  have m: "main_pos (t\<lparr>handled := hs\<rparr>) = main_pos t" by (rule ext, rule main_pos_cong) simp
  have "is_index (t\<lparr>handled := hs\<rparr>) k = is_index t k" for k by (simp add: is_index_def split: tkey.splits)
  then have "nodes_ok K (t\<lparr>handled := hs\<rparr>) ns = nodes_ok K t ns" for ns by (simp add: nodes_ok_def m)
  then show "tab_ok K (t\<lparr>handled := hs\<rparr>) = tab_ok K t" by (simp add: tab_ok_def split: nodes.splits)
qed (simp add: used_nodes_def)

lemma nalloc_irrelevant:
  "tab_ok K (t\<lparr>nalloc := n\<rparr>) = tab_ok K t" "used_nodes (t\<lparr>nalloc := n\<rparr>) = used_nodes t"
proof -
  have m: "main_pos (t\<lparr>nalloc := n\<rparr>) = main_pos t" by (rule ext, rule main_pos_cong) simp
  have "is_index (t\<lparr>nalloc := n\<rparr>) k = is_index t k" for k by (simp add: is_index_def split: tkey.splits)
  then have "nodes_ok K (t\<lparr>nalloc := n\<rparr>) ns = nodes_ok K t ns" for ns by (simp add: nodes_ok_def m)
  then show "tab_ok K (t\<lparr>nalloc := n\<rparr>) = tab_ok K t" by (simp add: tab_ok_def split: nodes.splits)
qed (simp add: used_nodes_def)

lemma overwrite_slot:
  assumes T: "tab_ok K t" and B: "node t = Block ns" and z: "sizearray t = 0" and i: "i < length ns" "nkey (ns ! i) = Some k"
    and N: "N \<le> length ns"
  shows "key_slot K N k t (In_node i) t"
proof -
  have BO: "nodes_ok K t ns" using T B by (simp add: tab_ok_def)
  obtain ch where C: "chains (main_pos t) ns ch" using BO by (auto simp: nodes_ok_def)
  have "\<exists>t2. put_cell (In_node i) c t = Some t2 \<and> tab_ok K t2 \<and> sizearray t2 = 0 \<and> handled t2 = handled t
    \<and> N \<le> length (used_nodes t2) \<and> node_map (used_nodes t2) = (node_map (used_nodes t))(k \<mapsto> c)" if c: "ctag c \<noteq> DL_NIL_L" for c
  proof -
    let ?ns = "ns[i := (ns ! i)\<lparr>nval := c\<rparr>]"
    let ?t = "t\<lparr>node := Block ?ns\<rparr>"
    have m: "main_pos ?t = main_pos t" by (rule ext, rule main_pos_cong) simp
    have x: "is_index ?t k' = is_index t k'" for k' by (simp add: is_index_def split: tkey.splits)
    have key: "nkey (?ns ! j) = nkey (ns ! j)" for j using i by (cases "j = i") simp_all
    have "chains (main_pos t) ?ns ch" by (rule change_value(1) [OF C i c])
    then have "nodes_ok K ?t ?ns" using BO unfolding nodes_ok_def m x key by auto
    then have "tab_ok K ?t" using T by (simp add: tab_ok_def)
    moreover have "node_map ?ns = (node_map ns)(k \<mapsto> c)" by (rule change_value(2) [OF C i c])
    ultimately show ?thesis using z i B N by (intro exI [of _ ?t]) (simp add: upd_node_def used_nodes_def)
  qed
  then show ?thesis using i B by (simp add: key_slot_def node_at_def)
qed

lemma slot_handled:
  assumes "key_slot K N k t r t" "get_cell r t = Some c"
  shows "key_slot K N k (t\<lparr>handled := hs\<rparr>) r (t\<lparr>handled := hs\<rparr>)"
proof -
  have u: "upd_node i f (t\<lparr>handled := hs\<rparr>) = map_option (\<lambda>t. t\<lparr>handled := hs\<rparr>) (upd_node i f t)" for i f
    by (simp add: upd_node_def split: nodes.splits)
  have p: "put_cell r c (t\<lparr>handled := hs\<rparr>) = map_option (\<lambda>t. t\<lparr>handled := hs\<rparr>) (put_cell r c t)" for c
    by (cases r) (simp_all add: u)
  have g: "get_cell r (t\<lparr>handled := hs\<rparr>) = get_cell r t" by (cases r) (simp_all add: node_at_def)
  have "\<exists>t2. put_cell r v (t\<lparr>handled := hs\<rparr>) = Some t2 \<and> tab_ok K t2 \<and> sizearray t2 = 0 \<and> handled t2 = hs
    \<and> N \<le> length (used_nodes t2) \<and> node_map (used_nodes t2) = (node_map (used_nodes t))(k \<mapsto> v)" if v: "ctag v \<noteq> DL_NIL_L" for v
  proof -
    obtain t2 where "put_cell r v t = Some t2" "tab_ok K t2" "sizearray t2 = 0" "N \<le> length (used_nodes t2)" "node_map (used_nodes t2) = (node_map (used_nodes t))(k \<mapsto> v)"
      using assms(1) v unfolding key_slot_def by blast
    then show ?thesis by (intro exI [of _ "t2\<lparr>handled := hs\<rparr>"]) (simp add: p handled_irrelevant)
  qed
  then show ?thesis using assms(2) by (simp add: key_slot_def g handled_irrelevant)
qed

section \<open>Deletion\<close>

text \<open>The part of \<open>dl_reset_node_l\<close> behind the taking of the node out of its chain.\<close>

lemma reset_tail:
  assumes B: "node t = Block ns" "j < length ns" and c: "cell_ok (nval (ns ! j))" and l: "lastfree t = Some l"
  shows "\<exists>z. cleared z \<and> do { t \<leftarrow> dl_reset_v_l (In_node j) t; t \<leftarrow> upd_node j (\<lambda>n. n\<lparr>nkey := None, nnext := None\<rparr>) t; l \<leftarrow> lastfree t;
      Some (if l \<le> int j then t\<lparr>lastfree := Some (int j + 1)\<rparr> else t) }
    = Some (t\<lparr>handled := handed (nval (ns ! j)) @ handled t, node := Block (ns[j := z]), lastfree := Some (if l \<le> int j then int j + 1 else l)\<rparr>)"
proof (intro exI conjI)
  let ?c = "\<lparr>ctag = DL_NIL_L, cval = (if ctag (nval (ns ! j)) = DL_STR_L then Dangling else cval (nval (ns ! j)))\<rparr>"
  let ?z = "(ns ! j)\<lparr>nval := ?c, nkey := None, nnext := None\<rparr>"
  let ?h = "handed (nval (ns ! j)) @ handled t"
  show "cleared ?z" by (simp add: cleared_def)
  let ?t1 = "t\<lparr>handled := ?h, node := Block (ns[j := (ns ! j)\<lparr>nval := ?c\<rparr>])\<rparr>"
  let ?t2 = "t\<lparr>handled := ?h, node := Block (ns[j := ?z])\<rparr>"
  have 1: "dl_reset_v_l (In_node j) t = Some ?t1"
    using B drop_value_spec [OF c] by (simp add: dl_reset_v_l_def node_at_def upd_node_def)
  have 2: "upd_node j (\<lambda>n. n\<lparr>nkey := None, nnext := None\<rparr>) ?t1 = Some ?t2"
    using B by (simp add: upd_node_def)
  have 3: "?t2 = ?t2\<lparr>lastfree := Some l\<rparr>" using l by (cases t) simp
  show "do { t \<leftarrow> dl_reset_v_l (In_node j) t; t \<leftarrow> upd_node j (\<lambda>n. n\<lparr>nkey := None, nnext := None\<rparr>) t; l \<leftarrow> lastfree t;
      Some (if l \<le> int j then t\<lparr>lastfree := Some (int j + 1)\<rparr> else t) }
    = Some (t\<lparr>handled := ?h, node := Block (ns[j := ?z]), lastfree := Some (if l \<le> int j then int j + 1 else l)\<rparr>)"
    unfolding 1 Option.bind.simps 2 using l 3 by simp
qed

lemma delete_ok:
  assumes T: "tab_ok K t" and B: "node t = Block ns" and z: "sizearray t = 0" and l: "lastfree t = Some l"
    and C: "chains (main_pos t) ns' ch" and len: "length ns' = length ns"
    and keys: "\<And>i. i < length ns \<Longrightarrow> i \<noteq> j \<Longrightarrow> nkey (ns' ! i) = None \<longleftrightarrow> nkey (ns ! i) = None"
      "\<And>i k'. i < length ns \<Longrightarrow> nkey (ns' ! i) = Some k' \<Longrightarrow> \<exists>i < length ns. nkey (ns ! i) = Some k'"
    and j: "j < length ns"
  shows "tab_ok K (t\<lparr>handled := h, node := Block ns', lastfree := Some (if l \<le> int j then int j + 1 else l)\<rparr>)"
proof -
  let ?l = "if l \<le> int j then int j + 1 else l"
  let ?t = "t\<lparr>handled := h, node := Block ns', lastfree := Some ?l\<rparr>"
  have BO: "nodes_ok K t ns" using T B by (simp add: tab_ok_def)
  have m: "main_pos ?t = main_pos t" by (rule ext, rule main_pos_cong) simp
  have x: "is_index ?t k' = is_index t k'" for k' by (simp add: is_index_def split: tkey.splits)
  have "nkey (ns' ! i) \<noteq> None" if "i < length ns'" "?l \<le> int i" for i
  proof -
    have "i \<noteq> j" "l \<le> int i" using that(2) by (auto split: if_splits)
    then show ?thesis using keys(1) [of i] BO l that(1) len by (auto simp: nodes_ok_def)
  qed
  moreover have "?l \<le> int (length ns')" using BO l j len by (cases "l \<le> int j") (auto simp: nodes_ok_def simp del: of_nat_power)
  moreover have "k \<in> K \<and> \<not> is_index t k" if "i < length ns'" "nkey (ns' ! i) = Some k" for i k
    using keys(2) [of i k] that BO len by (auto simp: nodes_ok_def)
  ultimately have "nodes_ok K ?t ns'" using C BO len unfolding nodes_ok_def m x by auto
  then show ?thesis using T by (simp add: tab_ok_def)
qed

lemma reset_node_spec:
  assumes T: "tab_ok K t" and B: "node t = Block ns" and z: "sizearray t = 0" and i: "i < length ns" "nkey (ns ! i) = Some k"
    and c: "cell_ok (nval (ns ! i))"
  shows "\<exists>t'. dl_reset_node_l i t = Some t' \<and> tab_ok K t' \<and> sizearray t' = 0 \<and> handled t' = handed (nval (ns ! i)) @ handled t
    \<and> length (used_nodes t') = length ns \<and> node_map (used_nodes t') = (node_map ns)(k := None)"
proof -
  have BO: "nodes_ok K t ns" using T B by (simp add: tab_ok_def)
  obtain ch l where C: "chains (main_pos t) ns ch" and l: "lastfree t = Some l" using BO by (auto simp: nodes_ok_def)
  note D = chainsD [OF C]
  let ?mp = "main_pos t k"
  let ?h = "handed (nval (ns ! i)) @ handled t"
  let ?out = "\<lambda>j ns'. t\<lparr>handled := ?h, node := Block ns', lastfree := Some (if l \<le> int j then int j + 1 else l)\<rparr>"
  have tail: "\<exists>z. cleared z \<and> dl_reset_node_l i t = Some (?out j (ns1[j := z]))"
    if u: "unchain_node i t = Some (j, t\<lparr>node := Block ns1\<rparr>)" "j < length ns1" "nval (ns1 ! j) = nval (ns ! i)" for j ns1
    using reset_tail [of "t\<lparr>node := Block ns1\<rparr>" ns1 j l] u c l by (simp add: dl_reset_node_l_def)
  have fin: "\<exists>t'. dl_reset_node_l i t = Some t' \<and> tab_ok K t' \<and> sizearray t' = 0 \<and> handled t' = handed (nval (ns ! i)) @ handled t
      \<and> length (used_nodes t') = length ns \<and> node_map (used_nodes t') = (node_map ns)(k := None)"
    if "dl_reset_node_l i t = Some (?out j ns')" "tab_ok K (?out j ns')" "length ns' = length ns" "node_map ns' = (node_map ns)(k := None)" for j ns'
    using that z by (intro exI [of _ "?out j ns'"]) (simp add: used_nodes_def)
  have at: "node_at i t = Some (ns ! i)" by (rule node_at_Block [OF B i(1)])
  have in_chain: "i \<in> set (ch ?mp)" by (rule D(4) [OF i])
  then have "ch ?mp \<noteq> []" by auto
  then obtain rest where hd: "ch ?mp = ?mp # rest" using chain_hd [OF C] by blast
  have po: "path ns (Some ?mp) (ch ?mp)" by (rule D(2)) (simp add: hd)
  show ?thesis
  proof (cases "?mp = i")
    case False
    obtain xs vs where xs: "ch ?mp = xs @ i # vs" using split_list [OF in_chain] by blast
    then have "xs \<noteq> []" using hd False by auto
    then obtain us b where b: "ch ?mp = us @ b # i # vs" using xs by (cases xs rule: rev_cases) auto
    have dist: "distinct (us @ b # i # vs)" using path_distinct [OF po] b by simp
    have bl: "b < length ns" using path_length [OF po, of b] b by simp
    have "before_loop ?mp i t = Some b" by (rule before_path [OF B, of _ us b i vs]) (use po b dist in auto)
    then have "unchain_node i t = Some (i, t\<lparr>node := Block (ns[b := (ns ! b)\<lparr>nnext := nnext (ns ! i)\<rparr>])\<rparr>)"
      using False at i(2) bl B by (simp add: unchain_node_def upd_node_def Let_def)
    moreover have "ns[b := (ns ! b)\<lparr>nnext := nnext (ns ! i)\<rparr>] ! i = ns ! i" using dist by simp
    ultimately obtain z where z': "cleared z" "dl_reset_node_l i t = Some (?out i (ns[b := (ns ! b)\<lparr>nnext := nnext (ns ! i)\<rparr>, i := z]))"
      using tail i(1) by (metis length_list_update)
    let ?ns' = "ns[b := (ns ! b)\<lparr>nnext := nnext (ns ! i)\<rparr>, i := z]"
    obtain ch' where C': "chains (main_pos t) ?ns' ch'" "node_map ?ns' = (node_map ns)(k := None)"
      using delete_behind [OF C i b z'(1)] by blast
    have key0: "nkey (ns[b := (ns ! b)\<lparr>nnext := nnext (ns ! i)\<rparr>] ! j) = nkey (ns ! j)" for j
      using bl by (cases "j = b") simp_all
    then have key: "nkey (?ns' ! j) = (if j = i then None else nkey (ns ! j))" for j
      using i z'(1) by (cases "j = i") (simp_all add: cleared_def)
    have "tab_ok K (?out i ?ns')"
      by (rule delete_ok [OF T B z l C'(1)]) (use i in \<open>auto simp: key key0 split: if_splits\<close>)
    from fin [OF z'(2) this _ C'(2)] show ?thesis by simp
  next
    case True
    show ?thesis
    proof (cases rest)
      case Nil
      then have "nnext (ns ! i) = None" using po hd True by simp
      then have "unchain_node i t = Some (i, t\<lparr>node := Block ns\<rparr>)"
        using True at i(2) B by (simp add: unchain_node_def Let_def)
      then obtain z where z': "cleared z" "dl_reset_node_l i t = Some (?out i (ns[i := z]))" using tail i(1) by blast
      let ?ns' = "ns[i := z]"
      have "ch ?mp = [i]" using hd Nil True by simp
      then obtain ch' where C': "chains (main_pos t) ?ns' ch'" "node_map ?ns' = (node_map ns)(k := None)"
        using delete_only [OF C i _ z'(1)] by blast
      have key: "nkey (?ns' ! j) = (if j = i then None else nkey (ns ! j))" for j using i z'(1) by (simp add: cleared_def)
      have "tab_ok K (?out i ?ns')"
        by (rule delete_ok [OF T B z l C'(1)]) (use i in \<open>auto simp: key split: if_splits\<close>)
      from fin [OF z'(2) this _ C'(2)] show ?thesis by simp
    next
      case (Cons j vs)
      have cs: "ch ?mp = i # j # vs" using hd Cons True by simp
      have po': "path ns (Some ?mp) (i # j # vs)" using po unfolding cs .
      have j: "nnext (ns ! i) = Some j" "j < length ns" "j \<noteq> i"
        using po' path_distinct [OF po'] by auto
      have "unchain_node i t = Some (j, t\<lparr>node := Block (ns[i := ns ! j, j := ns ! i])\<rparr>)"
        using True at i j B by (simp add: unchain_node_def upd_node_def node_at_def Let_def)
      moreover have "ns[i := ns ! j, j := ns ! i] ! j = ns ! i" using j by simp
      ultimately obtain z where z': "cleared z" "dl_reset_node_l i t = Some (?out j (ns[i := ns ! j, j := ns ! i, j := z]))"
        using tail j(2) by (metis length_list_update)
      let ?ns' = "ns[i := ns ! j, j := z]"
      obtain ch' where C': "chains (main_pos t) ?ns' ch'" "node_map ?ns' = (node_map ns)(k := None)"
        using delete_first [OF C i cs z'(1)] by blast
      have "j \<in> set (ch ?mp)" using cs by simp
      then have kj: "nkey (ns ! j) \<noteq> None" using D(3) by fastforce
      have key: "nkey (?ns' ! x) = (if x = j then None else if x = i then nkey (ns ! j) else nkey (ns ! x))" for x
        using i j z'(1) by (simp add: cleared_def nth_list_update)
      have "tab_ok K (?out j ?ns')"
      proof (rule delete_ok [OF T B z l C'(1)])
        show "nkey (?ns' ! x) = None \<longleftrightarrow> nkey (ns ! x) = None" if "x < length ns" "x \<noteq> j" for x
          unfolding key using that i kj by simp
        show "\<exists>x < length ns. nkey (ns ! x) = Some k'" if "x < length ns" "nkey (?ns' ! x) = Some k'" for x k'
          using that j(2) unfolding key by (cases "x = j"; cases "x = i") auto
      qed (use j in simp_all)
      moreover have "dl_reset_node_l i t = Some (?out j ?ns')" using z'(2) by simp
      moreover have "length ?ns' = length ns" by simp
      ultimately show ?thesis using fin C'(2) by blast
    qed
  qed
qed

section \<open>The operations\<close>

text \<open>The values a client can set, and the functions it calls for them.\<close>

datatype tval = VInt u64 | VText bytes | VPtr u64

fun cell_of :: "tval \<Rightarrow> cell" where
  "cell_of (VInt w) = \<lparr>ctag = DL_INT_L, cval = Word w\<rparr>"
| "cell_of (VText s) = \<lparr>ctag = DL_STR_L, cval = Text s\<rparr>"
| "cell_of (VPtr w) = \<lparr>ctag = DL_VOID_L, cval = Word w\<rparr>"

lemma cell_of_ok: "ctag (cell_of v) \<noteq> DL_NIL_L" "cell_ok (cell_of v)"
  by (cases v; simp add: cell_ok_def)+

fun set_value :: "(nat \<Rightarrow> bool) \<Rightarrow> nat \<Rightarrow> tkey \<Rightarrow> tval \<Rightarrow> table \<Rightarrow> (rc \<times> table) option" where
  "set_value ok d (KInt n) (VInt w) t = dl_array_set_int_l ok d t n w"
| "set_value ok d (KInt n) (VText s) t = dl_array_set_str_l ok d t n s"
| "set_value ok d (KInt n) (VPtr w) t = dl_array_set_void_l ok d t n w"
| "set_value ok d (KStr k) (VInt w) t = dl_node_set_int_l ok d t k w"
| "set_value ok d (KStr k) (VText s) t = dl_node_set_str_l ok d t k s"
| "set_value ok d (KStr k) (VPtr w) t = dl_node_set_void_l ok d t k w"

fun del_key :: "tkey \<Rightarrow> table \<Rightarrow> table option" where
  "del_key (KInt n) t = dl_del_key_index_l t n"
| "del_key (KStr s) t = dl_del_key_str_l t s"

definition get_value :: "table \<Rightarrow> tkey \<Rightarrow> cell option option" where
  "get_value t k = do { v \<leftarrow> dl_find_l t k; case v of None \<Rightarrow> Some None | Some r \<Rightarrow> map_option Some (get_cell r t) }"

text \<open>A pointer is not stored when the cell already has its bits, whatever they stand for.\<close>

definition kept :: "cell option \<Rightarrow> tval \<Rightarrow> bool" where
  "kept old v \<longleftrightarrow> (case (old, v) of (Some c, VPtr w) \<Rightarrow> cval c = Word w | _ \<Rightarrow> False)"

definition put_cell_of :: "cell option \<Rightarrow> tval \<Rightarrow> cell" where
  "put_cell_of old v = (if kept old v then the old else cell_of v)"

definition released :: "cell option \<Rightarrow> u64 list" where
  "released old = (case old of None \<Rightarrow> [] | Some c \<Rightarrow> handed c)"

definition put_handed :: "cell option \<Rightarrow> tval \<Rightarrow> u64 list" where
  "put_handed old v = (if kept old v then [] else released old)"

definition tab_inv :: "tkey set \<Rightarrow> table \<Rightarrow> bool" where
  "tab_inv K t \<longleftrightarrow> tab_ok K t \<and> sizearray t = 0 \<and> (\<forall>k c. node_map (used_nodes t) k = Some c \<longrightarrow> cell_ok c)"

lemma tab_map_nodes: "sizearray t = 0 \<Longrightarrow> tab_map t = node_map (used_nodes t)"
  by (rule ext) (simp add: tab_map_node not_index)

text \<open>The cell a setting function is about to fill: it is there, and its old value is given up.\<close>

definition acquire :: "(nat \<Rightarrow> bool) \<Rightarrow> nat \<Rightarrow> tkey \<Rightarrow> vref option \<Rightarrow> table \<Rightarrow> (vref option \<times> table) option" where
  "acquire ok d k v t = (case k of KInt n \<Rightarrow> dl_array_set ok d n v t | KStr s \<Rightarrow> dl_node_set ok d s v t)"

lemma acquire_spec:
  assumes I: "tab_inv K t" and K: "keys_fit K" "k \<in> K" and R: "room K N t"
  shows "\<exists>v r t1. dl_find_l t k = Some v \<and> acquire no_oom (Suc (Suc d)) k v t = Some (Some r, t1)
    \<and> key_slot K N k (t\<lparr>handled := released (tab_map t k) @ handled t\<rparr>) r t1
    \<and> (\<forall>w. holds_word v w t = Some (kept (tab_map t k) (VPtr w)))"
proof -
  have T: "tab_ok K t" and z: "sizearray t = 0" using I by (simp_all add: tab_inv_def)
  note tm = tab_map_nodes [OF z]
  consider (new) "node_map (used_nodes t) k = None" "dl_find_l t k = Some None"
    | (old) ns i where "node t = Block ns" "i < length ns" "nkey (ns ! i) = Some k" "dl_find_l t k = Some (Some (In_node i))"
      "node_map ns k = Some (nval (ns ! i))"
    using dl_find_spec [OF T K] not_index [OF z, of k] by metis
  then show ?thesis
  proof cases
    case new
    have h: "t\<lparr>handled := released (tab_map t k) @ handled t\<rparr> = t" using new by (simp add: tm released_def)
    let ?u = "if \<exists>n. k = KInt n then t else t\<lparr>nalloc := nalloc t + 2\<rparr>"
    have u: "tab_ok K ?u" "sizearray ?u = 0" "room K N ?u" "used_nodes ?u = used_nodes t" "handled ?u = handled t"
      using T z R by (auto simp: nalloc_irrelevant room_def fits_def split: if_splits)
    obtain r t1 where 1: "dl_newkey_l no_oom (Suc (Suc d)) k ?u = Some (Some r, t1)" "key_slot K N k ?u r t1"
      using newkey_spec [OF u(1) K u(2,3), of no_oom d] new u(4) by auto
    have "acquire no_oom (Suc (Suc d)) k None t = Some (Some r, t1)"
      using 1(1) by (cases k) (simp_all add: acquire_def dl_array_set_def dl_node_set_def alloc_def)
    moreover have "key_slot K N k t r t1" using 1(2) u(4,5) by (simp add: key_slot_def)
    ultimately show ?thesis using new h by (simp add: tm holds_word_def kept_def)
  next
    case old
    let ?c = "nval (ns ! i)"
    have c: "tab_map t k = Some ?c" "cell_ok ?c" using I old by (auto simp: tm tab_inv_def used_nodes_def)
    have g: "get_cell (In_node i) t = Some ?c" using old by (simp add: node_at_def)
    obtain ch where C: "chains (main_pos t) ns ch" using T old(1) by (auto simp: tab_ok_def nodes_ok_def)
    have N: "N \<le> length ns" using R old(1) by (auto simp: room_def used_nodes_def split: if_splits)
    have nd: "cval ?c \<noteq> Dangling" using cell_ok_not_dangling [OF c(2)] chainsD(7) [OF C old(2)] old(3) by simp
    let ?t1 = "t\<lparr>handled := handed ?c @ handled t\<rparr>"
    have "acquire no_oom (Suc (Suc d)) k (Some (In_node i)) t = Some (Some (In_node i), ?t1)"
      using g drop_value_spec [OF c(2)] by (cases k) (simp_all add: acquire_def dl_array_set_def dl_node_set_def del: get_cell.simps)
    moreover have "key_slot K N k ?t1 (In_node i) ?t1"
      by (rule slot_handled [OF overwrite_slot [OF T old(1) z old(2,3) N] g])
    ultimately show ?thesis using old(4) c g nd by (simp add: released_def holds_word_def kept_def del: get_cell.simps)
  qed
qed

end
