(* ===== verification/Dl_Table_Props.thy ===== *)
theory Dl_Table_Props
  imports Dl_Table_Map
begin

text \<open>
  The properties of the table: it refines a map as long as its keys stay in the nodes, the rebuilding that never
  ends when they do not, and the array part.
\<close>

section \<open>Setting, deleting, searching\<close>

fun fill :: "(nat \<Rightarrow> bool) \<Rightarrow> vref \<Rightarrow> tval \<Rightarrow> table \<Rightarrow> (rc \<times> table) option" where
  "fill ok r (VInt w) t = do { t \<leftarrow> dl_array_set_int r w t; Some (DL_OK, t) }"
| "fill ok r (VText s) t = dl_array_set_str ok r s t"
| "fill ok r (VPtr w) t = do { t \<leftarrow> dl_array_set_void r w t; Some (DL_OK, t) }"

text \<open>The six setting functions have one shape.\<close>

lemma set_value_shape:
  "set_value ok d k v t = do { f \<leftarrow> dl_find_l t k;
     same \<leftarrow> (case v of VPtr w \<Rightarrow> holds_word f w t | _ \<Rightarrow> Some False);
     if same then Some (DL_OK, t)
     else do { (vv, t) \<leftarrow> acquire ok d k f t; case vv of None \<Rightarrow> Some (DL_ERROR, t) | Some r \<Rightarrow> fill ok r v t } }"
proof -
  have "dl_node_set_int = dl_array_set_int" "dl_node_set_void = dl_array_set_void" "dl_node_set_str = dl_array_set_str"
    by (simp_all add: fun_eq_iff dl_node_set_int_def dl_array_set_int_def dl_node_set_void_def dl_array_set_void_def
      dl_node_set_str_def dl_array_set_str_def)
  note same = this dl_array_set_int_l_def dl_array_set_str_l_def dl_array_set_void_l_def
    dl_node_set_int_l_def dl_node_set_str_l_def dl_node_set_void_l_def
  show ?thesis
    by (cases k; cases v; hypsubst; unfold set_value.simps fill.simps acquire_def tkey.case tval.case dl_find_l.simps same; simp)
qed

lemma slot_nalloc:
  assumes "key_slot K N k t r t1"
  shows "key_slot K N k t r (t1\<lparr>nalloc := n\<rparr>)"
proof -
  have u: "upd_node i f (t1\<lparr>nalloc := n\<rparr>) = map_option (\<lambda>t. t\<lparr>nalloc := n\<rparr>) (upd_node i f t1)" for i f
    by (simp add: upd_node_def split: nodes.splits)
  have p: "put_cell r c (t1\<lparr>nalloc := n\<rparr>) = map_option (\<lambda>t. t\<lparr>nalloc := n\<rparr>) (put_cell r c t1)" for c
    by (cases r) (simp_all add: u)
  have g: "get_cell r (t1\<lparr>nalloc := n\<rparr>) = get_cell r t1" by (cases r) (simp_all add: node_at_def)
  have "\<exists>t2. put_cell r v (t1\<lparr>nalloc := n\<rparr>) = Some t2 \<and> tab_ok K t2 \<and> sizearray t2 = 0 \<and> handled t2 = handled t
    \<and> N \<le> length (used_nodes t2) \<and> node_map (used_nodes t2) = (node_map (used_nodes t))(k \<mapsto> v)" if v: "ctag v \<noteq> DL_NIL_L" for v
  proof -
    obtain t2 where "put_cell r v t1 = Some t2" "tab_ok K t2" "sizearray t2 = 0" "handled t2 = handled t"
      "N \<le> length (used_nodes t2)" "node_map (used_nodes t2) = (node_map (used_nodes t))(k \<mapsto> v)"
      using assms v unfolding key_slot_def by blast
    then show ?thesis by (intro exI [of _ "t2\<lparr>nalloc := n\<rparr>"]) (simp add: p nalloc_irrelevant)
  qed
  then show ?thesis using assms by (simp add: key_slot_def g)
qed

lemma fill_spec:
  assumes S: "key_slot K N k t r t1"
  shows "\<exists>t2. fill no_oom r v t1 = Some (DL_OK, t2) \<and> tab_ok K t2 \<and> sizearray t2 = 0 \<and> handled t2 = handled t
    \<and> N \<le> length (used_nodes t2) \<and> node_map (used_nodes t2) = (node_map (used_nodes t))(k \<mapsto> cell_of v)"
proof -
  have "\<exists>t2. put_cell r (cell_of v) (t1\<lparr>nalloc := n\<rparr>) = Some t2 \<and> tab_ok K t2 \<and> sizearray t2 = 0 \<and> handled t2 = handled t
    \<and> N \<le> length (used_nodes t2) \<and> node_map (used_nodes t2) = (node_map (used_nodes t))(k \<mapsto> cell_of v)" for n
    using slot_nalloc [OF S, of n] cell_of_ok(1) [of v] unfolding key_slot_def by blast
  note put = this [of "nalloc t1"] this [of "nalloc t1 + 2"]
  have g: "get_cell r (t1\<lparr>nalloc := nalloc t1 + 1\<rparr>) \<noteq> None" "get_cell r (t1\<lparr>nalloc := nalloc t1 + 2\<rparr>) \<noteq> None"
    using slot_nalloc [OF S, of "nalloc t1 + 1"] slot_nalloc [OF S, of "nalloc t1 + 2"] by (simp_all add: key_slot_def)
  show ?thesis
  proof (cases v)
    case (VInt w)
    then show ?thesis using put(1) by (auto simp: dl_array_set_int_def)
  next
    case (VText s)
    then show ?thesis using put(2) g by (auto simp: dl_array_set_str_def alloc_def)
  next
    case (VPtr w)
    then show ?thesis using put(1) by (auto simp: dl_array_set_void_def)
  qed
qed

lemma set_value_spec:
  assumes I: "tab_inv K t" and K: "keys_fit K" "k \<in> K" and R: "room K N t"
  shows "\<exists>t'. set_value no_oom (Suc (Suc d)) k v t = Some (DL_OK, t') \<and> tab_inv K t' \<and> N \<le> length (used_nodes t')
    \<and> tab_map t' = (tab_map t)(k \<mapsto> put_cell_of (tab_map t k) v) \<and> handled t' = put_handed (tab_map t k) v @ handled t"
proof -
  have z: "sizearray t = 0" and ok: "\<And>k c. tab_map t k = Some c \<Longrightarrow> cell_ok c"
    using I by (auto simp: tab_inv_def tab_map_nodes)
  from acquire_spec [OF I K R, of d] obtain p r t1 where 1: "dl_find_l t k = Some p"
    "acquire no_oom (Suc (Suc d)) k p t = Some (Some r, t1)" "key_slot K N k (t\<lparr>handled := released (tab_map t k) @ handled t\<rparr>) r t1"
    "\<And>w. holds_word p w t = Some (kept (tab_map t k) (VPtr w))" by blast
  have same: "(case v of VPtr w \<Rightarrow> holds_word p w t | _ \<Rightarrow> Some False) = Some (kept (tab_map t k) v)"
    using 1(4) by (cases v; cases "tab_map t k") (simp_all add: kept_def)
  show ?thesis
  proof (cases "kept (tab_map t k) v")
    case True
    then obtain c where "tab_map t k = Some c" by (auto simp: kept_def split: option.splits)
    then have "(tab_map t)(k \<mapsto> put_cell_of (tab_map t k) v) = tab_map t" using True by (simp add: put_cell_of_def fun_upd_idem)
    moreover have "N \<le> length (used_nodes t)" using R by (auto simp: room_def split: if_splits)
    ultimately show ?thesis using True I 1(1) same by (simp add: set_value_shape put_handed_def)
  next
    case False
    from fill_spec [OF 1(3), of v] obtain t2 where 2: "fill no_oom r v t1 = Some (DL_OK, t2)" "tab_ok K t2" "sizearray t2 = 0"
      "handled t2 = released (tab_map t k) @ handled t" "N \<le> length (used_nodes t2)" "node_map (used_nodes t2) = (tab_map t)(k \<mapsto> cell_of v)"
      by (auto simp: handled_irrelevant tab_map_nodes [OF z])
    have "tab_inv K t2" using 2 ok cell_of_ok(2) [of v] by (auto simp: tab_inv_def)
    then show ?thesis using False 1(1,2) same 2
      by (intro exI [of _ t2]) (simp add: set_value_shape put_handed_def put_cell_of_def tab_map_nodes)
  qed
qed

lemma del_key_spec:
  assumes I: "tab_inv K t" and K: "keys_fit K" "k \<in> K"
  shows "\<exists>t'. del_key k t = Some t' \<and> tab_inv K t' \<and> length (used_nodes t') = length (used_nodes t) \<and> tab_map t' = (tab_map t)(k := None)
    \<and> handled t' = released (tab_map t k) @ handled t"
proof -
  have T: "tab_ok K t" and z: "sizearray t = 0" using I by (simp_all add: tab_inv_def)
  note tm = tab_map_nodes [OF z]
  have del: "del_key k t = do { v \<leftarrow> dl_find_l t k; case v of Some (In_node i) \<Rightarrow> dl_reset_node_l i t | _ \<Rightarrow> Some t }"
    if "dl_find_l t k = Some p" "\<And>i. p \<noteq> Some (In_array i)" for p
    using that by (cases k; cases p) (auto simp: dl_del_key_index_l_def dl_del_key_str_l_def split: vref.splits)
  consider (new) "node_map (used_nodes t) k = None" "dl_find_l t k = Some None"
    | (old) ns i where "node t = Block ns" "i < length ns" "nkey (ns ! i) = Some k" "dl_find_l t k = Some (Some (In_node i))"
      "node_map ns k = Some (nval (ns ! i))"
    using dl_find_spec [OF T K] not_index [OF z, of k] by metis
  then show ?thesis
  proof cases
    case new
    then have "(tab_map t)(k := None) = tab_map t" by (simp add: tm fun_upd_idem)
    then show ?thesis using new I del [OF new(2)] by (simp add: tm released_def)
  next
    case old
    have m: "tab_map t k = Some (nval (ns ! i))" using old by (simp add: tm used_nodes_def)
    then have "cell_ok (nval (ns ! i))" using I by (simp add: tm tab_inv_def)
    from reset_node_spec [OF T old(1) z old(2,3) this] obtain t' where
      "dl_reset_node_l i t = Some t'" "tab_ok K t'" "sizearray t' = 0" "handled t' = handed (nval (ns ! i)) @ handled t"
      "length (used_nodes t') = length (used_nodes t)" "node_map (used_nodes t') = (tab_map t)(k := None)" using old(1) by (auto simp: tm used_nodes_def)
    moreover have "cell_ok c" if "((tab_map t)(k := None)) k' = Some c" for k' c
      using that I by (auto simp: tm tab_inv_def split: if_splits)
    ultimately show ?thesis using old m del [OF old(4)]
      by (intro exI [of _ t']) (auto simp: released_def tab_inv_def tab_map_nodes)
  qed
qed

lemma get_value_spec:
  assumes I: "tab_inv K t" and K: "keys_fit K" "k \<in> K"
  shows "get_value t k = Some (tab_map t k)"
proof -
  have T: "tab_ok K t" and z: "sizearray t = 0" using I by (simp_all add: tab_inv_def)
  show ?thesis
    using dl_find_spec [OF T K] not_index [OF z, of k]
    by (auto simp: get_value_def tab_map_nodes [OF z] node_at_def used_nodes_def)
qed

section \<open>Creation and destruction\<close>

lemma tab_map_new:
  assumes "n \<le> 2 ^ MAXBITS"
  shows "\<exists>t. dl_table_new no_oom 0 (int n) = Some (Some t) \<and> tab_inv K t \<and> n \<le> length (used_nodes t) \<and> tab_map t = Map.empty \<and> handled t = []"
proof -
  let ?t = "\<lparr>lsizenode = 0, sizearray = 0, arr = [], ablock = 0, node = Dummy, lastfree = None, handled = [], nalloc = 1\<rparr>"
  show ?thesis
  proof (cases "n = 0")
    case True
    then have "dl_table_new no_oom 0 (int n) = Some (Some ?t)"
      by (simp add: dl_table_new_def dl_table_init_def dl_array_init_l_def dl_node_init_l_def)
    then show ?thesis
      using True by (simp add: tab_inv_def tab_ok_def tab_map_nodes used_nodes_def node_map_Nil)
  next
    case False
    then have "1 \<le> n" by simp
    then obtain t l where t: "dl_node_init_l no_oom (int n) ?t = (True, t)" "tab_ok K t" "n \<le> 2 ^ l" "node t = Block (replicate (2 ^ l) fresh_node)"
      "sizearray t = 0" "handled t = []"
      using node_init_spec [of n no_oom ?t K] assms by auto
    have "node_map (replicate (2 ^ l) fresh_node) = Map.empty" by (rule ext) (simp add: node_map_None fresh_node_def)
    moreover have "dl_table_new no_oom 0 (int n) = Some (Some t)"
      using t(1) by (simp add: dl_table_new_def dl_table_init_def dl_array_init_l_def)
    ultimately show ?thesis using t by (simp add: tab_inv_def tab_map_nodes used_nodes_def)
  qed
qed

lemma destroy_cells_spec:
  "list_all cell_ok cs \<Longrightarrow> destroy_cells cs t = Some (t\<lparr>handled := concat (map handed (rev cs)) @ handled t\<rparr>)"
  by (induction cs arbitrary: t) (simp_all add: drop_value_spec)

lemma mset_handed: "mset (concat (map handed (rev cs))) = (\<Sum>c\<leftarrow>cs. mset (handed c))"
  by (induction cs) simp_all

lemma sum_nodes:
  assumes C: "chains m ns ch"
  shows "(\<Sum>n\<leftarrow>ns. mset (handed (nval n))) = (\<Sum>k \<in> dom (node_map ns). mset (released (node_map ns k)))"
proof -
  note D = chainsD [OF C]
  let ?I = "{i. i < length ns \<and> nkey (ns ! i) \<noteq> None}"
  let ?f = "\<lambda>i. mset (handed (nval (ns ! i)))"
  let ?k = "\<lambda>i. the (nkey (ns ! i))"
  have nil: "?f i = {#}" if "i \<in> {..<length ns} - ?I" for i
    using that D(7) [of i] by (simp add: handed_def)
  have "(\<Sum>n\<leftarrow>ns. mset (handed (nval n))) = (\<Sum>i<length ns. ?f i)"
    by (simp add: sum_list_sum_nth atLeast0LessThan)
  also have "\<dots> = (\<Sum>i\<in>?I. ?f i)"
    by (rule sum.mono_neutral_right) (use nil in auto)
  also have "\<dots> = (\<Sum>i\<in>?I. mset (released (node_map ns (?k i))))"
  proof (rule sum.cong [OF refl])
    fix i assume "i \<in> ?I"
    then have "node_map ns (?k i) = Some (nval (ns ! i))" using node_map_Some [OF C, of "?k i"] by force
    then show "?f i = mset (released (node_map ns (?k i)))" by (simp add: released_def)
  qed
  also have "\<dots> = (\<Sum>k \<in> ?k ` ?I. mset (released (node_map ns k)))"
    by (rule sum.reindex_cong [symmetric, of ?k]) (auto intro!: inj_onI D(6))
  also have "?k ` ?I = dom (node_map ns)" by (rule used_keys [OF C])
  finally show ?thesis .
qed

lemma table_destroy_spec:
  assumes I: "tab_inv K t"
  shows "\<exists>hs. dl_table_destroy t = Some hs \<and> mset hs = mset (handled t) + (\<Sum>k \<in> dom (tab_map t). mset (released (tab_map t k)))"
proof -
  have T: "tab_ok K t" and z: "sizearray t = 0" using I by (simp_all add: tab_inv_def)
  show ?thesis
  proof (cases "node t")
    case Dummy
    then show ?thesis
      by (simp add: dl_table_destroy_def z dummynode_def drop_value_def tab_map_nodes used_nodes_def node_map_Nil)
  next
    case (Block ns)
    then obtain ch where C: "chains (main_pos t) ns ch" using T by (auto simp: tab_ok_def nodes_ok_def)
    note D = chainsD [OF C]
    have "cell_ok (nval n)" if n: "n \<in> set ns" for n
    proof -
      obtain i where i: "i < length ns" "n = ns ! i" using n by (auto simp: in_set_conv_nth)
      show ?thesis
      proof (cases "nkey n")
        case None
        then show ?thesis using D(7) [OF i(1)] i(2) by (simp add: cell_ok_def)
      next
        case (Some k)
        then have "node_map ns k = Some (nval n)" using node_map_Some [OF C, of k] i by blast
        then show ?thesis using I Block by (auto simp: tab_inv_def used_nodes_def)
      qed
    qed
    then have "list_all cell_ok (map nval ns)" by (simp add: list_all_iff)
    then have "dl_table_destroy t = Some (concat (map handed (rev (map nval ns))) @ handled t)"
      by (simp add: dl_table_destroy_def z Block destroy_cells_spec)
    moreover have "mset (concat (map handed (rev (map nval ns)))) = (\<Sum>n\<leftarrow>ns. mset (handed (nval n)))"
      by (simp only: mset_handed map_map comp_def)
    ultimately show ?thesis using sum_nodes [OF C] by (simp add: tab_map_nodes [OF z] used_nodes_def Block ac_simps)
  qed (use T in \<open>simp add: tab_ok_def\<close>)
qed

section \<open>Clients\<close>

text \<open>What a client asks of a store with keys, what the store is promised to be afterwards: a map and the values
  given back, latest first. \<open>repl\<close> is the value a key gets, \<open>given\<close> and \<open>gone\<close> what putting and deleting give back.\<close>

datatype ('k, 'x) kv_request = Put 'k 'x | Del 'k

fun kv_key :: "('k, 'x) kv_request \<Rightarrow> 'k" where
  "kv_key (Put k x) = k"
| "kv_key (Del k) = k"

fun promised :: "('v option \<Rightarrow> 'x \<Rightarrow> 'v) \<Rightarrow> ('v option \<Rightarrow> 'x \<Rightarrow> 'w list) \<Rightarrow> ('v option \<Rightarrow> 'w list) \<Rightarrow>
    ('k, 'x) kv_request list \<Rightarrow> ('k \<rightharpoonup> 'v) \<times> 'w list \<Rightarrow> ('k \<rightharpoonup> 'v) \<times> 'w list" where
  "promised repl given gone [] ml = ml"
| "promised repl given gone (Put k x # rs) (m, l) = promised repl given gone rs (m(k \<mapsto> repl (m k) x), given (m k) x @ l)"
| "promised repl given gone (Del k # rs) (m, l) = promised repl given gone rs (m(k := None), gone (m k) @ l)"

fun run_store :: "('k \<Rightarrow> 'x \<Rightarrow> 's \<Rightarrow> 's option) \<Rightarrow> ('k \<Rightarrow> 's \<Rightarrow> 's option) \<Rightarrow> ('k, 'x) kv_request list \<Rightarrow> 's \<Rightarrow> 's option" where
  "run_store put del [] s = Some s"
| "run_store put del (Put k x # rs) s = Option.bind (put k x s) (run_store put del rs)"
| "run_store put del (Del k # rs) s = Option.bind (del k s) (run_store put del rs)"

locale keyed_store =
  fixes K :: "'k set" and cap :: nat and inv :: "'s \<Rightarrow> bool" and view :: "'s \<Rightarrow> 'k \<rightharpoonup> 'v" and trace :: "'s \<Rightarrow> 'w list"
    and put :: "'k \<Rightarrow> 'x \<Rightarrow> 's \<Rightarrow> 's option" and del :: "'k \<Rightarrow> 's \<Rightarrow> 's option" and get :: "'s \<Rightarrow> 'k \<Rightarrow> 'v option option"
    and repl :: "'v option \<Rightarrow> 'x \<Rightarrow> 'v" and given :: "'v option \<Rightarrow> 'x \<Rightarrow> 'w list" and gone :: "'v option \<Rightarrow> 'w list"
  assumes finite_view: "inv s \<Longrightarrow> finite (dom (view s))"
    and put_law: "inv s \<Longrightarrow> k \<in> K \<Longrightarrow> card (dom (view s)) < cap \<Longrightarrow>
      \<exists>s'. put k x s = Some s' \<and> inv s' \<and> view s' = (view s)(k \<mapsto> repl (view s k) x) \<and> trace s' = given (view s k) x @ trace s"
    and del_law: "inv s \<Longrightarrow> k \<in> K \<Longrightarrow>
      \<exists>s'. del k s = Some s' \<and> inv s' \<and> view s' = (view s)(k := None) \<and> trace s' = gone (view s k) @ trace s"
    and get_law: "inv s \<Longrightarrow> k \<in> K \<Longrightarrow> get s k = Some (view s k)"
begin

lemma run_store_spec:
  "inv s \<Longrightarrow> kv_key ` set rs \<subseteq> K \<Longrightarrow> card (dom (view s)) + length rs \<le> cap \<Longrightarrow>
   \<exists>s'. run_store put del rs s = Some s' \<and> inv s' \<and> (view s', trace s') = promised repl given gone rs (view s, trace s)"
proof (induction rs arbitrary: s)
  case (Cons r rs)
  show ?case
  proof (cases r)
    case (Put k x)
    then have "k \<in> K" "card (dom (view s)) < cap" using Cons.prems by auto
    from put_law [OF Cons.prems(1) this] obtain s' where s': "put k x s = Some s'" "inv s'"
      "view s' = (view s)(k \<mapsto> repl (view s k) x)" "trace s' = given (view s k) x @ trace s" by blast
    have "card (dom (view s')) \<le> Suc (card (dom (view s)))"
      using s'(3) finite_view [OF Cons.prems(1)] by (simp add: card_insert_if)
    then have "card (dom (view s')) + length rs \<le> cap" using Cons.prems(3) by simp
    moreover have "kv_key ` set rs \<subseteq> K" using Cons.prems(2) by simp
    ultimately have "\<exists>s''. run_store put del rs s' = Some s'' \<and> inv s'' \<and> (view s'', trace s'') = promised repl given gone rs (view s', trace s')"
      by (intro Cons.IH [OF s'(2)])
    then show ?thesis using s' Put by simp
  next
    case (Del k)
    then have "k \<in> K" using Cons.prems by auto
    from del_law [OF Cons.prems(1) this] obtain s' where s': "del k s = Some s'" "inv s'"
      "view s' = (view s)(k := None)" "trace s' = gone (view s k) @ trace s" by blast
    have "card (dom (view s')) \<le> card (dom (view s))"
      using s'(3) finite_view [OF Cons.prems(1)] by (intro card_mono) auto
    then have "card (dom (view s')) + length rs \<le> cap" using Cons.prems(3) by simp
    moreover have "kv_key ` set rs \<subseteq> K" using Cons.prems(2) by simp
    ultimately have "\<exists>s''. run_store put del rs s' = Some s'' \<and> inv s'' \<and> (view s'', trace s'') = promised repl given gone rs (view s', trace s')"
      by (intro Cons.IH [OF s'(2)])
    then show ?thesis using s' Del by simp
  qed
qed simp

end

text \<open>The table as such a store; a setting function that does not return \<^verbatim>\<open>DL_OK\<close> ends the run.\<close>

definition table_put :: "tkey \<Rightarrow> tval \<Rightarrow> table \<Rightarrow> table option" where
  "table_put k v t = (case set_value no_oom (Suc (Suc 0)) k v t of Some (DL_OK, t') \<Rightarrow> Some t' | _ \<Rightarrow> None)"

definition string_keys :: "nat \<Rightarrow> tkey set" where
  "string_keys n = {k. case k of KStr s \<Rightarrow> length s = n | KInt i \<Rightarrow> i \<le> 0 \<or> 2 ^ MAXBITS < i}"

lemma string_keys_fit: "keys_fit (string_keys n)" "hashed (string_keys n)"
  by (simp_all add: keys_fit_def hashed_def string_keys_def)

text \<open>Strings of one length and any integers.\<close>

definition equal_keys :: "nat \<Rightarrow> tkey set" where
  "equal_keys n = {k. case k of KStr s \<Rightarrow> length s = n | KInt i \<Rightarrow> True}"

lemma equal_keys_fit: "keys_fit (equal_keys n)"
  by (simp add: keys_fit_def equal_keys_def)

lemma string_keys_equal: "tab_inv (string_keys n) t \<Longrightarrow> tab_inv (equal_keys n) t"
proof -
  have "k \<in> equal_keys n" if "k \<in> string_keys n" for k
    using that by (cases k) (simp_all add: string_keys_def equal_keys_def)
  then have "nodes_ok (equal_keys n) t ns" if "nodes_ok (string_keys n) t ns" for ns
    using that unfolding nodes_ok_def by blast
  then show "tab_inv (string_keys n) t \<Longrightarrow> tab_inv (equal_keys n) t"
    by (auto simp: tab_inv_def tab_ok_def split: nodes.splits)
qed

text \<open>With these keys the nodes are rebuilt whenever they are full.\<close>

interpretation ts: keyed_store "string_keys n" "2 ^ MAXBITS" "tab_inv (string_keys n)" tab_map handled table_put del_key get_value
  put_cell_of put_handed released
proof (unfold_locales, goal_cases)
  case (1 s)
  then show ?case by (simp add: tab_inv_def tab_map_nodes finite_node_map)
next
  case (2 s k x)
  have "sizearray s = 0" using 2(1) by (simp add: tab_inv_def)
  then have "room (string_keys n) 0 s" using 2(3) string_keys_fit(2) by (simp add: room_def fits_def tab_map_nodes)
  from set_value_spec [OF 2(1) string_keys_fit(1) 2(2) this, of 0 x] show ?case by (auto simp: table_put_def)
next
  case (3 s k)
  then show ?case using del_key_spec [OF _ string_keys_fit(1)] by blast
next
  case (4 s k)
  then show ?case by (rule get_value_spec [OF _ string_keys_fit(1)])
qed

text \<open>With any integers the nodes must not be rebuilt: the table has one for every key from the start.\<close>

interpretation tr: keyed_store "equal_keys n" N "\<lambda>t. tab_inv (equal_keys n) t \<and> N \<le> length (used_nodes t)" tab_map handled table_put
  del_key get_value put_cell_of put_handed released
proof (unfold_locales, goal_cases)
  case (1 s)
  then show ?case by (simp add: tab_inv_def tab_map_nodes finite_node_map)
next
  case (2 s k x)
  then have I: "tab_inv (equal_keys n) s" by blast
  then have "sizearray s = 0" by (simp add: tab_inv_def)
  then have "room (equal_keys n) N s" using 2(1,3) by (simp add: room_def tab_map_nodes)
  from set_value_spec [OF I equal_keys_fit 2(2) this, of 0 x] show ?case by (auto simp: table_put_def)
next
  case (3 s k)
  then show ?case using del_key_spec [OF _ equal_keys_fit] by fastforce
next
  case (4 s k)
  then show ?case using get_value_spec [OF _ equal_keys_fit] by blast
qed

section \<open>Properties\<close>

text \<open>The runs the next two properties are about: all string keys have one length, and either no integer key is one of
  1 to \<open>2 ^ 26\<close>, those that can get into an array part, or the table has a node for every call from the start.\<close>

definition mappable :: "nat \<Rightarrow> nat \<Rightarrow> (tkey, tval) kv_request list \<Rightarrow> bool" where
  "mappable l n rs \<longleftrightarrow> (kv_key ` set rs \<subseteq> string_keys l \<and> length rs \<le> 2 ^ 26)
     \<or> (kv_key ` set rs \<subseteq> equal_keys l \<and> length rs \<le> n)"

lemma mappable_run:
  assumes "n \<le> 2 ^ 26" "mappable l n rs" and m: "promised put_cell_of put_handed released rs (Map.empty, []) = (m, hs)"
  shows "\<exists>t t'. dl_table_new no_oom 0 (int n) = Some (Some t) \<and> run_store table_put del_key rs t = Some t'
    \<and> tab_inv (equal_keys l) t' \<and> tab_map t' = m \<and> handled t' = hs"
  using assms(2) unfolding mappable_def
proof
  assume k: "kv_key ` set rs \<subseteq> string_keys l \<and> length rs \<le> 2 ^ 26"
  obtain t where t: "dl_table_new no_oom 0 (int n) = Some (Some t)" "tab_inv (string_keys l) t" "tab_map t = Map.empty" "handled t = []"
    using tab_map_new [OF assms(1)] by blast
  have "card (dom (tab_map t)) + length rs \<le> 2 ^ MAXBITS" using k t(3) by simp
  from ts.run_store_spec [OF t(2) _ this] obtain t' where "run_store table_put del_key rs t = Some t'" "tab_inv (string_keys l) t'"
    "tab_map t' = m" "handled t' = hs" using m k t(3,4) by auto
  then show ?thesis using t(1) string_keys_equal by blast
next
  assume k: "kv_key ` set rs \<subseteq> equal_keys l \<and> length rs \<le> n"
  obtain t where t: "dl_table_new no_oom 0 (int n) = Some (Some t)" "tab_inv (equal_keys l) t \<and> n \<le> length (used_nodes t)"
    "tab_map t = Map.empty" "handled t = []"
    using tab_map_new [OF assms(1)] by blast
  have "card (dom (tab_map t)) + length rs \<le> n" using k t(3) by simp
  from tr.run_store_spec [OF t(2) _ this] obtain t' where "run_store table_put del_key rs t = Some t'" "tab_inv (equal_keys l) t'"
    "tab_map t' = m" "handled t' = hs" using m k t(3,4) by auto
  then show ?thesis using t(1) by blast
qed

text \<open>C4: a fresh table without an array part refines a map, on the runs for which the code can keep one. The runs
  are those of the setting functions (for integers, strings, pointers) and the deleting functions without a failed
  allocation, whose string keys all have one length, because \<^verbatim>\<open>memcmp\<close> looks at the length of the searched key only
  (lemma \<open>table_prefix_found\<close>); integer keys may be any when the table was created with at least as many nodes as
  there are calls, and must be outside of 1 to \<open>2 ^ 26\<close> when it was created with fewer, because then the nodes are
  rebuilt and keys of that range are counted for an array part (\<open>table_rebuild_diverges\<close>); at most \<open>2 ^ 26\<close> nodes
  and calls. In such a run every call returns without undefined behaviour, the setting functions \<^verbatim>\<open>DL_OK\<close>, however
  often the nodes have to be rebuilt; searching any key of that length or any integer gives the cell the run
  promises, and the handler was called with exactly the pointers that were overwritten or deleted.\<close>

theorem table_refines_map:
  assumes "n \<le> 2 ^ 26" "mappable l n rs"
    and m: "promised put_cell_of put_handed released rs (Map.empty, []) = (m, hs)"
  shows "\<exists>t t'. dl_table_new no_oom 0 (int n) = Some (Some t) \<and> run_store table_put del_key rs t = Some t' \<and> handled t' = hs
    \<and> (\<forall>k \<in> equal_keys l. get_value t' k = Some (m k))"
  using mappable_run [OF assms] get_value_spec [OF _ equal_keys_fit] by blast

theorem table_refines_map_witness:
  "\<exists>t t' u u'. dl_table_new no_oom 0 0 = Some (Some t)
    \<and> run_store table_put del_key [Put (KStr [97]) (VInt 1), Put (KStr [98]) (VPtr 7), Put (KInt (- 3)) (VText [120]),
        Put (KStr [98]) (VInt 2), Del (KStr [97])] t = Some t'
    \<and> handled t' = [7] \<and> get_value t' (KStr [97]) = Some None \<and> get_value t' (KStr [98]) = Some (Some (cell_of (VInt 2)))
    \<and> get_value t' (KInt (- 3)) = Some (Some (cell_of (VText [120])))
    \<and> dl_table_new no_oom 0 3 = Some (Some u)
    \<and> run_store table_put del_key [Put (KInt 1) (VInt 4), Put (KInt 8) (VPtr 6), Del (KInt 8)] u = Some u'
    \<and> handled u' = [6] \<and> get_value u' (KInt 1) = Some (Some (cell_of (VInt 4))) \<and> get_value u' (KInt 8) = Some None"
proof -
  let ?rs = "[Put (KStr [97]) (VInt 1), Put (KStr [98]) (VPtr 7), Put (KInt (- 3)) (VText [120]), Put (KStr [98]) (VInt 2), Del (KStr [97])]"
  let ?m = "((Map.empty(KStr [97] \<mapsto> cell_of (VInt 1), KStr [98] \<mapsto> cell_of (VPtr 7), KInt (- 3) \<mapsto> cell_of (VText [120]), KStr [98] \<mapsto> cell_of (VInt 2)))
    (KStr [97] := None))"
  have p: "promised put_cell_of put_handed released ?rs (Map.empty, []) = (?m, [7])"
    by (simp add: put_cell_of_def put_handed_def released_def kept_def handed_def)
  have "mappable 1 0 ?rs" by (simp add: mappable_def string_keys_def)
  from table_refines_map [OF _ this p] obtain t t' where t: "dl_table_new no_oom 0 0 = Some (Some t)"
    "run_store table_put del_key ?rs t = Some t'" "handled t' = [7]" "\<And>k. k \<in> equal_keys 1 \<Longrightarrow> get_value t' k = Some (?m k)" by auto
  let ?us = "[Put (KInt 1) (VInt 4), Put (KInt 8) (VPtr 6), Del (KInt 8)]"
  let ?w = "(Map.empty(KInt 1 \<mapsto> cell_of (VInt 4), KInt 8 \<mapsto> cell_of (VPtr 6)))(KInt 8 := None)"
  have q: "promised put_cell_of put_handed released ?us (Map.empty, []) = (?w, [6])"
    by (simp add: put_cell_of_def put_handed_def released_def kept_def handed_def)
  have "mappable 1 3 ?us" by (simp add: mappable_def equal_keys_def)
  from table_refines_map [OF _ this q] obtain u u' where u: "dl_table_new no_oom 0 3 = Some (Some u)"
    "run_store table_put del_key ?us u = Some u'" "handled u' = [6]" "\<And>k. k \<in> equal_keys 1 \<Longrightarrow> get_value u' k = Some (?w k)" by auto
  have "get_value t' (KStr [97]) = Some None" "get_value t' (KStr [98]) = Some (Some (cell_of (VInt 2)))"
    "get_value t' (KInt (- 3)) = Some (Some (cell_of (VText [120])))"
    by (subst t(4); simp add: equal_keys_def)+
  moreover have "get_value u' (KInt 1) = Some (Some (cell_of (VInt 4)))" "get_value u' (KInt 8) = Some None"
    by (subst u(4); simp add: equal_keys_def)+
  ultimately show ?thesis using t(1-3) u(1-3) by blast
qed

text \<open>C23: no pointer is lost at the end. When a run of the kind of the previous property, in particular with string
  keys of one length and no failed allocation, is followed by \<^verbatim>\<open>dl_table_destroy\<close>, the handler has been called with
  the pointers overwritten or deleted before and with the pointer of every key that was left, each once for every
  key that held it. After a failed allocation this does not hold (\<open>table_oom_loses_nodes\<close>).\<close>

theorem table_destroy_hands_over:
  assumes "n \<le> 2 ^ 26" "mappable l n rs"
    and m: "promised put_cell_of put_handed released rs (Map.empty, []) = (m, hs)"
  shows "\<exists>t t' all. dl_table_new no_oom 0 (int n) = Some (Some t) \<and> run_store table_put del_key rs t = Some t'
    \<and> dl_table_destroy t' = Some all \<and> mset all = mset hs + (\<Sum>k \<in> dom m. mset (released (m k)))"
  using mappable_run [OF assms] table_destroy_spec by blast

theorem table_destroy_hands_over_witness:
  "\<exists>t t' all. dl_table_new no_oom 0 0 = Some (Some t)
    \<and> run_store table_put del_key [Put (KStr [97]) (VPtr 5), Put (KStr [98]) (VPtr 7), Put (KStr [98]) (VPtr 8)] t = Some t'
    \<and> dl_table_destroy t' = Some all \<and> mset all = {#5, 8, 7#}"
proof -
  let ?rs = "[Put (KStr [97]) (VPtr 5), Put (KStr [98]) (VPtr 7), Put (KStr [98]) (VPtr 8)]"
  let ?m = "Map.empty(KStr [97] \<mapsto> cell_of (VPtr 5), KStr [98] \<mapsto> cell_of (VPtr 8))"
  have p: "promised put_cell_of put_handed released ?rs (Map.empty, []) = (?m, [7])"
    by (simp add: put_cell_of_def put_handed_def released_def kept_def handed_def)
  have "(\<Sum>k \<in> dom ?m. mset (released (?m k))) = {#5, 8#}" by (simp add: released_def handed_def)
  moreover have "mappable 1 0 ?rs" by (simp add: mappable_def string_keys_def)
  ultimately show ?thesis using table_destroy_hands_over [OF _ _ p, of 0 1] by simp
qed

section \<open>A rebuilding that does not end\<close>

text \<open>The table after a first integer key, 1, in a table without room: the array part has one cell, for the key 0.\<close>

definition one_key :: "u64 \<Rightarrow> nat \<Rightarrow> int \<Rightarrow> table" where
  "one_key w n l = \<lparr>lsizenode = 0, sizearray = 1, arr = [nil_cell], ablock = 2,
     node = Block [\<lparr>nkey = Some (KInt 1), nval = \<lparr>ctag = DL_INT_L, cval = Word w\<rparr>, nnext = None\<rparr>],
     lastfree = Some l, handled = [], nalloc = n\<rparr>"

lemma one_key_simps [simp]:
  "lsizenode (one_key w n l) = 0" "sizearray (one_key w n l) = 1" "arr (one_key w n l) = [nil_cell]"
  "node (one_key w n l) = Block [\<lparr>nkey = Some (KInt 1), nval = \<lparr>ctag = DL_INT_L, cval = Word w\<rparr>, nnext = None\<rparr>]"
  "lastfree (one_key w n l) = Some l" "nalloc (one_key w n l) = n"
  "node_at 0 (one_key w n l) = Some \<lparr>nkey = Some (KInt 1), nval = \<lparr>ctag = DL_INT_L, cval = Word w\<rparr>, nnext = None\<rparr>"
  "main_pos (one_key w n l) k = 0"
  by (simp_all add: one_key_def node_at_def) (cases k; simp add: hashnum_def Let_def)

lemma one_key_find: "dl_find_l (one_key w n l) (KInt 8) = Some None"
proof -
  have "hashnum (one_key w n l) 8 = 0" using one_key_simps(8) [of w n l "KInt 8"] by simp
  then show ?thesis by (simp add: dl_find_by_index_def chain_walk.simps same_int_def)
qed

lemma one_key_sizes: "computesizes ((replicate (Suc MAXBITS) 0) [0 := 1, 3 := 1]) (Suc (Suc 0)) = Some (1, 1)"
  by code_simp

lemma one_key_counts:
  "numusearray (one_key w n l) (replicate 27 0) = Some (0, replicate 27 0)"
  "numusehash (one_key w n l) nums = Some (1, 1, nums[0 := nums ! 0 + 1])"
  "countint (Some (KInt 8)) nums = (1, nums[3 := nums ! 3 + 1])"
proof -
  have 1: "ceillog2_of 1 = 0" by (simp add: ceillog2_of_def dl_log2_0)
  have 8: "ceillog2_of 8 = 3" by code_simp
  show "numusehash (one_key w n l) nums = Some (1, 1, nums[0 := nums ! 0 + 1])"
    by (simp add: numusehash_def countint_def 1)
  show "countint (Some (KInt 8)) nums = (1, nums[3 := nums ! 3 + 1])" by (simp add: countint_def 8)
  show "numusearray (one_key w n l) (replicate 27 0) = Some (0, replicate 27 0)"
  proof -
    have "usearray_loop (one_key w n l) (Suc (Suc m)) 0 1 0 nums = Some (0, nums)" if "nums ! 0 = 0" for nums m
      using that list_update_id [of nums 0] by (simp add: count_cells_def upt_rec)
    from this [of "replicate 27 0" 25] show ?thesis by (simp add: numusearray_def)
  qed
qed

text \<open>The rebuilding for the key 8 computes an array part for the key 1, which does not go there, and one node.\<close>

definition emptied :: "u64 \<Rightarrow> nat \<Rightarrow> int \<Rightarrow> table" where
  "emptied w n l = (one_key w n l)\<lparr>nalloc := Suc n, node := Block [fresh_node], lastfree := Some 1, lsizenode := 0\<rparr>"

lemma one_key_resize:
  "dl_rehash no_oom nk (KInt 8) (one_key w n l) = map_option (Pair True)
     (nodes_to_nodes nk [\<lparr>nkey = Some (KInt 1), nval = \<lparr>ctag = DL_INT_L, cval = Word w\<rparr>, nnext = None\<rparr>] (emptied w n l))"
proof -
  have c: "ceillog2_of 1 = 0" by (simp add: ceillog2_of_def dl_log2_0)
  have init: "dl_node_init_l no_oom 1 (one_key w n l) = (True, emptied w n l)"
    by (simp add: dl_node_init_l_def c alloc_def emptied_def)
  have bind: "Option.bind m (\<lambda>t. Some (True, t)) = map_option (Pair True) m" for m :: "table option" by (cases m) simp_all
  have "resize no_oom nk 1 1 (one_key w n l) = map_option (Pair True)
     (nodes_to_nodes nk [\<lparr>nkey = Some (KInt 1), nval = \<lparr>ctag = DL_INT_L, cval = Word w\<rparr>, nnext = None\<rparr>] (emptied w n l))"
    by (simp add: resize_def grow_array_def init bind del: nodes_to_nodes.simps)
  then show ?thesis using one_key_sizes by (simp add: dl_rehash_def one_key_counts del: nodes_to_nodes.simps)
qed

lemma one_key_rehash:
  "dl_rehash no_oom (dl_newkey_l no_oom 0) (KInt 8) (one_key w n l) = None"
  "dl_rehash no_oom (dl_newkey_l no_oom (Suc d)) (KInt 8) (one_key w n l) = Some (True, one_key w (Suc n) 1)"
proof -
  let ?t = "emptied w n l"
  have mp: "main_pos ?t k = 0" for k by (cases k) (simp_all add: emptied_def hashnum_def Let_def)
  then have "hashnum ?t 1 = 0" by (metis main_pos.simps(1))
  then have find: "dl_find_l ?t (KInt 1) = Some None"
    by (simp add: dl_find_by_index_def chain_walk.simps node_at_def fresh_node_def same_int_def emptied_def)
  then show "dl_rehash no_oom (dl_newkey_l no_oom 0) (KInt 8) (one_key w n l) = None"
    by (simp add: one_key_resize dl_set_l_def del: dl_find_l.simps)
  have new: "dl_newkey_l no_oom (Suc d) (KInt 1) ?t = Some (Some (In_node 0), ?t\<lparr>node := Block [fresh_node\<lparr>nkey := Some (KInt 1)\<rparr>]\<rparr>)"
    using mp by (simp add: dl_newkey_l.simps emptied_def node_at_def fresh_node_def fill_key_def upd_node_def del: main_pos.simps)
  show "dl_rehash no_oom (dl_newkey_l no_oom (Suc d)) (KInt 8) (one_key w n l) = Some (True, one_key w (Suc n) 1)"
    using find new
    by (simp add: one_key_resize dl_set_l_def store_at_def upd_node_def fresh_node_def del: dl_find_l.simps)
      (simp add: emptied_def one_key_def)
qed

lemma one_key_newkey: "dl_newkey_l no_oom d (KInt 8) (one_key w n 1) = None"
proof (induction d arbitrary: n)
  case (Suc d)
  have free: "getfreepos (one_key w n 1) = Some (None, one_key w n (- 1))"
    by (simp add: getfreepos_def free_loop.simps) (simp add: one_key_def)
  have "dl_newkey_l no_oom (Suc d) (KInt 8) (one_key w n 1) =
    do { (done, t) \<leftarrow> dl_rehash no_oom (dl_newkey_l no_oom d) (KInt 8) (one_key w n (- 1));
         if \<not> done then Some (None, t) else dl_set_l (dl_newkey_l no_oom d) (KInt 8) t }"
    by (simp add: dl_newkey_l.simps(2) free del: main_pos.simps)
  also have "\<dots> = None"
    using Suc.IH [of "Suc n"] one_key_find [of w "Suc n" 1]
    by (cases d) (simp_all add: one_key_rehash dl_set_l_def del: dl_find_l.simps)
  finally show ?case .
qed simp

text \<open>C25: two small integers take the default table down. In the table \<^verbatim>\<open>dl_table_new(log, 0, 0)\<close> the key 1 is set
  with \<^verbatim>\<open>DL_OK\<close>; setting the key 8 then never returns, with all the memory in the world: for every depth of the
  recursion between \<^verbatim>\<open>dl_newkey_l\<close> and \<^verbatim>\<open>dl_rehash\<close> the rebuilt table is full again in the same state, because
  the counting takes the key \<open>i\<close> for the cell \<open>i - 1\<close> while the array part serves the keys from 0.\<close>

theorem table_rebuild_diverges:
  "\<exists>t t1. dl_table_new no_oom 0 0 = Some (Some t) \<and> dl_array_set_int_l no_oom 2 t 1 w = Some (DL_OK, t1)
    \<and> (\<forall>d v. dl_array_set_int_l no_oom d t1 8 v = None)"
proof -
  let ?t = "\<lparr>lsizenode = 0, sizearray = 0, arr = [], ablock = 0, node = Dummy, lastfree = None, handled = [], nalloc = 1\<rparr>"
  have "dl_table_new no_oom 0 0 = Some (Some ?t)"
    by (simp add: dl_table_new_def dl_table_init_def dl_array_init_l_def dl_node_init_l_def)
  moreover have "dl_array_set_int_l no_oom 2 ?t 1 w = Some (DL_OK, one_key w 3 1)"
    unfolding one_key_def by code_simp
  moreover have "dl_array_set_int_l no_oom d (one_key w 3 1) 8 v = None" for d v
    using one_key_find [of w 3 1] one_key_newkey [of d w 3] by (simp add: dl_array_set_int_l_def dl_array_set_def)
  ultimately show ?thesis by blast
qed

section \<open>The array part\<close>

definition indexed :: "table \<Rightarrow> int \<Rightarrow> bool" where
  "indexed t n \<longleftrightarrow> 0 \<le> n \<and> n < sizearray t \<and> sizearray t \<le> int (length (arr t)) \<and> cell_ok (arr t ! nat n)"

lemma indexed_less: "indexed t n \<Longrightarrow> nat n < length (arr t)"
  by (auto simp: indexed_def nat_less_iff)

lemma array_get: "indexed t n \<Longrightarrow> get_value t (KInt n) = Some (Some (arr t ! nat n))"
  using indexed_less by (simp add: indexed_def get_value_def dl_find_by_index_def)

lemma array_set:
  assumes "indexed t n" "(case v of VPtr w \<Rightarrow> cval (arr t ! nat n) \<noteq> Dangling | _ \<Rightarrow> True)"
  shows "set_value no_oom d (KInt n) v t = Some (DL_OK, if kept (Some (arr t ! nat n)) v then t
    else t\<lparr>arr := (arr t)[nat n := cell_of v], handled := handed (arr t ! nat n) @ handled t,
          nalloc := nalloc t + (case v of VText s \<Rightarrow> 2 | _ \<Rightarrow> 0)\<rparr>)"
proof -
  let ?c = "arr t ! nat n"
  have n: "dl_find_l t (KInt n) = Some (Some (In_array (nat n)))" "nat n < length (arr t)" "cell_ok ?c"
    using assms(1) indexed_less [OF assms(1)] by (simp_all add: indexed_def dl_find_by_index_def)
  have h: "holds_word (Some (In_array (nat n))) w t = Some (kept (Some ?c) v)" if "v = VPtr w" for w
    using n assms(2) that by (simp add: holds_word_def kept_def)
  have a: "acquire no_oom d (KInt n) (Some (In_array (nat n))) t = Some (Some (In_array (nat n)), t\<lparr>handled := handed ?c @ handled t\<rparr>)"
    using n by (simp add: acquire_def dl_array_set_def drop_value_spec)
  show ?thesis
    using n(1,2) h a
    by (cases v) (auto simp: set_value_shape kept_def dl_array_set_int_def dl_array_set_void_def dl_array_set_str_def alloc_def
      simp del: dl_find_l.simps)
qed

lemma array_del:
  assumes "indexed t n"
  shows "del_key (KInt n) t = Some (t\<lparr>arr := (arr t)[nat n :=
      \<lparr>ctag = DL_NIL_L, cval = (if ctag (arr t ! nat n) = DL_STR_L then Dangling else cval (arr t ! nat n))\<rparr>],
    handled := handed (arr t ! nat n) @ handled t\<rparr>)"
  using assms indexed_less [OF assms] by (simp add: indexed_def dl_del_key_index_l_def dl_find_by_index_def dl_reset_v_l_def drop_value_spec)

lemma array_set_dangling:
  assumes "indexed t n" "cval (arr t ! nat n) = Dangling"
  shows "set_value no_oom d (KInt n) (VPtr w) t = None"
  using assms indexed_less [OF assms(1)] by (simp add: indexed_def dl_array_set_void_l_def dl_find_by_index_def holds_word_def)

text \<open>C24: an index below the size of the array part is served there, at once, by the depth 0 of the recursion:
  searching gives its cell, setting replaces it, unless a pointer is set whose bits the cell already has,
  deleting clears its tag; the old pointer goes to the handler, the other cells and the nodes stay as they are. The
  setting of a pointer where a string was deleted has no defined outcome: the code compares it with the pointer to
  the freed string, whose address the client's pointer may have got.\<close>

theorem table_array_part:
  assumes "indexed t n"
  shows "get_value t (KInt n) = Some (Some (arr t ! nat n))
    \<and> set_value no_oom 0 (KInt n) v t =
        (if (\<exists>w. v = VPtr w) \<and> cval (arr t ! nat n) = Dangling then None
         else Some (DL_OK, if kept (Some (arr t ! nat n)) v then t
           else t\<lparr>arr := (arr t)[nat n := cell_of v], handled := handed (arr t ! nat n) @ handled t,
                 nalloc := nalloc t + (case v of VText s \<Rightarrow> 2 | _ \<Rightarrow> 0)\<rparr>))
    \<and> del_key (KInt n) t = Some (t\<lparr>arr := (arr t)[nat n :=
          \<lparr>ctag = DL_NIL_L, cval = (if ctag (arr t ! nat n) = DL_STR_L then Dangling else cval (arr t ! nat n))\<rparr>],
        handled := handed (arr t ! nat n) @ handled t\<rparr>)"
proof -
  have "set_value no_oom 0 (KInt n) v t = None" if "(\<exists>w. v = VPtr w) \<and> cval (arr t ! nat n) = Dangling"
    using that array_set_dangling [OF assms] by auto
  moreover have "case v of VPtr w \<Rightarrow> cval (arr t ! nat n) \<noteq> Dangling | _ \<Rightarrow> True"
    if "\<not> ((\<exists>w. v = VPtr w) \<and> cval (arr t ! nat n) = Dangling)"
    using that by (cases v) simp_all
  ultimately show ?thesis using array_get [OF assms] array_set [OF assms] array_del [OF assms] by simp
qed

definition one_cell :: "cell \<Rightarrow> table" where
  "one_cell c = \<lparr>lsizenode = 0, sizearray = 1, arr = [c], ablock = 2, node = Dummy, lastfree = None, handled = [], nalloc = 2\<rparr>"

theorem table_array_part_witness:
  "get_value (one_cell (cell_of (VPtr 9))) (KInt 0) = Some (Some (cell_of (VPtr 9)))
    \<and> set_value no_oom 0 (KInt 0) (VInt 4) (one_cell (cell_of (VPtr 9))) = Some (DL_OK, (one_cell (cell_of (VInt 4)))\<lparr>handled := [9]\<rparr>)
    \<and> del_key (KInt 0) (one_cell (cell_of (VText [65]))) = Some (one_cell \<lparr>ctag = DL_NIL_L, cval = Dangling\<rparr>)
    \<and> set_value no_oom 0 (KInt 0) (VPtr 9) (one_cell \<lparr>ctag = DL_NIL_L, cval = Dangling\<rparr>) = None"
  using table_array_part [of "one_cell (cell_of (VPtr 9))" 0 "VInt 4"]
    table_array_part [of "one_cell (cell_of (VText [65]))" 0 "VInt 4"]
    table_array_part [of "one_cell \<lparr>ctag = DL_NIL_L, cval = Dangling\<rparr>" 0 "VPtr 9"]
  by (simp add: indexed_def one_cell_def cell_ok_def kept_def handed_def)

text \<open>C39: a pointer that was deleted from the array part cannot be set there again. The deletion hands the pointer to
  the handler and clears the tag only; \<^verbatim>\<open>dl_array_set_void_l\<close> compares the bits, returns \<^verbatim>\<open>DL_OK\<close> and changes nothing,
  so the key stays empty.\<close>

theorem table_pointer_dropped:
  assumes "0 \<le> n" "n < sizearray t" "sizearray t \<le> int (length (arr t))" "arr t ! nat n = \<lparr>ctag = DL_VOID_L, cval = Word w\<rparr>"
  shows "\<exists>t'. dl_del_key_index_l t n = Some t' \<and> handled t' = w # handled t
    \<and> dl_array_set_void_l no_oom d t' n w = Some (DL_OK, t') \<and> get_value t' (KInt n) = Some (Some \<lparr>ctag = DL_NIL_L, cval = Word w\<rparr>)"
proof -
  have I: "indexed t n" using assms by (simp add: indexed_def cell_ok_def)
  let ?t = "t\<lparr>arr := (arr t)[nat n := \<lparr>ctag = DL_NIL_L, cval = Word w\<rparr>], handled := w # handled t\<rparr>"
  have "del_key (KInt n) t = Some ?t" using array_del [OF I] assms(4) by (simp add: handed_def)
  moreover have at: "arr ?t ! nat n = \<lparr>ctag = DL_NIL_L, cval = Word w\<rparr>" using assms by simp
  moreover have "indexed ?t n" using assms by (simp add: indexed_def cell_ok_def)
  ultimately show ?thesis
    using array_set [of ?t n "VPtr w" d] array_get [of ?t n] by (intro exI [of _ ?t]) (simp add: kept_def)
qed

theorem table_pointer_dropped_witness:
  "\<exists>t'. dl_del_key_index_l (one_cell (cell_of (VPtr 9))) 0 = Some t' \<and> handled t' = [9]
    \<and> dl_array_set_void_l no_oom 2 t' 0 9 = Some (DL_OK, t') \<and> get_value t' (KInt 0) = Some (Some \<lparr>ctag = DL_NIL_L, cval = Word 9\<rparr>)"
  using table_pointer_dropped [of 0 "one_cell (cell_of (VPtr 9))" 9 2] by (simp add: one_cell_def)

section \<open>A failed allocation\<close>

lemma full_rehash_oom:
  assumes I: "tab_inv K t" and K: "hashed K" "k \<in> K" and f: "fits t" and ok: "\<not> ok (nalloc t)"
  shows "\<exists>t'. dl_rehash ok nk k (t\<lparr>lastfree := l\<rparr>) = Some (False, t') \<and> node t' = Null \<and> sizearray t' = 0"
proof -
  have T: "tab_ok K t" and z: "sizearray t = 0" using I by (simp_all add: tab_inv_def)
  from rehash_is_resize [where ok = ok and l = l, OF T K z f] obtain x where x: "1 \<le> x" "x \<le> 2 ^ MAXBITS"
    "dl_rehash ok nk k (t\<lparr>lastfree := l\<rparr>) = resize ok nk 0 (int x) (t\<lparr>lastfree := l\<rparr>)" by blast
  obtain b where "ceillog2_of (int x) = int b" "b \<le> MAXBITS" using ceillog2_of_spec [OF x(1,2)] by blast
  then show ?thesis using x ok z by (simp add: resize_def grow_array_def dl_node_init_l_def alloc_def)
qed

text \<open>C40: a rebuilding that gets no memory leaves the table unusable. When all nodes are used and the allocation of the
  new ones fails, the setting of a new string key returns \<^verbatim>\<open>DL_ERROR\<close>, but \<^verbatim>\<open>t->node\<close> is \<^verbatim>\<open>NULL\<close> already: every
  later search dereferences it, and the old nodes are lost.\<close>

theorem table_oom_loses_nodes:
  assumes I: "tab_inv K t" and K: "keys_fit K" "hashed K" "KStr s \<in> K" and full: "node t = Block ns" "\<forall>n \<in> set ns. nkey n \<noteq> None"
    and new: "get_value t (KStr s) = Some None" and few: "card (dom (tab_map t)) < 2 ^ 26"
    and mem: "ok (nalloc t)" "ok (nalloc t + 1)" "\<not> ok (nalloc t + 2)"
  shows "\<exists>t'. dl_node_set_int_l ok (Suc d) t s w = Some (DL_ERROR, t') \<and> (\<forall>k. dl_find_l t' k = None)"
proof -
  have T: "tab_ok K t" and z: "sizearray t = 0" using I by (simp_all add: tab_inv_def)
  let ?u = "t\<lparr>nalloc := nalloc t + 2\<rparr>"
  have U: "tab_inv K ?u" "fits ?u" using I few by (simp_all add: tab_inv_def fits_def nalloc_irrelevant tab_map_nodes)
  have mp: "main_pos ?u (KStr s) < length ns" using T full main_pos_less [of t "KStr s"] main_pos_cong [of ?u t "KStr s"]
    by (simp add: tab_ok_def nodes_ok_def)
  obtain ch l where C: "chains (main_pos t) ns ch" and l: "lastfree t = Some l" "l \<le> int (length ns)"
    "\<forall>i < length ns. l \<le> int i \<longrightarrow> nkey (ns ! i) \<noteq> None"
    using T full(1) by (auto simp: tab_ok_def nodes_ok_def)
  have used: "ctag (nval (ns ! main_pos ?u (KStr s))) \<noteq> DL_NIL_L" using chainsD(7) [OF C mp] full(2) mp by auto
  have u: "node ?u = Block ns" "lastfree ?u = Some l" using full(1) l(1) by simp_all
  obtain l' where l': "getfreepos ?u = Some (None, ?u\<lparr>lastfree := Some l'\<rparr>)"
    using getfreepos_spec [OF u l(2,3)] full(2) unfolding all_set_conv_all_nth by blast
  obtain t' where t': "dl_rehash ok (dl_newkey_l ok d) (KStr s) (?u\<lparr>lastfree := Some l'\<rparr>) = Some (False, t')" "node t' = Null" "sizearray t' = 0"
    using full_rehash_oom [where ok = ok and l = "Some l'", OF U(1) K(2,3) U(2)] mem by auto
  have "dl_newkey_l ok (Suc d) (KStr s) ?u = Some (None, t')"
    using used l' t'(1) node_at_Block [OF u(1) mp] by (simp add: dl_newkey_l.simps(2) del: main_pos.simps)
  moreover have "dl_find_l t (KStr s) = Some None"
    using new get_value_spec [OF I K(1,3)] dl_find_spec [OF T K(1,3)] by (auto simp: get_value_def node_at_def split: option.splits)
  ultimately have "dl_node_set_int_l ok (Suc d) t s w = Some (DL_ERROR, t')"
    using mem by (simp add: dl_node_set_int_l_def dl_node_set_def alloc_def)
  moreover have "dl_find_l t' k = None" for k
    using t'(2,3) by (cases k) (auto simp: dl_find_by_index_def dl_find_by_str_def chain_walk.simps node_at_def)
  ultimately show ?thesis by blast
qed

definition full_table :: table where
  "full_table = \<lparr>lsizenode = 0, sizearray = 0, arr = [], ablock = 0,
     node = Block [\<lparr>nkey = Some (KStr [97]), nval = cell_of (VInt 1), nnext = None\<rparr>], lastfree = Some 1, handled = [], nalloc = 4\<rparr>"

lemma full_table_inv: "tab_inv (string_keys 1) full_table"
proof -
  let ?ns = "[\<lparr>nkey = Some (KStr [97]), nval = cell_of (VInt 1), nnext = None\<rparr>]"
  have mp: "main_pos full_table = (\<lambda>k. 0)" by (rule ext) (use main_pos_less [of full_table] in \<open>simp add: full_table_def\<close>)
  have "chains (main_pos full_table) ?ns (\<lambda>p. if p = 0 then [0] else [])" by (auto simp: chains_def mp)
  then have "nodes_ok (string_keys 1) full_table ?ns"
    unfolding nodes_ok_def by (auto simp: full_table_def string_keys_def is_index_def)
  then show ?thesis by (auto simp: tab_inv_def tab_ok_def full_table_def used_nodes_def node_map_Cons node_map_Nil cell_ok_def split: if_splits)
qed

theorem table_oom_loses_nodes_witness:
  "\<exists>t'. dl_node_set_int_l (\<lambda>n. n \<noteq> 6) 2 full_table [98] 3 = Some (DL_ERROR, t') \<and> dl_find_l t' (KStr [97]) = None"
proof -
  have m: "tab_map full_table = [KStr [97] \<mapsto> cell_of (VInt 1)]"
    by (rule ext) (simp add: tab_map_nodes full_table_def used_nodes_def node_map_Cons node_map_Nil)
  have "get_value full_table (KStr [98]) = Some None"
    by (subst get_value_spec [OF full_table_inv string_keys_fit(1)]) (simp_all add: string_keys_def m)
  note empty = this
  have "\<exists>t'. dl_node_set_int_l (\<lambda>n. n \<noteq> 6) (Suc 1) full_table [98] 3 = Some (DL_ERROR, t') \<and> (\<forall>k. dl_find_l t' k = None)"
  proof (rule table_oom_loses_nodes [OF full_table_inv string_keys_fit])
    show "node full_table = Block [\<lparr>nkey = Some (KStr [97]), nval = cell_of (VInt 1), nnext = None\<rparr>]" by (simp add: full_table_def)
    show "\<forall>n \<in> set [\<lparr>nkey = Some (KStr [97]), nval = cell_of (VInt 1), nnext = None\<rparr>]. nkey n \<noteq> None" by simp
    show "get_value full_table (KStr [98]) = Some None" by (rule empty)
    show "card (dom (tab_map full_table)) < 2 ^ 26" by (simp add: m)
  qed (simp_all add: string_keys_def full_table_def)
  then show ?thesis unfolding numeral_2_eq_2 One_nat_def by blast
qed

section \<open>Strings of different length\<close>

text \<open>The length of the stored key is not compared: in a table with one node every prefix of its key is found.\<close>

lemma table_prefix_found:
  assumes "node t = Block [n]" "lsizenode t = 0" "nkey n = Some (KStr (s @ z))"
  shows "dl_find_by_str t s = Some (Some (In_node 0))"
  using assms by (simp add: dl_find_by_str_def chain_walk.simps node_at_def)

end
