(* ===== verification/Spec2Isabelle.thy ===== *)
theory Spec2Isabelle
  imports Dl_Base64 Dl_Escape Dl_Number Dl_Search Dl_Utf8 Dl_Queue Dl_Fifo Dl_Hash Dl_Phash Dl_Bstree_Refine
    Dl_Rbtree_Refine Dl_Pool_Safety Dl_List_Refine Dl_Printf_Props Dl_Slab_Init
    Dl_Table_Props
begin

text \<open>
  A verification library of \<^verbatim>\<open>dlbase\<close>, a C library of containers, string functions and allocators in the
  manner of nginx and Lua. Every definition is a translation of the functions in \<^verbatim>\<open>src/\<close> it is named
  after; the theorems state what these functions promise to their callers, or where they break the promise.

  \<^bold>\<open>The program and the theories.\<close> The containers and allocators are independent of one another except for
  the memory pool, on which the array, the list and the pool hash are built, and for the hash function of
  \<^verbatim>\<open>dl_hash.c\<close>, which the pool hash shares. The string functions use only each other.

  \<^item> \<open>Dl_Prelude\<close>: machine words, return codes of \<^verbatim>\<open>dl_base.h\<close>, lemmas on words and lists.
  \<^item> \<open>Dl_Base64\<close>, \<open>Dl_Escape\<close>, \<open>Dl_Number\<close>, \<open>Dl_Search\<close>, \<open>Dl_Utf8\<close>, \<open>Dl_Printf\<close>: the parts of
    \<^verbatim>\<open>dl_string.c\<close>. A buffer is a list of bytes; a pointer into a string is the rest of the string from
    there on; a read behind the end of a buffer is undefined (\<open>None\<close>). \<open>Dl_Printf\<close> is the format
    interpreter \<^verbatim>\<open>dl_vslprintf\<close> with typed variadic arguments; the arithmetic of \<^verbatim>\<open>double\<close> is a parameter, and
    its conversions to 64-bit integers are undefined (\<open>None\<close>) out of range, as in C.
  \<^item> \<open>Dl_Queue\<close>: the circular list of \<^verbatim>\<open>dl_queue.c\<close> as stores on a heap of links, and its sorting.
  \<^item> \<open>Dl_Fifo\<close>: the ring buffer of \<^verbatim>\<open>dl_fifo.c\<close> with counters that wrap at 32 bits, and the integer
    logarithm of \<^verbatim>\<open>dl_table.c\<close> its size is rounded with.
  \<^item> \<open>Dl_Hash\<close>, \<open>Dl_Phash\<close>: the chained hash tables of \<^verbatim>\<open>dl_hash.c\<close> and \<^verbatim>\<open>dl_phash.c\<close>; a slot is the list
    of its nodes. A call that fails in the middle returns the table it leaves, with the half-filled node or
    value in it (\<open>hcell\<close>); what later calls read of it is undefined where C reads a \<^verbatim>\<open>NULL\<close>, freed or
    uninitialised pointer. The element count \<^verbatim>\<open>el_sum\<close>, an \<^verbatim>\<open>int\<close> in C, is an integer: the model is that of
    runs of less than \<open>2 ^ 31\<close> insertions.
  \<^item> \<open>Dl_Bstree\<close>, \<open>Dl_Rbtree\<close>: the AVL tree of \<^verbatim>\<open>dl_bstree.c\<close> and the red-black tree of \<^verbatim>\<open>dl_rbtree.c\<close> on a
    heap of nodes with parent pointers. \<open>Dl_Avl\<close> is the functional reference of the former;
    \<open>Dl_Bstree_Refine\<close> and \<open>Dl_Rbtree_Refine\<close> connect the heaps with trees of addresses, the parent pointer of
    the root included (\<open>rooted\<close>).
  \<^item> \<open>Dl_Pool\<close>, \<open>Dl_Pool_Safety\<close>: the memory pool of \<^verbatim>\<open>dl_pool.c\<close> over a heap of live blocks.
  \<^item> \<open>Dl_Array\<close>, \<open>Dl_Array_Refine\<close>, \<open>Dl_List_Refine\<close>: \<^verbatim>\<open>dl_array.c\<close> and \<^verbatim>\<open>dl_list.c\<close> on the pool, with the
    contents of memory, and the interface \<open>sequence\<close> both are shown to implement.
  \<^item> \<open>Dl_Slab\<close>, \<open>Dl_Slab_Pages\<close>, \<open>Dl_Slab_Release\<close>, \<open>Dl_Slab_Props\<close>, \<open>Dl_Slab_Init\<close>: the slab allocator of
    \<^verbatim>\<open>dl_shm.c\<close>. The first is the model of the whole allocator, with the page records, the rings of the
    size classes and the bitmaps; the others are about its pages: their division into runs, the
    interface \<open>page_source\<close> and its interpretation, large requests, and initialisation (for page sizes of at
    least the smallest piece, 8 bytes).

  \<^item> \<open>Dl_Table\<close>, \<open>Dl_Table_Chains\<close>, \<open>Dl_Table_Refine\<close>, \<open>Dl_Table_Rebuild\<close>, \<open>Dl_Table_Map\<close>, \<open>Dl_Table_Props\<close>: the
    table of \<^verbatim>\<open>dl_table.c\<close>. The first is the model, with an array part and chained nodes; the others are
    about the list of nodes as chains, searching and insertion, rebuilding, deletion, and the interface
    \<open>keyed_store\<close> with the properties. The union of a cell keeps the pointer to a string that was freed
    (\<open>Dangling\<close>); comparing a client's pointer with it is undefined.

  \<^bold>\<open>Conventions.\<close> Words of the C types wrap as they do in C; \<^verbatim>\<open>int\<close> counters that cannot overflow under the
  stated hypotheses are integers. \<open>None\<close> as the outer result of a definition in the option type is
  undefined behaviour or a loop that does not end (\<open>partial_function (option)\<close>); a \<^verbatim>\<open>NULL\<close> or \<^verbatim>\<open>DL_ERROR\<close>
  return is a value inside it. Outcomes of \<^verbatim>\<open>malloc\<close> are arguments: a function of the number of the call, or
  of the state of the heap. Callbacks (comparison, handlers) are functions or a log of the calls.

  \<^bold>\<open>What is shown.\<close> Round trips of the codecs; the specification of search,
  split, replacement and number conversion; the format interpreter is bounded by the buffer, and free of undefined
  behaviour on arguments of the types the format asks for, floating point values in the range of the integers
  they are converted to. The queue, the fifo, the hash tables, the trees, the array and the list refine lists and maps.
  The trees keep the search order and their balance invariants and iterate in order. The pool hands out live,
  disjoint, aligned memory for every sequence of requests and frees each block once. The slab divides its
  pages into runs that are kept true to the records by allocation and release, serves large requests inside the
  mapping and refuses addresses it did not hand out. The table refines a map, without failing allocations, when
  its string keys all have one length and its integer keys either are outside of 1 to \<open>2 ^ 26\<close> or find a node each
  without a rebuilding; with other integers the rebuilding may never end, with strings of different length a prefix
  is taken for the key, and both is shown as well. (The run of \<^verbatim>\<open>src/example/table.c\<close>, with strings of different length and
  an array part that grows, is therefore not among those the map is proved for.) Results of kind \<^emph>\<open>error\<close> give inputs on which a function
  reads or writes outside of its object, loops, or loses data; the manifest lists them as findings.

  \<^bold>\<open>Bounds.\<close> Recursions that follow the data are structural or have a measure. Loops over linked
  structures on a heap are \<open>partial_function (option)\<close>, and the theorems show that they return on every heap
  that represents a structure. No result depends on an amount of fuel. The
  recursion of the table between \<^verbatim>\<open>dl_newkey_l\<close> and \<^verbatim>\<open>dl_rehash\<close> has its depth as an argument: depth 2 is
  enough for the tables that refine a map, and the one that diverges does so at every depth.

  \<^bold>\<open>Not modelled.\<close> \<^verbatim>\<open>dl_log.c\<close> and \<^verbatim>\<open>dl_time.c\<close> write files and read the clock; \<^verbatim>\<open>dl_re.c\<close> wraps PCRE2, the two
  files of \<^verbatim>\<open>crypt\<close> wrap OpenSSL; \<^verbatim>\<open>json/dl_json.c\<close> is the third-party parser MJSON; \<^verbatim>\<open>dl_shm_create\<close> and
  \<^verbatim>\<open>dl_shm_init\<close> open and map a file. The invariant of the rings and bitmaps of the slab's size classes is not
  stated: the small requests are modelled, and not yet proved correct.
\<close>

end
